(* ===== verification/Prelude.thy ===== *)
theory Prelude
  imports Main "HOL-Library.Word"
begin

text \<open>
  Shared vocabulary of the development: the collections that carry its automation, the
  value of a bit list (least significant bit first, the order in which the bit-blaster
  keeps the bits of a term), two's complement readings of a natural number at a given
  width, and generic lemmas on lists.
\<close>

named_theorems wf_simps \<open>well-sortedness of the terms the code builds\<close>
named_theorems eval_simps \<open>meaning of the terms the code builds\<close>
named_theorems gate_simps \<open>contracts of the gate constructors\<close>

section \<open>The value of a bit list\<close>

abbreviation bits_val :: "bool list \<Rightarrow> nat" where
  "bits_val bs \<equiv> horner_sum of_bool 2 bs"

lemma bits_val_less [simp]: "bits_val bs < 2 ^ length bs"
  using horner_sum_of_bool_2_less [of bs, where ?'a = nat] by simp

lemma bits_val_map_less [simp]: "bits_val (map f xs) < 2 ^ length xs"
  using bits_val_less [of "map f xs"] by simp

lemma bits_val_append: "bits_val (xs @ ys) = bits_val xs + 2 ^ length xs * bits_val ys"
  by (rule horner_sum_append)

lemma bits_val_replicate_False [simp]: "bits_val (replicate n False) = 0"
  by (induction n) auto

lemma bits_val_replicate_True: "bits_val (replicate n True) = 2 ^ n - 1"
proof -
  have "bits_val (replicate n True) + 1 = 2 ^ n"
    by (induction n) auto
  then show ?thesis by simp
qed

lemma bits_val_eq_iff: "length xs = length ys \<Longrightarrow> bits_val xs = bits_val ys \<longleftrightarrow> xs = ys"
proof (induction xs ys rule: list_induct2)
  case Nil
  then show ?case by simp
next
  case (Cons x xs y ys)
  then show ?case by (cases x; cases y; simp; presburger)
qed

lemma bits_val_eq_0_iff: "bits_val bs = 0 \<longleftrightarrow> (\<forall>b \<in> set bs. \<not> b)"
  by (induction bs) auto

lemma bit_bits_val: "bit (bits_val bs) i \<longleftrightarrow> i < length bs \<and> bs ! i"
  by (simp add: bit_horner_sum_bit_iff)

lemma odd_bits_val_div: "odd (bits_val bs div 2 ^ i) \<longleftrightarrow> i < length bs \<and> bs ! i"
  using bit_bits_val [of bs i] by (simp add: bit_iff_odd)

lemma bits_val_take: "bits_val (take n bs) = bits_val bs mod 2 ^ n"
  using take_bit_horner_sum_bit_eq [of n bs, where ?'a = nat] by (simp add: take_bit_eq_mod)

lemma bits_val_drop: "bits_val (drop n bs) = bits_val bs div 2 ^ n"
proof (cases "n \<le> length bs")
  case True
  have "bits_val bs = bits_val (take n bs) + 2 ^ n * bits_val (drop n bs)"
    using bits_val_append [of "take n bs" "drop n bs"] True by simp
  moreover have "bits_val (take n bs) < 2 ^ n"
    using bits_val_less [of "take n bs"] True by simp
  ultimately show ?thesis by simp
next
  case False
  have "bits_val bs < 2 ^ length bs" by simp
  also have "(2::nat) ^ length bs \<le> 2 ^ n" using False by (intro power_increasing) auto
  finally show ?thesis using False by simp
qed

lemma bits_val_snoc: "bits_val (bs @ [b]) = bits_val bs + of_bool b * 2 ^ length bs"
  by (simp add: bits_val_append)

lemma bits_val_map_odd: "bits_val (map (\<lambda>i. odd (v div 2 ^ i)) [0..<n]) = v mod 2 ^ n" for v :: nat
proof -
  have "map (\<lambda>i. odd (v div 2 ^ i)) [0..<n] = map (bit v) [0..<n]"
    by (simp add: bit_iff_odd)
  then show ?thesis
    unfolding \<open>map (\<lambda>i. odd (v div 2 ^ i)) [0..<n] = map (bit v) [0..<n]\<close>
    using horner_sum_bit_eq_take_bit [of v n] by (simp add: take_bit_eq_mod)
qed

section \<open>Two's complement at a width\<close>

definition to_signed :: "nat \<Rightarrow> nat \<Rightarrow> int" where
  "to_signed w n = (if 2 ^ (w - 1) \<le> n then int n - 2 ^ w else int n)"

definition of_signed :: "nat \<Rightarrow> int \<Rightarrow> nat" where
  "of_signed w z = nat (z mod 2 ^ w)"

lemma of_signed_less [simp]: "of_signed w z < 2 ^ w"
proof -
  have "z mod 2 ^ w < 2 ^ w" by simp
  then show ?thesis
    unfolding of_signed_def by (simp add: nat_less_iff)
qed

lemma of_signed_of_nat: "of_signed w (int n) = n mod 2 ^ w"
proof -
  have "int n mod 2 ^ w = int (n mod 2 ^ w)" by (simp add: zmod_int)
  then show ?thesis by (simp only: of_signed_def nat_int)
qed

lemma of_signed_to_signed: "n < 2 ^ w \<Longrightarrow> of_signed w (to_signed w n) = n"
  using of_signed_of_nat [of w n] by (simp add: to_signed_def of_signed_def)

lemma of_signed_cong: "y mod 2 ^ w = z mod 2 ^ w \<Longrightarrow> of_signed w y = of_signed w z"
  by (simp add: of_signed_def)

lemma to_signed_bounds:
  assumes "n < 2 ^ w" "0 < w"
  shows "- (2 ^ (w - 1)) \<le> to_signed w n \<and> to_signed w n < 2 ^ (w - 1)"
proof -
  obtain k where w: "w = Suc k" using assms(2) by (cases w) auto
  have "int n < 2 ^ Suc k" using assms(1) w by (metis of_nat_less_iff of_nat_numeral of_nat_power)
  moreover have "2 ^ k \<le> n \<longleftrightarrow> (2::int) ^ k \<le> int n"
    by (metis of_nat_le_iff of_nat_numeral of_nat_power)
  ultimately show ?thesis by (auto simp: to_signed_def w)
qed

section \<open>Arithmetic\<close>

lemma add_mod_inj_nat:
  assumes "a < m" "b < m" "(a + n) mod m = (b + n) mod (m :: nat)"
  shows "a = b"
  using assms
proof (induction a b rule: linorder_wlog)
  case (le a b)
  then have "m dvd (b + n) - (a + n)"
    by (metis add_le_mono1 mod_eq_dvd_iff_nat)
  with le show ?case by (auto dest: dvd_imp_le)
qed simp

section \<open>Lists\<close>

lemma last_conv_nth_minus: "xs \<noteq> [] \<Longrightarrow> xs ! (length xs - 1) = last xs"
  by (simp add: last_conv_nth)

lemma list_all_nth: "list_all P xs \<Longrightarrow> i < length xs \<Longrightarrow> P (xs ! i)"
  by (simp add: list_all_length)

end
