(* ===== verification/Ast.thy ===== *)
theory Ast
  imports Prelude
begin

unbundle bit_operations_syntax

text \<open>
  The terms of the solver (\<open>src/Z3/z3-master/src/ast\<close>): sorts, declarations of the basic
  and of the bit-vector family, applications and bound variables. Nodes are hash-consed in
  the code, so pointer equality of terms is equality here. The theory gives the sort of a
  term, well-sortedness (what \<open>check_args\<close> and the plugins' \<open>mk_func_decl\<close> enforce before a
  node is created), the meaning of a term under an interpretation, the recognizers and
  constructors of \<open>ast_manager\<close>, and the tests \<open>is_value\<close>, \<open>are_equal\<close> and \<open>are_distinct\<close>
  that dispatch to the plugin of the term's family.
\<close>

section \<open>Sorts, declarations and terms\<close>

datatype symbol = Str string | Num nat

datatype srt = Bool_sort | BV_sort nat | User_sort nat

datatype basic_op_kind =
    OP_TRUE | OP_FALSE | OP_EQ | OP_DISTINCT | OP_ITE | OP_AND | OP_OR | OP_XOR | OP_NOT
  | OP_IMPLIES | OP_OEQ

datatype (plugins only: code) bv_op_kind =
    OP_BV_NUM | OP_BIT1 | OP_BIT0 | OP_BNEG | OP_BADD | OP_BSUB | OP_BMUL
  | OP_BSDIV | OP_BUDIV | OP_BSREM | OP_BUREM | OP_BSMOD
  | OP_BSDIV0 | OP_BUDIV0 | OP_BSREM0 | OP_BUREM0 | OP_BSMOD0
  | OP_BSDIV_I | OP_BUDIV_I | OP_BSREM_I | OP_BUREM_I | OP_BSMOD_I
  | OP_ULEQ | OP_SLEQ | OP_UGEQ | OP_SGEQ | OP_ULT | OP_SLT | OP_UGT | OP_SGT
  | OP_BAND | OP_BOR | OP_BNOT | OP_BXOR | OP_BNAND | OP_BNOR | OP_BXNOR
  | OP_CONCAT | OP_SIGN_EXT | OP_ZERO_EXT | OP_EXTRACT | OP_REPEAT
  | OP_BREDOR | OP_BREDAND | OP_BCOMP
  | OP_BSHL | OP_BLSHR | OP_BASHR | OP_ROTATE_LEFT | OP_ROTATE_RIGHT
  | OP_EXT_ROTATE_LEFT | OP_EXT_ROTATE_RIGHT
  | OP_BUMUL_NO_OVFL | OP_BSMUL_NO_OVFL | OP_BSMUL_NO_UDFL
  | OP_BIT2BOOL | OP_MKBV | OP_INT2BV | OP_BV2INT | OP_CARRY | OP_XOR3

text \<open>
  A declaration carries its family: the basic family, the bit-vector family with the integer
  parameters of the declaration, the model values of a sort, or the null family of
  uninterpreted symbols with their domain and range.
\<close>

datatype func_decl =
    Basic basic_op_kind
  | Bv bv_op_kind "nat list"
  | Model_value nat srt
  | Uninterp symbol "srt list" srt

datatype expr = Var nat srt | App func_decl "expr list"

fun get_arg :: "expr \<Rightarrow> nat \<Rightarrow> expr" where
  "get_arg (App d args) i = args ! i"
| "get_arg (Var n s) i = Var n s"

fun get_args :: "expr \<Rightarrow> expr list" where
  "get_args (App d args) = args"
| "get_args (Var n s) = []"

fun get_num_args :: "expr \<Rightarrow> nat" where
  "get_num_args (App d args) = length args"
| "get_num_args (Var n s) = 0"

section \<open>Sorts of terms\<close>

fun bv_width :: "srt \<Rightarrow> nat" where
  "bv_width (BV_sort w) = w"
| "bv_width _ = 0"

text \<open>The range \<open>bv_decl_plugin::mk_func_decl\<close> gives a declaration applied to these sorts.\<close>

definition bv_range :: "bv_op_kind \<Rightarrow> nat list \<Rightarrow> srt list \<Rightarrow> srt" where
  "bv_range k ps ss = (case k of
      OP_BV_NUM \<Rightarrow> BV_sort (ps ! 1)
    | OP_BIT0 \<Rightarrow> BV_sort 1
    | OP_BIT1 \<Rightarrow> BV_sort 1
    | OP_ULEQ \<Rightarrow> Bool_sort
    | OP_SLEQ \<Rightarrow> Bool_sort
    | OP_UGEQ \<Rightarrow> Bool_sort
    | OP_SGEQ \<Rightarrow> Bool_sort
    | OP_ULT \<Rightarrow> Bool_sort
    | OP_SLT \<Rightarrow> Bool_sort
    | OP_UGT \<Rightarrow> Bool_sort
    | OP_SGT \<Rightarrow> Bool_sort
    | OP_BUMUL_NO_OVFL \<Rightarrow> Bool_sort
    | OP_BSMUL_NO_OVFL \<Rightarrow> Bool_sort
    | OP_BSMUL_NO_UDFL \<Rightarrow> Bool_sort
    | OP_BIT2BOOL \<Rightarrow> Bool_sort
    | OP_CARRY \<Rightarrow> Bool_sort
    | OP_XOR3 \<Rightarrow> Bool_sort
    | OP_MKBV \<Rightarrow> BV_sort (length ss)
    | OP_CONCAT \<Rightarrow> BV_sort (sum_list (map bv_width ss))
    | OP_SIGN_EXT \<Rightarrow> BV_sort (bv_width (hd ss) + ps ! 0)
    | OP_ZERO_EXT \<Rightarrow> BV_sort (bv_width (hd ss) + ps ! 0)
    | OP_EXTRACT \<Rightarrow> BV_sort (ps ! 0 - ps ! 1 + 1)
    | OP_REPEAT \<Rightarrow> BV_sort (bv_width (hd ss) * ps ! 0)
    | OP_BREDOR \<Rightarrow> BV_sort 1
    | OP_BREDAND \<Rightarrow> BV_sort 1
    | OP_BCOMP \<Rightarrow> BV_sort 1
    | _ \<Rightarrow> (if ss = [] then Bool_sort else hd ss))"

fun decl_range :: "func_decl \<Rightarrow> srt list \<Rightarrow> srt" where
  "decl_range (Basic OP_ITE) ss = (if length ss = 3 then ss ! 1 else Bool_sort)"
| "decl_range (Basic k) ss = Bool_sort"
| "decl_range (Bv k ps) ss = bv_range k ps ss"
| "decl_range (Model_value n s) ss = s"
| "decl_range (Uninterp f ds r) ss = r"

fun get_sort :: "expr \<Rightarrow> srt" where
  "get_sort (Var i s) = s"
| "get_sort (App d args) = decl_range d (map get_sort args)"

definition m_is_bool :: "expr \<Rightarrow> bool" where
  "m_is_bool e = (get_sort e = Bool_sort)"

fun is_bv_sort :: "srt \<Rightarrow> bool" where
  "is_bv_sort (BV_sort w) = True"
| "is_bv_sort _ = False"

definition is_bv :: "expr \<Rightarrow> bool" where
  "is_bv e = is_bv_sort (get_sort e)"

definition get_bv_size :: "expr \<Rightarrow> nat" where
  "get_bv_size e = bv_width (get_sort e)"

section \<open>Well-sorted terms\<close>

text \<open>
  A sort is legal when a bit-vector sort has a positive width. A declaration accepts a list
  of argument sorts when the plugin of its family creates it without raising an exception.
  The two operations between integers and bit-vectors are excluded: the arithmetic family is
  not part of the model.
\<close>

fun sort_ok :: "srt \<Rightarrow> bool" where
  "sort_ok (BV_sort w) = (0 < w)"
| "sort_ok _ = True"

definition all_same :: "'a list \<Rightarrow> bool" where
  "all_same xs = (\<forall>x \<in> set xs. x = hd xs)"

fun basic_ok :: "basic_op_kind \<Rightarrow> srt list \<Rightarrow> bool" where
  "basic_ok OP_TRUE ss = (ss = [])"
| "basic_ok OP_FALSE ss = (ss = [])"
| "basic_ok OP_EQ ss = (length ss = 2 \<and> ss ! 0 = ss ! 1)"
| "basic_ok OP_OEQ ss = (length ss = 2 \<and> ss ! 0 = ss ! 1)"
| "basic_ok OP_DISTINCT ss = all_same ss"
| "basic_ok OP_ITE ss = (length ss = 3 \<and> ss ! 0 = Bool_sort \<and> ss ! 1 = ss ! 2)"
| "basic_ok OP_AND ss = (\<forall>s \<in> set ss. s = Bool_sort)"
| "basic_ok OP_OR ss = (\<forall>s \<in> set ss. s = Bool_sort)"
| "basic_ok OP_XOR ss = (\<forall>s \<in> set ss. s = Bool_sort)"
| "basic_ok OP_NOT ss = (ss = [Bool_sort])"
| "basic_ok OP_IMPLIES ss = (ss = [Bool_sort, Bool_sort])"

definition same_bv :: "srt list \<Rightarrow> bool" where
  "same_bv ss = (ss \<noteq> [] \<and> is_bv_sort (hd ss) \<and> all_same ss)"

definition bv_ok :: "bv_op_kind \<Rightarrow> nat list \<Rightarrow> srt list \<Rightarrow> bool" where
  "bv_ok k ps ss = (case k of
      OP_BV_NUM \<Rightarrow> (ss = [] \<and> length ps = 2 \<and> 0 < ps ! 1 \<and> ps ! 0 < 2 ^ (ps ! 1))
    | OP_BIT0 \<Rightarrow> (ss = [])
    | OP_BIT1 \<Rightarrow> (ss = [])
    | OP_BADD \<Rightarrow> same_bv ss
    | OP_BMUL \<Rightarrow> same_bv ss
    | OP_BAND \<Rightarrow> same_bv ss
    | OP_BOR \<Rightarrow> same_bv ss
    | OP_BXOR \<Rightarrow> same_bv ss
    | OP_BNEG \<Rightarrow> (same_bv ss \<and> length ss = 1)
    | OP_BNOT \<Rightarrow> (same_bv ss \<and> length ss = 1)
    | OP_BREDOR \<Rightarrow> (same_bv ss \<and> length ss = 1)
    | OP_BREDAND \<Rightarrow> (same_bv ss \<and> length ss = 1)
    | OP_ROTATE_LEFT \<Rightarrow> (same_bv ss \<and> length ss = 1 \<and> length ps = 1)
    | OP_ROTATE_RIGHT \<Rightarrow> (same_bv ss \<and> length ss = 1 \<and> length ps = 1)
    | OP_SIGN_EXT \<Rightarrow> (same_bv ss \<and> length ss = 1 \<and> length ps = 1)
    | OP_ZERO_EXT \<Rightarrow> (same_bv ss \<and> length ss = 1 \<and> length ps = 1)
    | OP_REPEAT \<Rightarrow> (same_bv ss \<and> length ss = 1 \<and> length ps = 1 \<and> 0 < ps ! 0)
    | OP_EXTRACT \<Rightarrow> (same_bv ss \<and> length ss = 1 \<and> length ps = 2
      \<and> ps ! 1 \<le> ps ! 0 \<and> ps ! 0 < bv_width (hd ss))
    | OP_BIT2BOOL \<Rightarrow> (same_bv ss \<and> length ss = 1 \<and> length ps = 1 \<and> ps ! 0 < bv_width (hd ss))
    | OP_CONCAT \<Rightarrow> (ss \<noteq> [] \<and> (\<forall>s \<in> set ss. is_bv_sort s))
    | OP_MKBV \<Rightarrow> (ss \<noteq> [] \<and> (\<forall>s \<in> set ss. s = Bool_sort))
    | OP_XOR3 \<Rightarrow> (ss = [Bool_sort, Bool_sort, Bool_sort])
    | OP_CARRY \<Rightarrow> (ss = [Bool_sort, Bool_sort, Bool_sort])
    | OP_BSDIV0 \<Rightarrow> (same_bv ss \<and> length ss = 1)
    | OP_BUDIV0 \<Rightarrow> (same_bv ss \<and> length ss = 1)
    | OP_BSREM0 \<Rightarrow> (same_bv ss \<and> length ss = 1)
    | OP_BUREM0 \<Rightarrow> (same_bv ss \<and> length ss = 1)
    | OP_BSMOD0 \<Rightarrow> (same_bv ss \<and> length ss = 1)
    | OP_INT2BV \<Rightarrow> False
    | OP_BV2INT \<Rightarrow> False
    | _ \<Rightarrow> (same_bv ss \<and> length ss = 2))"

fun is_user_sort :: "srt \<Rightarrow> bool" where
  "is_user_sort (User_sort k) = True"
| "is_user_sort _ = False"

fun decl_ok :: "func_decl \<Rightarrow> srt list \<Rightarrow> bool" where
  "decl_ok (Basic k) ss = basic_ok k ss"
| "decl_ok (Bv k ps) ss = bv_ok k ps ss"
| "decl_ok (Model_value n s) ss = (ss = [] \<and> is_user_sort s)"
| "decl_ok (Uninterp f ds r) ss = (ss = ds \<and> sort_ok r)"

fun wf :: "expr \<Rightarrow> bool" where
  "wf (Var i s) = sort_ok s"
| "wf (App d args) = (list_all wf args \<and> decl_ok d (map get_sort args))"

definition bexp :: "expr \<Rightarrow> bool" where
  "bexp e = (wf e \<and> get_sort e = Bool_sort)"

end
