(* ===== verification/Semantics.thy ===== *)
theory Semantics
  imports Ast
begin

text \<open>
  The meaning of terms. A value is a truth value, a bit-vector of a width, or an element of
  a user sort. An interpretation gives numbers to the uninterpreted symbols, the bound
  variables and the operations the bit-blaster never sees (they must be simplified first);
  the number is read at the sort of the term, so every interpretation is well-sorted. The
  bit-vector operations have the meaning the SMT-LIB standard gives them, written with
  arithmetic on naturals and integers, independently of the circuits.
\<close>

section \<open>Values and interpretations\<close>

datatype val = VBool bool | VBV nat nat | VUser nat nat

record interp =
  ivar :: "nat \<Rightarrow> srt \<Rightarrow> nat"
  ifun :: "symbol \<Rightarrow> srt list \<Rightarrow> srt \<Rightarrow> val list \<Rightarrow> nat"
  ibv :: "bv_op_kind \<Rightarrow> nat list \<Rightarrow> val list \<Rightarrow> nat"

fun coerce :: "srt \<Rightarrow> nat \<Rightarrow> val" where
  "coerce Bool_sort n = VBool (odd n)"
| "coerce (BV_sort w) n = VBV w (n mod 2 ^ w)"
| "coerce (User_sort k) n = VUser k n"

fun val_sort :: "val \<Rightarrow> srt" where
  "val_sort (VBool b) = Bool_sort"
| "val_sort (VBV w n) = BV_sort w"
| "val_sort (VUser k n) = User_sort k"

fun val_ok :: "val \<Rightarrow> bool" where
  "val_ok (VBV w n) = (n < 2 ^ w)"
| "val_ok _ = True"

fun truth :: "val \<Rightarrow> bool" where
  "truth (VBool b) = b"
| "truth _ = False"

fun bvn :: "val \<Rightarrow> nat" where
  "bvn (VBV w n) = n"
| "bvn _ = 0"

section \<open>The operations\<close>

definition eval_basic :: "basic_op_kind \<Rightarrow> val list \<Rightarrow> val" where
  "eval_basic k vs = (case k of
      OP_TRUE \<Rightarrow> VBool True
    | OP_FALSE \<Rightarrow> VBool False
    | OP_EQ \<Rightarrow> VBool (vs ! 0 = vs ! 1)
    | OP_OEQ \<Rightarrow> VBool (vs ! 0 = vs ! 1)
    | OP_DISTINCT \<Rightarrow> VBool (distinct vs)
    | OP_ITE \<Rightarrow> (if truth (vs ! 0) then vs ! 1 else vs ! 2)
    | OP_AND \<Rightarrow> VBool (list_all truth vs)
    | OP_OR \<Rightarrow> VBool (list_ex truth vs)
    | OP_XOR \<Rightarrow> VBool (odd (length (filter truth vs)))
    | OP_NOT \<Rightarrow> VBool (\<not> truth (vs ! 0))
    | OP_IMPLIES \<Rightarrow> VBool (truth (vs ! 0) \<longrightarrow> truth (vs ! 1)))"

definition udiv :: "nat \<Rightarrow> nat \<Rightarrow> nat \<Rightarrow> nat" where
  "udiv w a b = (if b = 0 then 2 ^ w - 1 else a div b)"

definition sdiv :: "nat \<Rightarrow> nat \<Rightarrow> nat \<Rightarrow> nat" where
  "sdiv w a b = (let x = to_signed w a; y = to_signed w b in
     of_signed w (if y = 0 then (if x < 0 then 1 else -1) else sgn x * sgn y * (\<bar>x\<bar> div \<bar>y\<bar>)))"

definition srem :: "nat \<Rightarrow> nat \<Rightarrow> nat \<Rightarrow> nat" where
  "srem w a b = (let x = to_signed w a; y = to_signed w b in of_signed w (sgn x * (\<bar>x\<bar> mod \<bar>y\<bar>)))"

definition smod :: "nat \<Rightarrow> nat \<Rightarrow> nat \<Rightarrow> nat" where
  "smod w a b = of_signed w (to_signed w a mod to_signed w b)"

definition rotl :: "nat \<Rightarrow> nat \<Rightarrow> nat \<Rightarrow> nat" where
  "rotl w a n = (let k = n mod w in (a * 2 ^ k) mod 2 ^ w + a div 2 ^ (w - k))"

definition rotr :: "nat \<Rightarrow> nat \<Rightarrow> nat \<Rightarrow> nat" where
  "rotr w a n = (let k = n mod w in a div 2 ^ k + (a mod 2 ^ k) * 2 ^ (w - k))"

fun concat_val :: "val list \<Rightarrow> nat" where
  "concat_val [] = 0"
| "concat_val (v # vs) = bvn v * 2 ^ sum_list (map (bv_width \<circ> val_sort) vs) + concat_val vs"

definition eval_bv :: "interp \<Rightarrow> bv_op_kind \<Rightarrow> nat list \<Rightarrow> val list \<Rightarrow> val" where
  "eval_bv I k ps vs =
    (let w = bv_width (val_sort (hd vs)); a = bvn (vs ! 0); b = bvn (vs ! 1)
     in case k of
      OP_BV_NUM \<Rightarrow> VBV (ps ! 1) (ps ! 0)
    | OP_BIT0 \<Rightarrow> VBV 1 0
    | OP_BIT1 \<Rightarrow> VBV 1 1
    | OP_BADD \<Rightarrow> VBV w (sum_list (map bvn vs) mod 2 ^ w)
    | OP_BMUL \<Rightarrow> VBV w (prod_list (map bvn vs) mod 2 ^ w)
    | OP_BOR \<Rightarrow> VBV w (foldr (OR) (map bvn vs) 0)
    | OP_BXOR \<Rightarrow> VBV w (foldr (XOR) (map bvn vs) 0)
    | OP_BNOT \<Rightarrow> VBV w (2 ^ w - 1 - a)
    | OP_BUDIV_I \<Rightarrow> VBV w (udiv w a b)
    | OP_BUREM_I \<Rightarrow> VBV w (a mod b)
    | OP_BSDIV_I \<Rightarrow> VBV w (sdiv w a b)
    | OP_BSREM_I \<Rightarrow> VBV w (srem w a b)
    | OP_BSMOD_I \<Rightarrow> VBV w (smod w a b)
    | OP_ULEQ \<Rightarrow> VBool (a \<le> b)
    | OP_SLEQ \<Rightarrow> VBool (to_signed w a \<le> to_signed w b)
    | OP_CONCAT \<Rightarrow> VBV (sum_list (map (bv_width \<circ> val_sort) vs)) (concat_val vs)
    | OP_SIGN_EXT \<Rightarrow> VBV (w + ps ! 0) (of_signed (w + ps ! 0) (to_signed w a))
    | OP_EXTRACT \<Rightarrow> VBV (ps ! 0 - ps ! 1 + 1) (a div 2 ^ (ps ! 1) mod 2 ^ (ps ! 0 - ps ! 1 + 1))
    | OP_BREDOR \<Rightarrow> VBV 1 (of_bool (a \<noteq> 0))
    | OP_BREDAND \<Rightarrow> VBV 1 (of_bool (a = 2 ^ w - 1))
    | OP_BSHL \<Rightarrow> VBV w (if w \<le> b then 0 else (a * 2 ^ b) mod 2 ^ w)
    | OP_BLSHR \<Rightarrow> VBV w (if w \<le> b then 0 else a div 2 ^ b)
    | OP_BASHR \<Rightarrow> VBV w (of_signed w (to_signed w a div 2 ^ min b w))
    | OP_EXT_ROTATE_LEFT \<Rightarrow> VBV w (rotl w a b)
    | OP_EXT_ROTATE_RIGHT \<Rightarrow> VBV w (rotr w a b)
    | OP_BUMUL_NO_OVFL \<Rightarrow> VBool (a * b < 2 ^ w)
    | OP_BSMUL_NO_OVFL \<Rightarrow> VBool (to_signed w a * to_signed w b < 2 ^ (w - 1))
    | OP_BSMUL_NO_UDFL \<Rightarrow> VBool (- (2 ^ (w - 1)) \<le> to_signed w a * to_signed w b)
    | OP_BIT2BOOL \<Rightarrow> VBool (odd (a div 2 ^ (ps ! 0)))
    | OP_MKBV \<Rightarrow> VBV (length vs) (bits_val (map truth vs))
    | OP_XOR3 \<Rightarrow> VBool (truth (vs ! 0) \<noteq> (truth (vs ! 1) \<noteq> truth (vs ! 2)))
    | OP_CARRY \<Rightarrow> VBool (2 \<le> length (filter truth vs))
    | _ \<Rightarrow> coerce (bv_range k ps (map val_sort vs)) (ibv I k ps vs))"

fun eval_decl :: "interp \<Rightarrow> func_decl \<Rightarrow> val list \<Rightarrow> val" where
  "eval_decl I (Basic k) vs = eval_basic k vs"
| "eval_decl I (Bv k ps) vs = eval_bv I k ps vs"
| "eval_decl I (Model_value n s) vs = coerce s n"
| "eval_decl I (Uninterp f ds r) vs = coerce r (ifun I f ds r vs)"

fun eval :: "interp \<Rightarrow> expr \<Rightarrow> val" where
  "eval I (Var i s) = coerce s (ivar I i s)"
| "eval I (App d args) = eval_decl I d (map (eval I) args)"

text \<open>The truth value of a Boolean term, and the number a list of Boolean terms denotes.\<close>

definition tv :: "interp \<Rightarrow> expr \<Rightarrow> bool" where
  "tv I e = truth (eval I e)"

definition bval :: "interp \<Rightarrow> expr list \<Rightarrow> nat" where
  "bval I es = bits_val (map (tv I) es)"

section \<open>Meanings are well-sorted\<close>

lemma val_sort_coerce [simp]: "val_sort (coerce s n) = s"
  by (cases s) auto

lemma val_ok_coerce [simp]: "val_ok (coerce s n)"
  by (cases s) auto

lemma bool_val: "val_sort v = Bool_sort \<Longrightarrow> v = VBool (truth v)"
  by (cases v) auto

lemma bv_val: "val_sort v = BV_sort w \<Longrightarrow> v = VBV w (bvn v)"
  by (cases v) auto

lemma bvn_less: "val_sort v = BV_sort w \<Longrightarrow> val_ok v \<Longrightarrow> bvn v < 2 ^ w"
  by (cases v) auto

lemma is_bv_sort_iff: "is_bv_sort s \<longleftrightarrow> s = BV_sort (bv_width s)"
  by (cases s) auto

lemma or_less_exp: "x < 2 ^ w \<Longrightarrow> y < 2 ^ w \<Longrightarrow> x OR y < (2::nat) ^ w"
  by (simp flip: take_bit_nat_eq_self_iff)

lemma xor_less_exp: "x < 2 ^ w \<Longrightarrow> y < 2 ^ w \<Longrightarrow> x XOR y < (2::nat) ^ w"
  by (simp flip: take_bit_nat_eq_self_iff)

lemma foldr_or_less: "\<forall>x \<in> set xs. x < 2 ^ w \<Longrightarrow> foldr (OR) xs 0 < (2::nat) ^ w"
  by (induction xs) (auto intro: or_less_exp)

lemma foldr_xor_less: "\<forall>x \<in> set xs. x < 2 ^ w \<Longrightarrow> foldr (XOR) xs 0 < (2::nat) ^ w"
  by (induction xs) (auto intro: xor_less_exp)

lemma concat_val_less:
  "list_all val_ok vs \<Longrightarrow> concat_val vs < 2 ^ sum_list (map (bv_width \<circ> val_sort) vs)"
proof (induction vs)
  case Nil
  then show ?case by simp
next
  case (Cons v vs)
  let ?n = "2 ^ sum_list (map (bv_width \<circ> val_sort) vs) :: nat"
  have "bvn v < 2 ^ bv_width (val_sort v)"
    using Cons.prems by (cases v) auto
  then have "(bvn v + 1) * ?n \<le> 2 ^ bv_width (val_sort v) * ?n"
    by (intro mult_right_mono) auto
  then show ?case using Cons by (simp add: power_add comp_def)
qed

lemma rotl_less: "a < 2 ^ w \<Longrightarrow> rotl w a n < 2 ^ w"
proof (cases "w = 0")
  case True
  assume "a < 2 ^ w"
  with True show ?thesis by (simp add: rotl_def)
next
  case False
  assume "a < 2 ^ w"
  with False have a: "a < 2 ^ w" "0 < w" by simp_all
  define k where "k = n mod w"
  have k: "k < w" using a by (simp add: k_def)
  have "(a * 2 ^ k) mod 2 ^ w = (a mod 2 ^ (w - k)) * 2 ^ k"
  proof -
    have "(2::nat) ^ w = 2 ^ (w - k) * 2 ^ k" using k by (simp flip: power_add)
    then show ?thesis by (simp add: mult_mod_left)
  qed
  moreover have "a mod 2 ^ (w - k) + 1 \<le> 2 ^ (w - k)" by (simp add: Suc_leI)
  then have "(a mod 2 ^ (w - k) + 1) * 2 ^ k \<le> 2 ^ (w - k) * (2::nat) ^ k"
    by (rule mult_right_mono) simp
  moreover have "(2::nat) ^ (w - k) * 2 ^ k = 2 ^ w" using k by (simp flip: power_add)
  moreover have "a div 2 ^ (w - k) < 2 ^ k"
    using a \<open>2 ^ (w - k) * 2 ^ k = (2::nat) ^ w\<close> by (simp add: less_mult_imp_div_less mult.commute)
  ultimately show ?thesis by (simp add: rotl_def k_def [symmetric] Let_def)
qed

lemma rotr_less: "a < 2 ^ w \<Longrightarrow> rotr w a n < 2 ^ w"
proof (cases "w = 0")
  case True
  assume "a < 2 ^ w"
  with True show ?thesis by (simp add: rotr_def)
next
  case False
  assume "a < 2 ^ w"
  with False have a: "a < 2 ^ w" "0 < w" by simp_all
  define k where "k = n mod w"
  have k: "k < w" using a by (simp add: k_def)
  have p: "(2::nat) ^ (w - k) * 2 ^ k = 2 ^ w" using k by (simp flip: power_add)
  have "(a mod 2 ^ k + 1) * 2 ^ (w - k) \<le> 2 ^ k * (2::nat) ^ (w - k)"
    by (intro mult_right_mono) (simp_all add: Suc_leI)
  moreover have "a div 2 ^ k < 2 ^ (w - k)"
    using a p by (simp add: less_mult_imp_div_less)
  ultimately show ?thesis using p by (simp add: rotr_def k_def [symmetric] Let_def mult.commute)
qed

lemma eval_basic_sort:
  assumes "basic_ok k (map val_sort vs)" "list_all val_ok vs"
  shows "val_sort (eval_basic k vs) = decl_range (Basic k) (map val_sort vs) \<and> val_ok (eval_basic k vs)"
proof (cases "k = OP_ITE")
  case True
  with assms have "length vs = 3" "val_ok (vs ! 1)" "val_ok (vs ! 2)"
    "val_sort (vs ! 1) = val_sort (vs ! 2)"
    by (auto simp: list_all_length)
  with True show ?thesis by (simp add: eval_basic_def)
next
  case False
  then show ?thesis by (cases k) (simp_all add: eval_basic_def)
qed

lemma same_bvE:
  assumes "same_bv (map val_sort vs)" "list_all val_ok vs"
  obtains w where "vs \<noteq> []" "val_sort (hd vs) = BV_sort w"
    "\<And>v. v \<in> set vs \<Longrightarrow> val_sort v = BV_sort w \<and> bvn v < 2 ^ w"
proof -
  obtain w where w: "vs \<noteq> []" "val_sort (hd vs) = BV_sort w"
    using assms(1) by (cases vs) (auto simp: same_bv_def is_bv_sort_iff)
  have "val_sort v = BV_sort w \<and> bvn v < 2 ^ w" if v: "v \<in> set vs" for v
  proof -
    have "val_sort v \<in> set (map val_sort vs)" using v by simp
    then have "val_sort v = hd (map val_sort vs)"
      using assms(1) unfolding same_bv_def all_same_def by blast
    moreover have "val_ok v" using assms(2) v by (auto simp: list_all_iff)
    ultimately show ?thesis using w by (simp add: hd_map bvn_less)
  qed
  with w show ?thesis using that by blast
qed

lemma eval_bv_sort:
  assumes "bv_ok k ps (map val_sort vs)" "list_all val_ok vs"
  shows "val_sort (eval_bv I k ps vs) = bv_range k ps (map val_sort vs) \<and> val_ok (eval_bv I k ps vs)"
proof (cases "same_bv (map val_sort vs)")
  case True
  then obtain w where w: "vs \<noteq> []" "val_sort (hd vs) = BV_sort w"
    and all: "\<And>v. v \<in> set vs \<Longrightarrow> val_sort v = BV_sort w \<and> bvn v < 2 ^ w"
    using assms(2) by (rule same_bvE) blast
  have a: "bvn (vs ! 0) < 2 ^ w" using all [of "vs ! 0"] w by simp
  have pos: "(0::nat) < 2 ^ w" by simp
  have ors: "foldr (OR) (map bvn vs) 0 < 2 ^ w" "foldr (XOR) (map bvn vs) 0 < 2 ^ w"
    using all by (auto intro!: foldr_or_less foldr_xor_less)
  have dv: "bvn (vs ! 0) div n < 2 ^ w" "bvn (vs ! 0) mod n < 2 ^ w" for n
    using a by (meson div_le_dividend mod_less_eq_dividend le_less_trans)+
  show ?thesis
    using assms w a pos ors dv
    by (cases k) (simp_all add: eval_bv_def bv_ok_def bv_range_def Let_def hd_map concat_val_less
      rotl_less rotr_less udiv_def sdiv_def srem_def smod_def)
next
  case False
  then show ?thesis
    using assms
    by (cases k) (simp_all add: eval_bv_def bv_ok_def bv_range_def Let_def concat_val_less)
qed

lemma eval_decl_sort:
  assumes "decl_ok d (map val_sort vs)" "list_all val_ok vs"
  shows "val_sort (eval_decl I d vs) = decl_range d (map val_sort vs) \<and> val_ok (eval_decl I d vs)"
  using assms eval_basic_sort eval_bv_sort by (cases d) auto

theorem eval_sort: "wf e \<Longrightarrow> val_sort (eval I e) = get_sort e \<and> val_ok (eval I e)"
proof (induction e)
  case (Var i s)
  then show ?case by simp
next
  case (App d args)
  have sorts: "map val_sort (map (eval I) args) = map get_sort args"
    using App by (auto simp: list_all_iff)
  have "list_all val_ok (map (eval I) args)"
    using App by (auto simp: list_all_iff)
  moreover have "decl_ok d (map val_sort (map (eval I) args))"
    using App.prems unfolding sorts by simp
  ultimately show ?case
    using eval_decl_sort [of d "map (eval I) args" I] unfolding sorts by simp
qed

lemma eval_bool: "bexp e \<Longrightarrow> eval I e = VBool (tv I e)"
  using eval_sort [of e I] by (simp add: bexp_def tv_def bool_val)

lemma eval_bv: "wf e \<Longrightarrow> get_sort e = BV_sort w \<Longrightarrow> \<exists>n < 2 ^ w. eval I e = VBV w n"
  using eval_sort [of e I] by (cases "eval I e") auto
end
