(* ===== verification/Ast_Manager.thy ===== *)
theory Ast_Manager
  imports Semantics
begin

text \<open>
  \<open>ast_manager\<close> (\<open>src/Z3/z3-master/src/ast/ast.h\<close>, \<open>ast.cpp\<close>): constructors and
  recognizers of the basic family, and the tests on values that dispatch to the plugin of
  the family (\<open>basic_decl_plugin\<close>, \<open>bv_decl_plugin\<close>, \<open>model_value_decl_plugin\<close>).
\<close>

section \<open>Constructors\<close>

definition m_mk_true :: expr where
  "m_mk_true = App (Basic OP_TRUE) []"

definition m_mk_false :: expr where
  "m_mk_false = App (Basic OP_FALSE) []"

definition m_mk_not :: "expr \<Rightarrow> expr" where
  "m_mk_not n = App (Basic OP_NOT) [n]"

definition m_mk_and :: "expr list \<Rightarrow> expr" where
  "m_mk_and args = App (Basic OP_AND) args"

definition m_mk_or :: "expr list \<Rightarrow> expr" where
  "m_mk_or args = App (Basic OP_OR) args"

definition m_mk_eq :: "expr \<Rightarrow> expr \<Rightarrow> expr" where
  "m_mk_eq lhs rhs = App (Basic OP_EQ) [lhs, rhs]"

definition m_mk_ite :: "expr \<Rightarrow> expr \<Rightarrow> expr \<Rightarrow> expr" where
  "m_mk_ite c t e = App (Basic OP_ITE) [c, t, e]"

definition m_mk_distinct :: "expr list \<Rightarrow> expr" where
  "m_mk_distinct args = App (Basic OP_DISTINCT) args"

section \<open>Recognizers\<close>

text \<open>
  \<open>mk_app\<close> refuses a negation, an equality or an if-then-else with another number of
  arguments than 1, 2 and 3, so a node the code recognizes has its arity: the recognizers
  answer as \<open>is_app_of\<close> does on every node that can exist, and the matchers that also test
  the number of arguments (\<open>is_not(n, s)\<close>, \<open>is_eq(n, l, r)\<close>) agree with them.
\<close>

definition basic_arity :: "basic_op_kind \<Rightarrow> nat \<Rightarrow> bool" where
  "basic_arity k n =
    (case k of OP_NOT \<Rightarrow> n = 1 | OP_EQ \<Rightarrow> n = 2 | OP_ITE \<Rightarrow> n = 3 | _ \<Rightarrow> True)"

fun is_app_of :: "expr \<Rightarrow> basic_op_kind \<Rightarrow> bool" where
  "is_app_of (App (Basic k') args) k = (k' = k \<and> basic_arity k (length args))"
| "is_app_of _ k = False"

fun is_app :: "expr \<Rightarrow> bool" where
  "is_app (App d args) = True"
| "is_app (Var i s) = False"

definition m_is_true :: "expr \<Rightarrow> bool" where
  "m_is_true n = (n = m_mk_true)"

definition m_is_false :: "expr \<Rightarrow> bool" where
  "m_is_false n = (n = m_mk_false)"

definition m_is_not :: "expr \<Rightarrow> bool" where
  "m_is_not n = is_app_of n OP_NOT"

definition m_is_and :: "expr \<Rightarrow> bool" where
  "m_is_and n = is_app_of n OP_AND"

definition m_is_or :: "expr \<Rightarrow> bool" where
  "m_is_or n = is_app_of n OP_OR"

definition m_is_eq :: "expr \<Rightarrow> bool" where
  "m_is_eq n = is_app_of n OP_EQ"

definition m_is_ite :: "expr \<Rightarrow> bool" where
  "m_is_ite n = is_app_of n OP_ITE"

definition m_is_complement_core :: "expr \<Rightarrow> expr \<Rightarrow> bool" where
  "m_is_complement_core n1 n2 =
    ((m_is_true n1 \<and> m_is_false n2) \<or> (m_is_not n1 \<and> get_arg n1 0 = n2))"

definition m_is_complement :: "expr \<Rightarrow> expr \<Rightarrow> bool" where
  "m_is_complement n1 n2 = (m_is_complement_core n1 n2 \<or> m_is_complement_core n2 n1)"

section \<open>Values\<close>

datatype family = Basic_family | Bv_family | Model_value_family | Null_family

fun get_family_id :: "expr \<Rightarrow> family" where
  "get_family_id (App (Basic k) args) = Basic_family"
| "get_family_id (App (Bv k ps) args) = Bv_family"
| "get_family_id (App (Model_value n s) args) = Model_value_family"
| "get_family_id _ = Null_family"

definition basic_is_value :: "expr \<Rightarrow> bool" where
  "basic_is_value a = (is_app_of a OP_TRUE \<or> is_app_of a OP_FALSE)"

fun is_bv_num :: "expr \<Rightarrow> bool" where
  "is_bv_num (App (Bv k ps) args) = (k = OP_BV_NUM)"
| "is_bv_num _ = False"

fun is_bv_add :: "expr \<Rightarrow> bool" where
  "is_bv_add (App (Bv k ps) args) = (k = OP_BADD)"
| "is_bv_add _ = False"

fun is_model_value :: "expr \<Rightarrow> bool" where
  "is_model_value (App (Model_value n s) args) = True"
| "is_model_value _ = False"

fun bv_num_params :: "expr \<Rightarrow> nat list" where
  "bv_num_params (App (Bv k ps) args) = ps"
| "bv_num_params _ = []"

text \<open>\<open>p->is_value(a)\<close> of the plugin \<open>p\<close>; all three plugins take every value as unique.\<close>

fun plugin_is_value :: "family \<Rightarrow> expr \<Rightarrow> bool" where
  "plugin_is_value Basic_family a = basic_is_value a"
| "plugin_is_value Bv_family a = is_bv_num a"
| "plugin_is_value Model_value_family a = is_model_value a"
| "plugin_is_value Null_family a = False"

definition get_offset_term :: "expr \<Rightarrow> expr \<times> nat" where
  "get_offset_term a =
    (if get_num_args a = 2 \<and> is_bv_add a \<and> is_bv_num (get_arg a 0)
     then (let ps = bv_num_params (get_arg a 0); offset = ps ! 0; sz = ps ! 1
           in (get_arg a 1, offset mod 2 ^ sz))
     else (a, 0))"

definition decl_plugin_are_distinct :: "family \<Rightarrow> expr \<Rightarrow> expr \<Rightarrow> bool" where
  "decl_plugin_are_distinct p a b = (a \<noteq> b \<and> plugin_is_value p a \<and> plugin_is_value p b)"

definition bv_are_distinct :: "expr \<Rightarrow> expr \<Rightarrow> bool" where
  "bv_are_distinct a b =
    (let (a_term, a_offset) = get_offset_term a; (b_term, b_offset) = get_offset_term b
     in if a_term = b_term \<and> a_offset \<noteq> b_offset then True
        else decl_plugin_are_distinct Bv_family a b)"

fun plugin_are_distinct :: "family \<Rightarrow> expr \<Rightarrow> expr \<Rightarrow> bool" where
  "plugin_are_distinct Bv_family a b = bv_are_distinct a b"
| "plugin_are_distinct p a b = decl_plugin_are_distinct p a b"

definition m_is_value :: "expr \<Rightarrow> bool" where
  "m_is_value e = (is_app e \<and> plugin_is_value (get_family_id e) e)"

definition m_is_unique_value :: "expr \<Rightarrow> bool" where
  "m_is_unique_value e = (is_app e \<and> plugin_is_value (get_family_id e) e)"

text \<open>The plugin the two-argument tests ask: that of \<open>a\<close>, or of \<open>b\<close> if \<open>a\<close> has none.\<close>

definition plugin_of :: "expr \<Rightarrow> expr \<Rightarrow> family" where
  "plugin_of a b = (if get_family_id a = Null_family then get_family_id b else get_family_id a)"

definition m_are_equal :: "expr \<Rightarrow> expr \<Rightarrow> bool" where
  "m_are_equal a b =
    (if a = b then True
     else if is_app a \<and> is_app b then plugin_of a b \<noteq> Null_family \<and> a = b
     else False)"

definition m_are_distinct :: "expr \<Rightarrow> expr \<Rightarrow> bool" where
  "m_are_distinct a b =
    (if is_app a \<and> is_app b
     then plugin_of a b \<noteq> Null_family \<and> plugin_are_distinct (plugin_of a b) a b
     else False)"

section \<open>Well-sortedness and meaning of what the constructors build\<close>

lemmas m_mk_defs = m_mk_true_def m_mk_false_def m_mk_not_def m_mk_and_def m_mk_or_def m_mk_eq_def
  m_mk_ite_def m_mk_distinct_def

lemmas m_is_defs = m_is_true_def m_is_false_def m_is_not_def m_is_and_def m_is_or_def m_is_eq_def
  m_is_ite_def

lemma get_sort_mk [simp]:
  "get_sort m_mk_true = Bool_sort"
  "get_sort m_mk_false = Bool_sort"
  "get_sort (m_mk_not a) = Bool_sort"
  "get_sort (m_mk_and as) = Bool_sort"
  "get_sort (m_mk_or as) = Bool_sort"
  "get_sort (m_mk_eq a b) = Bool_sort"
  "get_sort (m_mk_ite c t e) = get_sort t"
  "get_sort (m_mk_distinct as) = Bool_sort"
  by (simp_all add: m_mk_defs)

lemma wf_mk [simp]:
  "wf m_mk_true"
  "wf m_mk_false"
  "wf (m_mk_not a) \<longleftrightarrow> bexp a"
  "wf (m_mk_and as) \<longleftrightarrow> list_all bexp as"
  "wf (m_mk_or as) \<longleftrightarrow> list_all bexp as"
  "wf (m_mk_eq a b) \<longleftrightarrow> wf a \<and> wf b \<and> get_sort a = get_sort b"
  "wf (m_mk_ite c t e) \<longleftrightarrow> bexp c \<and> wf t \<and> wf e \<and> get_sort t = get_sort e"
  "wf (m_mk_distinct as) \<longleftrightarrow> list_all wf as \<and> all_same (map get_sort as)"
  by (auto simp: m_mk_defs bexp_def list_all_iff)

lemma bexp_mk [simp]:
  "bexp m_mk_true"
  "bexp m_mk_false"
  "bexp (m_mk_not a) \<longleftrightarrow> bexp a"
  "bexp (m_mk_and as) \<longleftrightarrow> list_all bexp as"
  "bexp (m_mk_or as) \<longleftrightarrow> list_all bexp as"
  "bexp (m_mk_eq a b) \<longleftrightarrow> wf a \<and> wf b \<and> get_sort a = get_sort b"
  "bexp (m_mk_ite c t e) \<longleftrightarrow> bexp c \<and> bexp t \<and> bexp e"
  "bexp (m_mk_distinct as) \<longleftrightarrow> list_all wf as \<and> all_same (map get_sort as)"
  by (auto simp: bexp_def)

lemma m_is_bool_iff: "wf e \<Longrightarrow> m_is_bool e \<longleftrightarrow> bexp e"
  by (simp add: m_is_bool_def bexp_def)

lemma eval_mk:
  "eval I m_mk_true = VBool True"
  "eval I m_mk_false = VBool False"
  "eval I (m_mk_not a) = VBool (\<not> tv I a)"
  "eval I (m_mk_and as) = VBool (list_all (tv I) as)"
  "eval I (m_mk_or as) = VBool (list_ex (tv I) as)"
  "eval I (m_mk_eq a b) = VBool (eval I a = eval I b)"
  "eval I (m_mk_ite c t e) = (if tv I c then eval I t else eval I e)"
  "eval I (m_mk_distinct as) = VBool (distinct (map (eval I) as))"
  by (simp_all add: m_mk_defs eval_basic_def tv_def list_all_iff list_ex_iff)

lemma tv_mk [simp]:
  "tv I m_mk_true"
  "\<not> tv I m_mk_false"
  "tv I (m_mk_not a) \<longleftrightarrow> \<not> tv I a"
  "tv I (m_mk_and as) \<longleftrightarrow> list_all (tv I) as"
  "tv I (m_mk_or as) \<longleftrightarrow> list_ex (tv I) as"
  "tv I (m_mk_eq a b) \<longleftrightarrow> eval I a = eval I b"
  "tv I (m_mk_ite c t e) \<longleftrightarrow> (if tv I c then tv I t else tv I e)"
  "tv I (m_mk_distinct as) \<longleftrightarrow> distinct (map (eval I) as)"
  by (simp_all add: tv_def eval_mk)

lemma eval_bexp_eq_iff: "bexp a \<Longrightarrow> bexp b \<Longrightarrow> eval I a = eval I b \<longleftrightarrow> tv I a = tv I b"
  by (simp add: eval_bool)

section \<open>What the recognizers tell about a well-sorted term\<close>

lemma m_is_mk [simp]:
  "m_is_true m_mk_true" "\<not> m_is_true m_mk_false" "\<not> m_is_true (m_mk_not a)" "\<not> m_is_true (m_mk_eq a b)"
  "\<not> m_is_true (m_mk_or as)" "\<not> m_is_true (m_mk_and as)" "\<not> m_is_true (m_mk_ite c t e)"
  "\<not> m_is_true (m_mk_distinct as)"
  "\<not> m_is_false m_mk_true" "m_is_false m_mk_false" "\<not> m_is_false (m_mk_not a)"
  "\<not> m_is_false (m_mk_eq a b)" "\<not> m_is_false (m_mk_or as)" "\<not> m_is_false (m_mk_and as)"
  "\<not> m_is_false (m_mk_ite c t e)" "\<not> m_is_false (m_mk_distinct as)"
  "\<not> m_is_not m_mk_true" "\<not> m_is_not m_mk_false" "m_is_not (m_mk_not a)" "\<not> m_is_not (m_mk_eq a b)"
  "\<not> m_is_not (m_mk_or as)" "\<not> m_is_not (m_mk_and as)" "\<not> m_is_not (m_mk_ite c t e)"
  "\<not> m_is_not (m_mk_distinct as)"
  "\<not> m_is_eq m_mk_true" "\<not> m_is_eq m_mk_false" "\<not> m_is_eq (m_mk_not a)"
  "m_is_eq (m_mk_eq a b)" "\<not> m_is_eq (m_mk_or as)" "\<not> m_is_eq (m_mk_and as)"
  "\<not> m_is_eq (m_mk_ite c t e)" "\<not> m_is_eq (m_mk_distinct as)"
  "\<not> m_is_or m_mk_true" "\<not> m_is_or m_mk_false" "\<not> m_is_or (m_mk_not a)"
  "\<not> m_is_or (m_mk_eq a b)" "m_is_or (m_mk_or as)" "\<not> m_is_or (m_mk_and as)"
  "\<not> m_is_or (m_mk_ite c t e)" "\<not> m_is_or (m_mk_distinct as)"
  "\<not> m_is_and m_mk_true" "\<not> m_is_and m_mk_false" "\<not> m_is_and (m_mk_not a)"
  "\<not> m_is_and (m_mk_eq a b)" "\<not> m_is_and (m_mk_or as)" "m_is_and (m_mk_and as)"
  "\<not> m_is_and (m_mk_ite c t e)" "\<not> m_is_and (m_mk_distinct as)"
  "\<not> m_is_ite m_mk_true" "\<not> m_is_ite m_mk_false" "\<not> m_is_ite (m_mk_not a)"
  "\<not> m_is_ite (m_mk_eq a b)" "\<not> m_is_ite (m_mk_or as)" "\<not> m_is_ite (m_mk_and as)"
  "m_is_ite (m_mk_ite c t e)" "\<not> m_is_ite (m_mk_distinct as)"
  by (simp_all add: m_is_defs m_mk_defs basic_arity_def)

lemma get_arg_mk [simp]:
  "get_arg (m_mk_not a) 0 = a"
  "get_arg (m_mk_eq a b) 0 = a" "get_arg (m_mk_eq a b) 1 = b" "get_arg (m_mk_eq a b) (Suc 0) = b"
  "get_arg (m_mk_ite c t e) 0 = c" "get_arg (m_mk_ite c t e) 1 = t" "get_arg (m_mk_ite c t e) (Suc 0) = t"
  "get_arg (m_mk_ite c t e) 2 = e"
  "get_args (m_mk_or as) = as" "get_args (m_mk_and as) = as"
  by (simp_all add: m_mk_defs)

lemma m_mk_inject [simp]:
  "m_mk_not a = m_mk_not b \<longleftrightarrow> a = b"
  "m_mk_or xs = m_mk_or ys \<longleftrightarrow> xs = ys"
  "m_mk_and xs = m_mk_and ys \<longleftrightarrow> xs = ys"
  "m_mk_eq a b = m_mk_eq c d \<longleftrightarrow> a = c \<and> b = d"
  by (auto simp: m_mk_defs)

lemma m_mk_neq [simp]:
  "m_mk_true \<noteq> m_mk_false" "m_mk_true \<noteq> m_mk_not a'" "m_mk_true \<noteq> m_mk_eq a' b'"
  "m_mk_true \<noteq> m_mk_or as'" "m_mk_true \<noteq> m_mk_and as'" "m_mk_true \<noteq> m_mk_ite c' t' e'"
  "m_mk_false \<noteq> m_mk_true" "m_mk_false \<noteq> m_mk_not a'" "m_mk_false \<noteq> m_mk_eq a' b'"
  "m_mk_false \<noteq> m_mk_or as'" "m_mk_false \<noteq> m_mk_and as'" "m_mk_false \<noteq> m_mk_ite c' t' e'"
  "m_mk_not a \<noteq> m_mk_true" "m_mk_not a \<noteq> m_mk_false" "m_mk_not a \<noteq> m_mk_eq a' b'"
  "m_mk_not a \<noteq> m_mk_or as'" "m_mk_not a \<noteq> m_mk_and as'" "m_mk_not a \<noteq> m_mk_ite c' t' e'"
  "m_mk_eq a b \<noteq> m_mk_true" "m_mk_eq a b \<noteq> m_mk_false" "m_mk_eq a b \<noteq> m_mk_not a'"
  "m_mk_eq a b \<noteq> m_mk_or as'" "m_mk_eq a b \<noteq> m_mk_and as'" "m_mk_eq a b \<noteq> m_mk_ite c' t' e'"
  "m_mk_or as \<noteq> m_mk_true" "m_mk_or as \<noteq> m_mk_false" "m_mk_or as \<noteq> m_mk_not a'"
  "m_mk_or as \<noteq> m_mk_eq a' b'" "m_mk_or as \<noteq> m_mk_and as'" "m_mk_or as \<noteq> m_mk_ite c' t' e'"
  "m_mk_and as \<noteq> m_mk_true" "m_mk_and as \<noteq> m_mk_false" "m_mk_and as \<noteq> m_mk_not a'"
  "m_mk_and as \<noteq> m_mk_eq a' b'" "m_mk_and as \<noteq> m_mk_or as'" "m_mk_and as \<noteq> m_mk_ite c' t' e'"
  "m_mk_ite c t e \<noteq> m_mk_true" "m_mk_ite c t e \<noteq> m_mk_false" "m_mk_ite c t e \<noteq> m_mk_not a'"
  "m_mk_ite c t e \<noteq> m_mk_eq a' b'" "m_mk_ite c t e \<noteq> m_mk_or as'" "m_mk_ite c t e \<noteq> m_mk_and as'"
  by (simp_all add: m_mk_defs)

lemma is_app_ofE:
  assumes "is_app_of n k"
  obtains args where "n = App (Basic k) args" "basic_arity k (length args)"
proof (cases n)
  case (App d args)
  with assms have "d = Basic k \<and> basic_arity k (length args)" by (cases d) auto
  with App that show ?thesis by blast
qed (use assms in simp)

lemma length_2_conv: "length xs = 2 \<longleftrightarrow> (\<exists>a b. xs = [a, b])"
  by (auto simp: numeral_2_eq_2 length_Suc_conv)

lemma length_3_conv: "length xs = 3 \<longleftrightarrow> (\<exists>a b c. xs = [a, b, c])"
  by (auto simp: numeral_3_eq_3 length_Suc_conv)

lemma m_is_notE:
  assumes "m_is_not n"
  obtains a where "n = m_mk_not a"
  using assms unfolding m_is_not_def
  by (elim is_app_ofE) (auto simp: m_mk_defs basic_arity_def length_Suc_conv)

lemma m_is_eqE:
  assumes "m_is_eq n"
  obtains a b where "n = m_mk_eq a b"
  using assms unfolding m_is_eq_def
  by (elim is_app_ofE) (auto simp: m_mk_defs basic_arity_def length_2_conv)

lemma m_is_iteE:
  assumes "m_is_ite n"
  obtains c t e where "n = m_mk_ite c t e"
  using assms unfolding m_is_ite_def
  by (elim is_app_ofE) (auto simp: m_mk_defs basic_arity_def length_3_conv)

lemma m_is_orE:
  assumes "m_is_or n"
  obtains as where "n = m_mk_or as"
  using assms unfolding m_is_or_def
  by (elim is_app_ofE) (auto simp: m_mk_defs)

lemma m_is_andE:
  assumes "m_is_and n"
  obtains as where "n = m_mk_and as"
  using assms unfolding m_is_and_def
  by (elim is_app_ofE) (auto simp: m_mk_defs)

lemma bexpI [intro]: "wf e \<Longrightarrow> get_sort e = Bool_sort \<Longrightarrow> bexp e"
  by (simp add: bexp_def)

lemma bexp_wf [simp]: "bexp e \<Longrightarrow> wf e" and bexp_sort [simp]: "bexp e \<Longrightarrow> get_sort e = Bool_sort"
  by (simp_all add: bexp_def)

lemma m_is_trueD [dest!]: "m_is_true n \<Longrightarrow> n = m_mk_true" and m_is_falseD [dest!]: "m_is_false n \<Longrightarrow> n = m_mk_false"
  by (simp_all add: m_is_defs)

lemma m_is_complement_tv:
  assumes "m_is_complement a b" "wf a" "wf b"
  shows "tv I a \<longleftrightarrow> \<not> tv I b"
  using assms unfolding m_is_complement_def m_is_complement_core_def
  by (auto elim!: m_is_notE)

lemma m_is_complement_core_tv:
  assumes "m_is_complement_core a b" "wf a"
  shows "tv I a \<longleftrightarrow> \<not> tv I b"
  using assms unfolding m_is_complement_core_def
  by (auto elim!: m_is_notE)

section \<open>Values\<close>

lemma m_are_equal_iff [simp]: "m_are_equal a b \<longleftrightarrow> a = b"
  by (simp add: m_are_equal_def)

lemma is_bv_num_eval:
  assumes "is_bv_num a" "wf a"
  obtains w v where "a = App (Bv OP_BV_NUM [v, w]) []" "0 < w" "v < 2 ^ w" "\<And>I. eval I a = VBV w v"
proof -
  from assms obtain ps args where "a = App (Bv OP_BV_NUM ps) args"
    by (cases a rule: is_bv_num.cases) auto
  with assms(2) that show ?thesis
    by (auto simp: bv_ok_def length_2_conv eval_bv_def Let_def)
qed

lemma unique_value_distinct:
  assumes "plugin_is_value p a" "plugin_is_value p b" "a \<noteq> b" "wf a" "wf b"
  shows "eval I a \<noteq> eval I b"
proof (cases p)
  case Basic_family
  with assms show ?thesis
    by (auto simp: basic_is_value_def eval_basic_def elim!: is_app_ofE)
next
  case Bv_family
  with assms have nums: "is_bv_num a" "is_bv_num b" by simp_all
  obtain w v where a: "a = App (Bv OP_BV_NUM [v, w]) []" "eval I a = VBV w v"
    using is_bv_num_eval [OF nums(1) assms(4)] by metis
  obtain w' v' where b: "b = App (Bv OP_BV_NUM [v', w']) []" "eval I b = VBV w' v'"
    using is_bv_num_eval [OF nums(2) assms(5)] by metis
  show ?thesis using a b assms(3) by auto
next
  case Model_value_family
  with assms have "is_model_value a" "is_model_value b" by simp_all
  with assms(3-5) show ?thesis
    by (cases a rule: is_model_value.cases; cases b rule: is_model_value.cases)
      (auto elim!: is_user_sort.elims)
next
  case Null_family
  with assms show ?thesis by simp
qed

lemma plugin_is_value_sort:
  assumes "plugin_is_value p a" "wf a"
  shows "get_family_id a = p \<and> (p = Basic_family \<longrightarrow> get_sort a = Bool_sort)
    \<and> (p = Bv_family \<longrightarrow> is_bv_sort (get_sort a)) \<and> (p = Model_value_family \<longrightarrow> is_user_sort (get_sort a))"
proof (cases p)
  case Basic_family
  with assms show ?thesis by (auto simp: basic_is_value_def elim!: is_app_ofE)
next
  case Bv_family
  with assms have "is_bv_num a" by simp
  then obtain w v where "a = App (Bv OP_BV_NUM [v, w]) []" "0 < w"
    using assms(2) is_bv_num_eval by metis
  with Bv_family show ?thesis by (simp add: bv_range_def)
next
  case Model_value_family
  with assms show ?thesis by (cases a rule: is_model_value.cases) auto
next
  case Null_family
  with assms show ?thesis by simp
qed

lemma m_is_unique_value_distinct:
  assumes "m_is_unique_value a" "m_is_unique_value b" "a \<noteq> b" "wf a" "wf b" "get_sort a = get_sort b"
  shows "eval I a \<noteq> eval I b"
proof -
  have v: "plugin_is_value (get_family_id a) a" "plugin_is_value (get_family_id b) b"
    using assms by (simp_all add: m_is_unique_value_def)
  then have "get_family_id a = get_family_id b"
    using plugin_is_value_sort [OF v(1) assms(4)] plugin_is_value_sort [OF v(2) assms(5)] assms(6)
    by (cases "get_family_id a"; cases "get_family_id b"; cases "get_sort a") (auto elim!: is_bv_sort.elims is_user_sort.elims)
  with v show ?thesis using assms unique_value_distinct by metis
qed

text \<open>\<open>k + t\<close> and \<open>k' + t\<close> differ when the offsets differ.\<close>

lemma get_offset_term_eval:
  assumes "wf a" "get_sort a = BV_sort w" "get_offset_term a = (t, k)"
  shows "wf t \<and> get_sort t = BV_sort w \<and> k < 2 ^ w \<and> bvn (eval I a) = (k + bvn (eval I t)) mod 2 ^ w"
proof (cases "get_num_args a = 2 \<and> is_bv_add a \<and> is_bv_num (get_arg a 0)")
  case True
  then obtain ps x y where a: "a = App (Bv OP_BADD ps) [x, y]" "is_bv_num x"
    by (cases a rule: is_bv_add.cases) (auto simp: length_2_conv)
  from a(1) assms(1) have wfx: "wf x" "wf y" by simp_all
  obtain v n where x: "x = App (Bv OP_BV_NUM [n, v]) []" "0 < v" "n < 2 ^ v" "eval I x = VBV v n"
    using is_bv_num_eval [OF a(2) wfx(1)] by metis
  have y: "get_sort y = BV_sort v" "w = v"
    using a(1) x assms(1,2) by (simp_all add: bv_ok_def bv_range_def same_bv_def all_same_def)
  have "t = y" "k = n"
    using assms(3) a(1) x by (simp_all add: get_offset_term_def)
  then show ?thesis
    using a(1) x y wfx by (simp add: eval_bv_def)
next
  case False
  with assms eval_bv [OF assms(1,2), of I] show ?thesis by (auto simp: get_offset_term_def)
qed

lemma get_offset_term_nonzero:
  assumes "wf a" "get_offset_term a = (t, k)" "k \<noteq> 0"
  shows "is_bv_sort (get_sort a)"
proof -
  have "is_bv_add a" using assms(2,3) by (auto simp: get_offset_term_def split: if_splits)
  with assms(1) show ?thesis
    by (cases a rule: is_bv_add.cases) (auto simp: bv_ok_def bv_range_def same_bv_def)
qed

lemma bv_are_distinct_eval:
  assumes "bv_are_distinct a b" "wf a" "wf b" "get_sort a = get_sort b" "is_bv_sort (get_sort a)"
  shows "eval I a \<noteq> eval I b"
proof -
  obtain ta ka where ga: "get_offset_term a = (ta, ka)" by force
  obtain tb kb where gb: "get_offset_term b = (tb, kb)" by force
  obtain w where w: "get_sort a = BV_sort w" using assms(5) by (auto simp: is_bv_sort_iff)
  note ea = get_offset_term_eval [OF assms(2) w ga, of I]
  note eb = get_offset_term_eval [OF assms(3) _ gb, of w I]
  show ?thesis
  proof (cases "ta = tb \<and> ka \<noteq> kb")
    case True
    have "(ka + n) mod 2 ^ w \<noteq> (kb + n) mod 2 ^ w" if "ka < 2 ^ w" "kb < 2 ^ w" for n
      using that True add_mod_inj_nat by blast
    then have "bvn (eval I a) \<noteq> bvn (eval I b)"
      using ea eb True w assms(4) by simp
    then show ?thesis by auto
  next
    case False
    then have "decl_plugin_are_distinct Bv_family a b"
      using assms(1) ga gb by (auto simp: bv_are_distinct_def)
    then show ?thesis
      using unique_value_distinct assms(2,3) unfolding decl_plugin_are_distinct_def by blast
  qed
qed

lemma m_are_distinct_eval:
  assumes "m_are_distinct a b" "wf a" "wf b" "get_sort a = get_sort b"
  shows "eval I a \<noteq> eval I b"
proof -
  have d: "plugin_are_distinct (plugin_of a b) a b" "plugin_of a b \<noteq> Null_family"
    using assms(1) by (auto simp: m_are_distinct_def split: if_splits)
  show ?thesis
  proof (cases "plugin_of a b = Bv_family \<and> is_bv_sort (get_sort a)")
    case True
    then show ?thesis using d assms bv_are_distinct_eval by simp
  next
    case False
    then have "decl_plugin_are_distinct (plugin_of a b) a b"
      using d assms(2-4) get_offset_term_nonzero [of a] get_offset_term_nonzero [of b]
      by (cases "plugin_of a b") (auto simp: bv_are_distinct_def split: prod.splits if_splits)
    then show ?thesis
      using unique_value_distinct assms(2,3) unfolding decl_plugin_are_distinct_def by blast
  qed
qed
end
