(* ===== verification/Rewriter_Types.thy ===== *)
theory Rewriter_Types
  imports Ast_Manager
begin

text \<open>
  What every rewriter shares (\<open>src/Z3/z3-master/src/ast/rewriter/rewriter_types.h\<close>): the status
  a simplifier returns together with its result, and the exceptions, one for each message
  (\<open>src/Z3/z3-master/src/util/common_msgs.h\<close>) a rewriter or its configuration throws.
\<close>

text \<open>\<open>br_status\<close>, each success together with the term left in \<open>result\<close>.\<close>

datatype br_status =
    BR_REWRITE1 expr | BR_REWRITE2 expr | BR_REWRITE3 expr | BR_REWRITE_FULL expr
  | BR_DONE expr | BR_FAILED

fun br_result :: "br_status \<Rightarrow> expr option" where
  "br_result (BR_REWRITE1 e) = Some e"
| "br_result (BR_REWRITE2 e) = Some e"
| "br_result (BR_REWRITE3 e) = Some e"
| "br_result (BR_REWRITE_FULL e) = Some e"
| "br_result (BR_DONE e) = Some e"
| "br_result BR_FAILED = None"

text \<open>\<open>if (core(..., result) == BR_FAILED) result = d\<close>\<close>

definition br_get :: "br_status \<Rightarrow> expr \<Rightarrow> expr" where
  "br_get st d = (case br_result st of None \<Rightarrow> d | Some e \<Rightarrow> e)"

datatype rewriter_exception =
    Canceled | Max_memory | Max_scopes | Max_steps | Max_frames | Unsupported

end
