(* ===== verification/Bool_Rewriter.thy ===== *)
theory Bool_Rewriter
  imports Rewriter_Types
begin

text \<open>
  \<open>bool_rewriter\<close> (\<open>src/Z3/z3-master/src/ast/rewriter/bool_rewriter.h\<close>, \<open>bool_rewriter.cpp\<close>):
  the simplifier of the Boolean operations. Its state is the set of options and the counter
  \<open>m_local_ctx_cost\<close>, an \<open>unsigned\<close> the local context simplifier adds to; the operations that
  can reach that counter return the rewriter they leave behind. The orders on nodes the code
  sorts with (\<open>lt\<close> of \<open>ast_lt.cpp\<close> and the node ids) are fields of the manager, arbitrary here.
\<close>

section \<open>State\<close>

record ast_manager =
  node_lt :: "expr \<Rightarrow> expr \<Rightarrow> bool"
  node_id :: "expr \<Rightarrow> nat"

record bool_rewriter =
  m_manager :: ast_manager
  m_flat :: bool
  m_local_ctx :: bool
  m_elim_and :: bool
  m_blast_distinct :: bool
  m_blast_distinct_threshold :: "32 word"
  m_ite_extra_rules :: bool
  m_local_ctx_limit :: "32 word"
  m_local_ctx_cost :: "32 word"
  m_elim_ite :: bool

section \<open>Parameters\<close>

record bool_rewriter_params =
  p_flat :: bool
  p_elim_and :: bool
  p_elim_ite :: bool
  p_local_ctx :: bool
  p_local_ctx_limit :: "32 word"
  p_blast_distinct :: bool
  p_blast_distinct_threshold :: "32 word"
  p_ite_extra_rules :: bool

definition updt_params :: "bool_rewriter_params \<Rightarrow> bool_rewriter \<Rightarrow> bool_rewriter" where
  "updt_params p rw = rw\<lparr>m_flat := p_flat p, m_elim_and := p_elim_and p, m_elim_ite := p_elim_ite p,
     m_local_ctx := p_local_ctx p, m_local_ctx_limit := p_local_ctx_limit p,
     m_blast_distinct := p_blast_distinct p,
     m_blast_distinct_threshold := p_blast_distinct_threshold p,
     m_ite_extra_rules := p_ite_extra_rules p\<rparr>"

definition mk_bool_rewriter :: "ast_manager \<Rightarrow> bool_rewriter_params \<Rightarrow> bool_rewriter" where
  "mk_bool_rewriter m p = updt_params p
     \<lparr>m_manager = m, m_flat = False, m_local_ctx = False, m_elim_and = False,
      m_blast_distinct = False, m_blast_distinct_threshold = 0, m_ite_extra_rules = False,
      m_local_ctx_limit = 0, m_local_ctx_cost = 0, m_elim_ite = False\<rparr>"

definition set_flat :: "bool \<Rightarrow> bool_rewriter \<Rightarrow> bool_rewriter" where
  "set_flat f rw = rw\<lparr>m_flat := f\<rparr>"

definition set_elim_and :: "bool \<Rightarrow> bool_rewriter \<Rightarrow> bool_rewriter" where
  "set_elim_and f rw = rw\<lparr>m_elim_and := f\<rparr>"

definition reset_local_ctx_cost :: "bool_rewriter \<Rightarrow> bool_rewriter" where
  "reset_local_ctx_cost rw = rw\<lparr>m_local_ctx_cost := 0\<rparr>"

definition add_cost :: "nat \<Rightarrow> bool_rewriter \<Rightarrow> bool_rewriter" where
  "add_cost n rw = rw\<lparr>m_local_ctx_cost := m_local_ctx_cost rw + of_nat n\<rparr>"

section \<open>Equality and negation\<close>

text \<open>The size that bounds the recursion of \<open>mk_not_core\<close> and \<open>mk_eq_core\<close>.\<close>

fun weight :: "expr \<Rightarrow> nat" where
  "weight (Var i s) = 2"
| "weight (App d args) =
    (if d = Basic OP_NOT then max 2 (sum_list (map weight args))
     else if d = Basic OP_EQ then max 2 (prod_list (map weight args))
     else 2 + sum_list (map weight args))"

text \<open>
  \<open>try_ite_value(ite, val, result)\<close>: an equality between an if-then-else and a value. The
  code asserts that the first argument is an if-then-else (\<open>VERIFY\<close>).
\<close>

function try_ite_value :: "expr \<Rightarrow> expr \<Rightarrow> br_status" where
  "try_ite_value ite v =
    (if \<not> m_is_ite ite then BR_FAILED else
     let c = get_arg ite 0; t = get_arg ite 1; e = get_arg ite 2 in
     if m_are_distinct v e then BR_REWRITE2 (m_mk_and [m_mk_eq t v, c])
     else if m_are_distinct v t then BR_REWRITE2 (m_mk_and [m_mk_eq e v, m_mk_not c])
     else if m_are_equal v t then
       (if m_are_equal v e then BR_DONE m_mk_true
        else BR_REWRITE2 (m_mk_or [m_mk_eq e v, c]))
     else if m_are_equal v e then BR_REWRITE2 (m_mk_or [m_mk_eq t v, m_mk_not c])
     else
       (case (if m_is_ite t \<and> m_is_value (get_arg t 1) \<and> m_is_value (get_arg t 2)
              then br_result (try_ite_value t v) else None) of
          Some r \<Rightarrow> BR_REWRITE2 (m_mk_ite c r (m_mk_eq e v))
        | None \<Rightarrow>
       (case (if m_is_ite e \<and> m_is_value (get_arg e 1) \<and> m_is_value (get_arg e 2)
              then br_result (try_ite_value e v) else None) of
          Some r \<Rightarrow> BR_REWRITE2 (m_mk_ite c (m_mk_eq t v) r)
        | None \<Rightarrow> BR_FAILED)))"
  by pat_completeness auto
termination
  by (relation "measure (\<lambda>(ite, v). size ite)") (auto elim!: m_is_iteE simp: m_mk_ite_def)

declare try_ite_value.simps [simp del]

text \<open>
  \<open>mk_not_core\<close> and \<open>mk_eq_core\<close> call each other: \<open>mk_not\<close> of an equality negates its first
  side and rebuilds the equality, \<open>mk_eq\<close> with \<open>false\<close> negates the other side. The argument
  of the recursion is a term built by the recursion itself, so termination needs a bound on
  the result.
\<close>

function (sequential)
      mk_not_core :: "bool_rewriter \<Rightarrow> expr \<Rightarrow> br_status"
  and mk_eq_core :: "bool_rewriter \<Rightarrow> expr \<Rightarrow> expr \<Rightarrow> br_status" where
  "mk_not_core rw t =
    (if m_is_not t then BR_DONE (get_arg t 0)
     else if m_is_true t then BR_DONE m_mk_false
     else if m_is_false t then BR_DONE m_mk_true
     else if m_is_eq t \<and> m_is_bool (get_arg t 0) then
       (let tmp = br_get (mk_not_core rw (get_arg t 0)) (m_mk_not (get_arg t 0))
        in BR_DONE (br_get (mk_eq_core rw tmp (get_arg t 1)) (m_mk_eq tmp (get_arg t 1))))
     else BR_FAILED)"
| "mk_eq_core rw lhs0 rhs0 =
    (if m_are_equal lhs0 rhs0 then BR_DONE m_mk_true
     else if m_are_distinct lhs0 rhs0 then BR_DONE m_mk_false
     else
     let r = (if m_ite_extra_rules rw then
                (if m_is_ite lhs0 \<and> m_is_value rhs0 then try_ite_value lhs0 rhs0
                 else if m_is_ite rhs0 \<and> m_is_value lhs0 then try_ite_value rhs0 lhs0
                 else BR_FAILED)
              else BR_FAILED) in
     if r \<noteq> BR_FAILED then r
     else if m_is_bool lhs0 then
       (let unfolded = (m_is_not lhs0 \<and> m_is_not rhs0);
            lhs = (if unfolded then get_arg lhs0 0 else lhs0);
            rhs = (if unfolded then get_arg rhs0 0 else rhs0) in
        if m_is_true lhs then BR_DONE rhs
        else if m_is_false lhs then BR_DONE (br_get (mk_not_core rw rhs) (m_mk_not rhs))
        else if m_is_true rhs then BR_DONE lhs
        else if m_is_false rhs then BR_DONE (br_get (mk_not_core rw lhs) (m_mk_not lhs))
        else if m_is_complement lhs rhs then BR_DONE m_mk_false
        else if unfolded then BR_DONE (m_mk_eq lhs rhs)
        else if m_is_eq lhs \<and> m_is_eq rhs \<and>
          (let la = get_arg lhs 0; lb = get_arg lhs 1; ra = get_arg rhs 0; rb = get_arg rhs 1 in
           (la = ra \<and> ((m_is_not rb \<and> get_arg rb 0 = lb) \<or> (m_is_not lb \<and> get_arg lb 0 = rb))) \<or>
           (lb = rb \<and> ((m_is_not ra \<and> get_arg ra 0 = la) \<or> (m_is_not la \<and> get_arg la 0 = ra))))
        then BR_DONE m_mk_false
        else BR_FAILED)
     else BR_FAILED)"
  by pat_completeness auto

text \<open>Both return a term whose weight is bounded by that of the term they replace.\<close>

lemma weight_ge_2 [simp]: "2 \<le> weight e"
  by (cases e) auto

lemma weight_ge_1 [simp]: "Suc 0 \<le> weight e" "0 < weight e" "Suc 0 < weight e" "Suc 0 < 2 * weight e"
  using weight_ge_2 [of e] by linarith+

definition weights :: "expr list \<Rightarrow> nat" where
  "weights es = sum_list (map weight es)"

lemma weights_simps [simp]:
  "weights [] = 0" "weights (e # es) = weight e + weights es" "weights (xs @ ys) = weights xs + weights ys"
  "weights (rev xs) = weights xs"
  by (simp_all add: weights_def flip: rev_map)

lemma weight_mk [simp]:
  "weight m_mk_true = 2"
  "weight m_mk_false = 2"
  "weight (m_mk_not a) = weight a"
  "weight (m_mk_eq a b) = weight a * weight b"
  "weight (m_mk_and xs) = 2 + weights xs"
  "weight (m_mk_or xs) = 2 + weights xs"
  "weight (m_mk_ite c t e) = 2 + weight c + weight t + weight e"
proof -
  have "1 \<le> weight b" using weight_ge_2 [of b] by linarith
  then have "2 * 1 \<le> weight a * weight b"
    by (intro mult_le_mono) simp_all
  then show "weight (m_mk_eq a b) = weight a * weight b"
    by (simp add: m_mk_eq_def)
qed (use weight_ge_2 [of a] in \<open>simp_all add: m_mk_true_def m_mk_false_def m_mk_not_def m_mk_and_def m_mk_or_def m_mk_ite_def weights_def\<close>)

lemma weight_ite_val:
  assumes "x \<le> t * weight v" "y \<le> e * weight v"
  shows "2 + c + x + y < (2 + c + t + e) * weight v"
proof -
  have "c * 2 \<le> c * weight v" by (rule mult_left_mono) simp_all
  moreover have "(2 + c + t + e) * weight v = 2 * weight v + c * weight v + t * weight v + e * weight v"
    by (simp add: algebra_simps)
  ultimately show ?thesis using assms weight_ge_2 [of v] by linarith
qed


lemma try_ite_value_weight:
  "br_result (try_ite_value ite v) = Some r \<Longrightarrow> weight r < weight ite * weight v"
proof (induction ite arbitrary: r rule: measure_induct_rule [of size])
  case (less ite)
  show ?case
  proof (cases "m_is_ite ite")
    case True
    then obtain c t e where ite: "ite = m_mk_ite c t e" by (rule m_is_iteE)
    have w: "2 + weight c + x + y < (2 + weight c + weight t + weight e) * weight v"
      if "x \<le> weight t * weight v" "y \<le> weight e * weight v" for x y
      using weight_ite_val that by blast
    have IH: "br_result (try_ite_value t v) = Some r' \<Longrightarrow> weight r' \<le> weight t * weight v"
      "br_result (try_ite_value e v) = Some r' \<Longrightarrow> weight r' \<le> weight e * weight v" for r'
      using less.IH [of t] less.IH [of e] by (auto simp: ite m_mk_ite_def less_imp_le)
    show ?thesis
      using less.prems w [of "weight t * weight v" 0] w [of 0 "weight e * weight v"] w [of 0 0]
        w [OF IH(1) order_refl] w [OF order_refl IH(2)]
      by (subst (asm) try_ite_value.simps)
         (auto simp: ite Let_def add_ac split: if_splits option.splits)
  next
    case False
    then show ?thesis using less.prems by (simp add: try_ite_value.simps)
  qed
qed

lemma br_get_simps [simp]:
  "br_get (BR_DONE e) d = e" "br_get BR_FAILED d = d" "br_get (BR_REWRITE1 e) d = e" 
  "br_get (BR_REWRITE2 e) d = e" "br_get (BR_REWRITE3 e) d = e" "br_get (BR_REWRITE_FULL e) d = e" 
  by (simp_all add: br_get_def)

lemma br_getE:
  assumes "\<And>e. br_result st = Some e \<Longrightarrow> P e" "P d"
  shows "P (br_get st d)"
  using assms by (simp add: br_get_def split: option.split)


lemma mk_not_mk_eq_weight:
  "mk_not_core_mk_eq_core_dom (Inl (rw, t)) \<Longrightarrow>
     weight (br_get (mk_not_core rw t) (m_mk_not t)) \<le> weight t"
  "mk_not_core_mk_eq_core_dom (Inr (rw, l, r)) \<Longrightarrow>
     weight (br_get (mk_eq_core rw l r) (m_mk_eq l r)) \<le> weight l * weight r"
proof (induction rw t and rw l r rule: mk_not_core_mk_eq_core.pinduct)
  case (1 rw t)
  note dom = 1(1) and IH = 1(2-)
  show ?case
  proof (cases "m_is_eq t \<and> m_is_bool (get_arg t 0)")
    case True
    then obtain a b where t: "t = m_mk_eq a b" by (auto elim: m_is_eqE)
    define tmp where "tmp = br_get (mk_not_core rw a) (m_mk_not a)"
    have "weight tmp \<le> weight a"
      using IH(1) True by (auto simp: t tmp_def m_mk_defs m_is_defs)
    moreover have "weight (br_get (mk_eq_core rw tmp b) (m_mk_eq tmp b)) \<le> weight tmp * weight b"
      using IH(2) True by (auto simp: t tmp_def m_mk_defs m_is_defs)
    ultimately have "weight (br_get (mk_eq_core rw tmp b) (m_mk_eq tmp b)) \<le> weight a * weight b"
      by (meson mult_le_mono1 order_trans)
    then show ?thesis using True
      by (subst mk_not_core.psimps [OF dom]) (simp add: t Let_def tmp_def)
  next
    case False
    then show ?thesis
      by (auto simp: mk_not_core.psimps [OF dom] elim!: m_is_notE)
  qed
next
  case (2 rw l r)
  note dom = 2(1) and IH = 2(2-)
  have le: "2 \<le> weight l * weight r" "weight l \<le> weight l * weight r" "weight r \<le> weight l * weight r"
    using weight_ge_1 [of l] weight_ge_1 [of r] weight_ge_2 [of "m_mk_eq l r"]
    by (simp_all del: weight_ge_1 weight_ge_2)
  define x where "x = (if m_ite_extra_rules rw then
                (if m_is_ite l \<and> m_is_value r then try_ite_value l r
                 else if m_is_ite r \<and> m_is_value l then try_ite_value r l
                 else BR_FAILED)
              else BR_FAILED)"
  have x: "weight (br_get x d) \<le> weight l * weight r" if nf: "x \<noteq> BR_FAILED" for d
  proof -
    obtain e where "br_result x = Some e" using nf by (cases x) auto
    then show ?thesis using try_ite_value_weight [of l r e] try_ite_value_weight [of r l e]
      by (auto simp: x_def br_get_def mult.commute less_imp_le split: if_splits)
  qed
  define u where "u = (m_is_not l \<and> m_is_not r)"
  define l' where "l' = (if u then get_arg l 0 else l)"
  define r' where "r' = (if u then get_arg r 0 else r)"
  have same: "weight l' = weight l" "weight r' = weight r"
    by (auto simp: u_def l'_def r'_def elim!: m_is_notE)
  note I = IH [OF _ _ x_def _ _ u_def l'_def r'_def]
  have le': "weight (m_mk_eq l' r') \<le> weight l * weight r" by (simp add: same)

  have n1: "weight (br_get (mk_not_core rw r') (m_mk_not r')) \<le> weight l * weight r"
    if "l \<noteq> r" "\<not> m_are_distinct l r" "x = BR_FAILED" "m_is_bool l" "\<not> m_is_true l'" "m_is_false l'"
    using I(1) that le same by (simp add: order_trans)
  have n2: "weight (br_get (mk_not_core rw l') (m_mk_not l')) \<le> weight l * weight r"
    if "l \<noteq> r" "\<not> m_are_distinct l r" "x = BR_FAILED" "m_is_bool l" "\<not> m_is_true l'" "\<not> m_is_false l'"
       "\<not> m_is_true r'" "m_is_false r'"
    using I(2) that le same by (simp add: order_trans)
  show ?case
  proof (cases "l \<noteq> r \<and> \<not> m_are_distinct l r \<and> x = BR_FAILED \<and> m_is_bool l")
    case True
    then have b: "l \<noteq> r" "\<not> m_are_distinct l r" "x = BR_FAILED" "m_is_bool l" by simp_all
    show ?thesis
      apply (subst mk_eq_core.psimps [OF dom])
      apply (simp only: Let_def b m_are_equal_iff if_False if_True not_True_eq_False flip: x_def u_def l'_def r'_def)
      using n1 [OF b] n2 [OF b] le same
      by (cases "m_is_true l'"; cases "m_is_false l'"; cases "m_is_true r'"; cases "m_is_false r'"; simp add: same)
  next
    case False
    show ?thesis
      apply (subst mk_eq_core.psimps [OF dom])
      apply (simp only: Let_def m_are_equal_iff flip: x_def)
      using False le x
      by (cases "l = r"; cases "m_are_distinct l r"; cases "x = BR_FAILED"; simp)
  qed
qed

lemma weight_eq_less: "weight a < weight a * weight b" "weight a < weight b * weight a"
  using weight_ge_2 [of b] by (simp_all add: Suc_le_lessD)

lemma weight_eq_less2: "Suc (2 * weight a) < 2 * (weight a * weight b)" "Suc (2 * weight a) < 2 * (weight b * weight a)"
proof -
  have "weight a * 2 \<le> weight a * weight b" by (rule mult_le_mono2) simp
  then show "Suc (2 * weight a) < 2 * (weight a * weight b)" using weight_ge_2 [of a] by linarith
  then show "Suc (2 * weight a) < 2 * (weight b * weight a)" by (simp add: mult.commute)
qed

text \<open>Every call of either function ends.\<close>

lemma mk_not_mk_eq_dom: "All mk_not_core_mk_eq_core_dom"
proof (relation "measure (case_sum (\<lambda>(rw, t). 2 * weight t + 1) (\<lambda>(rw, l, r). 2 * (weight l * weight r)))",
    goal_cases)
  case 1 show ?case by simp
next
  case (2 rw t)
  then show ?case by (auto simp: weight_eq_less elim: m_is_eqE)
next
  case (3 rw t x)
  then obtain a b where "t = m_mk_eq a b" by (auto elim: m_is_eqE)
  then show ?case using 3 mk_not_mk_eq_weight(1) [of rw a] by (simp add: le_imp_less_Suc)
next
  case 4
  then show ?case by (auto simp: weight_eq_less2 elim!: m_is_notE split: if_splits)
next
  case 5
  then show ?case by (auto simp: weight_eq_less2 elim!: m_is_notE split: if_splits)
qed

termination mk_not_core
  by (rule mk_not_mk_eq_dom)

declare mk_not_core.simps [simp del] mk_eq_core.simps [simp del]

definition rw_mk_not :: "bool_rewriter \<Rightarrow> expr \<Rightarrow> expr" where
  "rw_mk_not rw t = br_get (mk_not_core rw t) (m_mk_not t)"

definition rw_mk_eq :: "bool_rewriter \<Rightarrow> expr \<Rightarrow> expr \<Rightarrow> expr" where
  "rw_mk_eq rw lhs rhs = br_get (mk_eq_core rw lhs rhs) (m_mk_eq lhs rhs)"

definition mk_iff_core :: "bool_rewriter \<Rightarrow> expr \<Rightarrow> expr \<Rightarrow> br_status" where
  "mk_iff_core rw lhs rhs = mk_eq_core rw lhs rhs"

definition rw_mk_iff :: "bool_rewriter \<Rightarrow> expr \<Rightarrow> expr \<Rightarrow> expr" where
  "rw_mk_iff rw lhs rhs = rw_mk_eq rw lhs rhs"

definition rw_mk_xor :: "bool_rewriter \<Rightarrow> expr \<Rightarrow> expr \<Rightarrow> expr" where
  "rw_mk_xor rw lhs rhs = rw_mk_eq rw (rw_mk_not rw lhs) rhs"

end
