(* ===== verification/Bool_Rewriter_Nary.thy ===== *)
theory Bool_Rewriter_Nary
  imports Bool_Rewriter
begin

text \<open>
  The rest of \<open>bool_rewriter\<close>: conjunctions and disjunctions with any number of arguments,
  the local context simplifier, \<open>distinct\<close>, if-then-else, and the dispatch \<open>mk_app_core\<close>.
  The marks \<open>expr_fast_mark1\<close> and \<open>expr_fast_mark2\<close> are the lists of the marked nodes.
\<close>

section \<open>Conjunctions\<close>

text \<open>The loop of \<open>mk_nflat_and_core\<close>: \<open>None\<close> when it returns with \<open>false\<close>.\<close>

fun nflat_and_loop :: "expr list \<Rightarrow> expr list \<Rightarrow> expr list \<Rightarrow> bool \<Rightarrow> expr list \<Rightarrow> (bool \<times> expr list) option" where
  "nflat_and_loop [] neg_lits pos_lits s buffer = Some (s, buffer)"
| "nflat_and_loop (arg # args) neg_lits pos_lits s buffer =
    (if m_is_true arg then nflat_and_loop args neg_lits pos_lits True buffer
     else if m_is_false arg then None
     else if m_is_not arg then
       (let atom = get_arg arg 0 in
        if atom \<in> set neg_lits then nflat_and_loop args neg_lits pos_lits True buffer
        else if atom \<in> set pos_lits then None
        else nflat_and_loop args (atom # neg_lits) pos_lits s (buffer @ [arg]))
     else
       (if arg \<in> set pos_lits then nflat_and_loop args neg_lits pos_lits True buffer
        else if arg \<in> set neg_lits then None
        else nflat_and_loop args neg_lits (arg # pos_lits) s (buffer @ [arg])))"

definition mk_nflat_and_core :: "expr list \<Rightarrow> br_status" where
  "mk_nflat_and_core args =
    (case nflat_and_loop args [] [] False [] of
       None \<Rightarrow> BR_DONE m_mk_false
     | Some (s, buffer) \<Rightarrow>
         (if length buffer = 0 then BR_DONE m_mk_true
          else if length buffer = 1 then BR_DONE (last buffer)
          else if s then BR_DONE (m_mk_and buffer)
          else BR_FAILED))"

definition mk_flat_and_core :: "expr list \<Rightarrow> br_status" where
  "mk_flat_and_core args =
    (if list_ex m_is_and args then
       (let pre = takeWhile (\<lambda>a. \<not> m_is_and a) args;
            rest = dropWhile (\<lambda>a. \<not> m_is_and a) args;
            flat_args = pre @ concat (map (\<lambda>arg. if m_is_and arg then get_args arg else [arg]) rest)
        in BR_DONE (br_get (mk_nflat_and_core flat_args) (m_mk_and flat_args)))
     else mk_nflat_and_core args)"

section \<open>The local context simplifier\<close>

definition mk_or_app :: "expr list \<Rightarrow> expr" where
  "mk_or_app args =
    (if length args = 0 then m_mk_false else if length args = 1 then args ! 0 else m_mk_or args)"

text \<open>
  \<open>simp_nested_not_or\<close> works on the arguments of a disjunction under a negation. Its loop
  answers \<open>None\<close> when an argument is true in the context (the result is then \<open>false\<close>), and
  otherwise the flag \<open>simp\<close> with \<open>new_args\<close>. The functions that may fail return the result
  in an option.
\<close>

fun nested_not_or_loop :: "expr list \<Rightarrow> expr list \<Rightarrow> expr list \<Rightarrow> bool \<Rightarrow> expr list \<Rightarrow> (bool \<times> expr list) option" where
  "nested_not_or_loop [] neg_lits pos_lits simp new_args = Some (simp, new_args)"
| "nested_not_or_loop (arg # args) neg_lits pos_lits simp new_args =
    (if arg \<in> set neg_lits then None
     else if arg \<in> set pos_lits then nested_not_or_loop args neg_lits pos_lits True new_args
     else if m_is_not arg \<and> get_arg arg 0 \<in> set neg_lits then
       nested_not_or_loop args neg_lits pos_lits True new_args
     else if m_is_not arg \<and> get_arg arg 0 \<in> set pos_lits then None
     else nested_not_or_loop args neg_lits pos_lits simp (new_args @ [arg]))"

definition simp_nested_not_or ::
    "bool_rewriter \<Rightarrow> expr list \<Rightarrow> expr list \<Rightarrow> expr list \<Rightarrow> expr option \<times> bool_rewriter" where
  "simp_nested_not_or rw args neg_lits pos_lits =
    (let rw1 = add_cost (length args) rw in
     case nested_not_or_loop args neg_lits pos_lits False [] of
       None \<Rightarrow> (Some m_mk_false, rw1)
     | Some (simp, new_args) \<Rightarrow>
         (if simp then
            (if length new_args = 0 then (Some m_mk_true, rw1)
             else if length new_args = 1 then (Some (rw_mk_not rw1 (new_args ! 0)), rw1)
             else (Some (m_mk_not (m_mk_or new_args)), rw1))
          else (None, rw1)))"

text \<open>The second component is set when \<open>modified\<close> is.\<close>

definition simp_arg :: "expr \<Rightarrow> expr list \<Rightarrow> expr list \<Rightarrow> expr \<times> bool" where
  "simp_arg arg neg_lits pos_lits =
    (if m_is_not arg then
       (let atom = get_arg arg 0 in
        if atom \<in> set neg_lits then (m_mk_false, True)
        else if atom \<in> set pos_lits then (m_mk_true, True)
        else (arg, False))
     else
       (if arg \<in> set neg_lits then (m_mk_true, True)
        else if arg \<in> set pos_lits then (m_mk_false, True)
        else (arg, False)))"

definition mk_nested_ite :: "bool_rewriter \<Rightarrow> expr \<Rightarrow> expr \<Rightarrow> expr \<Rightarrow> expr" where
  "mk_nested_ite rw c t e =
    (if m_is_true c then t
     else if m_is_false c then e
     else if t = e then t
     else if m_is_bool t \<and> m_is_true t then
       (if m_is_false e then c else m_mk_or [c, e])
     else if m_is_bool t \<and> m_is_false t then
       (if m_is_true e then rw_mk_not rw c
        else m_mk_not (m_mk_or [c, rw_mk_not rw e]))
     else if m_is_bool t \<and> m_is_true e then m_mk_or [rw_mk_not rw c, t]
     else if m_is_bool t \<and> (m_is_false e \<or> c = e) then
       m_mk_not (m_mk_or [rw_mk_not rw c, rw_mk_not rw t])
     else if m_is_bool t \<and> c = t then m_mk_or [c, e]
     else if m_is_bool t \<and> m_is_complement_core t e then rw_mk_eq rw c t
     else if m_is_bool t \<and> m_is_complement_core e t then rw_mk_eq rw c t
     else m_mk_ite c t e)"

definition simp_nested_eq_ite ::
    "bool_rewriter \<Rightarrow> expr \<Rightarrow> expr list \<Rightarrow> expr list \<Rightarrow> expr option \<times> bool_rewriter" where
  "simp_nested_eq_ite rw t0 neg_lits pos_lits =
    (let rw1 = add_cost 3 rw;
         neg = m_is_not t0;
         t = (if neg then get_arg t0 0 else t0) in
     if m_is_eq t then
       (let (new_lhs, modified1) = simp_arg (get_arg t 0) neg_lits pos_lits;
            (new_rhs, modified2) = simp_arg (get_arg t 1) neg_lits pos_lits in
        if \<not> (modified1 \<or> modified2) then (None, rw1)
        else
          (let result = rw_mk_eq rw1 new_lhs new_rhs
           in (Some (if neg then rw_mk_not rw1 result else result), rw1)))
     else if m_is_ite t then
       (let (new_c, modified1) = simp_arg (get_arg t 0) neg_lits pos_lits;
            (new_t, modified2) = simp_arg (get_arg t 1) neg_lits pos_lits;
            (new_e, modified3) = simp_arg (get_arg t 2) neg_lits pos_lits in
        if \<not> (modified1 \<or> modified2 \<or> modified3) then (None, rw1)
        else
          (let result = mk_nested_ite rw1 new_c new_t new_e
           in (Some (if neg then rw_mk_not rw1 result else result), rw1)))
     else (None, rw1))"

text \<open>The variables of the loop of \<open>local_ctx_simp\<close> that \<open>PROCESS_ARG\<close> changes.\<close>

record local_ctx_state =
  lc_neg_lits :: "expr list"
  lc_pos_lits :: "expr list"
  lc_new_args :: "expr list"
  lc_modified :: bool
  lc_simped :: bool

definition push_new_arg :: "expr \<Rightarrow> local_ctx_state \<Rightarrow> local_ctx_state" where
  "push_new_arg arg st =
    (if m_is_not arg then
       (let narg = get_arg arg 0 in
        if narg \<notin> set (lc_neg_lits st)
        then st\<lparr>lc_neg_lits := narg # lc_neg_lits st, lc_new_args := lc_new_args st @ [arg]\<rparr>
        else st)
     else
       (if arg \<notin> set (lc_pos_lits st)
        then st\<lparr>lc_pos_lits := arg # lc_pos_lits st, lc_new_args := lc_new_args st @ [arg]\<rparr>
        else st))"

text \<open>
  \<open>PROCESS_ARG()\<close>: \<open>Inl arg\<close> when the macro returns with the argument as result, which it
  does on \<open>true\<close>; otherwise the state at the next iteration.
\<close>

definition process_arg ::
    "bool_rewriter \<Rightarrow> expr \<Rightarrow> local_ctx_state \<Rightarrow> (expr + local_ctx_state) \<times> bool_rewriter" where
  "process_arg rw arg0 st0 =
    (let (r1, rw1) =
           (if m_is_not arg0 \<and> m_is_or (get_arg arg0 0)
            then simp_nested_not_or rw (get_args (get_arg arg0 0)) (lc_neg_lits st0) (lc_pos_lits st0)
            else (None, rw));
         (arg1, st1) =
           (case r1 of None \<Rightarrow> (arg0, st0)
            | Some new_arg \<Rightarrow> (new_arg, st0\<lparr>lc_modified := True, lc_simped := True\<rparr>));
         (r2, rw2) = simp_nested_eq_ite rw1 arg1 (lc_neg_lits st1) (lc_pos_lits st1);
         (arg, st) =
           (case r2 of None \<Rightarrow> (arg1, st1)
            | Some new_arg \<Rightarrow> (new_arg, st1\<lparr>lc_modified := True, lc_simped := True\<rparr>)) in
     if m_is_false arg then (Inr st, rw2)
     else if m_is_true arg then (Inl arg, rw2)
     else if m_flat rw2 \<and> m_is_or arg then (Inr (fold push_new_arg (get_args arg) st), rw2)
     else (Inr (push_new_arg arg st), rw2))"

fun process_args ::
    "bool_rewriter \<Rightarrow> expr list \<Rightarrow> local_ctx_state \<Rightarrow> (expr + local_ctx_state) \<times> bool_rewriter" where
  "process_args rw [] st = (Inr st, rw)"
| "process_args rw (arg # args) st =
    (case process_arg rw arg st of
       (Inl e, rw') \<Rightarrow> (Inl e, rw')
     | (Inr st', rw') \<Rightarrow> process_args rw' args st')"

text \<open>
  The rounds of \<open>local_ctx_simp\<close>, with fuel; \<open>None\<close> is running out of it. A forward round is
  followed by a backward one, and the loop goes on while a pair of rounds lc_modified something.
\<close>

fun local_ctx_rounds ::
    "nat \<Rightarrow> bool_rewriter \<Rightarrow> bool \<Rightarrow> bool \<Rightarrow> bool \<Rightarrow> expr list \<Rightarrow> (expr option \<times> bool_rewriter) option" where
  "local_ctx_rounds 0 rw forward modif simp args = None"
| "local_ctx_rounds (Suc fuel) rw forward modif simp args =
    (let rw1 = add_cost (2 * length args) rw;
         st0 = \<lparr>lc_neg_lits = [], lc_pos_lits = [], lc_new_args = [], lc_modified = modif, lc_simped = simp\<rparr> in
     if forward then
       (case process_args rw1 args st0 of
          (Inl e, rw2) \<Rightarrow> Some (Some e, rw2)
        | (Inr st, rw2) \<Rightarrow> local_ctx_rounds fuel rw2 False (lc_modified st) (lc_simped st) (lc_new_args st))
     else
       (case process_args rw1 (rev args) st0 of
          (Inl e, rw2) \<Rightarrow> Some (Some e, rw2)
        | (Inr st, rw2) \<Rightarrow>
            (if \<not> lc_modified st then
               (if lc_simped st then Some (Some (mk_or_app args), rw2) else Some (None, rw2))
             else local_ctx_rounds fuel rw2 True False (lc_simped st) (rev (lc_new_args st)))))"

text \<open>
  Each pair of rounds that modifies an argument makes the list of arguments lighter, so this
  much fuel is enough for well-sorted arguments (proved as \<open>local_ctx_fuel_enough\<close>).
\<close>

definition local_ctx_fuel :: "expr list \<Rightarrow> nat" where
  "local_ctx_fuel args = 2 * weights args + 2"

definition local_ctx_simp :: "bool_rewriter \<Rightarrow> expr list \<Rightarrow> expr option \<times> bool_rewriter" where
  "local_ctx_simp rw args =
    (case local_ctx_rounds (local_ctx_fuel args) rw True False False args of
       Some r \<Rightarrow> r
     | None \<Rightarrow> (None, rw))"

section \<open>Disjunctions\<close>

fun nflat_or_loop ::
    "(expr \<Rightarrow> expr \<Rightarrow> bool) \<Rightarrow> expr list \<Rightarrow> expr list \<Rightarrow> expr list \<Rightarrow> expr option \<Rightarrow> bool \<Rightarrow> expr list
      \<Rightarrow> (bool \<times> expr list) option" where
  "nflat_or_loop lt [] neg_lits pos_lits prev s buffer = Some (s, buffer)"
| "nflat_or_loop lt (arg # args) neg_lits pos_lits prev s buffer =
    (let s' = (s \<or> (case prev of None \<Rightarrow> False | Some p \<Rightarrow> lt arg p)) in
     if m_is_true arg then None
     else if m_is_false arg then nflat_or_loop lt args neg_lits pos_lits prev True buffer
     else if m_is_not arg then
       (let atom = get_arg arg 0 in
        if atom \<in> set neg_lits then nflat_or_loop lt args neg_lits pos_lits prev True buffer
        else if atom \<in> set pos_lits then None
        else nflat_or_loop lt args (atom # neg_lits) pos_lits (Some arg) s' (buffer @ [arg]))
     else
       (if arg \<in> set pos_lits then nflat_or_loop lt args neg_lits pos_lits prev True buffer
        else if arg \<in> set neg_lits then None
        else nflat_or_loop lt args neg_lits (arg # pos_lits) (Some arg) s' (buffer @ [arg])))"

text \<open>\<open>std::sort(..., ast_lt())\<close>: by the identifiers of the nodes.\<close>

definition sort_ast :: "bool_rewriter \<Rightarrow> expr list \<Rightarrow> expr list" where
  "sort_ast rw args = sort_key (node_id (m_manager rw)) args"

definition mk_nflat_or_core :: "bool_rewriter \<Rightarrow> expr list \<Rightarrow> br_status \<times> bool_rewriter" where
  "mk_nflat_or_core rw args =
    (case nflat_or_loop (node_lt (m_manager rw)) args [] [] None False [] of
       None \<Rightarrow> (BR_DONE m_mk_true, rw)
     | Some (s, buffer) \<Rightarrow>
         (if length buffer = 0 then (BR_DONE m_mk_false, rw)
          else if length buffer = 1 then (BR_DONE (last buffer), rw)
          else
            (let (r, rw1) = (if m_local_ctx rw \<and> m_local_ctx_cost rw \<le> m_local_ctx_limit rw
                             then local_ctx_simp rw buffer else (None, rw)) in
             case r of
               Some e \<Rightarrow> (BR_DONE e, rw1)
             | None \<Rightarrow>
                 (if s then (BR_DONE (m_mk_or (sort_ast rw buffer)), rw1) else (BR_FAILED, rw1)))))"

text \<open>
  \<open>mk_flat_or_core\<close>: the arguments before the first disjunction are copied as they are, the
  test of the order starts at that argument.
\<close>

fun flat_or_ordered :: "(expr \<Rightarrow> expr \<Rightarrow> bool) \<Rightarrow> expr list \<Rightarrow> expr option \<Rightarrow> bool \<Rightarrow> bool" where
  "flat_or_ordered lt [] prev ordered = ordered"
| "flat_or_ordered lt (arg # args) prev ordered =
    (if m_is_or arg then flat_or_ordered lt args prev False
     else flat_or_ordered lt args (Some arg)
       (ordered \<and> (case prev of None \<Rightarrow> True | Some p \<Rightarrow> \<not> lt arg p)))"

definition mk_flat_or_core :: "bool_rewriter \<Rightarrow> expr list \<Rightarrow> br_status \<times> bool_rewriter" where
  "mk_flat_or_core rw args =
    (if list_ex m_is_or args then
       (let pre = takeWhile (\<lambda>a. \<not> m_is_or a) args;
            rest = dropWhile (\<lambda>a. \<not> m_is_or a) args;
            flat_args = pre @ concat (map (\<lambda>arg. if m_is_or arg then get_args arg else [arg]) rest);
            ordered = flat_or_ordered (node_lt (m_manager rw)) rest None True;
            (st, rw1) = mk_nflat_or_core rw flat_args in
        (BR_DONE (br_get st (m_mk_or (if \<not> ordered then sort_ast rw flat_args else flat_args))), rw1))
     else mk_nflat_or_core rw args)"

definition mk_or_core :: "bool_rewriter \<Rightarrow> expr list \<Rightarrow> br_status \<times> bool_rewriter" where
  "mk_or_core rw args = (if m_flat rw then mk_flat_or_core rw args else mk_nflat_or_core rw args)"

definition rw_mk_or :: "bool_rewriter \<Rightarrow> expr list \<Rightarrow> expr \<times> bool_rewriter" where
  "rw_mk_or rw args = (let (st, rw1) = mk_or_core rw args in (br_get st (m_mk_or args), rw1))"

definition mk_and_as_or :: "bool_rewriter \<Rightarrow> expr list \<Rightarrow> expr \<times> bool_rewriter" where
  "mk_and_as_or rw args =
    (let new_args = map (rw_mk_not rw) args;
         (tmp, rw1) = rw_mk_or rw new_args
     in (rw_mk_not rw1 tmp, rw1))"

definition mk_and_core :: "bool_rewriter \<Rightarrow> expr list \<Rightarrow> br_status \<times> bool_rewriter" where
  "mk_and_core rw args =
    (if m_elim_and rw then (let (r, rw1) = mk_and_as_or rw args in (BR_DONE r, rw1))
     else if m_flat rw then (mk_flat_and_core args, rw)
     else (mk_nflat_and_core args, rw))"

definition rw_mk_and :: "bool_rewriter \<Rightarrow> expr list \<Rightarrow> expr \<times> bool_rewriter" where
  "rw_mk_and rw args = (let (st, rw1) = mk_and_core rw args in (br_get st (m_mk_and args), rw1))"

definition rw_mk_implies :: "bool_rewriter \<Rightarrow> expr \<Rightarrow> expr \<Rightarrow> expr \<times> bool_rewriter" where
  "rw_mk_implies rw lhs rhs = rw_mk_or rw [rw_mk_not rw lhs, rhs]"

definition rw_mk_nand :: "bool_rewriter \<Rightarrow> expr list \<Rightarrow> expr \<times> bool_rewriter" where
  "rw_mk_nand rw args = (let (tmp, rw1) = rw_mk_and rw args in (rw_mk_not rw1 tmp, rw1))"

definition rw_mk_nor :: "bool_rewriter \<Rightarrow> expr list \<Rightarrow> expr \<times> bool_rewriter" where
  "rw_mk_nor rw args = (let (tmp, rw1) = rw_mk_or rw args in (rw_mk_not rw1 tmp, rw1))"

section \<open>Distinct\<close>

text \<open>
  The loop over \<open>j\<close> compares an argument with those before it: \<open>None\<close> when it returns with
  \<open>false\<close>, otherwise the new value of \<open>all_diff\<close>.
\<close>

fun distinct_inner :: "expr \<Rightarrow> expr list \<Rightarrow> bool option" where
  "distinct_inner arg [] = Some True"
| "distinct_inner arg (a # before) =
    (if m_are_distinct arg a then distinct_inner arg before
     else if m_are_equal arg a then None
     else Some False)"

text \<open>The arguments before the current one are also the nodes marked by \<open>visited\<close>.\<close>

fun distinct_loop :: "expr list \<Rightarrow> expr list \<Rightarrow> bool \<Rightarrow> bool \<Rightarrow> bool option" where
  "distinct_loop visited [] all_value all_diff = Some all_diff"
| "distinct_loop visited (arg # args) all_value all_diff =
    (if arg \<in> set visited then None
     else
       (let all_value' = (all_value \<and> m_is_unique_value arg) in
        if \<not> all_value' \<and> all_diff then
          (case distinct_inner arg visited of
             None \<Rightarrow> None
           | Some all_diff' \<Rightarrow> distinct_loop (visited @ [arg]) args all_value' all_diff')
        else distinct_loop (visited @ [arg]) args all_value' all_diff))"

fun mk_diseqs :: "expr list \<Rightarrow> expr list" where
  "mk_diseqs [] = []"
| "mk_diseqs (a # args) = map (\<lambda>b. m_mk_not (m_mk_eq a b)) args @ mk_diseqs args"

definition mk_distinct_core :: "bool_rewriter \<Rightarrow> expr list \<Rightarrow> br_status" where
  "mk_distinct_core rw args =
    (if length args \<le> 1 then BR_DONE m_mk_true
     else if length args = 2 then BR_REWRITE2 (m_mk_not (m_mk_eq (args ! 0) (args ! 1)))
     else
       (case distinct_loop [] args True True of
          None \<Rightarrow> BR_DONE m_mk_false
        | Some all_diff \<Rightarrow>
            (if all_diff then BR_DONE m_mk_true
             else if m_is_bool (args ! 0) then BR_DONE m_mk_false
             else if m_blast_distinct rw \<and> length args < unat (m_blast_distinct_threshold rw) then
               BR_REWRITE3 (m_mk_and (mk_diseqs args))
             else BR_FAILED)))"

definition rw_mk_distinct :: "bool_rewriter \<Rightarrow> expr list \<Rightarrow> expr" where
  "rw_mk_distinct rw args = br_get (mk_distinct_core rw args) (m_mk_distinct args)"

section \<open>If-then-else\<close>

text \<open>
  \<open>mk_ite_core\<close> in its parts: the rules for Boolean branches, the extra rules for nested
  if-then-elses, and the whole. \<open>BR_FAILED\<close> of a part is falling through to the next one.
\<close>

definition mk_ite_bool :: "bool_rewriter \<Rightarrow> expr \<Rightarrow> expr \<Rightarrow> expr \<Rightarrow> br_status \<times> bool_rewriter" where
  "mk_ite_bool rw c t e =
    (if m_is_true t \<and> m_is_false e then (BR_DONE c, rw)
     else if m_is_true t \<and> m_elim_ite rw then
       (let (r, rw1) = rw_mk_or rw [c, e] in (BR_DONE r, rw1))
     else if m_is_false t \<and> m_is_true e then (BR_DONE (rw_mk_not rw c), rw)
     else if m_is_false t \<and> m_elim_ite rw then
       (let (r, rw1) = rw_mk_and rw [rw_mk_not rw c, e] in (BR_DONE r, rw1))
     else if m_is_true e \<and> m_elim_ite rw then
       (let (r, rw1) = rw_mk_or rw [rw_mk_not rw c, t] in (BR_DONE r, rw1))
     else if m_is_false e \<and> m_elim_ite rw then
       (let (r, rw1) = rw_mk_and rw [c, t] in (BR_DONE r, rw1))
     else if c = e \<and> m_elim_ite rw then
       (let (r, rw1) = rw_mk_and rw [c, t] in (BR_DONE r, rw1))
     else if c = t \<and> m_elim_ite rw then
       (let (r, rw1) = rw_mk_or rw [c, e] in (BR_DONE r, rw1))
     else if m_is_complement_core t e \<and> m_elim_ite rw then (BR_DONE (rw_mk_eq rw c t), rw)
     else if m_is_complement_core e t \<and> m_elim_ite rw then (BR_DONE (rw_mk_eq rw c t), rw)
     else (BR_FAILED, rw))"

definition mk_ite_nested_then :: "bool_rewriter \<Rightarrow> expr \<Rightarrow> expr \<Rightarrow> expr \<Rightarrow> br_status \<times> bool_rewriter" where
  "mk_ite_nested_then rw c t e =
    (if e = get_arg t 1 then
       (let not_c2 = rw_mk_not rw (get_arg t 0);
            (new_c, rw1) = rw_mk_and rw [c, not_c2]
        in (BR_REWRITE1 (m_mk_ite new_c (get_arg t 2) e), rw1))
     else if e = get_arg t 2 then
       (let (new_c, rw1) = rw_mk_and rw [c, get_arg t 0]
        in (BR_REWRITE1 (m_mk_ite new_c (get_arg t 1) e), rw1))
     else if m_is_ite e \<and> get_arg t 1 = get_arg e 1 \<and> get_arg t 2 = get_arg e 2 then
       (let (and1, rw1) = rw_mk_and rw [c, get_arg t 0];
            notc = rw_mk_not rw1 c;
            (and2, rw2) = rw_mk_and rw1 [notc, get_arg e 0];
            (new_c, rw3) = rw_mk_or rw2 [and1, and2]
        in (BR_REWRITE1 (m_mk_ite new_c (get_arg t 1) (get_arg t 2)), rw3))
     else if m_is_ite e \<and> get_arg t 1 = get_arg e 2 \<and> get_arg t 2 = get_arg e 1 then
       (let (and1, rw1) = rw_mk_and rw [c, get_arg t 0];
            notc = rw_mk_not rw1 c;
            notc3 = rw_mk_not rw1 (get_arg e 0);
            (and2, rw2) = rw_mk_and rw1 [notc, notc3];
            (new_c, rw3) = rw_mk_or rw2 [and1, and2]
        in (BR_REWRITE1 (m_mk_ite new_c (get_arg t 1) (get_arg t 2)), rw3))
     else (BR_FAILED, rw))"

definition mk_ite_nested_else :: "bool_rewriter \<Rightarrow> expr \<Rightarrow> expr \<Rightarrow> expr \<Rightarrow> br_status \<times> bool_rewriter" where
  "mk_ite_nested_else rw c t e =
    (if t = get_arg e 1 then
       (let (new_c, rw1) = rw_mk_or rw [c, get_arg e 0]
        in (BR_REWRITE1 (m_mk_ite new_c t (get_arg e 2)), rw1))
     else if t = get_arg e 2 then
       (let not_c2 = rw_mk_not rw (get_arg e 0);
            (new_c, rw1) = rw_mk_or rw [c, not_c2]
        in (BR_REWRITE1 (m_mk_ite new_c t (get_arg e 1)), rw1))
     else (BR_FAILED, rw))"

definition mk_ite_core :: "bool_rewriter \<Rightarrow> expr \<Rightarrow> expr \<Rightarrow> expr \<Rightarrow> br_status \<times> bool_rewriter" where
  "mk_ite_core rw c0 t0 e0 =
    (let (c, t1, e1, s1) =
           (if m_is_not c0 then (get_arg c0 0, e0, t0, True) else (c0, t0, e0, False));
         (t, s2) = (if m_is_ite t1 \<and> get_arg t1 0 = c then (get_arg t1 1, True) else (t1, s1));
         (e, s) = (if m_is_ite e1 \<and> get_arg e1 0 = c then (get_arg e1 2, True) else (e1, s2)) in
     if m_is_true c then (BR_DONE t, rw)
     else if m_is_false c then (BR_DONE e, rw)
     else if t = e then (BR_DONE t, rw)
     else
       (let (r1, rw1) = (if m_is_bool t then mk_ite_bool rw c t e else (BR_FAILED, rw)) in
        if r1 \<noteq> BR_FAILED then (r1, rw1)
        else
       (let (r2, rw2) = (if m_is_ite t \<and> m_ite_extra_rules rw1 \<and> m_elim_ite rw1
                         then mk_ite_nested_then rw1 c t e else (BR_FAILED, rw1)) in
        if r2 \<noteq> BR_FAILED then (r2, rw2)
        else
       (let (r3, rw3) = (if m_is_ite e \<and> m_ite_extra_rules rw2 \<and> m_elim_ite rw2
                         then mk_ite_nested_else rw2 c t e else (BR_FAILED, rw2)) in
        if r3 \<noteq> BR_FAILED then (r3, rw3)
        else if s then (BR_DONE (m_mk_ite c t e), rw3)
        else (BR_FAILED, rw3)))))"

definition rw_mk_ite :: "bool_rewriter \<Rightarrow> expr \<Rightarrow> expr \<Rightarrow> expr \<Rightarrow> expr \<times> bool_rewriter" where
  "rw_mk_ite rw c t e = (let (st, rw1) = mk_ite_core rw c t e in (br_get st (m_mk_ite c t e), rw1))"

section \<open>Dispatch\<close>

definition mk_app_core :: "bool_rewriter \<Rightarrow> basic_op_kind \<Rightarrow> expr list \<Rightarrow> br_status \<times> bool_rewriter" where
  "mk_app_core rw f args =
    (case f of
       OP_EQ \<Rightarrow> (mk_eq_core rw (args ! 0) (args ! 1), rw)
     | OP_DISTINCT \<Rightarrow> (mk_distinct_core rw args, rw)
     | OP_AND \<Rightarrow> mk_and_core rw args
     | OP_OR \<Rightarrow> mk_or_core rw args
     | OP_NOT \<Rightarrow> (mk_not_core rw (args ! 0), rw)
     | OP_ITE \<Rightarrow> mk_ite_core rw (args ! 0) (args ! 1) (args ! 2)
     | OP_IMPLIES \<Rightarrow> (let (r, rw1) = rw_mk_implies rw (args ! 0) (args ! 1) in (BR_DONE r, rw1))
     | OP_XOR \<Rightarrow>
         (if length args = 0 then (BR_FAILED, rw)
          else if length args = 1 then (BR_DONE (args ! 0), rw)
          else if length args = 2 then (BR_DONE (rw_mk_xor rw (args ! 0) (args ! 1)), rw)
          else (BR_FAILED, rw))
     | _ \<Rightarrow> (BR_FAILED, rw))"

definition rw_mk_app :: "bool_rewriter \<Rightarrow> basic_op_kind \<Rightarrow> expr list \<Rightarrow> expr \<times> bool_rewriter" where
  "rw_mk_app rw f args =
    (let (st, rw1) = mk_app_core rw f args in (br_get st (App (Basic f) args), rw1))"

text \<open>The configuration of the rewriter built from \<open>bool_rewriter\<close> alone.\<close>

fun cfg_flat_assoc :: "bool_rewriter \<Rightarrow> func_decl \<Rightarrow> bool" where
  "cfg_flat_assoc rw (Basic k) = (m_flat rw \<and> (k = OP_AND \<or> k = OP_OR))"
| "cfg_flat_assoc rw f = False"

fun cfg_reduce_app :: "bool_rewriter \<Rightarrow> func_decl \<Rightarrow> expr list \<Rightarrow> br_status \<times> bool_rewriter" where
  "cfg_reduce_app rw (Basic k) args = mk_app_core rw k args"
| "cfg_reduce_app rw f args = (BR_FAILED, rw)"

end
