(* ===== verification/Bool_Rewriter_Sound.thy ===== *)
theory Bool_Rewriter_Sound
  imports Bool_Rewriter_Nary
begin

text \<open>
  Soundness of the simplifier: on well-sorted arguments every operation of \<open>bool_rewriter\<close>
  returns a well-sorted term of the same sort and the same meaning in every interpretation,
  whatever the options, the orders on the nodes and the counter of the local context
  simplifier are.
\<close>

section \<open>Negation and equality\<close>

lemma try_ite_value_sound:
  "br_result (try_ite_value ite v) = Some r \<Longrightarrow> wf ite \<Longrightarrow> wf v \<Longrightarrow> get_sort ite = get_sort v \<Longrightarrow>
    bexp r \<and> (tv I r \<longleftrightarrow> eval I ite = eval I v)"
proof (induction ite arbitrary: r rule: measure_induct_rule [of size])
  case (less ite)
  show ?case
  proof (cases "m_is_ite ite")
    case True
    then obtain c t e where ite: "ite = m_mk_ite c t e" by (rule m_is_iteE)
    have wfs: "bexp c" "wf t" "wf e" "get_sort t = get_sort e" "get_sort e = get_sort v" "wf v"
      using less.prems by (auto simp: ite)
    have IH: "br_result (try_ite_value t v) = Some r' \<Longrightarrow> bexp r' \<and> (tv I r' \<longleftrightarrow> eval I t = eval I v)"
      "br_result (try_ite_value e v) = Some r' \<Longrightarrow> bexp r' \<and> (tv I r' \<longleftrightarrow> eval I e = eval I v)" for r'
      using less.IH [of t] less.IH [of e] wfs by (auto simp: ite m_mk_ite_def)
    have d: "m_are_distinct v t \<Longrightarrow> eval I v \<noteq> eval I t" "m_are_distinct v e \<Longrightarrow> eval I v \<noteq> eval I e"
      using m_are_distinct_eval wfs by metis+
    define x where "x = (if m_is_ite t \<and> m_is_value (get_arg t 1) \<and> m_is_value (get_arg t 2)
              then br_result (try_ite_value t v) else None)"
    define y where "y = (if m_is_ite e \<and> m_is_value (get_arg e 1) \<and> m_is_value (get_arg e 2)
              then br_result (try_ite_value e v) else None)"
    have X: "bexp r' \<and> (tv I r' \<longleftrightarrow> eval I t = eval I v)" if "x = Some r'" for r'
      using IH(1) that by (auto simp: x_def split: if_splits)
    have Y: "bexp r' \<and> (tv I r' \<longleftrightarrow> eval I e = eval I v)" if "y = Some r'" for r'
      using IH(2) that by (auto simp: y_def split: if_splits)
    have b: "bexp (m_mk_eq t v)" "bexp (m_mk_eq e v)" using wfs by simp_all
    have ev: "eval I ite = (if tv I c then eval I t else eval I e)" by (simp add: ite eval_mk)
    have "br_result (try_ite_value ite v) = Some r" by (rule less.prems)
    then have "br_result (if m_are_distinct v e then BR_REWRITE2 (m_mk_and [m_mk_eq t v, c])
     else if m_are_distinct v t then BR_REWRITE2 (m_mk_and [m_mk_eq e v, m_mk_not c])
     else if v = t then
       (if v = e then BR_DONE m_mk_true
        else BR_REWRITE2 (m_mk_or [m_mk_eq e v, c]))
     else if v = e then BR_REWRITE2 (m_mk_or [m_mk_eq t v, m_mk_not c])
     else (case x of Some r \<Rightarrow> BR_REWRITE2 (m_mk_ite c r (m_mk_eq e v))
        | None \<Rightarrow> (case y of Some r \<Rightarrow> BR_REWRITE2 (m_mk_ite c (m_mk_eq t v) r)
        | None \<Rightarrow> BR_FAILED))) = Some r"
      by (subst (asm) try_ite_value.simps) (simp only: ite Let_def x_def y_def get_arg_mk m_is_mk not_True_eq_False if_False m_are_equal_iff)
    then show ?thesis
      using b X Y d \<open>bexp c\<close> unfolding ev
      by (cases x; cases y) (auto split: if_splits simp del: bexp_mk(6))
  next
    case False
    then show ?thesis using less.prems by (simp add: try_ite_value.simps)
  qed
qed

lemma eval_eq_not:
  assumes "wf a" "bexp b" "get_sort a = get_sort b"
  shows "eval I a = eval I (m_mk_not b) \<longleftrightarrow> eval I a \<noteq> eval I b"
    "eval I (m_mk_not b) = eval I a \<longleftrightarrow> eval I a \<noteq> eval I b"
proof -
  have "bexp a" using assms by (intro bexpI) simp_all
  then show "eval I a = eval I (m_mk_not b) \<longleftrightarrow> eval I a \<noteq> eval I b"
    "eval I (m_mk_not b) = eval I a \<longleftrightarrow> eval I a \<noteq> eval I b"
    using assms(2) by (auto simp: eval_bexp_eq_iff)
qed

lemma eq_pair_complement:
  assumes "wf (m_mk_eq la lb)" "wf (m_mk_eq ra rb)"
    "(la = ra \<and> (rb = m_mk_not lb \<or> lb = m_mk_not rb)) \<or> (lb = rb \<and> (ra = m_mk_not la \<or> la = m_mk_not ra))"
  shows "(eval I la = eval I lb) \<longleftrightarrow> (eval I ra \<noteq> eval I rb)"
  using assms(3)
proof (elim disjE conjE)
  assume "la = ra" "rb = m_mk_not lb"
  then show ?thesis using assms(1,2) eval_eq_not [of la lb I] by simp
next
  assume "la = ra" "lb = m_mk_not rb"
  then show ?thesis using assms(1,2) eval_eq_not [of la rb I] by simp
next
  assume "lb = rb" "ra = m_mk_not la"
  then show ?thesis using assms(1,2) eval_eq_not [of lb la I] by simp metis
next
  assume "lb = rb" "la = m_mk_not ra"
  then show ?thesis using assms(1,2) eval_eq_not [of lb ra I] by simp metis
qed

lemma mk_not_mk_eq_sound:
  "bexp t \<Longrightarrow> bexp (br_get (mk_not_core rw t) (m_mk_not t)) \<and>
     (tv I (br_get (mk_not_core rw t) (m_mk_not t)) \<longleftrightarrow> \<not> tv I t)"
  "wf l \<Longrightarrow> wf r \<Longrightarrow> get_sort l = get_sort r \<Longrightarrow>
     bexp (br_get (mk_eq_core rw l r) (m_mk_eq l r)) \<and>
     (tv I (br_get (mk_eq_core rw l r) (m_mk_eq l r)) \<longleftrightarrow> eval I l = eval I r)"
proof (induction rw t and rw l r rule: mk_not_core_mk_eq_core.induct)
  case (1 rw t)
  note IH = 1(1,2)
  show ?case
  proof (cases "m_is_eq t \<and> m_is_bool (get_arg t 0)")
    case True
    then obtain a b where t: "t = m_mk_eq a b" by (auto elim: m_is_eqE)
    have ab: "bexp a" "bexp b" using True 1(3) by (auto simp: t m_is_bool_def)
    define tmp where "tmp = br_get (mk_not_core rw a) (m_mk_not a)"
    have tmp: "bexp tmp \<and> (tv I tmp \<longleftrightarrow> \<not> tv I a)"
      using IH(1) True ab by (auto simp: t tmp_def)
    moreover have "bexp (br_get (mk_eq_core rw tmp b) (m_mk_eq tmp b)) \<and>
      (tv I (br_get (mk_eq_core rw tmp b) (m_mk_eq tmp b)) \<longleftrightarrow> eval I tmp = eval I b)"
      using IH(2) True ab tmp by (auto simp: t tmp_def)
    moreover have "eval I tmp = eval I b \<longleftrightarrow> \<not> tv I t"
      using tmp ab by (auto simp: t eval_bexp_eq_iff)
    ultimately show ?thesis using True
      by (subst (1 2) mk_not_core.simps) (simp add: t Let_def flip: tmp_def)
  next
    case False
    then have "mk_not_core rw t = (if m_is_not t then BR_DONE (get_arg t 0)
      else if m_is_true t then BR_DONE m_mk_false else if m_is_false t then BR_DONE m_mk_true else BR_FAILED)"
      by (subst mk_not_core.simps) auto
    then show ?thesis using 1(3) by (auto elim!: m_is_notE)
  qed
next
  case (2 rw l r)
  note IH = 2(1,2)
  note wfs = 2(3-5)
  define x where "x = (if m_ite_extra_rules rw then
                (if m_is_ite l \<and> m_is_value r then try_ite_value l r
                 else if m_is_ite r \<and> m_is_value l then try_ite_value r l
                 else BR_FAILED)
              else BR_FAILED)"
  have x: "bexp (br_get x d) \<and> (tv I (br_get x d) \<longleftrightarrow> eval I l = eval I r)" if nf: "x \<noteq> BR_FAILED" for d
  proof -
    obtain e where "br_result x = Some e" using nf by (cases x) auto
    then show ?thesis using try_ite_value_sound [of l r e I] try_ite_value_sound [of r l e I] wfs
      by (auto simp: x_def br_get_def split: if_splits)
  qed
  have d: "m_are_distinct l r \<Longrightarrow> eval I l \<noteq> eval I r"
    using m_are_distinct_eval wfs by metis
  define u where "u = (m_is_not l \<and> m_is_not r)"
  define l' where "l' = (if u then get_arg l 0 else l)"
  define r' where "r' = (if u then get_arg r 0 else r)"
  have lr: "bexp l' \<and> bexp r' \<and> (eval I l = eval I r \<longleftrightarrow> tv I l' = tv I r')" if "m_is_bool l"
  proof -
    have "bexp l" "bexp r" using wfs that by (auto simp: m_is_bool_def)
    then show ?thesis
      by (auto simp: u_def l'_def r'_def eval_bexp_eq_iff elim!: m_is_notE)
  qed
  note I = IH [OF _ _ x_def _ _ u_def l'_def r'_def]
  show ?case
  proof (cases "l \<noteq> r \<and> \<not> m_are_distinct l r \<and> x = BR_FAILED \<and> m_is_bool l")
    case True
    then have b: "l \<noteq> r" "\<not> m_are_distinct l r" "x = BR_FAILED" "m_is_bool l" by simp_all
    note lr = lr [OF b(4)]
    have n1: "bexp (br_get (mk_not_core rw r') (m_mk_not r')) \<and> (tv I (br_get (mk_not_core rw r') (m_mk_not r')) \<longleftrightarrow> \<not> tv I r')"
      if "\<not> m_is_true l'" "m_is_false l'" using I(1) that lr b by simp
    have n2: "bexp (br_get (mk_not_core rw l') (m_mk_not l')) \<and> (tv I (br_get (mk_not_core rw l') (m_mk_not l')) \<longleftrightarrow> \<not> tv I l')"
      if "\<not> m_is_true l'" "\<not> m_is_false l'" "\<not> m_is_true r'" "m_is_false r'" using I(2) that lr b by simp
    have c: "tv I l' \<longleftrightarrow> \<not> tv I r'" if "m_is_complement l' r'"
      using m_is_complement_tv that lr by (metis bexp_wf)
    have e: "tv I l' \<longleftrightarrow> \<not> tv I r'"
      if E: "m_is_eq l' \<and> m_is_eq r' \<and>
          (let la = get_arg l' 0; lb = get_arg l' 1; ra = get_arg r' 0; rb = get_arg r' 1 in
           (la = ra \<and> ((m_is_not rb \<and> get_arg rb 0 = lb) \<or> (m_is_not lb \<and> get_arg lb 0 = rb))) \<or>
           (lb = rb \<and> ((m_is_not ra \<and> get_arg ra 0 = la) \<or> (m_is_not la \<and> get_arg la 0 = ra))))"
    proof -
      obtain la lb where l: "l' = m_mk_eq la lb" using E by (auto elim: m_is_eqE)
      obtain ra rb where r: "r' = m_mk_eq ra rb" using E by (auto elim: m_is_eqE)
      have "(la = ra \<and> (rb = m_mk_not lb \<or> lb = m_mk_not rb)) \<or> (lb = rb \<and> (ra = m_mk_not la \<or> la = m_mk_not ra))"
        using E [THEN conjunct2, THEN conjunct2] unfolding l r Let_def get_arg_mk
        by (metis m_is_notE get_arg_mk(1))
      then show ?thesis using eq_pair_complement [of la lb ra rb I] lr by (simp add: l r)
    qed
    have tr: "m_is_true l' \<Longrightarrow> tv I l'" "m_is_false l' \<Longrightarrow> \<not> tv I l'"
      "m_is_true r' \<Longrightarrow> tv I r'" "m_is_false r' \<Longrightarrow> \<not> tv I r'"
      by (auto simp: m_is_true_def m_is_false_def)
    have u: "bexp (m_mk_eq l' r') \<and> (tv I (m_mk_eq l' r') \<longleftrightarrow> tv I l' = tv I r')"
      "bexp (m_mk_eq l r) \<and> (tv I (m_mk_eq l r) \<longleftrightarrow> tv I l' = tv I r')"
      using lr wfs by (auto simp: eval_bexp_eq_iff)
    show ?thesis
      apply (subst (1 2) mk_eq_core.simps)
      apply (simp only: Let_def b m_are_equal_iff if_False if_True not_True_eq_False flip: x_def u_def l'_def r'_def)
      using lr n1 n2 c e [unfolded Let_def] u tr
      apply (cases "m_is_true l'"; cases "m_is_false l'"; cases "m_is_true r'"; cases "m_is_false r'"; simp del: bexp_mk(6) tv_mk(6))
      done
  next
    case False
    show ?thesis
      apply (subst (1 2) mk_eq_core.simps)
      apply (simp only: Let_def m_are_equal_iff flip: x_def)
      using False wfs x d
      by (cases "l = r"; cases "m_are_distinct l r"; cases "x = BR_FAILED"; simp)
  qed
qed


lemma rw_mk_not [simp]:
  assumes "bexp t"
  shows "bexp (rw_mk_not rw t)" "tv I (rw_mk_not rw t) \<longleftrightarrow> \<not> tv I t"
  using mk_not_mk_eq_sound(1) [OF assms] by (simp_all add: rw_mk_not_def)

lemma rw_mk_eq:
  assumes "wf l" "wf r" "get_sort l = get_sort r"
  shows "bexp (rw_mk_eq rw l r)" "tv I (rw_mk_eq rw l r) \<longleftrightarrow> eval I l = eval I r"
  using mk_not_mk_eq_sound(2) [OF assms] by (simp_all add: rw_mk_eq_def)

lemma rw_mk_eq_bool [simp]:
  assumes "bexp l" "bexp r"
  shows "bexp (rw_mk_eq rw l r)" "tv I (rw_mk_eq rw l r) \<longleftrightarrow> tv I l = tv I r"
  using rw_mk_eq [of l r] assms by (simp_all add: eval_bexp_eq_iff)

lemma rw_mk_xor [simp]:
  assumes "bexp l" "bexp r"
  shows "bexp (rw_mk_xor rw l r)" "tv I (rw_mk_xor rw l r) \<longleftrightarrow> tv I l \<noteq> tv I r"
  using assms by (auto simp: rw_mk_xor_def)

lemma rw_mk_iff [simp]:
  assumes "bexp l" "bexp r"
  shows "bexp (rw_mk_iff rw l r)" "tv I (rw_mk_iff rw l r) \<longleftrightarrow> tv I l = tv I r"
  using assms by (auto simp: rw_mk_iff_def)

section \<open>Conjunctions\<close>

text \<open>The marked atoms are those of the literals in the buffer.\<close>

lemma m_is_true_tv: "m_is_true a \<Longrightarrow> tv I a" and m_is_false_tv: "m_is_false a \<Longrightarrow> \<not> tv I a"
  by auto

definition marks_ok :: "expr list \<Rightarrow> expr list \<Rightarrow> expr list \<Rightarrow> bool" where
  "marks_ok neg pos buffer =
    ((\<forall>a \<in> set neg. m_mk_not a \<in> set buffer) \<and> (\<forall>a \<in> set pos. a \<in> set buffer))"

lemma marks_ok_simps [simp]:
  "marks_ok [] [] buffer"
  "marks_ok neg pos buffer \<Longrightarrow> marks_ok (a # neg) pos (buffer @ [m_mk_not a])"
  "marks_ok neg pos buffer \<Longrightarrow> marks_ok neg (a # pos) (buffer @ [a])"
  by (auto simp: marks_ok_def)

lemma marks_okD:
  "marks_ok neg pos buffer \<Longrightarrow> a \<in> set neg \<Longrightarrow> m_mk_not a \<in> set buffer"
  "marks_ok neg pos buffer \<Longrightarrow> a \<in> set pos \<Longrightarrow> a \<in> set buffer"
  by (auto simp: marks_ok_def)

lemma nflat_and_loop_sound:
  assumes "marks_ok neg pos buffer" "list_all bexp buffer" "list_all bexp args"
  shows "(case nflat_and_loop args neg pos s buffer of
      None \<Rightarrow> \<not> list_all (tv I) (buffer @ args)
    | Some (s', buffer') \<Rightarrow> list_all bexp buffer' \<and>
        (list_all (tv I) buffer' \<longleftrightarrow> list_all (tv I) (buffer @ args)))"
  using assms
proof (induction args arbitrary: neg pos s buffer)
  case Nil
  then show ?case by simp
next
  case (Cons arg args)
  have drop: "list_all (tv I) (buffer @ arg # args) \<longleftrightarrow> list_all (tv I) (buffer @ args)"
    if "arg = m_mk_true \<or> arg \<in> set buffer"
    using that by (auto simp: list_all_iff)
  have clash: "\<not> list_all (tv I) (buffer @ arg # args)"
    if "m_mk_not arg \<in> set buffer \<or> (\<exists>a. arg = m_mk_not a \<and> a \<in> set buffer)"
    using that by (auto simp: list_all_iff) (metis tv_mk(3) UnI1)
  show ?case
  proof (cases "m_is_not arg")
    case True
    then obtain a where a: "arg = m_mk_not a" by (rule m_is_notE)
    show ?thesis
      using Cons.IH [of neg pos buffer True] Cons.IH [of "a # neg" pos "buffer @ [arg]" s]
        Cons.prems drop clash marks_okD [OF Cons.prems(1), of a]
      by (auto simp: a split: option.splits)
  next
    case False
    then show ?thesis
      using Cons.IH [of neg pos buffer True] Cons.IH [of neg "arg # pos" "buffer @ [arg]" s]
        Cons.prems drop clash marks_okD [OF Cons.prems(1), of arg]
      by (auto split: option.splits)
  qed
qed

lemma mk_nflat_and_core_sound:
  assumes "list_all bexp args"
  shows "bexp (br_get (mk_nflat_and_core args) (m_mk_and args)) \<and>
    (tv I (br_get (mk_nflat_and_core args) (m_mk_and args)) \<longleftrightarrow> list_all (tv I) args)"
proof (cases "nflat_and_loop args [] [] False []")
  case None
  then show ?thesis using nflat_and_loop_sound [of "[]" "[]" "[]" args I False] assms
    by (simp add: mk_nflat_and_core_def)
next
  case (Some p)
  obtain s buffer where p: "p = (s, buffer)" by force
  have b: "list_all bexp buffer" "list_all (tv I) buffer \<longleftrightarrow> list_all (tv I) args"
    using nflat_and_loop_sound [of "[]" "[]" "[]" args I False] assms by (simp_all add: Some p)
  consider "buffer = []" | a where "buffer = [a]" | a b bs where "buffer = a # b # bs"
    by (cases buffer rule: remdups_adj.cases) auto
  then show ?thesis using assms b by cases (simp_all add: mk_nflat_and_core_def Some p)
qed

lemma flat_args_sound:
  fixes op args
  defines "pre \<equiv> takeWhile (\<lambda>a. \<not> op a) args" and "rest \<equiv> dropWhile (\<lambda>a. \<not> op a) args"
  defines "flat \<equiv> pre @ concat (map (\<lambda>arg. if op arg then get_args arg else [arg]) rest)"
  assumes "list_all bexp args" "\<And>a. op a \<Longrightarrow> bexp a \<Longrightarrow> list_all bexp (get_args a)"
  shows "list_all bexp flat"
    "(\<And>a. op a \<Longrightarrow> bexp a \<Longrightarrow> tv I a \<longleftrightarrow> list_all (tv I) (get_args a)) \<Longrightarrow>
      list_all (tv I) flat \<longleftrightarrow> list_all (tv I) args"
    "(\<And>a. op a \<Longrightarrow> bexp a \<Longrightarrow> tv I a \<longleftrightarrow> list_ex (tv I) (get_args a)) \<Longrightarrow>
      list_ex (tv I) flat \<longleftrightarrow> list_ex (tv I) args"
proof -
  have args: "args = pre @ rest" by (simp add: pre_def rest_def)
  have "list_all bexp pre" "list_all bexp rest" using assms(4) by (auto simp: args)
  then show "list_all bexp flat"
    using assms(5) by (auto simp: flat_def list_all_iff)
  have c: "list_all (tv I) (concat (map (\<lambda>arg. if op arg then get_args arg else [arg]) xs)) \<longleftrightarrow> list_all (tv I) xs"
    if "list_all bexp xs" "\<And>a. op a \<Longrightarrow> bexp a \<Longrightarrow> tv I a \<longleftrightarrow> list_all (tv I) (get_args a)" for xs
    using that by (induction xs) auto
  have d: "list_ex (tv I) (concat (map (\<lambda>arg. if op arg then get_args arg else [arg]) xs)) \<longleftrightarrow> list_ex (tv I) xs"
    if "list_all bexp xs" "\<And>a. op a \<Longrightarrow> bexp a \<Longrightarrow> tv I a \<longleftrightarrow> list_ex (tv I) (get_args a)" for xs
    using that by (induction xs) auto
  show "list_all (tv I) flat \<longleftrightarrow> list_all (tv I) args"
    if "\<And>a. op a \<Longrightarrow> bexp a \<Longrightarrow> tv I a \<longleftrightarrow> list_all (tv I) (get_args a)"
    using c [OF \<open>list_all bexp rest\<close> that] by (simp add: flat_def args)
  show "list_ex (tv I) flat \<longleftrightarrow> list_ex (tv I) args"
    if "\<And>a. op a \<Longrightarrow> bexp a \<Longrightarrow> tv I a \<longleftrightarrow> list_ex (tv I) (get_args a)"
    using d [OF \<open>list_all bexp rest\<close> that] by (simp add: flat_def args)
qed

lemma mk_flat_and_core_sound:
  assumes "list_all bexp args"
  shows "bexp (br_get (mk_flat_and_core args) (m_mk_and args)) \<and>
    (tv I (br_get (mk_flat_and_core args) (m_mk_and args)) \<longleftrightarrow> list_all (tv I) args)"
proof -
  have a: "list_all bexp (get_args a)" "tv I a \<longleftrightarrow> list_all (tv I) (get_args a)" if "m_is_and a" "bexp a" for a
    using that by (auto elim!: m_is_andE)
  show ?thesis
    using flat_args_sound(1) [OF assms, of m_is_and] flat_args_sound(2) [OF assms, of m_is_and I] a mk_nflat_and_core_sound assms
    by (simp add: mk_flat_and_core_def Let_def)
qed

section \<open>The local context simplifier\<close>

definition in_ctx :: "interp \<Rightarrow> expr list \<Rightarrow> expr list \<Rightarrow> bool" where
  "in_ctx I neg pos = ((\<forall>a \<in> set neg. tv I a) \<and> (\<forall>a \<in> set pos. \<not> tv I a))"

lemma nested_not_or_loop_sound:
  assumes "list_all bexp args" "list_all bexp acc"
  shows "(case nested_not_or_loop args neg pos simp acc of
      None \<Rightarrow> in_ctx I neg pos \<longrightarrow> list_ex (tv I) args
    | Some (simp', acc') \<Rightarrow> list_all bexp acc' \<and>
       (in_ctx I neg pos \<longrightarrow> (list_ex (tv I) acc' \<longleftrightarrow> list_ex (tv I) acc \<or> list_ex (tv I) args)))"
  using assms
proof (induction args arbitrary: simp acc)
  case Nil
  then show ?case by simp
next
  case (Cons arg args)
  have c: "arg \<in> set neg \<Longrightarrow> in_ctx I neg pos \<Longrightarrow> tv I arg"
    "arg \<in> set pos \<Longrightarrow> in_ctx I neg pos \<Longrightarrow> \<not> tv I arg"
    "m_is_not arg \<Longrightarrow> get_arg arg 0 \<in> set neg \<Longrightarrow> in_ctx I neg pos \<Longrightarrow> \<not> tv I arg"
    "m_is_not arg \<Longrightarrow> get_arg arg 0 \<in> set pos \<Longrightarrow> in_ctx I neg pos \<Longrightarrow> tv I arg"
    by (auto simp: in_ctx_def elim!: m_is_notE)
  show ?case
    using Cons.IH [of acc True] Cons.IH [of "acc @ [arg]" simp] Cons.prems c
    by (auto split: option.splits)
qed

lemma simp_nested_not_or_sound:
  assumes "list_all bexp args" "simp_nested_not_or rw args neg pos = (Some e, rw')" 
  shows "bexp e \<and> (in_ctx I neg pos \<longrightarrow> (tv I e \<longleftrightarrow> \<not> list_ex (tv I) args))"
proof (cases "nested_not_or_loop args neg pos False []")
  case None
  then show ?thesis using assms(2) nested_not_or_loop_sound [OF assms(1), where acc = "[]" and neg = neg and pos = pos and simp = False and I = I]
    by (auto simp: simp_nested_not_or_def Let_def)
next
  case (Some p)
  obtain s acc where p: "p = (s, acc)" by force
  have acc: "list_all bexp acc" "in_ctx I neg pos \<Longrightarrow> list_ex (tv I) acc \<longleftrightarrow> list_ex (tv I) args"
    using nested_not_or_loop_sound [OF assms(1), where acc = "[]" and neg = neg and pos = pos and simp = False and I = I] Some p by simp_all
  consider "acc = []" | a where "acc = [a]" | a b bs where "acc = a # b # bs"
    by (cases acc rule: remdups_adj.cases) auto
  then show ?thesis using assms(2) acc Some p
    by cases (auto simp: simp_nested_not_or_def Let_def split: if_splits)
qed

lemma simp_arg_sound:
  assumes "wf arg" "simp_arg arg neg pos = (e, m)" "list_all bexp neg" "list_all bexp pos"
  shows "wf e \<and> get_sort e = get_sort arg \<and> (in_ctx I neg pos \<longrightarrow> eval I e = eval I arg)"
proof (cases "e = arg")
  case False
  have n: "bexp a" "in_ctx I neg pos \<Longrightarrow> tv I a" if "a \<in> set neg" for a
    using that assms(3) by (auto simp: list_all_iff in_ctx_def)
  have p: "bexp a" "in_ctx I neg pos \<Longrightarrow> \<not> tv I a" if "a \<in> set pos" for a
    using that assms(4) by (auto simp: list_all_iff in_ctx_def)
  have "(e = m_mk_true \<or> e = m_mk_false) \<and> bexp arg \<and> (in_ctx I neg pos \<longrightarrow> tv I e = tv I arg)"
    using assms(2) False n [of arg] p [of arg] n [of "get_arg arg 0"] p [of "get_arg arg 0"]
    by (auto simp: simp_arg_def Let_def split: if_splits elim!: m_is_notE)
  then show ?thesis by (auto simp: eval_bexp_eq_iff)
qed (use assms in simp)

lemma mk_nested_ite_sound:
  assumes "bexp c" "wf t" "wf e" "get_sort t = get_sort e"
  shows "wf (mk_nested_ite rw c t e) \<and> get_sort (mk_nested_ite rw c t e) = get_sort t \<and>
    eval I (mk_nested_ite rw c t e) = (if tv I c then eval I t else eval I e)"
proof (cases "m_is_bool t")
  case True
  then have b: "bexp t" "bexp e" using assms by (auto simp: m_is_bool_def)
  have c: "m_is_complement_core t e \<or> m_is_complement_core e t \<Longrightarrow> tv I t \<longleftrightarrow> \<not> tv I e"
    using m_is_complement_core_tv b bexp_wf by blast
  have "bexp (mk_nested_ite rw c t e) \<and>
    (tv I (mk_nested_ite rw c t e) \<longleftrightarrow> (if tv I c then tv I t else tv I e))"
    using b c assms(1) unfolding mk_nested_ite_def by (simp add: m_is_true_tv m_is_false_tv split: if_split) auto
  then show ?thesis using b by (simp add: eval_bool)
next
  case False
  then show ?thesis using assms by (auto simp: mk_nested_ite_def eval_mk)
qed

lemma simp_nested_eq_ite_sound:
  assumes "bexp t0" "simp_nested_eq_ite rw t0 neg pos = (Some e, rw')" "list_all bexp neg" "list_all bexp pos"
  shows "bexp e \<and> (in_ctx I neg pos \<longrightarrow> (tv I e \<longleftrightarrow> tv I t0))"
proof -
  define t where "t = (if m_is_not t0 then get_arg t0 0 else t0)"
  define rw1 where "rw1 = add_cost 3 rw"
  have t: "bexp t" "tv I t0 \<longleftrightarrow> (if m_is_not t0 then \<not> tv I t else tv I t)"
    using assms(1) by (auto simp: t_def elim!: m_is_notE)
  have "\<exists>r. e = (if m_is_not t0 then rw_mk_not rw1 r else r) \<and> bexp r \<and> (in_ctx I neg pos \<longrightarrow> tv I r = tv I t)"
  proof (cases "m_is_eq t")
    case True
    then obtain a b where ab: "t = m_mk_eq a b" by (rule m_is_eqE)
    obtain l m1 where l: "simp_arg a neg pos = (l, m1)" by force
    obtain r m2 where r: "simp_arg b neg pos = (r, m2)" by force
    have "wf a" "wf b" "get_sort a = get_sort b" using t(1) ab by simp_all
    then have "bexp (rw_mk_eq rw1 l r) \<and> (in_ctx I neg pos \<longrightarrow> tv I (rw_mk_eq rw1 l r) = tv I t)"
      using simp_arg_sound [OF _ l assms(3,4), of I] simp_arg_sound [OF _ r assms(3,4), of I] 
        rw_mk_eq [of l r] ab by auto
    then show ?thesis using assms(2) True
      by (auto simp: simp_nested_eq_ite_def Let_def ab l r split: if_splits simp flip: t_def rw1_def)
  next
    case False
    then have "m_is_ite t" using assms(2)
      by (auto simp: simp_nested_eq_ite_def Let_def split: if_splits simp flip: t_def)
    then obtain a b d where ab: "t = m_mk_ite a b d" by (rule m_is_iteE)
    obtain c m1 where l: "simp_arg a neg pos = (c, m1)" by force
    obtain r m2 where r: "simp_arg b neg pos = (r, m2)" by force
    obtain s m3 where s: "simp_arg d neg pos = (s, m3)" by force
    have ws: "bexp a" "bexp b" "bexp d" using t(1) ab by simp_all
    have N: "wf c \<and> get_sort c = Bool_sort \<and> (in_ctx I neg pos \<longrightarrow> eval I c = eval I a)"
        "wf r \<and> get_sort r = Bool_sort \<and> (in_ctx I neg pos \<longrightarrow> eval I r = eval I b)"
        "wf s \<and> get_sort s = Bool_sort \<and> (in_ctx I neg pos \<longrightarrow> eval I s = eval I d)"
      using ws simp_arg_sound [OF _ l assms(3,4), of I] simp_arg_sound [OF _ r assms(3,4), of I] 
       simp_arg_sound [OF _ s assms(3,4), of I] by simp_all
    then have "bexp (mk_nested_ite rw1 c r s) \<and> (in_ctx I neg pos \<longrightarrow> tv I (mk_nested_ite rw1 c r s) = tv I t)"
      using mk_nested_ite_sound [of c r s rw1 I] bexpI by (auto simp: ab tv_def eval_mk)
    then show ?thesis using assms(2) False
      by (auto simp: simp_nested_eq_ite_def Let_def ab l r s split: if_splits simp flip: t_def rw1_def)
  qed
  then show ?thesis using t by auto
qed


text \<open>The invariant of the loop of \<open>local_ctx_simp\<close>.\<close>

definition lctx_inv :: "local_ctx_state \<Rightarrow> bool" where
  "lctx_inv st = (list_all bexp (lc_new_args st) \<and> list_all bexp (lc_neg_lits st) \<and> list_all bexp (lc_pos_lits st)
     \<and> marks_ok (lc_neg_lits st) (lc_pos_lits st) (lc_new_args st))"

lemma lctx_inv_ctx:
  "lctx_inv st \<Longrightarrow> \<not> list_ex (tv I) (lc_new_args st) \<Longrightarrow> in_ctx I (lc_neg_lits st) (lc_pos_lits st)"
  unfolding lctx_inv_def in_ctx_def marks_ok_def list_ex_iff
  by (metis tv_mk(3))

lemma lctx_inv_flags [simp]:
  "lctx_inv (st\<lparr>lc_modified := m, lc_simped := s\<rparr>) \<longleftrightarrow> lctx_inv st"
  by (simp add: lctx_inv_def)

lemma push_new_arg_sound:
  assumes "lctx_inv st" "bexp arg"
  shows "lctx_inv (push_new_arg arg st) \<and>
    (list_ex (tv I) (lc_new_args (push_new_arg arg st)) \<longleftrightarrow> list_ex (tv I) (lc_new_args st) \<or> tv I arg)"
proof (cases "m_is_not arg")
  case True
  then obtain a where a: "arg = m_mk_not a" by (rule m_is_notE)
  have "list_ex (tv I) (lc_new_args st) \<or> tv I a" if "a \<in> set (lc_neg_lits st)"
    using lctx_inv_ctx [OF assms(1)] that by (auto simp: in_ctx_def)
  then show ?thesis using assms by (auto simp: a push_new_arg_def lctx_inv_def)
next
  case False
  have "list_ex (tv I) (lc_new_args st) \<or> \<not> tv I arg" if "arg \<in> set (lc_pos_lits st)"
    using lctx_inv_ctx [OF assms(1)] that by (auto simp: in_ctx_def)
  then show ?thesis using assms False by (auto simp: push_new_arg_def lctx_inv_def)
qed

lemma push_new_args_sound:
  assumes "lctx_inv st" "list_all bexp args"
  shows "lctx_inv (fold push_new_arg args st) \<and>
    (list_ex (tv I) (lc_new_args (fold push_new_arg args st)) \<longleftrightarrow>
      list_ex (tv I) (lc_new_args st) \<or> list_ex (tv I) args)"
  using assms push_new_arg_sound by (induction args arbitrary: st) auto

definition lctx_mark :: "local_ctx_state \<Rightarrow> local_ctx_state" where
  "lctx_mark st = st\<lparr>lc_modified := True, lc_simped := True\<rparr>"

lemma process_arg_sound:
  assumes "lctx_inv st" "bexp arg" "process_arg rw arg st = (r, rw')"
  shows "case r of
      Inl e \<Rightarrow> e = m_mk_true \<and> (list_ex (tv I) (lc_new_args st) \<or> tv I arg)
    | Inr st' \<Rightarrow> lctx_inv st' \<and>
        (list_ex (tv I) (lc_new_args st') \<longleftrightarrow> list_ex (tv I) (lc_new_args st) \<or> tv I arg)"
proof -
  obtain r1 rw1 where r1: "(if m_is_not arg \<and> m_is_or (get_arg arg 0)
            then simp_nested_not_or rw (get_args (get_arg arg 0)) (lc_neg_lits st) (lc_pos_lits st)
            else (None, rw)) = (r1, rw1)" by force
  obtain arg1 st1 where s1: "(case r1 of None \<Rightarrow> (arg, st)
            | Some new_arg \<Rightarrow> (new_arg, st\<lparr>lc_modified := True, lc_simped := True\<rparr>)) = (arg1, st1)" by force
  obtain r2 rw2 where r2: "simp_nested_eq_ite rw1 arg1 (lc_neg_lits st1) (lc_pos_lits st1) = (r2, rw2)" by force
  obtain arg2 st2 where s2: "(case r2 of None \<Rightarrow> (arg1, st1)
            | Some new_arg \<Rightarrow> (new_arg, st1\<lparr>lc_modified := True, lc_simped := True\<rparr>)) = (arg2, st2)" by force
  have st1: "lc_new_args st1 = lc_new_args st" "lc_neg_lits st1 = lc_neg_lits st" "lc_pos_lits st1 = lc_pos_lits st" "lctx_inv st1"
    using s1 assms(1) by (auto split: option.splits)
  have st2: "lc_new_args st2 = lc_new_args st" "lc_neg_lits st2 = lc_neg_lits st" "lc_pos_lits st2 = lc_pos_lits st" "lctx_inv st2"
    using s2 st1 by (auto split: option.splits)
  have lits: "list_all bexp (lc_neg_lits st)" "list_all bexp (lc_pos_lits st)" using assms(1) by (simp_all add: lctx_inv_def)
  have a1: "bexp arg1 \<and> (in_ctx I (lc_neg_lits st) (lc_pos_lits st) \<longrightarrow> tv I arg1 = tv I arg)"
  proof (cases r1)
    case None
    then show ?thesis using s1 assms(2) by simp
  next
    case (Some e)
    then obtain as where as: "arg = m_mk_not (m_mk_or as)"
      "simp_nested_not_or rw as (lc_neg_lits st) (lc_pos_lits st) = (Some e, rw1)"
      using r1 by (auto split: if_splits elim!: m_is_notE m_is_orE)
    then show ?thesis using simp_nested_not_or_sound [OF _ as(2), of I] s1 Some assms(2) by simp
  qed
  have a2: "bexp arg2 \<and> (in_ctx I (lc_neg_lits st) (lc_pos_lits st) \<longrightarrow> tv I arg2 = tv I arg)"
  proof (cases r2)
    case None
    then show ?thesis using s2 a1 by simp
  next
    case (Some e)
    then show ?thesis using simp_nested_eq_ite_sound [of arg1, OF _ r2 [unfolded Some], of I] a1 s2 st1 lits by simp
  qed
  have ctx: "list_ex (tv I) (lc_new_args st) \<or> in_ctx I (lc_neg_lits st) (lc_pos_lits st)"
    using lctx_inv_ctx assms(1) by blast
  have eq: "process_arg rw arg st = (if m_is_false arg2 then (Inr st2, rw2)
     else if m_is_true arg2 then (Inl arg2, rw2)
     else if m_flat rw2 \<and> m_is_or arg2 then (Inr (fold push_new_arg (get_args arg2) st2), rw2)
     else (Inr (push_new_arg arg2 st2), rw2))"
    unfolding process_arg_def by (simp add: r1 s1 r2 s2)
  consider "m_is_false arg2" | "\<not> m_is_false arg2" "m_is_true arg2" 
    | as where "\<not> m_is_false arg2" "\<not> m_is_true arg2" "m_flat rw2" "arg2 = m_mk_or as"
    | "\<not> m_is_false arg2" "\<not> m_is_true arg2" "\<not> (m_flat rw2 \<and> m_is_or arg2)"
    by (auto elim: m_is_orE)
  then show ?thesis
  proof cases
    case 1
    then show ?thesis using assms(3) a2 ctx st2 by (auto simp: eq m_is_false_tv)
  next
    case 2
    then show ?thesis using assms(3) a2 ctx by (auto simp: eq)
  next
    case 3
    then show ?thesis using assms(3) a2 ctx st2 push_new_args_sound [OF st2(4), of as I] by (auto simp: eq)
  next
    case 4
    then show ?thesis using assms(3) a2 ctx st2 push_new_arg_sound [OF st2(4), of arg2 I] by (auto simp: eq)
  qed
qed

lemma process_args_sound:
  assumes "lctx_inv st" "list_all bexp args" "process_args rw args st = (r, rw')"
  shows "case r of
      Inl e \<Rightarrow> e = m_mk_true \<and> (list_ex (tv I) (lc_new_args st) \<or> list_ex (tv I) args)
    | Inr st' \<Rightarrow> lctx_inv st' \<and>
        (list_ex (tv I) (lc_new_args st') \<longleftrightarrow> list_ex (tv I) (lc_new_args st) \<or> list_ex (tv I) args)"
  using assms
proof (induction args arbitrary: rw st)
  case Nil
  then show ?case by auto
next
  case (Cons arg args)
  obtain r1 rw1 where r1: "process_arg rw arg st = (r1, rw1)" by force
  have P: "case r1 of
      Inl e \<Rightarrow> e = m_mk_true \<and> (list_ex (tv I) (lc_new_args st) \<or> tv I arg)
    | Inr st' \<Rightarrow> lctx_inv st' \<and>
        (list_ex (tv I) (lc_new_args st') \<longleftrightarrow> list_ex (tv I) (lc_new_args st) \<or> tv I arg)"
    using process_arg_sound [OF Cons.prems(1) _ r1] Cons.prems(2) by simp
  show ?case
  proof (cases r1)
    case (Inl e)
    then show ?thesis using P Cons.prems r1 by auto
  next
    case (Inr st')
    then show ?thesis using P Cons.prems r1 Cons.IH [of st' rw1] by (simp split: sum.splits)
  qed
qed

lemma local_ctx_rounds_sound:
  assumes "list_all bexp args" "local_ctx_rounds fuel rw forward m s args = Some (Some e, rw')"
  shows "bexp e \<and> (tv I e \<longleftrightarrow> list_ex (tv I) args)"
  using assms
proof (induction fuel rw forward m s args rule: local_ctx_rounds.induct)
  case (1 rw forward m s args)
  then show ?case by simp
next
  case (2 fuel rw forward m s args)
  define st0 where "st0 = \<lparr>lc_neg_lits = [], lc_pos_lits = [], lc_new_args = [], lc_modified = m, lc_simped = s\<rparr>"
  define rw1 where "rw1 = add_cost (2 * length args) rw"
  have st0: "lctx_inv st0" "lc_new_args st0 = []" by (simp_all add: lctx_inv_def st0_def)
  obtain r rw2 where r: "process_args rw1 (if forward then args else rev args) st0 = (r, rw2)" by force
  have P: "case r of
      Inl e \<Rightarrow> e = m_mk_true \<and> list_ex (tv I) args
    | Inr st' \<Rightarrow> lctx_inv st' \<and> (list_ex (tv I) (lc_new_args st') \<longleftrightarrow> list_ex (tv I) args)"
    using process_args_sound [OF st0(1) _ r, of I] 2(3) st0(2) by (cases forward; cases r) simp_all
  show ?case
  proof (cases r)
    case (Inl e)
    then show ?thesis using P r 2(4)
      by (cases forward) (auto simp: Let_def simp flip: st0_def rw1_def)
  next
    case (Inr st')
    have "list_all bexp (lc_new_args st')" using P Inr by (simp add: lctx_inv_def)
    moreover have "bexp (mk_or_app args) \<and> (tv I (mk_or_app args) \<longleftrightarrow> list_ex (tv I) args)"
      using 2(3) by (cases args rule: remdups_adj.cases) (auto simp: mk_or_app_def)
    ultimately show ?thesis
      using P r 2 Inr by (cases forward) (auto simp: Let_def split: if_splits simp flip: st0_def rw1_def)
  qed
qed

lemma local_ctx_simp_sound:
  assumes "list_all bexp args" "local_ctx_simp rw args = (Some e, rw')"
  shows "bexp e \<and> (tv I e \<longleftrightarrow> list_ex (tv I) args)"
  using assms local_ctx_rounds_sound by (auto simp: local_ctx_simp_def split: option.splits)

section \<open>Disjunctions\<close>

lemma nflat_or_loop_sound:
  assumes "marks_ok neg pos buffer" "list_all bexp buffer" "list_all bexp args"
  shows "(case nflat_or_loop lt args neg pos prev s buffer of
      None \<Rightarrow> list_ex (tv I) (buffer @ args)
    | Some (s', buffer') \<Rightarrow> list_all bexp buffer' \<and>
        (list_ex (tv I) buffer' \<longleftrightarrow> list_ex (tv I) (buffer @ args)))"
  using assms
proof (induction args arbitrary: neg pos prev s buffer)
  case Nil
  then show ?case by simp
next
  case (Cons arg args)
  have drop: "list_ex (tv I) (buffer @ arg # args) \<longleftrightarrow> list_ex (tv I) (buffer @ args)"
    if "arg = m_mk_false \<or> arg \<in> set buffer"
    using that by (auto simp: list_ex_iff)
  have clash: "list_ex (tv I) (buffer @ arg # args)"
    if "m_mk_not arg \<in> set buffer \<or> (\<exists>a. arg = m_mk_not a \<and> a \<in> set buffer)"
    using that by (auto simp: list_ex_iff) (metis tv_mk(3) UnI1)
  let ?s = "s \<or> (case prev of None \<Rightarrow> False | Some p \<Rightarrow> lt arg p)"
  show ?case
  proof (cases "m_is_not arg")
    case True
    then obtain a where a: "arg = m_mk_not a" by (rule m_is_notE)
    show ?thesis
      using Cons.IH [of neg pos buffer prev True] Cons.IH [of "a # neg" pos "buffer @ [arg]" "Some arg" ?s]
        Cons.prems drop clash marks_okD [OF Cons.prems(1), of a]
      by (auto simp: a Let_def split: option.splits)
  next
    case False
    then show ?thesis
      using Cons.IH [of neg pos buffer prev True] Cons.IH [of neg "arg # pos" "buffer @ [arg]" "Some arg" ?s]
        Cons.prems drop clash marks_okD [OF Cons.prems(1), of arg]
      by (auto simp: Let_def split: option.splits)
  qed
qed

lemma sort_ast_sound [simp]:
  "list_all bexp (sort_ast rw args) \<longleftrightarrow> list_all bexp args"
  "list_ex (tv I) (sort_ast rw args) \<longleftrightarrow> list_ex (tv I) args"
  by (simp_all add: sort_ast_def list_all_iff list_ex_iff)

lemma mk_nflat_or_core_sound:
  assumes "list_all bexp args" "mk_nflat_or_core rw args = (st, rw')"
  shows "bexp (br_get st (m_mk_or args)) \<and> (tv I (br_get st (m_mk_or args)) \<longleftrightarrow> list_ex (tv I) args)"
proof (cases "nflat_or_loop (node_lt (m_manager rw)) args [] [] None False []")
  case None
  then show ?thesis
    using nflat_or_loop_sound [of "[]" "[]" "[]" args I "node_lt (m_manager rw)" None False] assms
    by (auto simp: mk_nflat_or_core_def)
next
  case (Some p)
  obtain s buffer where p: "p = (s, buffer)" by force
  have b: "list_all bexp buffer" "list_ex (tv I) buffer \<longleftrightarrow> list_ex (tv I) args"
    using nflat_or_loop_sound [of "[]" "[]" "[]" args I "node_lt (m_manager rw)" None False] assms
    by (simp_all add: Some p)
  consider "buffer = []" | a where "buffer = [a]" | a b bs where "buffer = a # b # bs"
    by (cases buffer rule: remdups_adj.cases) auto
  then show ?thesis
  proof cases
    case 3
    obtain r rw1 where r: "(if m_local_ctx rw \<and> m_local_ctx_cost rw \<le> m_local_ctx_limit rw
                             then local_ctx_simp rw buffer else (None, rw)) = (r, rw1)" by force
    have st: "st = (case r of Some e \<Rightarrow> BR_DONE e
        | None \<Rightarrow> if s then BR_DONE (m_mk_or (sort_ast rw buffer)) else BR_FAILED)"
      using assms(2) 3 r by (auto simp: mk_nflat_or_core_def Some p split: option.splits)
    show ?thesis
    proof (cases r)
      case None
      then show ?thesis using st b assms(1) by simp
    next
      case (Some e)
      then have "local_ctx_simp rw buffer = (Some e, rw1)" using r by (simp split: if_splits)
      then show ?thesis using local_ctx_simp_sound [OF b(1)] b(2) st Some by simp
    qed
  qed (use assms b in \<open>auto simp: mk_nflat_or_core_def Some p\<close>)
qed

lemma mk_flat_or_core_sound:
  assumes "list_all bexp args" "mk_flat_or_core rw args = (st, rw')"
  shows "bexp (br_get st (m_mk_or args)) \<and> (tv I (br_get st (m_mk_or args)) \<longleftrightarrow> list_ex (tv I) args)"
proof (cases "list_ex m_is_or args")
  case True
  define flat_args where "flat_args = takeWhile (\<lambda>a. \<not> m_is_or a) args
    @ concat (map (\<lambda>arg. if m_is_or arg then get_args arg else [arg]) (dropWhile (\<lambda>a. \<not> m_is_or a) args))"
  have a: "list_all bexp (get_args a)" "tv I a \<longleftrightarrow> list_ex (tv I) (get_args a)" if "m_is_or a" "bexp a" for a
    using that by (auto elim!: m_is_orE)
  have f: "list_all bexp flat_args" "list_ex (tv I) flat_args \<longleftrightarrow> list_ex (tv I) args"
    using flat_args_sound(1) [OF assms(1), of m_is_or] flat_args_sound(3) [OF assms(1), of m_is_or I] a
    by (simp_all add: flat_args_def)
  obtain st1 rw1 where st1: "mk_nflat_or_core rw flat_args = (st1, rw1)" by force
  define sorted where "sorted = (if flat_or_ordered (node_lt (m_manager rw)) (dropWhile (\<lambda>a. \<not> m_is_or a) args) None True
    then flat_args else sort_ast rw flat_args)"
  have st: "st = BR_DONE (br_get st1 (m_mk_or sorted))"
    using assms(2) True st1 by (auto simp: mk_flat_or_core_def Let_def flat_args_def sorted_def)
  have "br_get st1 (m_mk_or sorted) = br_get st1 (m_mk_or flat_args) \<or> br_get st1 (m_mk_or sorted) = m_mk_or sorted"
    by (simp add: br_get_def split: option.splits)
  moreover have "list_all bexp sorted" "list_ex (tv I) sorted \<longleftrightarrow> list_ex (tv I) args"
    using f by (simp_all add: sorted_def)
  ultimately show ?thesis using mk_nflat_or_core_sound [OF f(1) st1, of I] f st by auto
next
  case False
  then show ?thesis using assms mk_nflat_or_core_sound by (simp add: mk_flat_or_core_def)
qed

lemma rw_mk_or_sound:
  assumes "list_all bexp args" "rw_mk_or rw args = (r, rw')"
  shows "bexp r \<and> (tv I r \<longleftrightarrow> list_ex (tv I) args)"
  using assms mk_flat_or_core_sound mk_nflat_or_core_sound
  by (auto simp: rw_mk_or_def mk_or_core_def split: prod.splits if_splits)

lemma mk_and_as_or_sound:
  assumes "list_all bexp args" "mk_and_as_or rw args = (r, rw')"
  shows "bexp r \<and> (tv I r \<longleftrightarrow> list_all (tv I) args)"
proof -
  obtain tmp rw1 where tmp: "rw_mk_or rw (map (rw_mk_not rw) args) = (tmp, rw1)" by force
  have "list_all bexp (map (rw_mk_not rw) args)" using assms(1) by (auto simp: list_all_iff)
  moreover have "list_ex (tv I) (map (rw_mk_not rw) args) \<longleftrightarrow> \<not> list_all (tv I) args"
    using assms(1) by (auto simp: list_all_iff list_ex_iff)
  ultimately show ?thesis using rw_mk_or_sound [OF _ tmp, of I] assms(2) tmp
    by (auto simp: mk_and_as_or_def)
qed

lemma rw_mk_and_sound:
  assumes "list_all bexp args" "rw_mk_and rw args = (r, rw')"
  shows "bexp r \<and> (tv I r \<longleftrightarrow> list_all (tv I) args)"
  using assms mk_and_as_or_sound mk_flat_and_core_sound mk_nflat_and_core_sound
  by (auto simp: rw_mk_and_def mk_and_core_def split: prod.splits if_splits)

lemma rw_mk_or [simp]:
  assumes "list_all bexp args"
  shows "bexp (fst (rw_mk_or rw args))" "tv I (fst (rw_mk_or rw args)) \<longleftrightarrow> list_ex (tv I) args"
  using rw_mk_or_sound [OF assms] by (metis prod.collapse)+

lemma rw_mk_and [simp]:
  assumes "list_all bexp args"
  shows "bexp (fst (rw_mk_and rw args))" "tv I (fst (rw_mk_and rw args)) \<longleftrightarrow> list_all (tv I) args"
  using rw_mk_and_sound [OF assms] by (metis prod.collapse)+

lemma rw_mk_implies_sound:
  assumes "bexp a" "bexp b" "rw_mk_implies rw a b = (r, rw')"
  shows "bexp r \<and> (tv I r \<longleftrightarrow> (tv I a \<longrightarrow> tv I b))"
  using assms rw_mk_or_sound [of "[rw_mk_not rw a, b]" rw r rw' I] by (simp add: rw_mk_implies_def)

lemma rw_mk_nand [simp]:
  assumes "list_all bexp args"
  shows "bexp (fst (rw_mk_nand rw args))" "tv I (fst (rw_mk_nand rw args)) \<longleftrightarrow> \<not> list_all (tv I) args"
  using rw_mk_and [OF assms, where rw = rw] by (cases "rw_mk_and rw args"; simp add: rw_mk_nand_def)+

lemma rw_mk_nor [simp]:
  assumes "list_all bexp args"
  shows "bexp (fst (rw_mk_nor rw args))" "tv I (fst (rw_mk_nor rw args)) \<longleftrightarrow> \<not> list_ex (tv I) args"
  using rw_mk_or [OF assms, where rw = rw] by (cases "rw_mk_or rw args"; simp add: rw_mk_nor_def)+

section \<open>Distinct\<close>

lemma distinct_inner_sound:
  assumes "wf arg" "list_all wf bs" "\<forall>b \<in> set bs. get_sort b = get_sort arg"
  shows "case distinct_inner arg bs of
      None \<Rightarrow> eval I arg \<in> eval I ` set bs
    | Some d \<Rightarrow> d \<longrightarrow> eval I arg \<notin> eval I ` set bs"
  using assms
proof (induction bs)
  case Nil
  then show ?case by simp
next
  case (Cons b bs)
  have "m_are_distinct arg b \<Longrightarrow> eval I arg \<noteq> eval I b"
    using m_are_distinct_eval Cons.prems by simp
  then show ?case using Cons by (auto split: option.splits)
qed

lemma distinct_loop_sound:
  assumes "list_all wf (visited @ args)" "\<forall>a \<in> set (visited @ args). get_sort a = srt"
    "av \<Longrightarrow> list_all m_is_unique_value visited \<and> distinct visited" "ad \<Longrightarrow> distinct (map (eval I) visited)"
  shows "case distinct_loop visited args av ad of
      None \<Rightarrow> \<not> distinct (map (eval I) (visited @ args))
    | Some d \<Rightarrow> d \<longrightarrow> distinct (map (eval I) (visited @ args))"
  using assms
proof (induction visited args av ad rule: distinct_loop.induct)
  case (1 visited av ad)
  then show ?case by simp
next
  case (2 visited arg args av ad)
  define av' where "av' = (av \<and> m_is_unique_value arg)"
  have ws: "wf arg" "list_all wf visited" "\<forall>b \<in> set visited. get_sort b = get_sort arg"
    using 2(3,4) by auto
  note inner = distinct_inner_sound [OF ws, of I]
  have u: "eval I arg \<notin> eval I ` set visited" if "av'" "arg \<notin> set visited"
  proof
    assume "eval I arg \<in> eval I ` set visited"
    then obtain b where b: "b \<in> set visited" "eval I arg = eval I b" by auto
    then have "m_is_unique_value b" "wf b" "get_sort b = get_sort arg"
      using 2(5) that(1) ws by (auto simp: av'_def list_all_iff)
    then show False
      using m_is_unique_value_distinct [of arg b I] b that ws by (auto simp: av'_def)
  qed
  have av: "av' \<Longrightarrow> arg \<notin> set visited \<Longrightarrow> list_all m_is_unique_value (visited @ [arg]) \<and> distinct (visited @ [arg])"
    using 2(5) by (auto simp: av'_def)
  have app: "visited @ arg # args = (visited @ [arg]) @ args" by simp
  show ?case
  proof (cases "arg \<in> set visited")
    case True
    then show ?thesis by auto
  next
    case new: False
    show ?thesis
    proof (cases "\<not> av' \<and> ad")
      case True
      show ?thesis
      proof (cases "distinct_inner arg visited")
        case None
        then show ?thesis using new inner True by (auto simp: Let_def simp flip: av'_def)
      next
        case (Some d)
        have "distinct_loop visited (arg # args) av ad = distinct_loop (visited @ [arg]) args av' d"
          using new True Some by (simp add: Let_def flip: av'_def)
        moreover have "d \<Longrightarrow> distinct (map (eval I) (visited @ [arg]))"
          using inner Some 2(6) True by auto
        ultimately show ?thesis
          using 2(1) [OF new av'_def True Some] 2(3,4) av new unfolding app by simp
      qed
    next
      case False
      have "distinct_loop visited (arg # args) av ad = distinct_loop (visited @ [arg]) args av' ad"
        using new False by (auto simp: Let_def simp flip: av'_def)
      moreover have "ad \<Longrightarrow> distinct (map (eval I) (visited @ [arg]))"
        using u new 2(6) False by auto
      ultimately show ?thesis
        using 2(2) [OF new av'_def False] 2(3,4) av new unfolding app by simp
    qed
  qed
qed

lemma mk_diseqs_sound:
  assumes "list_all wf args" "all_same (map get_sort args)"
  shows "list_all bexp (mk_diseqs args)" "list_all (tv I) (mk_diseqs args) \<longleftrightarrow> distinct (map (eval I) args)"
proof -
  obtain s where s: "\<forall>a \<in> set args. get_sort a = s" using assms(2) unfolding all_same_def by auto
  show "list_all bexp (mk_diseqs args)"
    using assms(1) s by (induction args) (auto simp: list_all_iff)
  show "list_all (tv I) (mk_diseqs args) \<longleftrightarrow> distinct (map (eval I) args)"
    by (induction args) (auto simp: list_all_iff ball_Un)
qed

lemma mk_distinct_core_sound:
  assumes "list_all wf args" "all_same (map get_sort args)"
  shows "bexp (br_get (mk_distinct_core rw args) (m_mk_distinct args)) \<and>
    (tv I (br_get (mk_distinct_core rw args) (m_mk_distinct args)) \<longleftrightarrow> distinct (map (eval I) args))"
proof -
  consider "args = []" | a where "args = [a]" | a b where "args = [a, b]" | a b c cs where "args = a # b # c # cs"
    by (metis neq_Nil_conv)
  then show ?thesis
  proof cases
    case 3
    then have "get_sort a = get_sort b" using assms(2) unfolding all_same_def by simp
    then show ?thesis using 3 assms(1) by (simp add: mk_distinct_core_def)
  next
    case 4
    obtain s where s: "\<forall>a \<in> set args. get_sort a = s" using assms(2) unfolding all_same_def by auto
    note D = distinct_loop_sound [of "[]" args s True True I]
    show ?thesis
    proof (cases "distinct_loop [] args True True")
      case None
      have len: "\<not> length args \<le> Suc 0" "length args \<noteq> 2" using 4 by simp_all
      show ?thesis using D assms(1) s None unfolding mk_distinct_core_def by (simp add: len)
    next
      case (Some d)
      have len: "\<not> length args \<le> Suc 0" "length args \<noteq> 2" "args ! 0 = a" using 4 by simp_all
      have b: "\<not> distinct (map (eval I) args)" if "m_is_bool a"
      proof -
        have "bexp a" "bexp b" "bexp c" using that s assms(1) 4 by (auto simp: m_is_bool_def)
        then show ?thesis using 4 by (auto simp: eval_bexp_eq_iff)
      qed
      have "d \<Longrightarrow> distinct (map (eval I) args)" using D assms(1) s Some by simp
      then show ?thesis using assms b Some mk_diseqs_sound [OF assms]
        unfolding mk_distinct_core_def by (simp add: len)
    qed
  qed (simp_all add: mk_distinct_core_def)
qed

section \<open>If-then-else\<close>

lemma mk_ite_bool_sound:
  assumes "bexp c" "bexp t" "bexp e" "mk_ite_bool rw c t e = (st, rw')" "br_result st = Some r"
  shows "bexp r \<and> (tv I r \<longleftrightarrow> (if tv I c then tv I t else tv I e))"
proof -
  have c: "m_is_complement_core t e \<or> m_is_complement_core e t \<Longrightarrow> tv I t \<longleftrightarrow> \<not> tv I e"
    using m_is_complement_core_tv assms bexp_wf by blast
  have "br_result (fst (mk_ite_bool rw c t e)) = Some r" using assms(4,5) by simp
  then show ?thesis
    using assms(1-3) c unfolding mk_ite_bool_def Let_def case_prod_beta
    by (auto simp: m_is_true_tv m_is_false_tv split: if_split_asm)
qed

lemma fst_eqI: "f x = (a, b) \<Longrightarrow> a = fst (f x)"
  by simp

lemma mk_ite_nested_sound:
  assumes "bexp c" "wf t" "wf e" "get_sort t = get_sort e"
  shows "m_is_ite t \<Longrightarrow> mk_ite_nested_then rw c t e = (st, rw') \<Longrightarrow> br_result st = Some r \<Longrightarrow>
     wf r \<and> get_sort r = get_sort t \<and> eval I r = (if tv I c then eval I t else eval I e)"
   "m_is_ite e \<Longrightarrow> mk_ite_nested_else rw c t e = (st, rw') \<Longrightarrow> br_result st = Some r \<Longrightarrow>
     wf r \<and> get_sort r = get_sort t \<and> eval I r = (if tv I c then eval I t else eval I e)"
proof -
  assume "m_is_ite t" "mk_ite_nested_then rw c t e = (st, rw')" "br_result st = Some r"
  then obtain c2 t1 t2 where t: "t = m_mk_ite c2 t1 t2" and r: "br_result (fst (mk_ite_nested_then rw c t e)) = Some r"
    by (auto elim: m_is_iteE)
  have ws: "bexp c" "bexp c2" "wf t1" "wf t2" "wf e" "get_sort t1 = get_sort t2" "get_sort e = get_sort t2"
    using assms by (auto simp: t)
  have "e = t1 \<or> e = t2 \<or> (m_is_ite e \<and> t1 = get_arg e 1 \<and> t2 = get_arg e 2)
      \<or> (m_is_ite e \<and> t1 = get_arg e 2 \<and> t2 = get_arg e 1)"
  proof (rule ccontr)
    assume "\<not> ?thesis"
    then have "mk_ite_nested_then rw c t e = (BR_FAILED, rw)"
      unfolding mk_ite_nested_then_def t get_arg_mk by (intro if_not_P [THEN trans]) simp_all
    then show False using r by simp
  qed
  then consider "e = t1" | "e \<noteq> t1" "e = t2"
    | c3 where "e \<noteq> t1" "e \<noteq> t2" "e = m_mk_ite c3 t1 t2"
    | c3 where "e \<noteq> t1" "e \<noteq> t2" "e = m_mk_ite c3 t2 t1" "t1 \<noteq> t2"
    by (metis m_is_iteE get_arg_mk(6,8))
  then show "wf r \<and> get_sort r = get_sort t \<and> eval I r = (if tv I c then eval I t else eval I e)"
  proof cases
    case 1
    then show ?thesis using r ws unfolding mk_ite_nested_then_def Let_def case_prod_beta t
      by (auto simp: eval_mk)
  next
    case 2
    then show ?thesis using r ws unfolding mk_ite_nested_then_def Let_def case_prod_beta t
      by (auto simp: eval_mk)
  next
    case 3
    then show ?thesis using r ws unfolding mk_ite_nested_then_def Let_def case_prod_beta t
      by (auto simp: eval_mk)
  next
    case 4
    then show ?thesis using r ws unfolding mk_ite_nested_then_def Let_def case_prod_beta t
      by (auto simp: eval_mk)
  qed
next
  assume "m_is_ite e" "mk_ite_nested_else rw c t e = (st, rw')" "br_result st = Some r"
  then obtain c2 t1 t2 where e: "e = m_mk_ite c2 t1 t2" and r: "br_result (fst (mk_ite_nested_else rw c t e)) = Some r"
    by (auto elim: m_is_iteE)
  show "wf r \<and> get_sort r = get_sort t \<and> eval I r = (if tv I c then eval I t else eval I e)"
    using r assms unfolding mk_ite_nested_else_def Let_def case_prod_beta e
    by (auto simp: eval_mk split: if_split_asm)
qed

lemma mk_ite_core_sound:
  assumes "bexp c0" "wf t0" "wf e0" "get_sort t0 = get_sort e0" "mk_ite_core rw c0 t0 e0 = (st, rw')"
  defines "r \<equiv> br_get st (m_mk_ite c0 t0 e0)"
  shows "wf r \<and> get_sort r = get_sort t0 \<and> eval I r = (if tv I c0 then eval I t0 else eval I e0)"
proof -
  obtain c t1 e1 s1 where h1: "(if m_is_not c0 then (get_arg c0 0, e0, t0, True) else (c0, t0, e0, False)) = (c, t1, e1, s1)"
    using prod_cases4 by metis
  obtain t s2 where h2: "(if m_is_ite t1 \<and> get_arg t1 0 = c then (get_arg t1 1, True) else (t1, s1)) = (t, s2)" by force
  obtain e s where h3: "(if m_is_ite e1 \<and> get_arg e1 0 = c then (get_arg e1 2, True) else (e1, s2)) = (e, s)" by force
  have 1: "bexp c \<and> wf t1 \<and> wf e1 \<and> get_sort t1 = get_sort t0 \<and> get_sort e1 = get_sort t0 \<and>
      (if tv I c then eval I t1 else eval I e1) = (if tv I c0 then eval I t0 else eval I e0)"
    using h1 assms(1-4) by (auto elim!: m_is_notE split: if_splits)
  have 2: "wf t \<and> get_sort t = get_sort t0 \<and> (tv I c \<longrightarrow> eval I t = eval I t1)"
    using h2 1 by (auto elim!: m_is_iteE simp: eval_mk split: if_splits)
  have 3: "wf e \<and> get_sort e = get_sort t0 \<and> (\<not> tv I c \<longrightarrow> eval I e = eval I e1)"
    using h3 1 by (auto elim!: m_is_iteE simp: eval_mk split: if_splits)
  let ?v = "if tv I c0 then eval I t0 else eval I e0"
  have goal: "wf t \<and> wf e \<and> bexp c \<and> get_sort t = get_sort t0 \<and> get_sort e = get_sort t0 \<and>
      ?v = (if tv I c then eval I t else eval I e)" using 1 2 3 by auto
  obtain r1 rw1 where r1: "(if m_is_bool t then mk_ite_bool rw c t e else (BR_FAILED, rw)) = (r1, rw1)" by force
  obtain r2 rw2 where r2: "(if m_is_ite t \<and> m_ite_extra_rules rw1 \<and> m_elim_ite rw1
                         then mk_ite_nested_then rw1 c t e else (BR_FAILED, rw1)) = (r2, rw2)" by force
  obtain r3 rw3 where r3: "(if m_is_ite e \<and> m_ite_extra_rules rw2 \<and> m_elim_ite rw2
                         then mk_ite_nested_else rw2 c t e else (BR_FAILED, rw2)) = (r3, rw3)" by force
  have eq: "mk_ite_core rw c0 t0 e0 = (if m_is_true c then (BR_DONE t, rw)
     else if m_is_false c then (BR_DONE e, rw)
     else if t = e then (BR_DONE t, rw)
     else if r1 \<noteq> BR_FAILED then (r1, rw1)
     else if r2 \<noteq> BR_FAILED then (r2, rw2)
     else if r3 \<noteq> BR_FAILED then (r3, rw3)
     else if s then (BR_DONE (m_mk_ite c t e), rw3) else (BR_FAILED, rw3))"
    unfolding mk_ite_core_def h1 h2 h3 r1 r2 r3 Let_def prod.case by (rule refl)
  have nf: "x \<noteq> BR_FAILED \<Longrightarrow> \<exists>y. br_result x = Some y" for x by (cases x) auto
  have B1: "wf y \<and> get_sort y = get_sort t0 \<and> eval I y = ?v" if "br_result r1 = Some y" for y
  proof -
    have "m_is_bool t" "mk_ite_bool rw c t e = (r1, rw1)" using r1 that by (auto split: if_splits)
    moreover then have "bexp t" "bexp e" using goal by (auto simp: m_is_bool_def)
    ultimately have "bexp y \<and> (tv I y \<longleftrightarrow> (if tv I c then tv I t else tv I e))"
      using mk_ite_bool_sound goal that by blast
    then show ?thesis using goal \<open>bexp t\<close> \<open>bexp e\<close> by (simp add: eval_bool)
  qed
  have B2: "wf y \<and> get_sort y = get_sort t0 \<and> eval I y = ?v" if "br_result r2 = Some y" for y
    using r2 that goal mk_ite_nested_sound(1) [of c t e rw1 r2 rw2 y I] by (auto split: if_split_asm)
  have B3: "wf y \<and> get_sort y = get_sort t0 \<and> eval I y = ?v" if "br_result r3 = Some y" for y
    using r3 that goal mk_ite_nested_sound(2) [of c t e rw2 r3 rw3 y I] by (auto split: if_split_asm)
  consider "m_is_true c" | "m_is_false c" | "t = e" | y where "br_result st = Some y" "st = r1 \<or> st = r2 \<or> st = r3"
    | "st = BR_DONE (m_mk_ite c t e)" | "st = BR_FAILED"
    using assms(5) nf unfolding eq by (auto split: if_split_asm)
  then show ?thesis
  proof cases
    case 1
    then show ?thesis using goal assms(5) eq by (auto simp: r_def)
  next
    case 2
    then show ?thesis using goal assms(5) eq by (auto simp: r_def)
  next
    case 3
    then show ?thesis using goal assms(5) eq by (auto simp: r_def split: if_splits)
  next
    case (4 y)
    then have "r = y" by (simp add: r_def br_get_def)
    then show ?thesis using 4 B1 B2 B3 by metis
  next
    case 5
    then show ?thesis using goal by (simp add: r_def eval_mk)
  next
    case 6
    then show ?thesis using assms(1-4) by (simp add: r_def eval_mk)
  qed
qed

lemma rw_mk_ite_sound:
  assumes "bexp c" "wf t" "wf e" "get_sort t = get_sort e"
  shows "wf (fst (rw_mk_ite rw c t e))" "get_sort (fst (rw_mk_ite rw c t e)) = get_sort t"
    "eval I (fst (rw_mk_ite rw c t e)) = (if tv I c then eval I t else eval I e)"
  using mk_ite_core_sound [OF assms, of rw] by (cases "mk_ite_core rw c t e"; simp add: rw_mk_ite_def)+

lemma rw_mk_ite_bool [simp]:
  assumes "bexp c" "bexp t" "bexp e"
  shows "bexp (fst (rw_mk_ite rw c t e))"
    "tv I (fst (rw_mk_ite rw c t e)) \<longleftrightarrow> (if tv I c then tv I t else tv I e)"
  using rw_mk_ite_sound(1,2) [of c t e rw] rw_mk_ite_sound(3) [of c t e I rw] assms by (auto simp: tv_def)

section \<open>All operations\<close>

lemma basic_app_mk:
  "App (Basic OP_TRUE) [] = m_mk_true"
  "App (Basic OP_FALSE) [] = m_mk_false"
  "App (Basic OP_NOT) [a] = m_mk_not a"
  "App (Basic OP_AND) args = m_mk_and args"
  "App (Basic OP_OR) args = m_mk_or args"
  "App (Basic OP_EQ) [a, b] = m_mk_eq a b"
  "App (Basic OP_ITE) [a, b, c] = m_mk_ite a b c"
  "App (Basic OP_DISTINCT) args = m_mk_distinct args"
  by (simp_all add: m_mk_defs)

lemma mk_app_core_sound:
  assumes "wf (App (Basic f) args)" "mk_app_core rw f args = (st, rw')"
  defines "r \<equiv> br_get st (App (Basic f) args)"
  shows "wf r \<and> get_sort r = get_sort (App (Basic f) args) \<and> eval I r = eval I (App (Basic f) args)"
proof -
  have bool: ?thesis if "bexp r" "tv I r \<longleftrightarrow> tv I (App (Basic f) args)" "bexp (App (Basic f) args)"
    using eval_bool [OF that(1), of I] eval_bool [OF that(3), of I] that(2) bexp_sort [OF that(1)] bexp_sort [OF that(3)]
      bexp_wf [OF that(1)] by (intro conjI) (simp_all only:)
  have same: ?thesis if "st = BR_FAILED" using that assms(1) by (simp add: r_def)
  show ?thesis
  proof (cases f)
    case OP_EQ
    then obtain a b where ab: "args = [a, b]" "wf a" "wf b" "get_sort a = get_sort b"
      using assms(1) by (auto simp: length_2_conv)
    show ?thesis using mk_not_mk_eq_sound(2) [OF ab(2-4), of rw I] ab assms(2) OP_EQ
      by (intro bool) (auto simp: mk_app_core_def r_def basic_app_mk)
  next
    case OP_DISTINCT
    then show ?thesis using mk_distinct_core_sound [of args rw I] assms(1,2)
      by (intro bool) (auto simp: mk_app_core_def r_def basic_app_mk)
  next
    case OP_ITE
    then have "length args = 3" using assms(1) by simp
    then obtain c t e where "args = [c, t, e]" unfolding length_3_conv by blast
    then have cte: "args = [c, t, e]" "bexp c" "wf t" "wf e" "get_sort t = get_sort e"
      using assms(1) OP_ITE by (simp_all add: bexp_def del: bexp_wf bexp_sort)
    show ?thesis using mk_ite_core_sound [OF cte(2-5), of rw st rw' I] cte assms(2) OP_ITE
      by (simp add: mk_app_core_def r_def basic_app_mk eval_mk)
  next
    case OP_AND
    then have a: "list_all bexp args" using assms(1) by (auto simp: list_all_iff)
    have "rw_mk_and rw args = (r, rw')" using OP_AND assms(2) by (simp add: mk_app_core_def rw_mk_and_def r_def basic_app_mk)
    then show ?thesis using rw_mk_and_sound [OF a] OP_AND a by (intro bool) (simp_all add: basic_app_mk)
  next
    case OP_OR
    then have a: "list_all bexp args" using assms(1) by (auto simp: list_all_iff)
    have "rw_mk_or rw args = (r, rw')" using OP_OR assms(2) by (simp add: mk_app_core_def rw_mk_or_def r_def basic_app_mk)
    then show ?thesis using rw_mk_or_sound [OF a] OP_OR a by (intro bool) (simp_all add: basic_app_mk)
  next
    case OP_NOT
    then obtain a where a: "args = [a]" "bexp a" using assms(1) by (auto simp: bexp_def simp del: bexp_wf bexp_sort)
    show ?thesis using mk_not_mk_eq_sound(1) [OF a(2), of rw I] a assms(2) OP_NOT
      by (intro bool) (auto simp: mk_app_core_def r_def basic_app_mk)
  next
    case OP_IMPLIES
    then obtain a b where ab: "args = [a, b]" "bexp a" "bexp b" using assms(1)
      by (auto simp: bexp_def simp del: bexp_wf bexp_sort)
    have "rw_mk_implies rw a b = (r, rw')"
      using OP_IMPLIES assms(2) ab by (cases "rw_mk_implies rw a b") (auto simp: mk_app_core_def r_def)
    then have "bexp r \<and> (tv I r \<longleftrightarrow> (tv I a \<longrightarrow> tv I b))" by (rule rw_mk_implies_sound [OF ab(2,3)])
    moreover have "tv I (App (Basic f) args) \<longleftrightarrow> (tv I a \<longrightarrow> tv I b)"
      by (simp add: OP_IMPLIES ab(1) tv_def eval_basic_def)
    moreover have "bexp (App (Basic f) args)" using assms(1) OP_IMPLIES by (intro bexpI) simp_all
    ultimately show ?thesis by (intro bool) simp_all
  next
    case OP_XOR
    then have b: "bexp (App (Basic f) args)" "list_all bexp args"
      using assms(1) by (auto simp: list_all_iff)
    consider "args = []" | a where "args = [a]" | a b where "args = [a, b]" | a b c cs where "args = a # b # c # cs"
      by (metis neq_Nil_conv)
    then show ?thesis
    proof cases
      case 2
      then show ?thesis using assms(2) OP_XOR b
        by (intro bool) (auto simp: mk_app_core_def r_def tv_def eval_basic_def)
    next
      case 3
      have "r = rw_mk_xor rw a b" using assms(2) OP_XOR 3 by (auto simp: mk_app_core_def r_def)
      moreover have "tv I (App (Basic f) args) \<longleftrightarrow> tv I a \<noteq> tv I b"
        by (auto simp: OP_XOR 3 tv_def eval_basic_def)
      ultimately show ?thesis using b 3 by (intro bool) simp_all
    qed (use assms(2) OP_XOR in \<open>intro same, simp add: mk_app_core_def\<close>)+
  qed (use assms(2) in \<open>intro same, simp add: mk_app_core_def\<close>)+
qed

lemma rw_mk_app_sound:
  assumes "wf (App (Basic f) args)"
  shows "wf (fst (rw_mk_app rw f args))" "get_sort (fst (rw_mk_app rw f args)) = get_sort (App (Basic f) args)"
    "eval I (fst (rw_mk_app rw f args)) = eval I (App (Basic f) args)"
  using mk_app_core_sound [OF assms, of rw] by (cases "mk_app_core rw f args"; simp add: rw_mk_app_def)+

section \<open>Without the local context simplifier the state does not change\<close>

lemma rw_mk_or_state: "\<not> m_local_ctx rw \<Longrightarrow> snd (mk_or_core rw args) = rw \<and> snd (rw_mk_or rw args) = rw"
proof -
  assume l: "\<not> m_local_ctx rw"
  have n: "snd (mk_nflat_or_core rw as) = rw" for as
    using l by (auto simp: mk_nflat_or_core_def split: option.splits)
  then show ?thesis
    by (auto simp: mk_or_core_def mk_flat_or_core_def rw_mk_or_def Let_def case_prod_beta)
qed

lemma rw_mk_and_state: "\<not> m_local_ctx rw \<Longrightarrow> snd (mk_and_core rw args) = rw \<and> snd (rw_mk_and rw args) = rw"
  using rw_mk_or_state by (auto simp: mk_and_core_def mk_and_as_or_def rw_mk_and_def Let_def case_prod_beta)

lemma rw_mk_implies_state: "\<not> m_local_ctx rw \<Longrightarrow> snd (rw_mk_implies rw a b) = rw"
  using rw_mk_or_state by (simp add: rw_mk_implies_def)

lemma mk_ite_parts_state:
  assumes "\<not> m_local_ctx rw"
  shows "snd (mk_ite_bool rw c t e) = rw" "snd (mk_ite_nested_then rw c t e) = rw" "snd (mk_ite_nested_else rw c t e) = rw"
  using rw_mk_or_state [OF assms] rw_mk_and_state [OF assms]
  by (simp_all add: mk_ite_bool_def mk_ite_nested_then_def mk_ite_nested_else_def Let_def case_prod_beta)

lemma mk_ite_core_state:
  assumes "\<not> m_local_ctx rw"
  shows "snd (mk_ite_core rw c0 t0 e0) = rw"
proof -
  obtain c t1 e1 s1 where h1: "(if m_is_not c0 then (get_arg c0 0, e0, t0, True) else (c0, t0, e0, False)) = (c, t1, e1, s1)"
    using prod_cases4 by metis
  obtain t s2 where h2: "(if m_is_ite t1 \<and> get_arg t1 0 = c then (get_arg t1 1, True) else (t1, s1)) = (t, s2)" by force
  obtain e s where h3: "(if m_is_ite e1 \<and> get_arg e1 0 = c then (get_arg e1 2, True) else (e1, s2)) = (e, s)" by force
  obtain r1 rw1 where r1: "(if m_is_bool t then mk_ite_bool rw c t e else (BR_FAILED, rw)) = (r1, rw1)" by force
  then have s1: "rw1 = rw" using mk_ite_parts_state(1) [OF assms] by (metis snd_conv)
  obtain r2 rw2 where r2: "(if m_is_ite t \<and> m_ite_extra_rules rw1 \<and> m_elim_ite rw1
                         then mk_ite_nested_then rw1 c t e else (BR_FAILED, rw1)) = (r2, rw2)" by force
  then have s2: "rw2 = rw" using mk_ite_parts_state(2) [OF assms] s1 by (metis snd_conv)
  obtain r3 rw3 where r3: "(if m_is_ite e \<and> m_ite_extra_rules rw2 \<and> m_elim_ite rw2
                         then mk_ite_nested_else rw2 c t e else (BR_FAILED, rw2)) = (r3, rw3)" by force
  then have s3: "rw3 = rw" using mk_ite_parts_state(3) [OF assms] s2 by (metis snd_conv)
  show ?thesis
    unfolding mk_ite_core_def h1 h2 h3 r1 r2 r3 Let_def prod.case using s1 s2 s3 by simp
qed

lemma mk_app_core_state: "\<not> m_local_ctx rw \<Longrightarrow> snd (mk_app_core rw f args) = rw"
  using rw_mk_or_state [of rw] rw_mk_and_state [of rw] rw_mk_implies_state [of rw] mk_ite_core_state [of rw]
  by (cases f) (simp_all add: mk_app_core_def case_prod_beta)

end
