(* ===== verification/Bit_Blaster.thy ===== *)
theory Bit_Blaster
  imports Semantics Ast_Manager
begin

text \<open>
  The circuits of \<open>bit_blaster_tpl<Cfg>\<close>
  (\<open>src/Z3/z3-master/src/ast/rewriter/bit_blaster/bit_blaster_tpl.h\<close>, \<open>bit_blaster_tpl_def.h\<close>).
  A bit-vector is the list of its bits, least significant first; \<open>sz\<close> is the length of the
  list, positive wherever the code asserts it. The template parameter \<open>Cfg\<close> is a record of
  gate constructors. The in-place loops over \<open>out_bits\<close> are recursions on the bits or on the
  index; the circuits are those of calls in which no \<open>checkpoint()\<close> throws; \<open>reduce_app_checked\<close> of
  \<open>Bit_Blaster_Rewriter\<close> has the calls in which one does.
\<close>

section \<open>The gates\<close>

record bb_cfg =
  c_xor :: "expr \<Rightarrow> expr \<Rightarrow> expr"
  c_xor3 :: "expr \<Rightarrow> expr \<Rightarrow> expr \<Rightarrow> expr"
  c_carry :: "expr \<Rightarrow> expr \<Rightarrow> expr \<Rightarrow> expr"
  c_iff :: "expr \<Rightarrow> expr \<Rightarrow> expr"
  c_and :: "expr \<Rightarrow> expr \<Rightarrow> expr"
  c_andn :: "expr list \<Rightarrow> expr"
  c_or :: "expr \<Rightarrow> expr \<Rightarrow> expr"
  c_or3 :: "expr \<Rightarrow> expr \<Rightarrow> expr \<Rightarrow> expr"
  c_orn :: "expr list \<Rightarrow> expr"
  c_not :: "expr \<Rightarrow> expr"
  c_ite :: "expr \<Rightarrow> expr \<Rightarrow> expr \<Rightarrow> expr"
  c_nand :: "expr \<Rightarrow> expr \<Rightarrow> expr"
  c_nor :: "expr \<Rightarrow> expr \<Rightarrow> expr"

section \<open>Numerals\<close>

definition is_bool_const :: "expr \<Rightarrow> bool" where
  "is_bool_const e = (m_is_true e \<or> m_is_false e)"

text \<open>The two overloads of \<open>is_numeral\<close>; the second also returns the number.\<close>

fun is_numeral_bits :: "expr list \<Rightarrow> bool" where
  "is_numeral_bits [] = True"
| "is_numeral_bits (b # bits) = (if \<not> is_bool_const b then False else is_numeral_bits bits)"

fun is_numeral_loop :: "nat \<Rightarrow> nat \<Rightarrow> expr list \<Rightarrow> nat option" where
  "is_numeral_loop i r [] = Some r"
| "is_numeral_loop i r (b # bits) =
    (if m_is_true b then is_numeral_loop (i + 1) (r + 2 ^ i) bits
     else if \<not> m_is_false b then None
     else is_numeral_loop (i + 1) r bits)"

definition is_numeral :: "expr list \<Rightarrow> nat option" where
  "is_numeral bits = is_numeral_loop 0 0 bits"

fun is_minus_one :: "expr list \<Rightarrow> bool" where
  "is_minus_one [] = True"
| "is_minus_one (b # bits) = (if \<not> m_is_true b then False else is_minus_one bits)"

text \<open>\<open>_num2bits\<close>: 32 bits at a time while more than 32 are left, then one at a time.\<close>

definition unsigned_bits :: "32 word \<Rightarrow> expr list" where
  "unsigned_bits u = map (\<lambda>j. if 0 \<noteq> u AND push_bit j 1 then m_mk_true else m_mk_false) [0..<32]"

function num2bits_loop :: "nat \<Rightarrow> nat \<Rightarrow> nat \<Rightarrow> expr list" where
  "num2bits_loop aux i sz =
    (if i < sz then
       (if i + 32 < sz then unsigned_bits (of_nat (aux mod 2 ^ 32)) @ num2bits_loop (aux div 2 ^ 32) (i + 32) sz
        else (if aux mod 2 = 0 then m_mk_false else m_mk_true) # num2bits_loop (aux div 2) (i + 1) sz)
     else [])"
  by pat_completeness auto
termination
  by (relation "measure (\<lambda>(aux, i, sz). sz - i)") auto

declare num2bits_loop.simps [simp del]

definition num2bits :: "nat \<Rightarrow> nat \<Rightarrow> expr list" where
  "num2bits v sz = num2bits_loop v 0 sz"

section \<open>Adders\<close>

definition mk_half_adder :: "bb_cfg \<Rightarrow> expr \<Rightarrow> expr \<Rightarrow> expr \<times> expr" where
  "mk_half_adder C a b = (c_xor C a b, c_and C a b)"

definition mk_full_adder :: "bb_cfg \<Rightarrow> expr \<Rightarrow> expr \<Rightarrow> expr \<Rightarrow> expr \<times> expr" where
  "mk_full_adder C a b cin = (c_xor3 C a b cin, c_carry C a b cin)"

text \<open>The loops carry \<open>cin\<close>; the last bit needs no carry out.\<close>

fun mk_neg_loop :: "bb_cfg \<Rightarrow> expr list \<Rightarrow> expr \<Rightarrow> expr list" where
  "mk_neg_loop C [] cin = []"
| "mk_neg_loop C (a # as) cin =
    (let not_a = c_not C a in
     if as \<noteq> [] then (let (out, cout) = mk_half_adder C not_a cin in out # mk_neg_loop C as cout)
     else [c_xor C not_a cin])"

definition mk_neg :: "bb_cfg \<Rightarrow> expr list \<Rightarrow> expr list" where
  "mk_neg C a_bits = mk_neg_loop C a_bits m_mk_true"

fun mk_adder_loop :: "bb_cfg \<Rightarrow> expr list \<Rightarrow> expr list \<Rightarrow> expr \<Rightarrow> expr list" where
  "mk_adder_loop C (a # as) (b # bs) cin =
    (if as \<noteq> [] then (let (out, cout) = mk_full_adder C a b cin in out # mk_adder_loop C as bs cout)
     else [c_xor3 C a b cin])"
| "mk_adder_loop C _ _ cin = []"

definition mk_adder :: "bb_cfg \<Rightarrow> expr list \<Rightarrow> expr list \<Rightarrow> expr list" where
  "mk_adder C a_bits b_bits = mk_adder_loop C a_bits b_bits m_mk_false"

text \<open>The second component is the carry out of the last full adder.\<close>

fun mk_subtracter_loop :: "bb_cfg \<Rightarrow> expr list \<Rightarrow> expr list \<Rightarrow> expr \<Rightarrow> expr list \<times> expr" where
  "mk_subtracter_loop C (a # as) (b # bs) cin =
    (let (out, cout) = mk_full_adder C a (c_not C b) cin;
         (outs, cout') = mk_subtracter_loop C as bs cout
     in (out # outs, cout'))"
| "mk_subtracter_loop C _ _ cin = ([], cin)"

definition mk_subtracter :: "bb_cfg \<Rightarrow> expr list \<Rightarrow> expr list \<Rightarrow> expr list \<times> expr" where
  "mk_subtracter C a_bits b_bits = mk_subtracter_loop C a_bits b_bits m_mk_true"

text \<open>The sum bits, and the carry bits in the order they are pushed.\<close>

fun mk_carry_save_adder ::
    "bb_cfg \<Rightarrow> expr list \<Rightarrow> expr list \<Rightarrow> expr list \<Rightarrow> expr list \<times> expr list" where
  "mk_carry_save_adder C (a # as) (b # bs) (c # cs) =
    (let (sum_bits, carry_bits) = mk_carry_save_adder C as bs cs
     in (c_xor3 C a b c # sum_bits, c_carry C a b c # carry_bits))"
| "mk_carry_save_adder C _ _ _ = ([], [])"

section \<open>Bitwise operations, selection, equality\<close>

definition mk_multiplexer :: "bb_cfg \<Rightarrow> expr \<Rightarrow> expr list \<Rightarrow> expr list \<Rightarrow> expr list" where
  "mk_multiplexer C c t_bits e_bits = map2 (c_ite C c) t_bits e_bits"

definition bb_mk_not :: "bb_cfg \<Rightarrow> expr list \<Rightarrow> expr list" where
  "bb_mk_not C a_bits = map (c_not C) a_bits"

definition bb_mk_and :: "bb_cfg \<Rightarrow> expr list \<Rightarrow> expr list \<Rightarrow> expr list" where
  "bb_mk_and C a_bits b_bits = map2 (c_and C) a_bits b_bits"

definition bb_mk_or :: "bb_cfg \<Rightarrow> expr list \<Rightarrow> expr list \<Rightarrow> expr list" where
  "bb_mk_or C a_bits b_bits = map2 (c_or C) a_bits b_bits"

definition bb_mk_xor :: "bb_cfg \<Rightarrow> expr list \<Rightarrow> expr list \<Rightarrow> expr list" where
  "bb_mk_xor C a_bits b_bits = map2 (c_xor C) a_bits b_bits"

definition bb_mk_xnor :: "bb_cfg \<Rightarrow> expr list \<Rightarrow> expr list \<Rightarrow> expr list" where
  "bb_mk_xnor C a_bits b_bits = map2 (c_iff C) a_bits b_bits"

definition bb_mk_nand :: "bb_cfg \<Rightarrow> expr list \<Rightarrow> expr list \<Rightarrow> expr list" where
  "bb_mk_nand C a_bits b_bits = map2 (c_nand C) a_bits b_bits"

definition bb_mk_nor :: "bb_cfg \<Rightarrow> expr list \<Rightarrow> expr list \<Rightarrow> expr list" where
  "bb_mk_nor C a_bits b_bits = map2 (c_nor C) a_bits b_bits"

definition mk_redand :: "bb_cfg \<Rightarrow> expr list \<Rightarrow> expr list" where
  "mk_redand C a_bits = [c_andn C a_bits]"

definition mk_redor :: "bb_cfg \<Rightarrow> expr list \<Rightarrow> expr list" where
  "mk_redor C a_bits = [c_orn C a_bits]"

definition bb_mk_eq :: "bb_cfg \<Rightarrow> expr list \<Rightarrow> expr list \<Rightarrow> expr" where
  "bb_mk_eq C a_bits b_bits = c_andn C (map2 (c_iff C) a_bits b_bits)"

definition mk_comp :: "bb_cfg \<Rightarrow> expr list \<Rightarrow> expr list \<Rightarrow> expr list" where
  "mk_comp C a_bits b_bits = [bb_mk_eq C a_bits b_bits]"

fun mk_is_eq_bits :: "bb_cfg \<Rightarrow> expr list \<Rightarrow> nat \<Rightarrow> expr list" where
  "mk_is_eq_bits C [] n = []"
| "mk_is_eq_bits C (a # as) n = (if n mod 2 = 0 then c_not C a else a) # mk_is_eq_bits C as (n div 2)"

definition mk_is_eq :: "bb_cfg \<Rightarrow> expr list \<Rightarrow> nat \<Rightarrow> expr" where
  "mk_is_eq C a_bits n = c_andn C (mk_is_eq_bits C a_bits n)"

definition mk_eqs :: "bb_cfg \<Rightarrow> expr list \<Rightarrow> expr list" where
  "mk_eqs C a_bits = map (mk_is_eq C a_bits) [0..<length a_bits]"

section \<open>Extensions, rotations by a constant\<close>

definition mk_rotate_left :: "expr list \<Rightarrow> nat \<Rightarrow> expr list" where
  "mk_rotate_left a_bits n0 =
    (let sz = length a_bits; n = n0 mod sz
     in map (\<lambda>i. a_bits ! i) [sz - n..<sz] @ map (\<lambda>i. a_bits ! i) [0..<sz - n])"

definition mk_rotate_right :: "expr list \<Rightarrow> nat \<Rightarrow> expr list" where
  "mk_rotate_right a_bits n0 =
    (let sz = length a_bits; n = n0 mod sz in mk_rotate_left a_bits (sz - n))"

definition mk_sign_extend :: "expr list \<Rightarrow> nat \<Rightarrow> expr list" where
  "mk_sign_extend a_bits n = a_bits @ replicate n (a_bits ! (length a_bits - 1))"

definition mk_zero_extend :: "expr list \<Rightarrow> nat \<Rightarrow> expr list" where
  "mk_zero_extend a_bits n = a_bits @ replicate n m_mk_false"

section \<open>Comparisons\<close>

text \<open>The loop of \<open>mk_le\<close> over the positions from 1.\<close>

fun mk_le_loop :: "bb_cfg \<Rightarrow> expr list \<Rightarrow> expr list \<Rightarrow> expr \<Rightarrow> expr" where
  "mk_le_loop C (a # as) (b # bs) out =
    (let not_a = c_not C a;
         i1 = c_and C not_a b; i2 = c_and C not_a out; i3 = c_and C b out
     in mk_le_loop C as bs (c_or3 C i1 i2 i3))"
| "mk_le_loop C _ _ out = out"

definition mk_le :: "bb_cfg \<Rightarrow> bool \<Rightarrow> expr list \<Rightarrow> expr list \<Rightarrow> expr" where
  "mk_le C Signed a_bits b_bits =
    (let sz = length a_bits;
         out0 = c_or C (c_not C (a_bits ! 0)) (b_bits ! 0);
         last = (if Signed then sz - 1 else sz);
         out = mk_le_loop C (drop 1 (take last a_bits)) (drop 1 (take last b_bits)) out0 in
     if Signed then
       (let not_b = c_not C (b_bits ! (sz - 1));
            i1 = c_and C not_b (a_bits ! (sz - 1));
            i2 = c_and C not_b out;
            i3 = c_and C (a_bits ! (sz - 1)) out
        in c_or3 C i1 i2 i3)
     else out)"

definition mk_sle :: "bb_cfg \<Rightarrow> expr list \<Rightarrow> expr list \<Rightarrow> expr" where
  "mk_sle C a_bits b_bits = mk_le C True a_bits b_bits"

definition mk_ule :: "bb_cfg \<Rightarrow> expr list \<Rightarrow> expr list \<Rightarrow> expr" where
  "mk_ule C a_bits b_bits = mk_le C False a_bits b_bits"

section \<open>The contract of the gates\<close>

text \<open>What the circuits rely on: every gate returns a Boolean term with the gate's truth value.\<close>

locale gates =
  fixes C :: bb_cfg and I :: interp
  assumes gate_xor: "bexp a \<Longrightarrow> bexp b \<Longrightarrow> bexp (c_xor C a b) \<and> tv I (c_xor C a b) = (tv I a \<noteq> tv I b)"
    and gate_xor3: "bexp a \<Longrightarrow> bexp b \<Longrightarrow> bexp c \<Longrightarrow>
      bexp (c_xor3 C a b c) \<and> tv I (c_xor3 C a b c) = (tv I a \<noteq> (tv I b \<noteq> tv I c))"
    and gate_carry: "bexp a \<Longrightarrow> bexp b \<Longrightarrow> bexp c \<Longrightarrow> bexp (c_carry C a b c) \<and>
      tv I (c_carry C a b c) = (tv I a \<and> tv I b \<or> tv I a \<and> tv I c \<or> tv I b \<and> tv I c)"
    and gate_iff: "bexp a \<Longrightarrow> bexp b \<Longrightarrow> bexp (c_iff C a b) \<and> tv I (c_iff C a b) = (tv I a = tv I b)"
    and gate_and: "bexp a \<Longrightarrow> bexp b \<Longrightarrow> bexp (c_and C a b) \<and> tv I (c_and C a b) = (tv I a \<and> tv I b)"
    and gate_andn: "list_all bexp as \<Longrightarrow> bexp (c_andn C as) \<and> tv I (c_andn C as) = list_all (tv I) as"
    and gate_or: "bexp a \<Longrightarrow> bexp b \<Longrightarrow> bexp (c_or C a b) \<and> tv I (c_or C a b) = (tv I a \<or> tv I b)"
    and gate_or3: "bexp a \<Longrightarrow> bexp b \<Longrightarrow> bexp c \<Longrightarrow>
      bexp (c_or3 C a b c) \<and> tv I (c_or3 C a b c) = (tv I a \<or> tv I b \<or> tv I c)"
    and gate_orn: "list_all bexp as \<Longrightarrow> bexp (c_orn C as) \<and> tv I (c_orn C as) = list_ex (tv I) as"
    and gate_not: "bexp a \<Longrightarrow> bexp (c_not C a) \<and> tv I (c_not C a) = (\<not> tv I a)"
    and gate_ite: "bexp c \<Longrightarrow> bexp a \<Longrightarrow> bexp b \<Longrightarrow>
      bexp (c_ite C c a b) \<and> tv I (c_ite C c a b) = (if tv I c then tv I a else tv I b)"
    and gate_nand: "bexp a \<Longrightarrow> bexp b \<Longrightarrow> bexp (c_nand C a b) \<and> tv I (c_nand C a b) = (\<not> (tv I a \<and> tv I b))"
    and gate_nor: "bexp a \<Longrightarrow> bexp b \<Longrightarrow> bexp (c_nor C a b) \<and> tv I (c_nor C a b) = (\<not> (tv I a \<or> tv I b))"

section \<open>Values of bit lists\<close>

lemma bval_simps [simp]:
  "bval I [] = 0" "bval I (e # es) = of_bool (tv I e) + 2 * bval I es"
  by (simp_all add: bval_def)

lemma bval_less [simp]: "bval I es < 2 ^ length es"
  by (simp add: bval_def)

lemma bval_append: "bval I (xs @ ys) = bval I xs + 2 ^ length xs * bval I ys"
  by (simp add: bval_def bits_val_append)

lemma bval_take: "bval I (take n es) = bval I es mod 2 ^ n"
  by (simp add: bval_def bits_val_take flip: take_map)

lemma bval_drop: "bval I (drop n es) = bval I es div 2 ^ n"
  by (simp add: bval_def bits_val_drop flip: drop_map)

lemma bval_replicate_false [simp]: "bval I (replicate n m_mk_false) = 0"
  by (induction n) auto

lemma bval_eq_iff: "length xs = length ys \<Longrightarrow> bval I xs = bval I ys \<longleftrightarrow> map (tv I) xs = map (tv I) ys"
  by (simp add: bval_def bits_val_eq_iff)

lemma bval_nth: "i < length es \<Longrightarrow> tv I (es ! i) \<longleftrightarrow> odd (bval I es div 2 ^ i)"
  by (simp add: bval_def odd_bits_val_div)

lemma bval_map_cong: "(\<And>e. e \<in> set es \<Longrightarrow> tv I (f e) = tv I (g e)) \<Longrightarrow> bval I (map f es) = bval I (map g es)"
  by (induction es) auto

lemma bval_compl:
  assumes "length xs = length ys" "\<And>i. i < length xs \<Longrightarrow> tv I (ys ! i) \<longleftrightarrow> \<not> tv I (xs ! i)"
  shows "bval I xs + bval I ys + 1 = 2 ^ length xs"
  using assms
proof (induction xs ys rule: list_induct2)
  case (Cons x xs y ys)
  have "bval I xs + bval I ys + 1 = 2 ^ length xs" using Cons.IH Cons.prems [of "Suc _"] by auto
  moreover have "tv I y \<longleftrightarrow> \<not> tv I x" using Cons.prems [of 0] by simp
  ultimately show ?case by (cases "tv I x") simp_all
qed simp

lemma mod_cons_bit: "(of_bool b + 2 * n) mod 2 ^ Suc k = of_bool b + 2 * (n mod 2 ^ k :: nat)"
proof -
  have "(of_bool b + 2 * n) mod (2 * 2 ^ k) = 2 * ((of_bool b + 2 * n) div 2 mod 2 ^ k) + (of_bool b + 2 * n) mod 2"
    by (rule mod_mult2_eq)
  then show ?thesis by simp
qed

section \<open>Numerals\<close>

lemma is_bool_constE:
  assumes "is_bool_const e"
  obtains "e = m_mk_true" | "e = m_mk_false"
  using assms by (auto simp: is_bool_const_def)

lemma is_numeral_loop_Some:
  "is_numeral_loop i r bits = Some n \<Longrightarrow> list_all is_bool_const bits \<and> n = r + 2 ^ i * bval I bits"
proof (induction i r bits rule: is_numeral_loop.induct)
  case (2 i r b bits)
  then show ?case by (auto simp: is_bool_const_def algebra_simps split: if_splits)
qed simp

lemma is_numeral_Some: "is_numeral bits = Some n \<Longrightarrow> list_all is_bool_const bits \<and> n = bval I bits"
  using is_numeral_loop_Some [of 0 0 bits n I] by (simp add: is_numeral_def)

lemma is_numeral_loop_None: "is_numeral_loop i r bits = None \<Longrightarrow> \<not> list_all is_bool_const bits"
  by (induction i r bits rule: is_numeral_loop.induct) (auto simp: is_bool_const_def split: if_splits)

lemma is_numeral_iff: "(\<exists>n. is_numeral bits = Some n) \<longleftrightarrow> list_all is_bool_const bits"
  using is_numeral_Some is_numeral_loop_None unfolding is_numeral_def by (cases "is_numeral_loop 0 0 bits") fastforce+

lemma is_numeral_bits_iff: "is_numeral_bits bits \<longleftrightarrow> list_all is_bool_const bits"
  by (induction bits) auto

lemma is_minus_one_val: "is_minus_one bits \<Longrightarrow> bval I bits + 1 = 2 ^ length bits"
  by (induction bits) (auto split: if_splits)

lemma unsigned_bits:
  "length (unsigned_bits u) = 32" "list_all bexp (unsigned_bits u)" "bval I (unsigned_bits u) = unat u"
proof -
  show "length (unsigned_bits u) = 32" "list_all bexp (unsigned_bits u)"
    by (auto simp: unsigned_bits_def list_all_iff)
  have b: "0 \<noteq> u AND push_bit j 1 \<longleftrightarrow> bit u j" for j
    unfolding bit_iff_and_push_bit_not_eq_0 by (rule neq_commute)
  have f: "(\<lambda>j. tv I (if 0 \<noteq> u AND push_bit j 1 then m_mk_true else m_mk_false)) = bit u"
    by (rule ext) (unfold b, simp)
  have "map (tv I) (unsigned_bits u) = map (bit u) [0..<32]"
    unfolding unsigned_bits_def map_map comp_def f ..
  then have "bval I (unsigned_bits u) = horner_sum of_bool 2 (map (bit (unat u)) [0..<32])"
    by (simp add: bval_def bit_unsigned_iff cong: map_cong)
  also have "\<dots> = unat u"
    unfolding horner_sum_bit_eq_take_bit using unsigned_less [of u, where 'a = nat] by (simp add: take_bit_nat_eq_self_iff)
  finally show "bval I (unsigned_bits u) = unat u" .
qed

lemma num2bits_loop:
  "length (num2bits_loop v i sz) = sz - i \<and> list_all bexp (num2bits_loop v i sz)
    \<and> bval I (num2bits_loop v i sz) = v mod 2 ^ (sz - i)"
proof (induction v i sz rule: num2bits_loop.induct)
  case (1 aux i sz)
  show ?case
  proof (cases "i < sz")
    case True
    show ?thesis
    proof (cases "i + 32 < sz")
      case big: True
      have "unat (of_nat (aux mod 2 ^ 32) :: 32 word) = aux mod 2 ^ 32"
        by (simp add: unat_of_nat)
      moreover have "(2::nat) ^ (sz - i) = 2 ^ 32 * 2 ^ (sz - (i + 32))"
      proof -
        have "sz - i = 32 + (sz - (i + 32))" using big by simp
        then show ?thesis by (metis power_add)
      qed
      ultimately show ?thesis using 1(1) [OF True big] True big
        by (subst (1 2 3) num2bits_loop.simps) (simp add: unsigned_bits bval_append mod_mult2_eq)
    next
      case False
      obtain k where k: "sz - i = Suc k" "sz - (i + 1) = k" using True by (metis Suc_diff_Suc Suc_eq_plus1)
      have "aux mod 2 ^ Suc k = 2 * (aux div 2 mod 2 ^ k) + aux mod 2"
        using mod_mult2_eq [of aux 2 "2 ^ k"] by simp
      then show ?thesis using 1(2) [OF True False] True False k
        by (subst (1 2 3) num2bits_loop.simps) auto
    qed
  next
    case False
    then show ?thesis by (subst (1 2 3) num2bits_loop.simps) simp
  qed
qed

lemma num2bits [simp]:
  "length (num2bits v sz) = sz" "list_all bexp (num2bits v sz)" "bval I (num2bits v sz) = v mod 2 ^ sz"
  using num2bits_loop [of v 0 sz I] by (simp_all add: num2bits_def)

lemma is_bool_const_bexp [simp]: "is_bool_const e \<Longrightarrow> bexp e"
  by (auto elim: is_bool_constE)


section \<open>Adders\<close>

lemma adder_step:
  "of_bool a + 2 * x + (of_bool b + 2 * y) + of_bool c =
    of_bool (a \<noteq> (b \<noteq> c)) + 2 * (x + y + of_bool (a \<and> b \<or> a \<and> c \<or> b \<and> c) :: nat)"
  by (cases a; cases b; cases c) simp_all

context gates
begin

lemmas gates [simp] = gate_xor gate_xor3 gate_carry gate_iff gate_and gate_andn gate_or gate_or3 gate_orn
  gate_not gate_ite gate_nand gate_nor

lemma mk_adder_loop:
  assumes "length as = length bs" "list_all bexp as" "list_all bexp bs" "bexp cin"
  shows "length (mk_adder_loop C as bs cin) = length as \<and> list_all bexp (mk_adder_loop C as bs cin) \<and>
    bval I (mk_adder_loop C as bs cin) = (bval I as + bval I bs + of_bool (tv I cin)) mod 2 ^ length as"
  using assms
proof (induction as bs arbitrary: cin rule: list_induct2)
  case (Cons a as b bs)
  show ?case
  proof (cases "as = []")
    case True
    then show ?thesis using Cons.prems Cons.hyps
      by (cases "tv I a"; cases "tv I b"; cases "tv I cin") simp_all
  next
    case False
    define m where "m = (tv I a \<and> tv I b \<or> tv I a \<and> tv I cin \<or> tv I b \<and> tv I cin)"
    have "(of_bool (tv I a) + 2 * x + (of_bool (tv I b) + 2 * y) + of_bool (tv I cin)) mod 2 ^ Suc (length as) =
        of_bool (tv I a \<noteq> (tv I b \<noteq> tv I cin)) + 2 * ((x + y + of_bool m) mod 2 ^ length as)" for x y :: nat
      unfolding adder_step mod_cons_bit m_def ..
    then show ?thesis using False Cons.IH [of "c_carry C a b cin"] Cons.prems
      by (simp add: mk_full_adder_def del: power_Suc flip: m_def)
  qed
qed simp

lemma mk_adder:
  assumes "length as = length bs" "list_all bexp as" "list_all bexp bs"
  shows "length (mk_adder C as bs) = length as" "list_all bexp (mk_adder C as bs)"
    "bval I (mk_adder C as bs) = (bval I as + bval I bs) mod 2 ^ length as"
  using mk_adder_loop [OF assms, of m_mk_false] by (simp_all add: mk_adder_def)

lemma bval_map_not: "list_all bexp as \<Longrightarrow> bval I (map (c_not C) as) + bval I as + 1 = 2 ^ length as"
  by (induction as) (auto simp: algebra_simps)

lemma mk_neg_loop:
  assumes "list_all bexp as" "bexp cin"
  shows "length (mk_neg_loop C as cin) = length as \<and> list_all bexp (mk_neg_loop C as cin) \<and>
    bval I (mk_neg_loop C as cin) = (bval I (map (c_not C) as) + of_bool (tv I cin)) mod 2 ^ length as"
  using assms
proof (induction as arbitrary: cin)
  case (Cons a as)
  have step: "of_bool x + 2 * n + of_bool y = of_bool (x \<noteq> y) + 2 * (n + of_bool (x \<and> y) :: nat)" for x y n
    by (cases x; cases y) simp_all
  show ?case
  proof (cases "as = []")
    case True
    then show ?thesis using Cons.prems by (cases "tv I a"; cases "tv I cin") simp_all
  next
    case False
    have "(of_bool (\<not> tv I a) + 2 * n + of_bool (tv I cin)) mod 2 ^ Suc (length as) =
        of_bool ((\<not> tv I a) \<noteq> tv I cin) + 2 * ((n + of_bool (\<not> tv I a \<and> tv I cin)) mod 2 ^ length as)" for n :: nat
      unfolding step mod_cons_bit ..
    then show ?thesis using False Cons.IH [of "c_and C (c_not C a) cin"] Cons.prems
      by (simp add: mk_half_adder_def Let_def del: power_Suc of_bool_not_iff)
  qed
qed simp

lemma mk_neg:
  assumes "list_all bexp as"
  shows "length (mk_neg C as) = length as" "list_all bexp (mk_neg C as)"
    "bval I (mk_neg C as) = (2 ^ length as - bval I as) mod 2 ^ length as"
proof -
  have "bval I (map (c_not C) as) + 1 = 2 ^ length as - bval I as"
    using bval_map_not [OF assms] by linarith
  then show "length (mk_neg C as) = length as" "list_all bexp (mk_neg C as)"
    "bval I (mk_neg C as) = (2 ^ length as - bval I as) mod 2 ^ length as"
    using mk_neg_loop [OF assms, of m_mk_true] by (simp_all add: mk_neg_def)
qed

lemma mk_subtracter_loop:
  assumes "length as = length bs" "list_all bexp as" "list_all bexp bs" "bexp cin"
  shows "length (fst (mk_subtracter_loop C as bs cin)) = length as \<and>
    list_all bexp (fst (mk_subtracter_loop C as bs cin)) \<and> bexp (snd (mk_subtracter_loop C as bs cin)) \<and>
    bval I (fst (mk_subtracter_loop C as bs cin)) + 2 ^ length as * of_bool (tv I (snd (mk_subtracter_loop C as bs cin)))
      = bval I as + bval I (map (c_not C) bs) + of_bool (tv I cin)"
  using assms
proof (induction as bs arbitrary: cin rule: list_induct2)
  case (Cons a as b bs)
  show ?case using Cons.IH [of "c_carry C a (c_not C b) cin"] Cons.prems
    by (auto simp: mk_full_adder_def adder_step case_prod_beta)
qed simp

text \<open>The carry out of the subtracter tells that there is no borrow.\<close>

lemma mk_subtracter:
  assumes "length as = length bs" "list_all bexp as" "list_all bexp bs"
  shows "length (fst (mk_subtracter C as bs)) = length as" "list_all bexp (fst (mk_subtracter C as bs))"
    "bexp (snd (mk_subtracter C as bs))"
    "tv I (snd (mk_subtracter C as bs)) \<longleftrightarrow> bval I bs \<le> bval I as"
    "bval I (fst (mk_subtracter C as bs)) = (bval I as + 2 ^ length as - bval I bs) mod 2 ^ length as"
proof -
  note S = mk_subtracter_loop [OF assms, of m_mk_true, simplified, folded mk_subtracter_def]
  let ?o = "bval I (fst (mk_subtracter C as bs))" and ?c = "tv I (snd (mk_subtracter C as bs))"
  show "length (fst (mk_subtracter C as bs)) = length as" "list_all bexp (fst (mk_subtracter C as bs))"
    "bexp (snd (mk_subtracter C as bs))"
    using S by simp_all
  have "bval I (map (c_not C) bs) + 1 = 2 ^ length as - bval I bs"
    using bval_map_not [OF assms(3)] assms(1) by simp
  then have e: "?o + 2 ^ length as * of_bool ?c = bval I as + (2 ^ length as - bval I bs)"
    using S by simp
  have o: "?o < 2 ^ length as" using bval_less [of I "fst (mk_subtracter C as bs)"] S by simp
  have ab: "bval I as < 2 ^ length as" "bval I bs < 2 ^ length as"
    using bval_less [of I as] bval_less [of I bs] assms(1) by simp_all
  show "?c \<longleftrightarrow> bval I bs \<le> bval I as"
    using e o ab by (cases ?c) auto
  have "bval I as + 2 ^ length as - bval I bs = ?o + 2 ^ length as * of_bool ?c"
    using e ab by simp
  then show "?o = (bval I as + 2 ^ length as - bval I bs) mod 2 ^ length as"
    using o by simp
qed

lemma mk_carry_save_adder:
  assumes "length as = length bs" "length bs = length cs" "list_all bexp as" "list_all bexp bs" "list_all bexp cs"
  shows "length (fst (mk_carry_save_adder C as bs cs)) = length as \<and>
    length (snd (mk_carry_save_adder C as bs cs)) = length as \<and>
    list_all bexp (fst (mk_carry_save_adder C as bs cs)) \<and> list_all bexp (snd (mk_carry_save_adder C as bs cs)) \<and>
    bval I (fst (mk_carry_save_adder C as bs cs)) + 2 * bval I (snd (mk_carry_save_adder C as bs cs))
      = bval I as + bval I bs + bval I cs"
  using assms
proof (induction as bs cs rule: list_induct3)
  case (Cons a as b bs c cs)
  have step: "of_bool a + 2 * x + (of_bool b + 2 * y) + (of_bool c + 2 * z) =
    of_bool (a \<noteq> (b \<noteq> c)) + 2 * (x + y + z) + 2 * (of_bool (a \<and> b \<or> a \<and> c \<or> b \<and> c) :: nat)" for a b c x y z
    by (cases a; cases b; cases c) simp_all
  show ?case using Cons by (simp add: case_prod_beta step)
qed simp

section \<open>Bitwise operations\<close>

lemma list_all_map2:
  "length xs = length ys \<Longrightarrow> (\<And>x y. x \<in> set xs \<Longrightarrow> y \<in> set ys \<Longrightarrow> P (f x y)) \<Longrightarrow> list_all P (map2 f xs ys)"
  by (induction xs ys rule: list_induct2) auto

lemma mk_multiplexer:
  assumes "bexp c" "length ts = length es" "list_all bexp ts" "list_all bexp es"
  shows "length (mk_multiplexer C c ts es) = length ts" "list_all bexp (mk_multiplexer C c ts es)"
    "bval I (mk_multiplexer C c ts es) = (if tv I c then bval I ts else bval I es)"
  using assms(2-4) assms(1) unfolding mk_multiplexer_def by (induction ts es rule: list_induct2) auto

lemma bb_mk_eq:
  assumes "length as = length bs" "list_all bexp as" "list_all bexp bs"
  shows "bexp (bb_mk_eq C as bs)" "tv I (bb_mk_eq C as bs) \<longleftrightarrow> bval I as = bval I bs"
proof -
  have b: "list_all bexp (map2 (c_iff C) as bs)"
    using assms by (induction as bs rule: list_induct2) auto
  have "list_all (tv I) (map2 (c_iff C) as bs) \<longleftrightarrow> map (tv I) as = map (tv I) bs"
    using assms by (induction as bs rule: list_induct2) auto
  then show "bexp (bb_mk_eq C as bs)" "tv I (bb_mk_eq C as bs) \<longleftrightarrow> bval I as = bval I bs"
    using b assms(1) by (simp_all add: bb_mk_eq_def bval_eq_iff)
qed

end

section \<open>Bitwise operations and reductions\<close>

lemma bit_bval: "bit (bval I es) i \<longleftrightarrow> i < length es \<and> tv I (es ! i)"
  by (auto simp: bval_def bit_bits_val)

lemma div_half_odd: "(x :: nat) mod 2 = of_bool (odd x)"
  by (simp add: mod_2_eq_odd)

context gates
begin

lemma bb_mk_not:
  assumes "list_all bexp as"
  shows "length (bb_mk_not C as) = length as" "list_all bexp (bb_mk_not C as)"
    "bval I (bb_mk_not C as) = 2 ^ length as - 1 - bval I as"
proof -
  show "length (bb_mk_not C as) = length as" "list_all bexp (bb_mk_not C as)"
    using assms by (auto simp: bb_mk_not_def list_all_iff)
  show "bval I (bb_mk_not C as) = 2 ^ length as - 1 - bval I as"
    using bval_map_not [OF assms] by (simp add: bb_mk_not_def)
qed

lemma bitwise_bexp:
  assumes "length as = length bs" "list_all bexp as" "list_all bexp bs" "\<And>a b. bexp a \<Longrightarrow> bexp b \<Longrightarrow> bexp (f a b)"
  shows "length (map2 f as bs) = length as" "list_all bexp (map2 f as bs)"
  using assms(1-3) by (induction as bs rule: list_induct2) (auto simp: assms(4))

lemma bb_mk_or:
  assumes "length as = length bs" "list_all bexp as" "list_all bexp bs"
  shows "length (bb_mk_or C as bs) = length as" "list_all bexp (bb_mk_or C as bs)"
    "bval I (bb_mk_or C as bs) = bval I as OR bval I bs"
proof -
  show "length (bb_mk_or C as bs) = length as" "list_all bexp (bb_mk_or C as bs)"
    unfolding bb_mk_or_def by (rule bitwise_bexp [OF assms]; simp)+
  show "bval I (bb_mk_or C as bs) = bval I as OR bval I bs"
    using assms by (intro bit_eqI) (auto simp: bit_or_iff bit_bval bb_mk_or_def list_all_length)
qed

lemma bb_mk_and:
  assumes "length as = length bs" "list_all bexp as" "list_all bexp bs"
  shows "length (bb_mk_and C as bs) = length as" "list_all bexp (bb_mk_and C as bs)"
    "bval I (bb_mk_and C as bs) = bval I as AND bval I bs"
proof -
  show "length (bb_mk_and C as bs) = length as" "list_all bexp (bb_mk_and C as bs)"
    unfolding bb_mk_and_def by (rule bitwise_bexp [OF assms]; simp)+
  show "bval I (bb_mk_and C as bs) = bval I as AND bval I bs"
    using assms by (intro bit_eqI) (auto simp: bit_and_iff bit_bval bb_mk_and_def list_all_length)
qed

lemma bb_mk_xor:
  assumes "length as = length bs" "list_all bexp as" "list_all bexp bs"
  shows "length (bb_mk_xor C as bs) = length as" "list_all bexp (bb_mk_xor C as bs)"
    "bval I (bb_mk_xor C as bs) = bval I as XOR bval I bs"
proof -
  show "length (bb_mk_xor C as bs) = length as" "list_all bexp (bb_mk_xor C as bs)"
    unfolding bb_mk_xor_def by (rule bitwise_bexp [OF assms]; simp)+
  show "bval I (bb_mk_xor C as bs) = bval I as XOR bval I bs"
    using assms by (intro bit_eqI) (auto simp: bit_xor_iff bit_bval bb_mk_xor_def list_all_length)
qed

lemma bb_mk_xnor_nand_nor:
  assumes "length as = length bs" "list_all bexp as" "list_all bexp bs"
  shows "bval I (bb_mk_xnor C as bs) = 2 ^ length as - 1 - (bval I as XOR bval I bs)"
    "bval I (bb_mk_nand C as bs) = 2 ^ length as - 1 - (bval I as AND bval I bs)"
    "bval I (bb_mk_nor C as bs) = 2 ^ length as - 1 - (bval I as OR bval I bs)"
proof -
  have compl: "bval I (map2 f as bs) = 2 ^ length as - 1 - bval I (map2 g as bs)"
    if "\<And>a b. bexp a \<Longrightarrow> bexp b \<Longrightarrow> tv I (f a b) \<longleftrightarrow> \<not> tv I (g a b)" for f g
    using bval_compl [of "map2 g as bs" "map2 f as bs" I] that assms by (simp add: list_all_length)
  show "bval I (bb_mk_xnor C as bs) = 2 ^ length as - 1 - (bval I as XOR bval I bs)"
    unfolding bb_mk_xnor_def bb_mk_xor(3) [OF assms, symmetric] bb_mk_xor_def by (rule compl) auto
  show "bval I (bb_mk_nand C as bs) = 2 ^ length as - 1 - (bval I as AND bval I bs)"
    unfolding bb_mk_nand_def bb_mk_and(3) [OF assms, symmetric] bb_mk_and_def by (rule compl) auto
  show "bval I (bb_mk_nor C as bs) = 2 ^ length as - 1 - (bval I as OR bval I bs)"
    unfolding bb_mk_nor_def bb_mk_or(3) [OF assms, symmetric] bb_mk_or_def by (rule compl) auto
qed

lemma bval_all: "list_all (tv I) es \<longleftrightarrow> bval I es = 2 ^ length es - 1"
proof -
  have "bval I es + 1 = 2 ^ length es \<longleftrightarrow> list_all (tv I) es"
  proof (induction es)
    case (Cons e es)
    have "Suc (2 * n) \<noteq> 2 * k" for n k :: nat by presburger
    with Cons show ?case by (cases "tv I e") auto
  qed simp
  then show ?thesis using bval_less [of I es] by auto
qed

lemma bval_ex: "list_ex (tv I) es \<longleftrightarrow> bval I es \<noteq> 0"
  by (induction es) auto

lemma mk_redand:
  assumes "list_all bexp as"
  shows "length (mk_redand C as) = 1" "list_all bexp (mk_redand C as)"
    "bval I (mk_redand C as) = of_bool (bval I as = 2 ^ length as - 1)"
  using assms by (simp_all add: mk_redand_def bval_all)

lemma mk_redor:
  assumes "list_all bexp as"
  shows "length (mk_redor C as) = 1" "list_all bexp (mk_redor C as)"
    "bval I (mk_redor C as) = of_bool (bval I as \<noteq> 0)"
  using assms by (simp_all add: mk_redor_def bval_ex)

lemma mk_comp:
  assumes "length as = length bs" "list_all bexp as" "list_all bexp bs"
  shows "length (mk_comp C as bs) = 1" "list_all bexp (mk_comp C as bs)"
    "bval I (mk_comp C as bs) = of_bool (bval I as = bval I bs)"
  using bb_mk_eq [OF assms] by (simp_all add: mk_comp_def)

lemma mk_is_eq:
  assumes "list_all bexp as"
  shows "bexp (mk_is_eq C as n)" "tv I (mk_is_eq C as n) \<longleftrightarrow> bval I as = n mod 2 ^ length as"
proof -
  have b: "list_all bexp (mk_is_eq_bits C as n)" for n
    using assms by (induction as arbitrary: n) auto
  have "list_all (tv I) (mk_is_eq_bits C as n) \<longleftrightarrow> bval I as = n mod 2 ^ length as" for n
    using assms
  proof (induction as arbitrary: n)
    case (Cons a as)
    have n: "n mod 2 ^ Suc (length as) = of_bool (odd n) + 2 * (n div 2 mod 2 ^ length as)"
      using mod_mult2_eq [of n 2 "2 ^ length as"] by (simp add: mod_2_eq_odd)
    have "Suc (2 * x) \<noteq> 2 * y \<and> 2 * y \<noteq> Suc (2 * x)" for x y :: nat by presburger
    then show ?case using Cons by (cases "odd n") (auto simp: n even_iff_mod_2_eq_zero [symmetric] simp del: power_Suc)
  qed simp
  with b show "bexp (mk_is_eq C as n)" "tv I (mk_is_eq C as n) \<longleftrightarrow> bval I as = n mod 2 ^ length as"
    by (simp_all add: mk_is_eq_def)
qed

lemma mk_eqs:
  assumes "list_all bexp as"
  shows "length (mk_eqs C as) = length as" "list_all bexp (mk_eqs C as)"
    "i < length as \<Longrightarrow> tv I (mk_eqs C as ! i) \<longleftrightarrow> bval I as = i"
proof -
  have "i < length as \<Longrightarrow> i < 2 ^ length as" using less_exp less_trans by blast
  then show "length (mk_eqs C as) = length as" "list_all bexp (mk_eqs C as)"
    "i < length as \<Longrightarrow> tv I (mk_eqs C as ! i) \<longleftrightarrow> bval I as = i"
    using mk_is_eq [OF assms] by (simp_all add: mk_eqs_def list_all_iff)
qed

section \<open>Comparisons\<close>

lemma mk_le_loop:
  assumes "length as = length bs" "list_all bexp as" "list_all bexp bs" "bexp out"
  shows "bexp (mk_le_loop C as bs out) \<and>
    (tv I (mk_le_loop C as bs out) \<longleftrightarrow> bval I as < bval I bs \<or> bval I as = bval I bs \<and> tv I out)"
  using assms
proof (induction as bs arbitrary: out rule: list_induct2)
  case (Cons a as b bs)
  let ?o = "c_or3 C (c_and C (c_not C a) b) (c_and C (c_not C a) out) (c_and C b out)"
  have "bexp ?o" using Cons.prems by simp
  then have "bexp (mk_le_loop C as bs ?o) \<and>
    (tv I (mk_le_loop C as bs ?o) \<longleftrightarrow> bval I as < bval I bs \<or> bval I as = bval I bs \<and> tv I ?o)"
    using Cons.IH Cons.prems by simp
  moreover have "(of_bool (tv I a) + 2 * x < of_bool (tv I b) + 2 * y
       \<or> of_bool (tv I a) + 2 * x = of_bool (tv I b) + 2 * y \<and> tv I out) \<longleftrightarrow>
     x < y \<or> x = y \<and> (\<not> tv I a \<and> tv I b \<or> \<not> tv I a \<and> tv I out \<or> tv I b \<and> tv I out)" for x y :: nat
    by (cases "tv I a"; cases "tv I b"; cases "tv I out"; simp; presburger)
  ultimately show ?case using Cons.prems by (simp add: Let_def)
qed simp

lemma mk_ule:
  assumes "length as = length bs" "list_all bexp as" "list_all bexp bs" "as \<noteq> []"
  shows "bexp (mk_ule C as bs)" "tv I (mk_ule C as bs) \<longleftrightarrow> bval I as \<le> bval I bs"
proof -
  obtain a as' where a: "as = a # as'" using assms(4) by (cases as) auto
  obtain b bs' where b: "bs = b # bs'" using assms(1) a by (cases bs) auto
  have e: "mk_ule C as bs = mk_le_loop C as' bs' (c_or C (c_not C a) b)"
    using assms(1) by (simp add: mk_ule_def mk_le_def a b Let_def)
  have "length as' = length bs'" "list_all bexp as'" "list_all bexp bs'" "bexp (c_or C (c_not C a) b)"
    using assms by (simp_all add: a b)
  note L = mk_le_loop [OF this, folded e]
  show "bexp (mk_ule C as bs)" using L by simp
  have "(of_bool x + 2 * n \<le> of_bool y + 2 * k) \<longleftrightarrow> n < k \<or> n = k \<and> (\<not> x \<or> y)" for x y and n k :: nat
    by (cases x; cases y; simp; presburger)
  then show "tv I (mk_ule C as bs) \<longleftrightarrow> bval I as \<le> bval I bs"
    using L assms by (simp add: a b)
qed

end

lemma to_signed_snoc:
  "to_signed (length es + 1) (bval I (es @ [e])) = int (bval I es) - of_bool (tv I e) * 2 ^ length es"
proof -
  have "int (bval I es) < 2 ^ length es"
    using bval_less [of I es] by (metis of_nat_less_iff of_nat_numeral of_nat_power)
  moreover have "bval I es < 2 ^ length es" by simp
  ultimately show ?thesis
    by (simp add: to_signed_def bval_append not_le)
qed

context gates
begin

lemma mk_sle:
  assumes "length as = length bs" "list_all bexp as" "list_all bexp bs" "as \<noteq> []"
  shows "bexp (mk_sle C as bs)"
    "tv I (mk_sle C as bs) \<longleftrightarrow> to_signed (length as) (bval I as) \<le> to_signed (length as) (bval I bs)"
proof -
  obtain as' a where a: "as = as' @ [a]" using assms(4) by (cases as rule: rev_cases) auto
  obtain bs' b where b: "bs = bs' @ [b]" using assms(1) a by (cases bs rule: rev_cases) auto
  have len: "length as' = length bs'" "length as = length as' + 1" using assms(1) by (simp_all add: a b)
  have bs: "list_all bexp as'" "list_all bexp bs'" "bexp a" "bexp b" using assms by (simp_all add: a b)
  define out where "out = mk_le_loop C (drop 1 as') (drop 1 bs') (c_or C (c_not C (as ! 0)) (bs ! 0))"
  define maj where "maj = c_or3 C (c_and C (c_not C b) a) (c_and C (c_not C b) out) (c_and C a out)"
  have "(as' @ [a]) ! length bs' = a" using len(1) by (metis nth_append_length)
  then have e: "mk_sle C as bs = maj"
    using len by (simp add: mk_sle_def mk_le_def a b Let_def out_def maj_def)
  have out: "bexp out \<and> (as' \<noteq> [] \<longrightarrow> (tv I out \<longleftrightarrow> bval I as' \<le> bval I bs'))
      \<and> (as' = [] \<longrightarrow> (tv I out \<longleftrightarrow> (\<not> tv I a \<or> tv I b)))"
  proof (cases "as' = []")
    case True
    then show ?thesis using len bs by (simp add: out_def a b)
  next
    case False
    then have "out = mk_ule C as' bs'"
      using len by (cases as'; cases bs') (simp_all add: out_def a b mk_ule_def mk_le_def Let_def)
    then show ?thesis using mk_ule [OF len(1) bs(1,2) False] False by simp
  qed
  have maj: "bexp maj" "tv I maj \<longleftrightarrow> (\<not> tv I b \<and> tv I a \<or> \<not> tv I b \<and> tv I out \<or> tv I a \<and> tv I out)"
    using out bs by (simp_all add: maj_def)
  show "bexp (mk_sle C as bs)" using e maj by simp
  have sgn: "to_signed (length as) (bval I as) = int (bval I as') - of_bool (tv I a) * 2 ^ length as'"
    "to_signed (length as) (bval I bs) = int (bval I bs') - of_bool (tv I b) * 2 ^ length as'"
    using to_signed_snoc [of as' I a] to_signed_snoc [of bs' I b] len by (simp_all add: a b)
  have less: "int (bval I as') < 2 ^ length as'" "int (bval I bs') < 2 ^ length as'"
    using bval_less [of I as'] bval_less [of I bs'] len by (metis of_nat_less_iff of_nat_numeral of_nat_power)+
  have key: "(\<not> b \<and> a \<or> \<not> b \<and> le \<or> a \<and> le) \<longleftrightarrow> A - of_bool a * P \<le> B - of_bool b * P"
    if "0 \<le> A" "A < P" "0 \<le> B" "B < P" "le \<longleftrightarrow> A \<le> B \<or> A = 0 \<and> B = 0 \<and> P = 1 \<and> (\<not> a \<or> b)" for a b le and A B P :: int
    using that by (cases a; cases b; simp) linarith+
  show "tv I (mk_sle C as bs) \<longleftrightarrow> to_signed (length as) (bval I as) \<le> to_signed (length as) (bval I bs)"
    unfolding e maj sgn
  proof (cases "as' = []")
    case True
    then show "(\<not> tv I b \<and> tv I a \<or> \<not> tv I b \<and> tv I out \<or> tv I a \<and> tv I out) \<longleftrightarrow>
      int (bval I as') - of_bool (tv I a) * 2 ^ length as' \<le> int (bval I bs') - of_bool (tv I b) * 2 ^ length as'"
      using out len by (cases "tv I a"; cases "tv I b") auto
  next
    case False
    then have "tv I out \<longleftrightarrow> int (bval I as') \<le> int (bval I bs') \<or> int (bval I as') = 0 \<and> int (bval I bs') = 0
        \<and> (2::int) ^ length as' = 1 \<and> (\<not> tv I a \<or> tv I b)"
      using out by auto
    then show "(\<not> tv I b \<and> tv I a \<or> \<not> tv I b \<and> tv I out \<or> tv I a \<and> tv I out) \<longleftrightarrow>
      int (bval I as') - of_bool (tv I a) * 2 ^ length as' \<le> int (bval I bs') - of_bool (tv I b) * 2 ^ length as'"
      using less by (intro key) simp_all
  qed
qed

end

section \<open>Extensions and rotations\<close>

lemma bval_replicate: "bval I (replicate n e) = (if tv I e then 2 ^ n - 1 else 0)"
proof -
  have "bval I (replicate n e) + of_bool (tv I e) = (if tv I e then 2 ^ n else 0)"
    by (induction n) auto
  then show ?thesis by (auto split: if_splits)
qed

lemma mk_zero_extend:
  "length (mk_zero_extend as n) = length as + n"
  "list_all bexp as \<Longrightarrow> list_all bexp (mk_zero_extend as n)"
  "bval I (mk_zero_extend as n) = bval I as"
  by (auto simp: mk_zero_extend_def bval_append list_all_iff)

lemma mk_sign_extend:
  assumes "as \<noteq> []"
  shows "length (mk_sign_extend as n) = length as + n"
    "list_all bexp as \<Longrightarrow> list_all bexp (mk_sign_extend as n)"
    "bval I (mk_sign_extend as n) = of_signed (length as + n) (to_signed (length as) (bval I as))"
proof -
  obtain es e where as: "as = es @ [e]" using assms by (cases as rule: rev_cases) auto
  let ?k = "length es"
  show "length (mk_sign_extend as n) = length as + n"
    "list_all bexp as \<Longrightarrow> list_all bexp (mk_sign_extend as n)"
    by (auto simp: mk_sign_extend_def as list_all_iff)
  have small: "bval I es < 2 ^ ?k" by simp
  have e: "mk_sign_extend as n = es @ replicate (Suc n) e"
    by (simp add: mk_sign_extend_def as replicate_append_same [symmetric])
  show "bval I (mk_sign_extend as n) = of_signed (length as + n) (to_signed (length as) (bval I as))"
  proof (cases "tv I e")
    case True
    have p: "(2::nat) ^ (length as + n) = 2 ^ ?k * 2 ^ Suc n"
      by (simp add: as power_add)
    have "(2::nat) ^ Suc n - 1 + 1 = 2 ^ Suc n" by simp
    then have q: "2 ^ ?k * (2 ^ Suc n - 1) + 2 ^ ?k = 2 ^ ?k * (2::nat) ^ Suc n"
      by (metis add_mult_distrib2 mult.right_neutral)
    have "bval I (mk_sign_extend as n) = bval I es + 2 ^ ?k * (2 ^ Suc n - 1)"
      unfolding e by (simp add: bval_append bval_replicate True del: power_Suc replicate_Suc)
    then have "bval I (mk_sign_extend as n) + 2 ^ ?k = bval I es + 2 ^ (length as + n)"
      using p q by linarith
    then have v: "int (bval I (mk_sign_extend as n)) = int (bval I es) - 2 ^ ?k + 2 ^ (length as + n)"
      by (metis (no_types, opaque_lifting) add.commute add_diff_cancel_left' diff_add_eq of_nat_add of_nat_numeral of_nat_power)
    have lt: "bval I (mk_sign_extend as n) < 2 ^ (length as + n)"
      using bval_less [of I "mk_sign_extend as n"] by (simp add: mk_sign_extend_def as)
    have "to_signed (length as) (bval I as) = int (bval I (mk_sign_extend as n)) - 2 ^ (length as + n)"
      unfolding v using to_signed_snoc [of es I e] True by (simp add: as)
    then have "of_signed (length as + n) (to_signed (length as) (bval I as)) =
        of_signed (length as + n) (int (bval I (mk_sign_extend as n)))"
      by (intro of_signed_cong) simp
    then show ?thesis using lt by (simp add: of_signed_of_nat)
  next
    case False
    have "bval I (mk_sign_extend as n) = bval I es"
      unfolding e by (simp add: bval_append bval_replicate False del: replicate_Suc)
    moreover have "to_signed (length as) (bval I as) = int (bval I es)"
      using to_signed_snoc [of es I e] False by (simp add: as)
    moreover have "(2::nat) ^ ?k \<le> 2 ^ (length as + n)" by (rule power_increasing) (simp_all add: as)
    then have "bval I es < 2 ^ (length as + n)" using small less_le_trans by blast
    ultimately show ?thesis by (simp add: of_signed_of_nat)
  qed
qed

lemma mk_rotate_left_eq:
  "mk_rotate_left as n = drop (length as - n mod length as) as @ take (length as - n mod length as) as"
  by (auto simp: mk_rotate_left_def Let_def intro!: nth_equalityI simp: nth_append)

lemma mk_rotate_left:
  assumes "as \<noteq> []"
  shows "length (mk_rotate_left as n) = length as"
    "list_all bexp as \<Longrightarrow> list_all bexp (mk_rotate_left as n)"
    "bval I (mk_rotate_left as n) = rotl (length as) (bval I as) n"
proof -
  let ?w = "length as"
  define k where "k = n mod ?w"
  have k: "k < ?w" using assms by (simp add: k_def)
  show "length (mk_rotate_left as n) = length as" "list_all bexp as \<Longrightarrow> list_all bexp (mk_rotate_left as n)"
    using k by (auto simp: mk_rotate_left_eq k_def [symmetric] list_all_iff dest: in_set_takeD in_set_dropD)
  have "(2::nat) ^ ?w = 2 ^ (?w - k) * 2 ^ k" using k by (simp flip: power_add)
  then have "(bval I as * 2 ^ k) mod 2 ^ ?w = (bval I as mod 2 ^ (?w - k)) * 2 ^ k" by (simp add: mult_mod_left)
  then show "bval I (mk_rotate_left as n) = rotl ?w (bval I as) n"
    using k by (simp add: mk_rotate_left_eq k_def [symmetric] bval_append bval_take bval_drop rotl_def Let_def)
qed

lemma mk_rotate_right:
  assumes "as \<noteq> []"
  shows "length (mk_rotate_right as n) = length as"
    "list_all bexp as \<Longrightarrow> list_all bexp (mk_rotate_right as n)"
    "bval I (mk_rotate_right as n) = rotr (length as) (bval I as) n"
proof -
  let ?w = "length as"
  define k where "k = n mod ?w"
  have k: "k < ?w" using assms by (simp add: k_def)
  have r: "mk_rotate_right as n = mk_rotate_left as (?w - k)" by (simp add: mk_rotate_right_def k_def Let_def)
  show "length (mk_rotate_right as n) = length as" "list_all bexp as \<Longrightarrow> list_all bexp (mk_rotate_right as n)"
    unfolding r using mk_rotate_left [OF assms] by simp_all
  have "mk_rotate_right as n = drop k as @ take k as"
    using k by (cases "k = 0") (simp_all add: r mk_rotate_left_eq)
  then show "bval I (mk_rotate_right as n) = rotr ?w (bval I as) n"
    using k by (simp add: k_def [symmetric] bval_append bval_take bval_drop rotr_def Let_def)
qed

end
