(* ===== verification/Bit_Blaster_Mult.thy ===== *)
theory Bit_Blaster_Mult
  imports Bit_Blaster
begin

text \<open>
  The multipliers of \<open>bit_blaster_tpl<Cfg>\<close> (\<open>bit_blaster_tpl_def.h\<close>): the array multiplier,
  the Wallace tree, multiplication by a constant with Booth's encoding, the case split on the
  bits that are not constants, and \<open>mk_multiplier\<close>, which chooses among them. All compute the
  product of the two numbers modulo \<open>2 ^ sz\<close>.
\<close>

section \<open>The array multiplier\<close>

text \<open>The fields of \<open>bit_blaster_tpl\<close> the circuits read; both options are off by default.\<close>

record bit_blaster_tpl =
  m_cfg :: bb_cfg
  m_use_wtm :: bool
  m_use_bcm :: bool

definition mk_bit_blaster_tpl :: "bb_cfg \<Rightarrow> bit_blaster_tpl" where
  "mk_bit_blaster_tpl C = \<lparr>m_cfg = C, m_use_wtm = False, m_use_bcm = False\<rparr>"

text \<open>The loop over \<open>j\<close> in column \<open>i\<close>: the sum bit and the carries it pushes on \<open>couts\<close>.\<close>

fun mult_column :: "bb_cfg \<Rightarrow> expr list \<Rightarrow> expr list \<Rightarrow> nat \<Rightarrow> expr list \<Rightarrow> nat list \<Rightarrow> expr \<Rightarrow> expr \<times> expr list" where
  "mult_column C a_bits b_bits i cins [] out = (out, [])"
| "mult_column C a_bits b_bits i cins (j # js) prev_out =
    (let i3 = c_and C (a_bits ! j) (b_bits ! (i - j));
         (out, cout) = mk_full_adder C i3 prev_out (cins ! (j - 2));
         (out', couts) = mult_column C a_bits b_bits i cins js out
     in (out', cout # couts))"

text \<open>The loop over the columns; the last one pushes no carries.\<close>

fun mult_columns :: "bb_cfg \<Rightarrow> expr list \<Rightarrow> expr list \<Rightarrow> nat list \<Rightarrow> expr list \<Rightarrow> expr list" where
  "mult_columns C a_bits b_bits [] cins = []"
| "mult_columns C a_bits b_bits (i # is) cins =
    (let i1 = c_and C (a_bits ! 0) (b_bits ! i);
         i2 = c_and C (a_bits ! 1) (b_bits ! (i - 1)) in
     if i < length a_bits - 1 then
       (let (out, cout) = mk_half_adder C i1 i2;
            (out', couts) = mult_column C a_bits b_bits i cins [2..<i + 1] out
        in out' # mult_columns C a_bits b_bits is (cout # couts))
     else
       foldl (\<lambda>out j. c_xor3 C (c_and C (a_bits ! j) (b_bits ! (i - j))) out (cins ! (j - 2)))
         (c_xor C i1 i2) [2..<i + 1]
       # mult_columns C a_bits b_bits is cins)"

definition mk_array_multiplier :: "bb_cfg \<Rightarrow> expr list \<Rightarrow> expr list \<Rightarrow> expr list" where
  "mk_array_multiplier C a_bits b_bits =
    c_and C (a_bits ! 0) (b_bits ! 0) # mult_columns C a_bits b_bits [1..<length a_bits] []"

section \<open>The Wallace tree\<close>

definition wallace_pps :: "bb_cfg \<Rightarrow> expr list \<Rightarrow> expr list \<Rightarrow> expr list list" where
  "wallace_pps C a_bits b_bits =
    (let sz = length a_bits
     in map (\<lambda>i. replicate i m_mk_false @ map (\<lambda>j. c_and C (a_bits ! j) (b_bits ! i)) [0..<sz - i]) [0..<sz])"

text \<open>
  One pass of the loop: three numbers become two, the one or two numbers left over are moved.
  The carries are shifted by one position and the last is dropped.
\<close>

fun wallace_pass :: "bb_cfg \<Rightarrow> expr list list \<Rightarrow> expr list list" where
  "wallace_pass C (pp1 # pp2 # pp3 # pps) =
    (let (sum_bits, carry_bits) = mk_carry_save_adder C pp1 pp2 pp3
     in sum_bits # butlast (m_mk_false # carry_bits) # wallace_pass C pps)"
| "wallace_pass C pps = pps"

lemma wallace_pass_length:
  "length (wallace_pass C pps) \<le> length pps" "3 \<le> length pps \<Longrightarrow> length (wallace_pass C pps) < length pps"
  "2 \<le> length pps \<Longrightarrow> 2 \<le> length (wallace_pass C pps)"
proof -
  show l: "length (wallace_pass C pps) \<le> length pps" for pps
  proof (induction C pps rule: wallace_pass.induct)
    case (1 C pp1 pp2 pp3 pps)
    then have "length (wallace_pass C pps) \<le> length pps" by (metis surj_pair)
    then show ?case by (simp add: case_prod_beta)
  qed simp_all
  show "3 \<le> length pps \<Longrightarrow> length (wallace_pass C pps) < length pps"
    using l by (cases "(C, pps)" rule: wallace_pass.cases) (auto simp: case_prod_beta le_imp_less_Suc)
  show "2 \<le> length pps \<Longrightarrow> 2 \<le> length (wallace_pass C pps)"
    by (cases "(C, pps)" rule: wallace_pass.cases) (auto simp: case_prod_beta)
qed

text \<open>\<open>while (pps.size() != 2)\<close>; it starts with at least two numbers and keeps at least two.\<close>

function wallace_loop :: "bb_cfg \<Rightarrow> expr list list \<Rightarrow> expr list list" where
  "wallace_loop C pps = (if length pps \<le> 2 then pps else wallace_loop C (wallace_pass C pps))"
  by pat_completeness auto
termination
  by (relation "measure (\<lambda>(C, pps). length pps)") (auto simp: wallace_pass_length)

declare wallace_loop.simps [simp del]

definition mk_wallace_multiplier :: "bb_cfg \<Rightarrow> expr list \<Rightarrow> expr list \<Rightarrow> expr list" where
  "mk_wallace_multiplier C a_bits b_bits =
    (if length a_bits = 1 then [c_and C (a_bits ! 0) (b_bits ! 0)]
     else (let pps = wallace_loop C (wallace_pps C a_bits b_bits) in mk_adder C (pps ! 0) (pps ! 1)))"

section \<open>Multiplication by a constant\<close>

text \<open>The two \<open>while\<close> loops that skip the constant bits of one operand.\<close>

function skip_const :: "expr list \<Rightarrow> nat \<Rightarrow> nat \<Rightarrow> nat" where
  "skip_const bits i sz = (if i < sz \<and> is_bool_const (bits ! i) then skip_const bits (i + 1) sz else i)"
  by pat_completeness auto
termination
  by (relation "measure (\<lambda>(bits, i, sz). sz - i)") auto

declare skip_const.simps [simp del]

lemma skip_const_ge: "i \<le> skip_const bits i sz"
  by (induction bits i sz rule: skip_const.induct) (subst skip_const.simps, auto)

text \<open>
  The recursive overload of \<open>mk_const_case_multiplier\<close>: split on the first bit that is not a
  constant, of \<open>a\<close> and then of \<open>b\<close>.
\<close>

function mk_const_case_multiplier_rec :: "bool \<Rightarrow> nat \<Rightarrow> nat \<Rightarrow> expr list \<Rightarrow> expr list \<Rightarrow> expr list" where
  "mk_const_case_multiplier_rec is_a0 i0 sz a_bits b_bits =
    (let i1 = (if is_a0 then skip_const a_bits i0 sz else i0);
         (is_a, i2) = (if is_a0 \<and> i1 = sz then (False, 0) else (is_a0, i1));
         i = (if \<not> is_a then skip_const b_bits i2 sz else i2) in
     if i < sz then
       (let x = (if is_a then a_bits ! i else b_bits ! i);
            set_bit = (\<lambda>v. if is_a then (a_bits[i := v], b_bits) else (a_bits, b_bits[i := v]));
            out1 = mk_const_case_multiplier_rec is_a (i + 1) sz (fst (set_bit m_mk_true)) (snd (set_bit m_mk_true));
            out2 = mk_const_case_multiplier_rec is_a (i + 1) sz (fst (set_bit m_mk_false)) (snd (set_bit m_mk_false))
        in map (\<lambda>j. m_mk_ite x (out1 ! j) (out2 ! j)) [0..<sz])
     else
       (case (is_numeral a_bits, is_numeral b_bits) of
          (Some n_a, Some n_b) \<Rightarrow> num2bits (n_a * n_b) sz
        | _ \<Rightarrow> []))"
  by pat_completeness auto
termination
proof (relation "measure (\<lambda>(is_a, i, sz, a, b). (if is_a then sz + 1 else 0) + (sz - i))", goal_cases)
  case (2 is_a0 i0 sz a_bits b_bits i1 p is_a i2 i)
  then show ?case using skip_const_ge [of i0 a_bits sz] skip_const_ge [of i2 b_bits sz]
    by (auto split: if_splits)
next
  case (3 is_a0 i0 sz a_bits b_bits i1 p is_a i2 i)
  then show ?case using skip_const_ge [of i0 a_bits sz] skip_const_ge [of i2 b_bits sz]
    by (auto split: if_splits)
qed simp

declare mk_const_case_multiplier_rec.simps [simp del]

text \<open>
  The other overload: estimate the size of the case split in \<open>unsigned\<close> arithmetic, and give
  up when it is not smaller than the circuit. The flag it returns is \<open>false\<close> on every path.
\<close>

fun case_size_loop :: "expr list \<Rightarrow> expr list \<Rightarrow> 32 word \<Rightarrow> 32 word \<Rightarrow> 32 word" where
  "case_size_loop (a # as) (b # bs) case_size circuit_size =
    (if case_size < circuit_size then
       (let case_size1 = (if \<not> is_bool_const a then case_size * 2 else case_size);
            case_size2 = (if \<not> is_bool_const b then case_size1 * 2 else case_size1)
        in case_size_loop as bs case_size2 circuit_size)
     else case_size)"
| "case_size_loop _ _ case_size circuit_size = case_size"

definition mk_const_case_multiplier :: "expr list \<Rightarrow> expr list \<Rightarrow> bool \<times> expr list" where
  "mk_const_case_multiplier a_bits b_bits =
    (let sz = length a_bits;
         circuit_size = (of_nat sz * of_nat sz * 5 :: 32 word);
         case_size = case_size_loop a_bits b_bits 1 circuit_size in
     if case_size \<ge> circuit_size then (False, [])
     else (False, mk_const_case_multiplier_rec True 0 sz a_bits b_bits))"

text \<open>Booth's encoding of the constant \<open>a_bits\<close>, from position \<open>i\<close>.\<close>

fun booth_loop ::
    "bb_cfg \<Rightarrow> expr list \<Rightarrow> expr list \<Rightarrow> expr list \<Rightarrow> nat \<Rightarrow> bool \<Rightarrow> expr list \<Rightarrow> expr list" where
  "booth_loop C b_bits minus_b_bits [] i last_now out_bits = out_bits"
| "booth_loop C b_bits minus_b_bits (a # as) i last_now out_bits =
    (let now = m_is_true a; sz = length out_bits;
         out_bits' =
           (if now \<and> \<not> last_now then
              take i out_bits @ mk_adder C (drop i out_bits) (take (sz - i) minus_b_bits)
            else if \<not> now \<and> last_now then
              take i out_bits @ mk_adder C (drop i out_bits) (take (sz - i) b_bits)
            else out_bits)
     in booth_loop C b_bits minus_b_bits as (i + 1) now out_bits')"

definition mk_const_multiplier :: "bit_blaster_tpl \<Rightarrow> expr list \<Rightarrow> expr list \<Rightarrow> bool \<times> expr list" where
  "mk_const_multiplier T a_bits b_bits =
    (case is_numeral a_bits of
       None \<Rightarrow> (False, [])
     | Some n_a \<Rightarrow>
         (let (done, out_bits) = mk_const_case_multiplier a_bits b_bits in
          if done then (True, out_bits)
          else if \<not> m_use_bcm T then (False, [])
          else
            (let minus_b_bits = mk_neg (m_cfg T) b_bits
             in (True, booth_loop (m_cfg T) b_bits minus_b_bits a_bits 0 False
                  (replicate (length a_bits) m_mk_false)))))"

section \<open>Multiplication\<close>

definition mk_multiplier :: "bit_blaster_tpl \<Rightarrow> expr list \<Rightarrow> expr list \<Rightarrow> expr list" where
  "mk_multiplier T a_bits0 b_bits0 =
    (let sz = length a_bits0;
         (a_bits, b_bits, n_b) =
           (case is_numeral a_bits0 of Some n \<Rightarrow> (b_bits0, a_bits0, n) | None \<Rightarrow> (a_bits0, b_bits0, 0)) in
     if is_minus_one b_bits then mk_neg (m_cfg T) a_bits
     else
       (case is_numeral a_bits of
          Some n_a \<Rightarrow> num2bits (n_a * n_b) sz
        | None \<Rightarrow>
            (let (done1, out1) = mk_const_multiplier T a_bits b_bits in
             if done1 then out1
             else
               (let (done2, out2) = mk_const_multiplier T b_bits a_bits in
                if done2 then out2
                else if \<not> m_use_wtm T then mk_array_multiplier (m_cfg T) a_bits b_bits
                else mk_wallace_multiplier (m_cfg T) a_bits b_bits))))"

end
