(* ===== verification/Bit_Blaster_Mult_Sound.thy ===== *)
theory Bit_Blaster_Mult_Sound
  imports Bit_Blaster_Mult
begin

text \<open>
  The multipliers compute the product modulo \<open>2 ^ sz\<close>: the array multiplier column by column,
  the Wallace tree by an invariant on the sum of its rows, the case split on constant bits by
  induction on the bits left, Booth's loop by an invariant over the integers; and \<open>mk_multiplier\<close>,
  whichever of them it chooses.
\<close>


section \<open>The product as a sum of partial products\<close>

lemma bval_sum: "bval I es = (\<Sum>j<length es. of_bool (tv I (es ! j)) * 2 ^ j)"
  unfolding bval_def horner_sum_eq_sum by (intro sum.cong) (auto simp: lessThan_atLeast0)

text \<open>The sum of the partial products of a column.\<close>

definition column :: "interp \<Rightarrow> expr list \<Rightarrow> expr list \<Rightarrow> nat \<Rightarrow> nat" where
  "column I as bs k = (\<Sum>j\<le>k. of_bool (tv I (as ! j) \<and> tv I (bs ! (k - j))))"

lemma product_columns:
  assumes "length as = sz" "length bs = sz"
  shows "(bval I as * bval I bs) mod 2 ^ sz = (\<Sum>k < sz. 2 ^ k * column I as bs k) mod 2 ^ sz"
proof -
  let ?a = "\<lambda>j. of_bool (tv I (as ! j)) :: nat" and ?b = "\<lambda>j. of_bool (tv I (bs ! j)) :: nat"
  let ?g = "\<lambda>j l. ?a j * ?b l * 2 ^ (j + l)"
  let ?T = "{(j, l). j + l < sz}" and ?U = "{(j, l). j < sz \<and> l < sz \<and> sz \<le> j + l}"
  have fin: "finite ?T" "finite ?U"
    by (rule finite_subset [of _ "{..<sz} \<times> {..<sz}"]; auto)+
  have "bval I as * bval I bs = (\<Sum>j < sz. \<Sum>l < sz. ?g j l)"
    unfolding bval_sum assms sum_product by (intro sum.cong refl) (simp add: power_add)
  also have "\<dots> = (\<Sum>(j, l) \<in> {..<sz} \<times> {..<sz}. ?g j l)" by (rule sum.cartesian_product)
  also have "{..<sz} \<times> {..<sz} = ?T \<union> ?U" by auto
  also have "(\<Sum>(j, l) \<in> ?T \<union> ?U. ?g j l) = (\<Sum>(j, l) \<in> ?T. ?g j l) + (\<Sum>(j, l) \<in> ?U. ?g j l)"
    by (rule sum.union_disjoint [OF fin]) auto
  finally have split: "bval I as * bval I bs = (\<Sum>(j, l) \<in> ?T. ?g j l) + (\<Sum>(j, l) \<in> ?U. ?g j l)" .
  have "2 ^ sz dvd (\<Sum>(j, l) \<in> ?U. ?g j l)"
    by (rule dvd_sum) (auto intro!: dvd_mult le_imp_power_dvd)
  then have "(bval I as * bval I bs) mod 2 ^ sz = (\<Sum>(j, l) \<in> ?T. ?g j l) mod 2 ^ sz"
    unfolding split by (auto simp: dvd_def)
  also have "(\<Sum>(j, l) \<in> ?T. ?g j l) = (\<Sum>k < sz. \<Sum>j\<le>k. ?g j (k - j))"
    by (rule sum.triangle_reindex)
  also have "\<dots> = (\<Sum>k < sz. 2 ^ k * column I as bs k)"
    unfolding column_def sum_distrib_left by (intro sum.cong refl) simp
  finally show ?thesis .
qed

lemma sum_list_map_upt_Suc: "i \<le> n \<Longrightarrow> sum_list (map f [i..<Suc n]) = sum_list (map f [i..<n]) + (f n :: nat)"
  by simp

context gates
begin

section \<open>The array multiplier\<close>

lemma mult_column:
  assumes "\<forall>j \<in> set js. bexp (as ! j) \<and> bexp (bs ! (i - j)) \<and> bexp (cins ! (j - 2))" "bexp out"
  shows "bexp (fst (mult_column C as bs i cins js out)) \<and> list_all bexp (snd (mult_column C as bs i cins js out)) \<and>
    length (snd (mult_column C as bs i cins js out)) = length js \<and>
    of_bool (tv I (fst (mult_column C as bs i cins js out))) + 2 * (\<Sum>c\<leftarrow>snd (mult_column C as bs i cins js out). of_bool (tv I c)) =
    of_bool (tv I out) + (\<Sum>j\<leftarrow>js. of_bool (tv I (as ! j) \<and> tv I (bs ! (i - j))))
      + (\<Sum>j\<leftarrow>js. of_bool (tv I (cins ! (j - 2))) :: nat)"
  using assms
proof (induction js arbitrary: out)
  case (Cons j js)
  let ?i3 = "c_and C (as ! j) (bs ! (i - j))"
  have b: "bexp ?i3" "bexp (cins ! (j - 2))" "bexp (c_xor3 C ?i3 out (cins ! (j - 2)))" using Cons.prems by simp_all
  have fa: "of_bool x + of_bool y + of_bool z = of_bool (x \<noteq> (y \<noteq> z)) + 2 * (of_bool (x \<and> y \<or> x \<and> z \<or> y \<and> z) :: nat)" for x y z
    by (cases x; cases y; cases z) simp_all
  let ?out = "c_xor3 C ?i3 out (cins ! (j - 2))" and ?cout = "c_carry C ?i3 out (cins ! (j - 2))"
  let ?rest = "mult_column C as bs i cins js ?out"
  have e: "fst (mult_column C as bs i cins (j # js) out) = fst ?rest"
    "snd (mult_column C as bs i cins (j # js) out) = ?cout # snd ?rest"
    by (simp_all add: mk_full_adder_def case_prod_beta Let_def)
  have "tv I ?out = (tv I ?i3 \<noteq> (tv I out \<noteq> tv I (cins ! (j - 2))))"
    "tv I ?cout = (tv I ?i3 \<and> tv I out \<or> tv I ?i3 \<and> tv I (cins ! (j - 2)) \<or> tv I out \<and> tv I (cins ! (j - 2)))"
    "tv I ?i3 = (tv I (as ! j) \<and> tv I (bs ! (i - j)))"
    using Cons.prems b by simp_all
  then have f: "of_bool (tv I (as ! j) \<and> tv I (bs ! (i - j))) + of_bool (tv I out) + of_bool (tv I (cins ! (j - 2))) =
      of_bool (tv I ?out) + 2 * (of_bool (tv I ?cout) :: nat)"
    using fa [of "tv I ?i3" "tv I out" "tv I (cins ! (j - 2))"] by (simp only:)
  have "bexp ?cout" using Cons.prems b by simp
  moreover have "\<forall>j \<in> set js. bexp (as ! j) \<and> bexp (bs ! (i - j)) \<and> bexp (cins ! (j - 2))"
    using Cons.prems by simp
  note IH = Cons.IH [OF this b(3)]
  moreover have "o' + 2 * (c + s) = u + (x + p) + (v + q)" if "o' + 2 * s = y + p + q" "x + u + v = y + 2 * c"
    for o' s y p q x u v c :: nat
    using that by simp
  ultimately show ?case unfolding e using f by (simp only: list.map sum_list.Cons list.size list.pred_inject simp_thms)
qed simp

lemma last_column:
  assumes "\<forall>j \<in> set js. bexp (as ! j) \<and> bexp (bs ! (i - j)) \<and> bexp (cins ! (j - 2))" "bexp out"
  defines "step \<equiv> \<lambda>out j. c_xor3 C (c_and C (as ! j) (bs ! (i - j))) out (cins ! (j - 2))"
  shows "bexp (foldl step out js) \<and> (tv I (foldl step out js) \<longleftrightarrow>
    odd (of_bool (tv I out) + (\<Sum>j\<leftarrow>js. of_bool (tv I (as ! j) \<and> tv I (bs ! (i - j))))
      + (\<Sum>j\<leftarrow>js. of_bool (tv I (cins ! (j - 2)))) :: nat))"
  using assms(1,2)
proof (induction js arbitrary: out)
  case (Cons j js)
  have s: "bexp (step out j)" "tv I (step out j) \<longleftrightarrow> ((tv I (as ! j) \<and> tv I (bs ! (i - j))) \<noteq> (tv I out \<noteq> tv I (cins ! (j - 2))))"
    using Cons.prems by (simp_all add: step_def)
  have "odd (of_bool (x \<noteq> (y \<noteq> z)) + m + n) = odd (of_bool y + (of_bool x + m) + (of_bool z + n))" for x y z and m n :: nat
    by (cases x; cases y; cases z) simp_all
  then show ?case using Cons.IH [OF _ s(1)] Cons.prems s(2) by (simp only: foldl.simps list.map sum_list.Cons list.set) simp
qed simp

lemma column_list:
  assumes "1 \<le> i"
  shows "column I as bs i = of_bool (tv I (as ! 0) \<and> tv I (bs ! i)) + of_bool (tv I (as ! 1) \<and> tv I (bs ! (i - 1)))
    + (\<Sum>j\<leftarrow>[2..<i + 1]. of_bool (tv I (as ! j) \<and> tv I (bs ! (i - j))))"
proof -
  let ?f = "\<lambda>j. of_bool (tv I (as ! j) \<and> tv I (bs ! (i - j))) :: nat"
  have "column I as bs i = (\<Sum>j\<leftarrow>[0..<i + 1]. ?f j)"
    unfolding column_def interv_sum_list_conv_sum_set_nat by (intro sum.cong) auto
  also have "[0..<i + 1] = 0 # 1 # [2..<i + 1]" using assms by (simp add: upt_conv_Cons numeral_2_eq_2)
  finally show ?thesis by (simp only: list.map sum_list.Cons diff_zero add.assoc)
qed

lemma carries_list:
  assumes "length cins = i - 1" "1 \<le> i"
  shows "(\<Sum>j\<leftarrow>[2..<i + 1]. f (cins ! (j - 2))) = (\<Sum>c\<leftarrow>cins. f c :: nat)"
proof -
  have "map (\<lambda>j. f (cins ! (j - 2))) [2..<i + 1] = map f cins"
    using assms by (intro nth_equalityI) (auto simp: nth_upt simp del: upt_Suc)
  then show ?thesis by (rule arg_cong)
qed

lemma mult_columns:
  assumes "length as = sz" "length bs = sz" "list_all bexp as" "list_all bexp bs"
    and "1 \<le> i" "i \<le> sz" "length cins = i - 1" "list_all bexp cins"
  shows "length (mult_columns C as bs [i..<sz] cins) = sz - i \<and> list_all bexp (mult_columns C as bs [i..<sz] cins) \<and>
    bval I (mult_columns C as bs [i..<sz] cins) =
      ((\<Sum>c\<leftarrow>cins. of_bool (tv I c)) + (\<Sum>d < sz - i. 2 ^ d * column I as bs (i + d))) mod 2 ^ (sz - i)"
  using assms(5-8)
proof (induction "sz - i" arbitrary: i cins)
  case (Suc m)
  let ?f = "\<lambda>j. of_bool (tv I (as ! j) \<and> tv I (bs ! (i - j))) :: nat"
  let ?cs = "\<Sum>c\<leftarrow>cins. of_bool (tv I c) :: nat"
  let ?R = "\<Sum>d < m. 2 ^ d * column I as bs (Suc i + d)"
  let ?i1 = "c_and C (as ! 0) (bs ! i)" and ?i2 = "c_and C (as ! 1) (bs ! (i - 1))"
  have i: "i < sz" "sz - i = Suc m" "sz - Suc i = m" "[i..<sz] = i # [Suc i..<sz]"
    using Suc.hyps(2) Suc.prems by (simp_all add: upt_conv_Cons)
  have b: "bexp (as ! j)" "bexp (bs ! j)" if "j \<le> i" for j
    using that i(1) assms(1-4) by (simp_all add: list_all_length)
  have i12: "bexp ?i1" "bexp ?i2" "tv I ?i1 = (tv I (as ! 0) \<and> tv I (bs ! i))" "tv I ?i2 = (tv I (as ! 1) \<and> tv I (bs ! (i - 1)))"
    using b Suc.prems(1) by simp_all
  have ok: "\<forall>j \<in> set [2..<i + 1]. bexp (as ! j) \<and> bexp (bs ! (i - j)) \<and> bexp (cins ! (j - 2))"
    using b Suc.prems by (auto simp: list_all_length)
  have total: "(\<Sum>d < sz - i. 2 ^ d * column I as bs (i + d)) = column I as bs i + 2 * ?R"
    unfolding i(2) sum.lessThan_Suc_shift by (simp add: sum_distrib_left mult.assoc)
  have cons: "(of_bool o' + 2 * c + 2 * ?R) mod 2 ^ (sz - i) = of_bool o' + 2 * ((c + ?R) mod 2 ^ m)" for o' c
    using mod_cons_bit [of o' "c + ?R" m] by (simp only: i(2) distrib_left add.assoc)
  have split: "column I as bs i + ?cs = of_bool (tv I ?i1) + of_bool (tv I ?i2)
      + (\<Sum>j\<leftarrow>[2..<i + 1]. ?f j) + (\<Sum>j\<leftarrow>[2..<i + 1]. of_bool (tv I (cins ! (j - 2))))"
    using column_list [OF Suc.prems(1), of as bs] carries_list [OF Suc.prems(3,1), of "\<lambda>c. of_bool (tv I c)"] i12(3,4)
    by (simp only:)
  show ?case
  proof (cases "i < sz - 1")
    case True
    let ?out = "c_xor C ?i1 ?i2" and ?cout = "c_and C ?i1 ?i2"
    let ?rest = "mult_column C as bs i cins [2..<i + 1] ?out"
    have o: "bexp ?out" "bexp ?cout" using i12 by simp_all
    note col = mult_column [OF ok o(1)]
    have "of_bool x + of_bool y = of_bool (x \<noteq> y) + 2 * (of_bool (x \<and> y) :: nat)" for x y by (cases x; cases y) simp_all
    then have half: "of_bool (tv I ?i1) + of_bool (tv I ?i2) = of_bool (tv I ?out) + 2 * (of_bool (tv I ?cout) :: nat)"
      using i12(1,2) gate_xor gate_and by (simp only:)
    have e: "mult_columns C as bs [i..<sz] cins = fst ?rest # mult_columns C as bs [Suc i..<sz] (?cout # snd ?rest)"
      using True assms(1) by (simp add: i(4) mk_half_adder_def case_prod_beta Let_def)
    have c: "length (?cout # snd ?rest) = Suc i - 1" "list_all bexp (?cout # snd ?rest)"
      using col o Suc.prems(1) length_upt [of 2 "i + 1"] by (simp_all del: upt_Suc length_upt)
    note IH = Suc.hyps(1) [of "Suc i" "?cout # snd ?rest", unfolded i(3), OF refl _ _ c]
    have arith: "u + v + p + q = f + 2 * (c + s)" if "u + v = y + 2 * c" "f + 2 * s = y + p + q"
      for u v y c f s p q :: nat
      using that by simp
    have "column I as bs i + ?cs = of_bool (tv I (fst ?rest)) + 2 * (\<Sum>c\<leftarrow>?cout # snd ?rest. of_bool (tv I c))"
      using trans [OF split arith [OF half conjunct2 [OF conjunct2 [OF conjunct2 [OF col]]]]]
      by (simp only: list.map sum_list.Cons)
    then have sum: "?cs + (\<Sum>d < sz - i. 2 ^ d * column I as bs (i + d)) =
        of_bool (tv I (fst ?rest)) + 2 * (\<Sum>c\<leftarrow>?cout # snd ?rest. of_bool (tv I c)) + 2 * ?R"
      unfolding total by simp
    have L: "length (mult_columns C as bs [Suc i..<sz] (?cout # snd ?rest)) = m \<and>
        list_all bexp (mult_columns C as bs [Suc i..<sz] (?cout # snd ?rest)) \<and>
        bval I (mult_columns C as bs [Suc i..<sz] (?cout # snd ?rest)) =
          ((\<Sum>c\<leftarrow>?cout # snd ?rest. of_bool (tv I c)) + ?R) mod 2 ^ m"
      using IH i Suc.prems by (simp only: i(3) Suc_leI simp_thms)
    then have "bval I (mult_columns C as bs [i..<sz] cins) =
        (?cs + (\<Sum>d < sz - i. 2 ^ d * column I as bs (i + d))) mod 2 ^ (sz - i)"
      unfolding sum cons e bval_simps by (simp only:)
    then show ?thesis unfolding e using L i col by (simp only: list.pred_inject list.size) simp
  next
    case False
    then have m: "m = 0" "i = sz - 1" using i by simp_all
    define last where "last = foldl (\<lambda>out j. c_xor3 C (c_and C (as ! j) (bs ! (i - j))) out (cins ! (j - 2)))
      (c_xor C ?i1 ?i2) [2..<i + 1]"
    have o: "bexp (c_xor C ?i1 ?i2)" using i12 by simp
    note L = last_column [OF ok o, folded last_def]
    have e: "mult_columns C as bs [i..<sz] cins = [last]"
      using False assms(1) i m by (simp add: last_def Let_def)
    have "odd (of_bool x + of_bool y + n) = odd (of_bool (x \<noteq> y) + n)" for x y and n :: nat by (cases x; cases y) simp_all
    then have "tv I last \<longleftrightarrow> odd (column I as bs i + ?cs)"
      using L i12(1,2) gate_xor unfolding split by (simp only: add.assoc)
    moreover have "(?cs + (column I as bs i + 2 * ?R)) mod 2 ^ (sz - i) = of_bool (odd (column I as bs i + ?cs))"
      unfolding i(2) m(1) by (simp only: lessThan_0 sum.empty mult_0_right add_0_right power_Suc0_right One_nat_def [symmetric]
          power_one_right mod_2_eq_odd add.commute [of ?cs])
    ultimately show ?thesis unfolding e total using L m(1) i(2) by (simp only: bval_simps list.pred_inject list.size) simp
  qed
qed simp

lemma mk_array_multiplier:
  assumes "length as = length bs" "list_all bexp as" "list_all bexp bs" "as \<noteq> []"
  shows "length (mk_array_multiplier C as bs) = length as" "list_all bexp (mk_array_multiplier C as bs)"
    "bval I (mk_array_multiplier C as bs) = (bval I as * bval I bs) mod 2 ^ length as"
proof -
  obtain m where m: "length as = Suc m" using assms(4) by (cases as) auto
  have M: "length (mult_columns C as bs [1..<Suc m] []) = m" "list_all bexp (mult_columns C as bs [1..<Suc m] [])"
    "bval I (mult_columns C as bs [1..<Suc m] []) = (\<Sum>d < m. 2 ^ d * column I as bs (Suc d)) mod 2 ^ m"
    using mult_columns [of as "Suc m" bs 1 "[]"] assms m by (simp_all del: upt_Suc)
  have "bexp (as ! 0)" "bexp (bs ! 0)" using assms m by (metis length_greater_0_conv list_all_nth)+
  then have c: "bexp (c_and C (as ! 0) (bs ! 0))" "of_bool (tv I (c_and C (as ! 0) (bs ! 0))) = column I as bs 0"
    by (simp_all add: column_def)
  show "length (mk_array_multiplier C as bs) = length as" "list_all bexp (mk_array_multiplier C as bs)"
    using M c m by (simp_all add: mk_array_multiplier_def del: upt_Suc)
  have "bval I (mk_array_multiplier C as bs) = column I as bs 0 + 2 * ((\<Sum>d < m. 2 ^ d * column I as bs (Suc d)) mod 2 ^ m)"
    using M(3) c(2) m by (simp only: mk_array_multiplier_def bval_simps)
  also have "\<dots> = (column I as bs 0 + 2 * (\<Sum>d < m. 2 ^ d * column I as bs (Suc d))) mod 2 ^ Suc m"
    using c(2) [symmetric] mod_cons_bit by (simp only:)
  also have "\<dots> = (\<Sum>d < Suc m. 2 ^ d * column I as bs d) mod 2 ^ Suc m"
    unfolding sum.lessThan_Suc_shift by (simp add: sum_distrib_left mult.assoc)
  also have "\<dots> = (bval I as * bval I bs) mod 2 ^ length as"
    using product_columns [OF m, of bs I] assms(1) m by (simp only:)
  finally show "bval I (mk_array_multiplier C as bs) = (bval I as * bval I bs) mod 2 ^ length as" .
qed

end


section \<open>The Wallace tree\<close>

definition pps_val :: "interp \<Rightarrow> expr list list \<Rightarrow> nat" where
  "pps_val I pps = (\<Sum>pp\<leftarrow>pps. bval I pp)"

lemma pps_val_simps [simp]:
  "pps_val I [] = 0" "pps_val I (pp # pps) = bval I pp + pps_val I pps"
  by (simp_all add: pps_val_def)

lemma bval_butlast_shift:
  assumes "es \<noteq> []"
  shows "bval I (butlast (m_mk_false # es)) mod 2 ^ length es = (2 * bval I es) mod 2 ^ length es"
proof -
  have "butlast (m_mk_false # es) = take (length es) (m_mk_false # es)"
    by (simp add: butlast_conv_take)
  then show ?thesis by (simp add: bval_take)
qed

context gates
begin

lemma wallace_pass:
  assumes "\<forall>pp \<in> set pps. length pp = sz \<and> list_all bexp pp" "0 < sz"
  shows "(\<forall>pp \<in> set (wallace_pass C pps). length pp = sz \<and> list_all bexp pp) \<and>
    pps_val I (wallace_pass C pps) mod 2 ^ sz = pps_val I pps mod 2 ^ sz"
  using assms
proof (induction C\<equiv>C pps rule: wallace_pass.induct)
  case (1 pp1 pp2 pp3 pps)
  define s where "s = fst (mk_carry_save_adder C pp1 pp2 pp3)"
  define c where "c = snd (mk_carry_save_adder C pp1 pp2 pp3)"
  have e: "wallace_pass C (pp1 # pp2 # pp3 # pps) = s # butlast (m_mk_false # c) # wallace_pass C pps"
    by (simp add: s_def c_def case_prod_beta)
  have A: "length s = sz" "length c = sz" "list_all bexp s" "list_all bexp c"
    "bval I s + 2 * bval I c = bval I pp1 + bval I pp2 + bval I pp3"
    using mk_carry_save_adder [of pp1 pp2 pp3] 1(2) by (simp_all add: s_def c_def)
  have IH: "\<forall>pp \<in> set (wallace_pass C pps). length pp = sz \<and> list_all bexp pp"
    "pps_val I (wallace_pass C pps) mod 2 ^ sz = pps_val I pps mod 2 ^ sz"
    using 1(1) [of _ "s" "c"] 1(2,3) by (simp_all add: s_def c_def)
  have b: "length (butlast (m_mk_false # c)) = sz" "list_all bexp (butlast (m_mk_false # c))"
    using A 1(3) by (auto simp: list_all_iff dest: in_set_butlastD)
  have "(bval I s + (bval I (butlast (m_mk_false # c)) + pps_val I (wallace_pass C pps))) mod 2 ^ sz =
      (bval I s + (2 * bval I c + pps_val I pps)) mod 2 ^ sz"
    using bval_butlast_shift [of c I] A(2) 1(3) IH(2) by (intro mod_add_cong) auto
  also have "bval I s + (2 * bval I c + pps_val I pps) = pps_val I (pp1 # pp2 # pp3 # pps)"
    using A(5) by simp
  finally show ?case unfolding e using A b IH(1) by simp
qed simp_all

lemma wallace_loop:
  assumes "\<forall>pp \<in> set pps. length pp = sz \<and> list_all bexp pp" "0 < sz" "2 \<le> length pps"
  shows "length (wallace_loop C pps) = 2 \<and> (\<forall>pp \<in> set (wallace_loop C pps). length pp = sz \<and> list_all bexp pp) \<and>
    pps_val I (wallace_loop C pps) mod 2 ^ sz = pps_val I pps mod 2 ^ sz"
  using assms
proof (induction "length pps" arbitrary: pps rule: less_induct)
  case less
  show ?case
  proof (cases "length pps \<le> 2")
    case True
    then show ?thesis using less.prems by (subst (1 2 3) wallace_loop.simps) simp
  next
    case False
    then have "wallace_loop C pps = wallace_loop C (wallace_pass C pps)" by (subst wallace_loop.simps) simp
    then show ?thesis
      using less.hyps [of "wallace_pass C pps"] wallace_pass [OF less.prems(1,2)] wallace_pass_length [where C = C and pps = pps] False less.prems
      by simp
  qed
qed

lemma partial_product:
  assumes "list_all bexp as" "bexp b" "length as = sz" "i < sz"
  defines "pp \<equiv> replicate i m_mk_false @ map (\<lambda>j. c_and C (as ! j) b) [0..<sz - i]"
  shows "length pp = sz" "list_all bexp pp" "bval I pp mod 2 ^ sz = (of_bool (tv I b) * 2 ^ i * bval I as) mod 2 ^ sz"
proof -
  have m: "map (\<lambda>j. c_and C (as ! j) b) [0..<sz - i] = map (\<lambda>a. c_and C a b) (take (sz - i) as)"
    using assms(3) by (intro nth_equalityI) simp_all
  show "length pp = sz" "list_all bexp pp"
    using assms(1-4) by (auto simp: pp_def m list_all_iff dest: in_set_takeD)
  have "list_all bexp es \<Longrightarrow> bval I (map (\<lambda>a. c_and C a b) es) = of_bool (tv I b) * bval I es" for es
    using assms(2) by (induction es) auto
  moreover have "list_all bexp (take (sz - i) as)" using assms(1) by (auto simp: list_all_iff dest: in_set_takeD)
  ultimately have "bval I pp = 2 ^ i * (of_bool (tv I b) * (bval I as mod 2 ^ (sz - i)))"
    by (simp add: pp_def m bval_append bval_take)
  also have "\<dots> = of_bool (tv I b) * ((2 ^ i * bval I as) mod (2 ^ i * 2 ^ (sz - i)))"
    unfolding mult.left_commute [of "2 ^ i"] mult_mod_right ..
  also have "2 ^ i * 2 ^ (sz - i) = (2 :: nat) ^ sz" using assms(4) by (simp flip: power_add)
  finally show "bval I pp mod 2 ^ sz = (of_bool (tv I b) * 2 ^ i * bval I as) mod 2 ^ sz"
    by (simp only: mod_mult_right_eq mult.assoc)
qed

lemma wallace_pps:
  assumes "length as = sz" "length bs = sz" "list_all bexp as" "list_all bexp bs"
  shows "length (wallace_pps C as bs) = sz" "\<forall>pp \<in> set (wallace_pps C as bs). length pp = sz \<and> list_all bexp pp"
    "pps_val I (wallace_pps C as bs) mod 2 ^ sz = (bval I as * bval I bs) mod 2 ^ sz"
proof -
  let ?pp = "\<lambda>i. replicate i m_mk_false @ map (\<lambda>j. c_and C (as ! j) (bs ! i)) [0..<sz - i]"
  have e: "wallace_pps C as bs = map ?pp [0..<sz]" by (simp add: wallace_pps_def assms(1) Let_def)
  have b: "bexp (bs ! i)" if "i < sz" for i using that assms by (simp add: list_all_length)
  note P = partial_product [OF assms(3) b assms(1)]
  show "length (wallace_pps C as bs) = sz" "\<forall>pp \<in> set (wallace_pps C as bs). length pp = sz \<and> list_all bexp pp"
    unfolding e using P by auto
  have "pps_val I (wallace_pps C as bs) = (\<Sum>i < sz. bval I (?pp i))"
    by (simp add: e pps_val_def comp_def interv_sum_list_conv_sum_set_nat lessThan_atLeast0 del: map_append)
  also have "\<dots> mod 2 ^ sz = (\<Sum>i < sz. bval I (?pp i) mod 2 ^ sz) mod 2 ^ sz"
    by (rule mod_sum_eq [symmetric])
  also have "(\<Sum>i < sz. bval I (?pp i) mod 2 ^ sz) = (\<Sum>i < sz. (of_bool (tv I (bs ! i)) * 2 ^ i * bval I as) mod 2 ^ sz)"
    using P(3) by (intro sum.cong refl) auto
  also have "\<dots> mod 2 ^ sz = (\<Sum>i < sz. of_bool (tv I (bs ! i)) * 2 ^ i * bval I as) mod 2 ^ sz"
    by (rule mod_sum_eq)
  also have "(\<Sum>i < sz. of_bool (tv I (bs ! i)) * 2 ^ i * bval I as) = bval I as * bval I bs"
    by (simp only: bval_sum [of I bs] assms(2) sum_distrib_right [symmetric] mult.commute [of "bval I as"])
  finally show "pps_val I (wallace_pps C as bs) mod 2 ^ sz = (bval I as * bval I bs) mod 2 ^ sz" .
qed

lemma mk_wallace_multiplier:
  assumes "length as = length bs" "list_all bexp as" "list_all bexp bs" "as \<noteq> []"
  shows "length (mk_wallace_multiplier C as bs) = length as \<and> list_all bexp (mk_wallace_multiplier C as bs) \<and>
    bval I (mk_wallace_multiplier C as bs) = (bval I as * bval I bs) mod 2 ^ length as"
proof (cases "length as = 1")
  case True
  then obtain a b where "as = [a]" "bs = [b]"
    using assms(1) by (metis One_nat_def length_0_conv length_Suc_conv)
  then show ?thesis using assms by (simp add: mk_wallace_multiplier_def)
next
  case False
  define pps where "pps = wallace_loop C (wallace_pps C as bs)"
  have e: "mk_wallace_multiplier C as bs = mk_adder C (pps ! 0) (pps ! 1)"
    using False by (simp add: mk_wallace_multiplier_def pps_def Let_def)
  note P = wallace_pps [of as "length as" bs, OF refl assms(1) [symmetric] assms(2,3)]
  have pos: "0 < length as" using assms(4) by simp
  then have two: "2 \<le> length (wallace_pps C as bs)" unfolding P(1) using False by linarith
  note L = wallace_loop [OF P(2) pos two, folded pps_def]
  then obtain p q where pq: "pps = [p, q]" by (auto simp: length_Suc_conv numeral_2_eq_2)
  have A: "length p = length as" "length q = length as" "list_all bexp p" "list_all bexp q"
    "(bval I p + bval I q) mod 2 ^ length as = (bval I as * bval I bs) mod 2 ^ length as"
    using L P(3) by (simp_all add: pq)
  then show ?thesis using mk_adder [of p q] by (simp add: e pq)
qed

end


section \<open>Multiplication by a constant\<close>

lemma skip_const:
  "i \<le> sz \<Longrightarrow> i \<le> skip_const bits i sz \<and> skip_const bits i sz \<le> sz \<and>
    (\<forall>j. i \<le> j \<and> j < skip_const bits i sz \<longrightarrow> is_bool_const (bits ! j))"
proof (induction bits i sz rule: skip_const.induct)
  case (1 bits i sz)
  show ?case
  proof (cases "i < sz \<and> is_bool_const (bits ! i)")
    case True
    then have e: "skip_const bits i sz = skip_const bits (i + 1) sz" by (subst skip_const.simps) simp
    have "is_bool_const (bits ! j)" if "i \<le> j" "j < skip_const bits (i + 1) sz" for j
      using 1(1) [OF True] True that by (cases "j = i") auto
    then show ?thesis unfolding e using 1(1) [OF True] True by auto
  next
    case False
    then have "skip_const bits i sz = i" by (subst skip_const.simps) (rule if_not_P)
    then show ?thesis using 1(2) by auto
  qed
qed

lemma skip_const_take:
  assumes "list_all is_bool_const (take i xs)" "i \<le> length xs"
  shows "list_all is_bool_const (take (skip_const xs i (length xs)) xs)"
proof -
  have "is_bool_const (xs ! j)" if "j < skip_const xs i (length xs)" "j < length xs" for j
    using that assms skip_const [of i "length xs" xs] by (cases "j < i") (auto simp: list_all_length)
  then show ?thesis by (simp add: list_all_length)
qed

lemma const_take_update:
  assumes "list_all is_bool_const (take i xs)" "i < length xs" "is_bool_const v"
  shows "list_all is_bool_const (take (i + 1) (xs[i := v]))"
proof -
  have "take (i + 1) (xs[i := v]) = take i xs @ [v]" using assms(2) by (simp add: take_Suc_conv_app_nth)
  then show ?thesis using assms by simp
qed

lemma bval_update: "i < length es \<Longrightarrow> tv I v = tv I (es ! i) \<Longrightarrow> bval I (es[i := v]) = bval I es"
  using list_update_id [of "map (tv I) es" i] by (simp add: bval_def map_update)

lemma select_bits:
  assumes "bexp x" "length ts = sz" "length es = sz" "list_all bexp ts" "list_all bexp es"
  defines "out \<equiv> map (\<lambda>j. m_mk_ite x (ts ! j) (es ! j)) [0..<sz]"
  shows "length out = sz \<and> list_all bexp out \<and> bval I out = (if tv I x then bval I ts else bval I es)"
proof -
  have b: "bexp (ts ! j)" "bexp (es ! j)" if "j < sz" for j using that assms by (simp_all add: list_all_length)
  have "map (tv I) out = map (tv I) (if tv I x then ts else es)"
    using assms(1-3) b by (intro nth_equalityI) (simp_all add: out_def)
  then have "bval I out = bval I (if tv I x then ts else es)" by (simp add: bval_def)
  then show ?thesis using b assms(1) by (auto simp: out_def list_all_iff)
qed

lemma const_case_leaf:
  assumes "list_all is_bool_const as" "list_all is_bool_const bs"
  shows "(case (is_numeral as, is_numeral bs) of (Some n_a, Some n_b) \<Rightarrow> num2bits (n_a * n_b) sz | _ \<Rightarrow> [])
    = num2bits (bval I as * bval I bs) sz"
proof -
  obtain n m where "is_numeral as = Some n" "is_numeral bs = Some m"
    using assms is_numeral_iff by metis
  then show ?thesis using is_numeral_Some [of as n I] is_numeral_Some [of bs m I] by simp
qed

lemma mk_const_case_multiplier_rec:
  assumes "length as = sz" "length bs = sz" "list_all bexp as" "list_all bexp bs" "i0 \<le> sz"
    and "is_a0 \<Longrightarrow> list_all is_bool_const (take i0 as)"
    and "\<not> is_a0 \<Longrightarrow> list_all is_bool_const as \<and> list_all is_bool_const (take i0 bs)"
  shows "length (mk_const_case_multiplier_rec is_a0 i0 sz as bs) = sz \<and>
    list_all bexp (mk_const_case_multiplier_rec is_a0 i0 sz as bs) \<and>
    bval I (mk_const_case_multiplier_rec is_a0 i0 sz as bs) = (bval I as * bval I bs) mod 2 ^ sz"
  using assms
proof (induction "(if is_a0 then sz + 1 else 0) + (sz - i0)" arbitrary: is_a0 i0 as bs rule: less_induct)
  case less
  note prems = less.prems
  define i1 where "i1 = (if is_a0 then skip_const as i0 sz else i0)"
  define is_a where "is_a = (is_a0 \<and> i1 \<noteq> sz)"
  define i2 where "i2 = (if is_a0 \<and> i1 = sz then 0 else i1)"
  define i where "i = (if is_a then i2 else skip_const bs i2 sz)"
  define x where "x = (if is_a then as ! i else bs ! i)"
  define aT where "aT = (if is_a then as[i := m_mk_true] else as)"
  define bT where "bT = (if is_a then bs else bs[i := m_mk_true])"
  define aF where "aF = (if is_a then as[i := m_mk_false] else as)"
  define bF where "bF = (if is_a then bs else bs[i := m_mk_false])"
  have p: "(is_a, i2) = (if is_a0 \<and> i1 = sz then (False, 0) else (is_a0, i1))"
    by (auto simp: is_a_def i2_def)
  have e: "mk_const_case_multiplier_rec is_a0 i0 sz as bs =
    (if i < sz then map (\<lambda>j. m_mk_ite x (mk_const_case_multiplier_rec is_a (i + 1) sz aT bT ! j)
        (mk_const_case_multiplier_rec is_a (i + 1) sz aF bF ! j)) [0..<sz]
     else (case (is_numeral as, is_numeral bs) of (Some n_a, Some n_b) \<Rightarrow> num2bits (n_a * n_b) sz | _ \<Rightarrow> []))"
    unfolding mk_const_case_multiplier_rec.simps [of is_a0 i0 sz as bs]
    by (simp only: Let_def i1_def [symmetric] p [symmetric] prod.case i_def [symmetric])
      (simp add: i_def x_def aT_def bT_def aF_def bF_def)
  have i: "i \<le> sz \<and> (if is_a then list_all is_bool_const (take i as)
      else list_all is_bool_const as \<and> list_all is_bool_const (take i bs))"
  proof (cases is_a0)
    case True
    then have i1: "i1 \<le> sz" "list_all is_bool_const (take i1 as)"
      using skip_const [of i0 sz as] skip_const_take [of i0 as] prems by (simp_all add: i1_def)
    show ?thesis
      using True i1 skip_const [of 0 sz bs] skip_const_take [of 0 bs] prems(1,2)
      by (cases "i1 = sz") (simp_all add: is_a_def i_def i2_def)
  next
    case False
    then show ?thesis using skip_const [of i0 sz bs] skip_const_take [of i0 bs] prems
      by (simp add: is_a_def i_def i2_def i1_def)
  qed
  show ?case
  proof (cases "i < sz")
    case True
    have x: "bexp x" using True prems by (simp add: x_def list_all_length)
    have c: "is_bool_const m_mk_true" "is_bool_const m_mk_false" by (simp_all add: is_bool_const_def)
    have upd: "length aT = sz" "length bT = sz" "length aF = sz" "length bF = sz"
      using prems(1,2) by (simp_all add: aT_def bT_def aF_def bF_def)
    have "list_all bexp (es[i := v])" if "list_all bexp es" "bexp v" for es v
      using that set_update_subset_insert [of es i v] by (auto simp: list_all_iff)
    then have updb: "list_all bexp aT" "list_all bexp bT" "list_all bexp aF" "list_all bexp bF"
      using prems(3,4) by (simp_all add: aT_def bT_def aF_def bF_def)
    have inv: "is_a \<Longrightarrow> list_all is_bool_const (take (i + 1) aT)"
      "\<not> is_a \<Longrightarrow> list_all is_bool_const aT \<and> list_all is_bool_const (take (i + 1) bT)"
      "is_a \<Longrightarrow> list_all is_bool_const (take (i + 1) aF)"
      "\<not> is_a \<Longrightarrow> list_all is_bool_const aF \<and> list_all is_bool_const (take (i + 1) bF)"
      using i True prems(1,2) const_take_update c by (simp_all add: aT_def bT_def aF_def bF_def)
    have i': "i + 1 \<le> sz" using True by simp
    have "i0 \<le> i \<or> \<not> is_a"
      using skip_const [of i0 sz as] prems(5) by (auto simp: i_def i2_def i1_def is_a_def)
    moreover have "i0 \<le> i" if "\<not> is_a0"
      using that skip_const [of i0 sz bs] prems(5) by (simp add: i_def i2_def i1_def is_a_def)
    moreover have "is_a \<Longrightarrow> is_a0" by (simp add: is_a_def)
    ultimately have less': "(if is_a then sz + 1 else 0) + (sz - (i + 1)) < (if is_a0 then sz + 1 else 0) + (sz - i0)"
      using True by (auto split: if_splits)
    have T: "length (mk_const_case_multiplier_rec is_a (i + 1) sz aT bT) = sz \<and>
        list_all bexp (mk_const_case_multiplier_rec is_a (i + 1) sz aT bT) \<and>
        bval I (mk_const_case_multiplier_rec is_a (i + 1) sz aT bT) = (bval I aT * bval I bT) mod 2 ^ sz"
      by (rule less.hyps [OF less' upd(1,2) updb(1,2) i' inv(1,2)])
    have F: "length (mk_const_case_multiplier_rec is_a (i + 1) sz aF bF) = sz \<and>
        list_all bexp (mk_const_case_multiplier_rec is_a (i + 1) sz aF bF) \<and>
        bval I (mk_const_case_multiplier_rec is_a (i + 1) sz aF bF) = (bval I aF * bval I bF) mod 2 ^ sz"
      by (rule less.hyps [OF less' upd(3,4) updb(3,4) i' inv(3,4)])
    have v: "tv I x \<Longrightarrow> bval I aT = bval I as \<and> bval I bT = bval I bs"
      "\<not> tv I x \<Longrightarrow> bval I aF = bval I as \<and> bval I bF = bval I bs"
      using True prems(1,2) by (simp_all add: x_def aT_def bT_def aF_def bF_def bval_update split: if_splits)
    show ?thesis unfolding e using select_bits [OF x, of "mk_const_case_multiplier_rec is_a (i + 1) sz aT bT" sz
          "mk_const_case_multiplier_rec is_a (i + 1) sz aF bF" I] T F v True by (simp split: if_split_asm)
  next
    case False
    moreover have "is_a \<Longrightarrow> i = i1 \<and> i1 \<noteq> sz" by (simp add: is_a_def i_def i2_def)
    ultimately have "\<not> is_a" using i by auto
    with False have "list_all is_bool_const as" "list_all is_bool_const bs"
      using i prems(1,2) by (auto split: if_splits)
    then show ?thesis unfolding e if_not_P [OF False] const_case_leaf [OF \<open>list_all is_bool_const as\<close> \<open>list_all is_bool_const bs\<close>, of sz I]
      by simp
  qed
qed


lemma mk_const_case_multiplier_fst [simp]: "\<not> fst (mk_const_case_multiplier as bs)"
  by (simp add: mk_const_case_multiplier_def Let_def)

context gates
begin

lemma booth_add:
  assumes "length out = sz" "length xs = sz" "list_all bexp out" "list_all bexp xs" "i \<le> sz"
  defines "res \<equiv> take i out @ mk_adder C (drop i out) (take (sz - i) xs)"
  shows "length res = sz \<and> list_all bexp res \<and>
    int (bval I res) mod 2 ^ sz = (int (bval I out) + 2 ^ i * int (bval I xs)) mod 2 ^ sz"
proof -
  have b: "list_all bexp (take i out)" "list_all bexp (drop i out)" "list_all bexp (take (sz - i) xs)"
    using assms(3,4) by (auto simp: list_all_iff dest: in_set_takeD in_set_dropD)
  have l: "length (drop i out) = length (take (sz - i) xs)" "length (take i out) = i" "length (drop i out) = sz - i"
    using assms(1,2,5) by simp_all
  note A = mk_adder [OF l(1) b(2,3)]
  have p: "(2::nat) ^ sz = 2 ^ i * 2 ^ (sz - i)" using assms(5) by (simp flip: power_add)
  have "bval I res = bval I out mod 2 ^ i +
      2 ^ i * ((bval I out div 2 ^ i + bval I xs mod 2 ^ (sz - i)) mod 2 ^ (sz - i))"
    using l by (simp only: res_def bval_append A bval_take bval_drop)
  also have "\<dots> = bval I out mod 2 ^ i + (2 ^ i * (bval I out div 2 ^ i + bval I xs)) mod 2 ^ sz"
    by (simp only: mod_add_right_eq mult_mod_right p)
  also have "\<dots> mod 2 ^ sz = (bval I out mod 2 ^ i + 2 ^ i * (bval I out div 2 ^ i + bval I xs)) mod 2 ^ sz"
    by (simp only: mod_add_right_eq)
  also have "bval I out mod 2 ^ i + 2 ^ i * (bval I out div 2 ^ i + bval I xs) = bval I out + 2 ^ i * bval I xs"
    using mult_div_mod_eq [of "2 ^ i" "bval I out"] by (simp only: distrib_left)
  finally have "int (bval I res mod 2 ^ sz) = int ((bval I out + 2 ^ i * bval I xs) mod 2 ^ sz)" by (rule arg_cong)
  then have "int (bval I res) mod 2 ^ sz = (int (bval I out) + 2 ^ i * int (bval I xs)) mod 2 ^ sz"
    by (simp add: zmod_int)
  moreover have "length res = sz \<and> list_all bexp res" using A(1,2) b l assms(5) by (simp add: res_def)
  ultimately show ?thesis by blast
qed

lemma booth_loop:
  assumes "length out = sz" "length bs = sz" "length ms = sz" "list_all bexp out" "list_all bexp bs" "list_all bexp ms"
    and "(int (bval I ms) + int (bval I bs)) mod 2 ^ sz = 0" "i + length as = sz" "list_all is_bool_const as"
  shows "length (booth_loop C bs ms as i last_now out) = sz \<and> list_all bexp (booth_loop C bs ms as i last_now out) \<and>
    int (bval I (booth_loop C bs ms as i last_now out)) mod 2 ^ sz =
      (int (bval I out) + 2 ^ i * int (bval I bs) * (of_bool last_now + int (bval I as))) mod 2 ^ sz"
  using assms(1,4,8,9)
proof (induction as arbitrary: i last_now out)
  case Nil
  then show ?case by (simp add: mult.assoc)
next
  case (Cons a as)
  let ?now = "m_is_true a"
  have now: "tv I a = ?now" using Cons.prems(4) by (auto simp: is_bool_const_def)
  define out' where "out' = (if ?now \<and> \<not> last_now then take i out @ mk_adder C (drop i out) (take (sz - i) ms)
    else if \<not> ?now \<and> last_now then take i out @ mk_adder C (drop i out) (take (sz - i) bs) else out)"
  have e: "booth_loop C bs ms (a # as) i last_now out = booth_loop C bs ms as (i + 1) ?now out'"
    using Cons.prems(1) by (simp add: Let_def out'_def)
  have isz: "i \<le> sz" "i + 1 + length as = sz" using Cons.prems(3) by simp_all
  obtain k where k: "int (bval I ms) + int (bval I bs) = 2 ^ sz * k" using assms(7) by (auto simp: mod_0_imp_dvd dvd_def)
  have out': "length out' = sz \<and> list_all bexp out' \<and> int (bval I out') mod 2 ^ sz =
      (int (bval I out) + 2 ^ i * int (bval I bs) * (of_bool last_now - of_bool ?now)) mod 2 ^ sz"
  proof (cases "?now \<and> \<not> last_now")
    case True
    note B = booth_add [OF Cons.prems(1) assms(3) Cons.prems(2) assms(6) isz(1)]
    have "int (bval I out) + 2 ^ i * int (bval I ms) = int (bval I out) - 2 ^ i * int (bval I bs) + 2 ^ sz * (2 ^ i * k)"
      using arg_cong [OF k, of "\<lambda>z. 2 ^ i * z"] by (simp add: distrib_left mult.left_commute)
    then have "(int (bval I out) + 2 ^ i * int (bval I ms)) mod 2 ^ sz = (int (bval I out) - 2 ^ i * int (bval I bs)) mod 2 ^ sz"
      by (simp only: mod_mult_self2)
    then show ?thesis using B True by (simp add: out'_def)
  next
    case False
    then consider "\<not> ?now" "last_now" | "last_now = ?now" by (cases last_now; cases ?now) simp_all
    then show ?thesis
    proof cases
      case 1
      note B = booth_add [OF Cons.prems(1) assms(2) Cons.prems(2) assms(5) isz(1)]
      show ?thesis using B 1 by (simp add: out'_def)
    qed (use Cons.prems(1,2) in \<open>simp add: out'_def\<close>)
  qed
  have IH: "length (booth_loop C bs ms as (i + 1) ?now out') = sz \<and> list_all bexp (booth_loop C bs ms as (i + 1) ?now out') \<and>
    int (bval I (booth_loop C bs ms as (i + 1) ?now out')) mod 2 ^ sz =
      (int (bval I out') + 2 ^ (i + 1) * int (bval I bs) * (of_bool ?now + int (bval I as))) mod 2 ^ sz"
    using Cons.IH [of out' "i + 1" ?now] out' isz(2) Cons.prems(4) by simp
  have "(int (bval I out') + 2 ^ (i + 1) * int (bval I bs) * (of_bool ?now + int (bval I as))) mod 2 ^ sz =
      (int (bval I out) + 2 ^ i * int (bval I bs) * (of_bool last_now - of_bool ?now) +
        2 ^ (i + 1) * int (bval I bs) * (of_bool ?now + int (bval I as))) mod 2 ^ sz"
    using out' by (intro mod_add_cong) simp_all
  also have "int (bval I out) + 2 ^ i * int (bval I bs) * (of_bool last_now - of_bool ?now) +
        2 ^ (i + 1) * int (bval I bs) * (of_bool ?now + int (bval I as)) =
      int (bval I out) + 2 ^ i * int (bval I bs) * (of_bool last_now + (of_bool ?now + 2 * int (bval I as)))"
    by (simp add: algebra_simps)
  finally show ?case unfolding e using IH now by (simp add: of_nat_mult)
qed

lemma mk_const_multiplier:
  assumes "m_cfg T = C" "length as = length bs" "list_all bexp as" "list_all bexp bs" "fst (mk_const_multiplier T as bs)"
  defines "out \<equiv> snd (mk_const_multiplier T as bs)"
  shows "length out = length as \<and> list_all bexp out \<and> bval I out = (bval I as * bval I bs) mod 2 ^ length as"
proof -
  let ?sz = "length as" and ?out0 = "replicate (length as) m_mk_false"
  obtain n where n: "is_numeral as = Some n" using assms(5) by (auto simp: mk_const_multiplier_def split: option.splits)
  have e: "out = booth_loop C bs (mk_neg C bs) as 0 False ?out0"
    using assms(1,5) by (simp add: out_def mk_const_multiplier_def n case_prod_beta Let_def split: if_splits)
  have c: "list_all is_bool_const as" using is_numeral_Some [OF n] by simp
  have b: "length (mk_neg C bs) = ?sz" "list_all bexp (mk_neg C bs)"
    using mk_neg [OF assms(4)] assms(2) by simp_all
  have "bval I bs < 2 ^ ?sz" using bval_less [of I bs] assms(2) by simp
  then have "(bval I (mk_neg C bs) + bval I bs) mod 2 ^ ?sz = 0"
    unfolding mk_neg(3) [OF assms(4)] assms(2) mod_add_left_eq by (simp add: less_imp_le_nat)
  then have "int ((bval I (mk_neg C bs) + bval I bs) mod 2 ^ ?sz) = int 0" by (rule arg_cong)
  then have neg: "(int (bval I (mk_neg C bs)) + int (bval I bs)) mod 2 ^ ?sz = 0"
    unfolding zmod_int of_nat_add of_nat_power of_nat_numeral int_ops(1) .
  have o: "length ?out0 = ?sz" "list_all bexp ?out0" by (simp_all add: list_all_iff)
  note B = booth_loop [OF o(1) assms(2) [symmetric] b(1) o(2) assms(4) b(2) neg _ c, of 0 False, simplified, folded e]
  have lt: "bval I out < 2 ^ ?sz" using bval_less [of I out] conjunct1 [OF B] by simp
  have "int (bval I out) mod 2 ^ ?sz = int (bval I as * bval I bs) mod 2 ^ ?sz"
    using conjunct2 [OF conjunct2 [OF B]] by (simp add: mult.commute)
  then have "int (bval I out mod 2 ^ ?sz) = int ((bval I as * bval I bs) mod 2 ^ ?sz)"
    unfolding zmod_int of_nat_power of_nat_numeral .
  then have "bval I out mod 2 ^ ?sz = (bval I as * bval I bs) mod 2 ^ ?sz" by (rule of_nat_eq_iff [THEN iffD1])
  then show ?thesis using B lt by simp
qed

lemma mk_multiplier:
  assumes "m_cfg T = C" "length as = length bs" "list_all bexp as" "list_all bexp bs" "as \<noteq> []"
  shows "length (mk_multiplier T as bs) = length as \<and> list_all bexp (mk_multiplier T as bs) \<and>
    bval I (mk_multiplier T as bs) = (bval I as * bval I bs) mod 2 ^ length as"
proof -
  let ?sz = "length as"
  define a where "a = (case is_numeral as of Some n \<Rightarrow> bs | None \<Rightarrow> as)"
  define b where "b = (case is_numeral as of Some n \<Rightarrow> as | None \<Rightarrow> bs)"
  define n_b where "n_b = (case is_numeral as of Some n \<Rightarrow> n | None \<Rightarrow> 0)"
  have sw: "(case is_numeral as of Some n \<Rightarrow> (bs, as, n) | None \<Rightarrow> (as, bs, 0)) = (a, b, n_b)"
    by (simp add: a_def b_def n_b_def split: option.splits)
  have e: "mk_multiplier T as bs = (if is_minus_one b then mk_neg C a
      else case is_numeral a of Some n_a \<Rightarrow> num2bits (n_a * n_b) ?sz
      | None \<Rightarrow> if fst (mk_const_multiplier T a b) then snd (mk_const_multiplier T a b)
        else if fst (mk_const_multiplier T b a) then snd (mk_const_multiplier T b a)
        else if \<not> m_use_wtm T then mk_array_multiplier C a b else mk_wallace_multiplier C a b)"
    by (simp only: mk_multiplier_def Let_def sw prod.case case_prod_beta assms(1) fst_conv snd_conv)
  have ab: "length a = ?sz" "length b = ?sz" "list_all bexp a" "list_all bexp b" "a \<noteq> []"
      "bval I a * bval I b = bval I as * bval I bs"
    using assms by (auto simp: a_def b_def mult.commute split: option.splits)
  then have l: "length a = length b" by simp
  have l2: "bval I b < 2 ^ ?sz" "bval I a < 2 ^ ?sz" using bval_less [of I b] bval_less [of I a] ab by simp_all
  show ?thesis
  proof (cases "is_minus_one b")
    case True
    then have m: "bval I b + 1 = 2 ^ ?sz" using is_minus_one_val [of b I] ab by simp
    have "(2 ^ ?sz - bval I a) mod 2 ^ ?sz = (bval I a * bval I b) mod 2 ^ ?sz"
    proof (cases "bval I a = 0")
      case False
      then obtain k where k: "bval I a = Suc k" by (cases "bval I a") auto
      have "bval I a * bval I b + bval I a = bval I a * 2 ^ ?sz" using m by (metis add.commute mult.right_neutral distrib_left)
      then have "bval I a * bval I b = k * 2 ^ ?sz + (2 ^ ?sz - bval I a)" using k l2(2) by simp
      then show ?thesis by simp
    qed simp
    then show ?thesis using mk_neg [OF ab(3)] ab True by (simp add: e)
  next
    case False
    consider (num) n where "is_numeral a = Some n" | (const1) "is_numeral a = None" "fst (mk_const_multiplier T a b)"
      | (const2) "is_numeral a = None" "\<not> fst (mk_const_multiplier T a b)" "fst (mk_const_multiplier T b a)"
      | (circuit) "is_numeral a = None" "\<not> fst (mk_const_multiplier T a b)" "\<not> fst (mk_const_multiplier T b a)"
      by (cases "is_numeral a") auto
    then show ?thesis
    proof cases
      case num
      then obtain m where m: "is_numeral as = Some m" "a = bs" "n_b = m" by (cases "is_numeral as") (auto simp: a_def n_b_def)
      have "mk_multiplier T as bs = num2bits (n * m) ?sz" using False num m(3) by (simp add: e)
      moreover have "n = bval I bs" "m = bval I as" using is_numeral_Some [OF num, of I] is_numeral_Some [OF m(1), of I] m(2) by simp_all
      ultimately show ?thesis by (simp add: mult.commute)
    next
      case const1
      then show ?thesis using mk_const_multiplier [OF assms(1) l ab(3,4)] False ab by (simp add: e)
    next
      case const2
      then show ?thesis using mk_const_multiplier [OF assms(1) l [symmetric] ab(4,3)] False ab by (simp add: e mult.commute)
    next
      case circuit
      then show ?thesis
        using mk_array_multiplier [OF l ab(3,4,5)] mk_wallace_multiplier [OF l ab(3,4,5)] False ab by (simp add: e)
    qed
  qed
qed

end

end
