(* ===== verification/Bit_Blaster_Div.thy ===== *)
theory Bit_Blaster_Div
  imports Bit_Blaster_Mult_Sound
begin

text \<open>
  Division and the overflow predicates of \<open>bit_blaster_tpl<Cfg>\<close> (\<open>bit_blaster_tpl_def.h\<close>):
  the restoring divider \<open>mk_udiv_urem\<close>, the signed operations built on it, the template
  \<open>mk_sdiv_srem_smod\<close> with four dividers that the code keeps but no longer calls, and the
  circuits that tell that a product does not overflow.
\<close>

section \<open>Unsigned division\<close>

text \<open>
  The stages of \<open>mk_udiv_urem\<close>. The list holds the bits of the dividend still to be shifted
  into the residual \<open>p\<close>, the next one first; each stage yields a bit of the quotient, the most
  significant first.
\<close>

fun udiv_loop :: "bb_cfg \<Rightarrow> expr list \<Rightarrow> expr list \<Rightarrow> expr list \<Rightarrow> expr list \<times> expr list" where
  "udiv_loop C b_bits p [] =
    (let (t, q) = mk_subtracter C p b_bits in ([q], map2 (c_ite C q) t p))"
| "udiv_loop C b_bits p (a # as) =
    (let (t, q) = mk_subtracter C p b_bits;
         p' = a # map2 (c_ite C q) (butlast t) (butlast p);
         (q_bits, r_bits) = udiv_loop C b_bits p' as
     in (q_bits @ [q], r_bits))"

definition mk_udiv_urem :: "bb_cfg \<Rightarrow> expr list \<Rightarrow> expr list \<Rightarrow> expr list \<times> expr list" where
  "mk_udiv_urem C a_bits b_bits =
    (let sz = length a_bits;
         p = a_bits ! (sz - 1) # replicate (sz - 1) m_mk_false
     in udiv_loop C b_bits p (rev (take (sz - 1) a_bits)))"

definition mk_udiv :: "bb_cfg \<Rightarrow> expr list \<Rightarrow> expr list \<Rightarrow> expr list" where
  "mk_udiv C a_bits b_bits = (let (q_bits, aux) = mk_udiv_urem C a_bits b_bits in q_bits)"

definition mk_urem :: "bb_cfg \<Rightarrow> expr list \<Rightarrow> expr list \<Rightarrow> expr list" where
  "mk_urem C a_bits b_bits = (let (aux, r_bits) = mk_udiv_urem C a_bits b_bits in r_bits)"

section \<open>Signed division\<close>

definition mk_abs :: "bb_cfg \<Rightarrow> expr list \<Rightarrow> expr list" where
  "mk_abs C a_bits =
    (let a_msb = a_bits ! (length a_bits - 1) in
     if m_is_false a_msb then a_bits
     else if m_is_true a_msb then mk_neg C a_bits
     else (let neg_a_bits = mk_neg C a_bits in mk_multiplexer C a_msb neg_a_bits a_bits))"

definition mk_sdiv :: "bb_cfg \<Rightarrow> expr list \<Rightarrow> expr list \<Rightarrow> expr list" where
  "mk_sdiv C a_bits b_bits =
    (let sz = length a_bits; a_msb = a_bits ! (sz - 1); b_msb = b_bits ! (sz - 1) in
     if m_is_false a_msb \<and> m_is_false b_msb then mk_udiv C a_bits b_bits
     else if m_is_false a_msb \<and> m_is_true b_msb then
       (let neg_b_bits = mk_neg C b_bits; tmp = mk_udiv C a_bits neg_b_bits in mk_neg C tmp)
     else if m_is_true a_msb \<and> m_is_false b_msb then
       (let neg_a_bits = mk_neg C a_bits; tmp = mk_udiv C neg_a_bits b_bits in mk_neg C tmp)
     else if m_is_true a_msb \<and> m_is_true b_msb then
       (let neg_a_bits = mk_neg C a_bits; neg_b_bits = mk_neg C b_bits in mk_udiv C neg_a_bits neg_b_bits)
     else
       (let abs_a_bits = mk_abs C a_bits;
            abs_b_bits = mk_abs C b_bits;
            udiv_bits = mk_udiv C abs_a_bits abs_b_bits;
            neg_udiv_bits = mk_neg C udiv_bits;
            c = c_iff C a_msb b_msb
        in mk_multiplexer C c udiv_bits neg_udiv_bits))"

text \<open>\<open>rational::is_power_of_two(shift)\<close> on a natural number: the exponent.\<close>

function is_power_of_two :: "nat \<Rightarrow> nat option" where
  "is_power_of_two n =
    (if n = 0 then None
     else if n = 1 then Some 0
     else if n mod 2 = 1 then None
     else (case is_power_of_two (n div 2) of None \<Rightarrow> None | Some shift \<Rightarrow> Some (shift + 1)))"
  by pat_completeness auto
termination by (relation "measure id") auto

declare is_power_of_two.simps [simp del]

definition mk_srem :: "bb_cfg \<Rightarrow> expr list \<Rightarrow> expr list \<Rightarrow> expr list" where
  "mk_srem C a_bits b_bits =
    (let sz = length a_bits; a_msb = a_bits ! (sz - 1); b_msb = b_bits ! (sz - 1) in
     if m_is_false a_msb \<and> m_is_false b_msb then mk_urem C a_bits b_bits
     else if m_is_false a_msb \<and> m_is_true b_msb then
       (let neg_b_bits = mk_neg C b_bits in mk_urem C a_bits neg_b_bits)
     else if m_is_true a_msb \<and> m_is_false b_msb then
       (let neg_a_bits = mk_neg C a_bits; tmp = mk_urem C neg_a_bits b_bits in mk_neg C tmp)
     else if m_is_true a_msb \<and> m_is_true b_msb then
       (let neg_a_bits = mk_neg C a_bits; neg_b_bits = mk_neg C b_bits;
            tmp = mk_urem C neg_a_bits neg_b_bits in mk_neg C tmp)
     else
       (let abs_a_bits = mk_abs C a_bits;
            abs_b_bits = mk_abs C b_bits;
            urem_bits =
              (case (case is_numeral abs_b_bits of None \<Rightarrow> None | Some n_b \<Rightarrow> is_power_of_two n_b) of
                 Some shift \<Rightarrow> mk_zero_extend (take shift abs_a_bits) (sz - shift)
               | None \<Rightarrow> mk_urem C abs_a_bits abs_b_bits);
            neg_urem_bits = mk_neg C urem_bits
        in mk_multiplexer C a_msb neg_urem_bits urem_bits))"

definition mk_smod :: "bb_cfg \<Rightarrow> expr list \<Rightarrow> expr list \<Rightarrow> expr list" where
  "mk_smod C a_bits b_bits =
    (let sz = length a_bits; a_msb = a_bits ! (sz - 1); b_msb = b_bits ! (sz - 1);
         abs_a_bits = mk_abs C a_bits;
         abs_b_bits = mk_abs C b_bits;
         u_bits = mk_urem C abs_a_bits abs_b_bits;
         neg_u_bits = mk_neg C u_bits;
         neg_u_add_b = mk_adder C neg_u_bits b_bits;
         u_add_b = mk_adder C u_bits b_bits;
         zero = num2bits 0 sz;
         u_eq_0 = bb_mk_eq C u_bits zero;
         pp_bits = u_bits; pn_bits = u_add_b; np_bits = neg_u_add_b; nn_bits = neg_u_bits;
         ite1 = mk_multiplexer C b_msb nn_bits np_bits;
         ite2 = mk_multiplexer C b_msb pn_bits pp_bits;
         body = mk_multiplexer C a_msb ite1 ite2
     in mk_multiplexer C u_eq_0 u_bits body)"

section \<open>The template with four dividers\<close>

text \<open>
  \<open>mk_sdiv_srem_smod<k>\<close>, whose calls are disabled (\<open>#if 0\<close>) in \<open>mk_sdiv\<close> and \<open>mk_srem\<close>. A
  divider whose sign case cannot occur is replaced by zeros.
\<close>

datatype sdiv_kind = SDIV | SREM | SMOD

definition mk_sdiv_srem_smod :: "bb_cfg \<Rightarrow> sdiv_kind \<Rightarrow> expr list \<Rightarrow> expr list \<Rightarrow> expr list" where
  "mk_sdiv_srem_smod C k a_bits b_bits =
    (let sz = length a_bits; a_msb = a_bits ! (sz - 1); b_msb = b_bits ! (sz - 1);
         neg_a_bits = mk_neg C a_bits;
         neg_b_bits = mk_neg C b_bits;
         zeros = replicate sz m_mk_false;
         (pp_q, pp_r) = (if \<not> m_is_true a_msb \<and> \<not> m_is_true b_msb
            then mk_udiv_urem C a_bits b_bits else (zeros, zeros));
         (np_q, np_r) = (if \<not> m_is_false a_msb \<and> \<not> m_is_true b_msb
            then mk_udiv_urem C neg_a_bits b_bits else (zeros, zeros));
         (pn_q, pn_r) = (if \<not> m_is_true a_msb \<and> \<not> m_is_false b_msb
            then mk_udiv_urem C a_bits neg_b_bits else (zeros, zeros));
         (nn_q, nn_r) = (if \<not> m_is_false a_msb \<and> \<not> m_is_false b_msb
            then mk_udiv_urem C neg_a_bits neg_b_bits else (zeros, zeros));
         multiplexers = (\<lambda>pp_out np_out pn_out nn_out.
            let ite1 = mk_multiplexer C b_msb nn_out np_out;
                ite2 = mk_multiplexer C b_msb pn_out pp_out
            in mk_multiplexer C a_msb ite1 ite2) in
     case k of
       SDIV \<Rightarrow> multiplexers pp_q
         (if \<not> m_is_false a_msb \<and> \<not> m_is_true b_msb then mk_neg C np_q else zeros)
         (if \<not> m_is_true a_msb \<and> \<not> m_is_false b_msb then mk_neg C pn_q else zeros)
         nn_q
     | SREM \<Rightarrow> multiplexers pp_r
         (if \<not> m_is_false a_msb \<and> \<not> m_is_true b_msb then mk_neg C np_r else zeros)
         pn_r
         (if \<not> m_is_false a_msb \<and> \<not> m_is_false b_msb then mk_neg C nn_r else zeros)
     | SMOD \<Rightarrow> multiplexers pp_r
         (if \<not> m_is_false a_msb \<and> \<not> m_is_true b_msb
          then (let (np_out, cout) = mk_subtracter C b_bits np_r in np_out) else zeros)
         (if \<not> m_is_true a_msb \<and> \<not> m_is_false b_msb then mk_adder C b_bits pn_r else zeros)
         (if \<not> m_is_false a_msb \<and> \<not> m_is_false b_msb then mk_neg C nn_r else zeros))"

section \<open>Overflow of products\<close>

text \<open>The loops carry the accumulated disjunctions \<open>ovf\<close> (\<open>a_acc\<close>) and \<open>v\<close>.\<close>

fun umul_ovf_loop :: "bb_cfg \<Rightarrow> expr list \<Rightarrow> expr list \<Rightarrow> nat list \<Rightarrow> expr \<Rightarrow> expr \<Rightarrow> expr" where
  "umul_ovf_loop C a_bits b_bits [] ovf v = v"
| "umul_ovf_loop C a_bits b_bits (i # is) ovf v =
    (let ovf' = c_or C ovf (a_bits ! (length a_bits - i));
         tmp = c_and C ovf' (b_bits ! i)
     in umul_ovf_loop C a_bits b_bits is ovf' (c_or C tmp v))"

definition mk_umul_no_overflow :: "bit_blaster_tpl \<Rightarrow> expr list \<Rightarrow> expr list \<Rightarrow> expr" where
  "mk_umul_no_overflow T a_bits b_bits =
    (let C = m_cfg T; sz = length a_bits;
         mult_cout = mk_multiplier T (a_bits @ [m_mk_false]) (b_bits @ [m_mk_false]);
         overflow1 = mult_cout ! sz;
         overflow2 = umul_ovf_loop C a_bits b_bits [1..<sz] m_mk_false m_mk_false;
         overflow = c_or C overflow1 overflow2
     in c_not C overflow)"

fun smul_ovf_loop :: "bb_cfg \<Rightarrow> expr list \<Rightarrow> expr list \<Rightarrow> nat list \<Rightarrow> expr \<Rightarrow> expr \<Rightarrow> expr" where
  "smul_ovf_loop C a_bits b_bits [] a_acc v = v"
| "smul_ovf_loop C a_bits b_bits (i # is) a_acc v =
    (let sz = length a_bits;
         b = c_xor C (b_bits ! (sz - 1)) (b_bits ! i);
         a = c_xor C (a_bits ! (sz - 1)) (a_bits ! (sz - 1 - i));
         a_acc' = c_or C a a_acc;
         tmp = c_and C a_acc' b
     in smul_ovf_loop C a_bits b_bits is a_acc' (c_or C tmp v))"

definition mk_smul_no_overflow_core :: "bit_blaster_tpl \<Rightarrow> expr list \<Rightarrow> expr list \<Rightarrow> bool \<Rightarrow> expr" where
  "mk_smul_no_overflow_core T a_bits b_bits is_overflow =
    (let C = m_cfg T; sz = length a_bits;
         mult_cout = mk_multiplier T (a_bits @ [a_bits ! (sz - 1)]) (b_bits @ [b_bits ! (sz - 1)]);
         overflow1 = c_xor C (mult_cout ! sz) (mult_cout ! (sz - 1));
         overflow2 = smul_ovf_loop C a_bits b_bits [1..<sz - 1] m_mk_false m_mk_false;
         overflow = c_or C overflow1 overflow2;
         sign = (if is_overflow then c_iff C (a_bits ! (sz - 1)) (b_bits ! (sz - 1))
                 else c_xor C (a_bits ! (sz - 1)) (b_bits ! (sz - 1)))
     in c_not C (c_and C sign overflow))"

definition mk_smul_no_overflow :: "bit_blaster_tpl \<Rightarrow> expr list \<Rightarrow> expr list \<Rightarrow> expr" where
  "mk_smul_no_overflow T a_bits b_bits = mk_smul_no_overflow_core T a_bits b_bits True"

definition mk_smul_no_underflow :: "bit_blaster_tpl \<Rightarrow> expr list \<Rightarrow> expr list \<Rightarrow> expr" where
  "mk_smul_no_underflow T a_bits b_bits = mk_smul_no_overflow_core T a_bits b_bits False"

end
