(* ===== verification/Bit_Blaster_Div_Sound.thy ===== *)
theory Bit_Blaster_Div_Sound
  imports Bit_Blaster_Div
begin

text \<open>
  Division and overflow: the stages of the divider against division with remainder on natural
  numbers, the signed operations against the standard's definitions by way of magnitudes, the
  unused template, and the overflow predicates against the exact product.
\<close>


section \<open>Unsigned division\<close>

lemma butlast_map2: "length xs = length ys \<Longrightarrow> map2 f (butlast xs) (butlast ys) = butlast (map2 f xs ys)"
  by (simp add: butlast_conv_take take_map take_zip)

lemma bval_butlast: "es \<noteq> [] \<Longrightarrow> bval I (butlast es) = bval I es mod 2 ^ (length es - 1)"
  by (simp add: butlast_conv_take bval_take)

text \<open>The arithmetic of a stage: the bit \<open>q\<close> of the quotient at weight \<open>2 ^ Suc m\<close>.\<close>

lemma div_stage:
  fixes X X' B q k :: nat
  assumes "X = X' + q * B * k" "0 < B"
  shows "X div B = X' div B + q * k" "X mod B = X' mod B"
proof -
  have "X = X' + B * (q * k)" using assms(1) by (simp add: mult.commute mult.left_commute)
  then show "X div B = X' div B + q * k" "X mod B = X' mod B" using assms(2) by simp_all
qed

context gates
begin

lemma subtract_select:
  assumes "length p = sz" "length bs = sz" "list_all bexp p" "list_all bexp bs"
  defines "t \<equiv> fst (mk_subtracter C p bs)" and "q \<equiv> snd (mk_subtracter C p bs)"
  shows "bexp q" "tv I q \<longleftrightarrow> bval I bs \<le> bval I p" "length t = sz"
    "length (map2 (c_ite C q) t p) = sz" "list_all bexp (map2 (c_ite C q) t p)"
    "bval I (map2 (c_ite C q) t p) = bval I p - of_bool (tv I q) * bval I bs"
proof -
  note S = mk_subtracter [of p bs, folded t_def q_def]
  have l: "length p = length bs" using assms(1,2) by simp
  show q: "bexp q" "tv I q \<longleftrightarrow> bval I bs \<le> bval I p" "length t = sz" using S [OF l assms(3,4)] assms(1) by simp_all
  have t: "length t = length p" "list_all bexp t" using S [OF l assms(3,4)] by simp_all
  note M = mk_multiplexer [OF q(1) t(1) t(2) assms(3), unfolded mk_multiplexer_def]
  show "length (map2 (c_ite C q) t p) = sz" "list_all bexp (map2 (c_ite C q) t p)"
    using M(1,2) t(1) assms(1) by simp_all
  have "bval I t = bval I p - bval I bs" if nb: "tv I q"
  proof -
    have "bval I p - bval I bs < 2 ^ sz" using bval_less [of I p] assms(1) by (simp add: less_imp_diff_less)
    moreover have "bval I p + 2 ^ sz - bval I bs = (bval I p - bval I bs) + 2 ^ sz" using nb q(2) by simp
    ultimately show ?thesis using S(5) [OF l assms(3,4)] unfolding assms(1) by (simp only: mod_add_self2 mod_less)
  qed
  then show "bval I (map2 (c_ite C q) t p) = bval I p - of_bool (tv I q) * bval I bs"
    using M(3) by simp
qed

lemma udiv_loop:
  assumes "length p = sz" "length bs = sz" "list_all bexp p" "list_all bexp bs" "list_all bexp as" "length as < sz"
    and "bval I p < 2 ^ (sz - length as)" "0 < bval I bs \<Longrightarrow> bval I p < 2 * bval I bs"
  defines "X \<equiv> bval I p * 2 ^ length as + bval I (rev as)"
  shows "length (fst (udiv_loop C bs p as)) = Suc (length as) \<and> length (snd (udiv_loop C bs p as)) = sz \<and>
    list_all bexp (fst (udiv_loop C bs p as)) \<and> list_all bexp (snd (udiv_loop C bs p as)) \<and>
    bval I (fst (udiv_loop C bs p as)) = (if bval I bs = 0 then 2 ^ Suc (length as) - 1 else X div bval I bs) \<and>
    bval I (snd (udiv_loop C bs p as)) = X mod bval I bs"
  using assms(1,3,5-8) unfolding X_def
proof (induction as arbitrary: p)
  case Nil
  note S = subtract_select [OF Nil(1) assms(2) Nil(2) assms(4)]
  have e: "fst (udiv_loop C bs p []) = [snd (mk_subtracter C p bs)]"
    "snd (udiv_loop C bs p []) = map2 (c_ite C (snd (mk_subtracter C p bs))) (fst (mk_subtracter C p bs)) p"
    by (simp_all add: case_prod_beta)
  have "of_bool (b \<le> p') = p' div b" "p' - of_bool (b \<le> p') * b = p' mod b" if "0 < b" "p' < 2 * b" for b p' :: nat
  proof -
    have "p' = p' - b + b * 1" if "b \<le> p'" using that by simp
    then have "p' div b = 1 \<and> p' mod b = p' - b" if "b \<le> p'"
      using that \<open>0 < b\<close> \<open>p' < 2 * b\<close> by (metis Suc_1 add.commute div_less div_mult_self2 less_diff_conv2 mod_less mod_mult_self2
          mult_2 nat_less_le One_nat_def add_0)
    then show "of_bool (b \<le> p') = p' div b" "p' - of_bool (b \<le> p') * b = p' mod b"
      using \<open>0 < b\<close> by (cases "b \<le> p'"; simp)+
  qed
  then show ?case using S Nil unfolding e by (cases "bval I bs = 0") simp_all
next
  case (Cons a as)
  define t where "t = fst (mk_subtracter C p bs)"
  define q where "q = snd (mk_subtracter C p bs)"
  define r where "r = map2 (c_ite C q) t p"
  define p' where "p' = a # butlast r"
  have S: "bexp q" "tv I q \<longleftrightarrow> bval I bs \<le> bval I p" "length t = sz" "length r = sz" "list_all bexp r"
    "bval I r = bval I p - of_bool (tv I q) * bval I bs"
    unfolding r_def q_def t_def by (rule subtract_select [OF Cons.prems(1) assms(2) Cons.prems(2) assms(4)])+
  let ?P = "bval I p" and ?B = "bval I bs" and ?R = "bval I r" and ?m = "length as"
  have tp: "length t = length p" using S(3) Cons.prems(1) by simp
  have e: "fst (udiv_loop C bs p (a # as)) = fst (udiv_loop C bs p' as) @ [q]"
    "snd (udiv_loop C bs p (a # as)) = snd (udiv_loop C bs p' as)"
    by (simp_all add: case_prod_beta Let_def p'_def r_def t_def [symmetric] q_def [symmetric] butlast_map2 [OF tp])
  have "length r = sz" by (rule S(4))
  then have r: "r \<noteq> []" "length r = sz" using Cons.prems(4) by auto
  have "(2::nat) ^ (sz - length (a # as)) \<le> 2 ^ (sz - 1)" by (rule power_increasing) simp_all
  then have small: "?R < 2 ^ (sz - 1)" using S(6) Cons.prems(5) by (simp add: less_imp_diff_less order.strict_trans2)
  have p': "length p' = sz" "list_all bexp p'"
    using r S(5) Cons.prems(3) by (auto simp: p'_def list_all_iff dest: in_set_butlastD)
  have vp': "bval I p' = of_bool (tv I a) + 2 * ?R"
    using small by (simp add: p'_def bval_butlast [OF r(1)] r(2))
  have "Suc (sz - Suc ?m) = sz - ?m" using Cons.prems(4) by simp
  then have pw: "(2::nat) ^ (sz - ?m) = 2 * 2 ^ (sz - length (a # as))" by (metis length_Cons power_Suc)
  have "?R < 2 ^ (sz - length (a # as))" using S(6) Cons.prems(5) by (simp add: less_imp_diff_less)
  then have fit: "bval I p' < 2 ^ (sz - ?m)" unfolding vp' pw by (cases "tv I a") simp_all
  have rB: "?R < ?B" if "0 < ?B" using S(2,6) Cons.prems(6) that by (cases "tv I q") auto
  then have p'B: "bval I p' < 2 * ?B" if "0 < ?B" unfolding vp' using rB [OF that] by (cases "tv I a") simp_all
  note IH = Cons.IH [OF p' _ _ fit p'B]
  let ?X' = "bval I p' * 2 ^ ?m + bval I (rev as)" and ?X = "?P * 2 ^ length (a # as) + bval I (rev (a # as))"
  have P: "?P = ?R + of_bool (tv I q) * ?B" using S(2,6) by (cases "tv I q") auto
  have X: "?X = ?X' + of_bool (tv I q) * ?B * 2 ^ Suc ?m"
    unfolding P vp' by (simp add: bval_append algebra_simps)
  have len: "?m < sz" "list_all bexp as" using Cons.prems by simp_all
  show ?case
  proof (cases "?B = 0")
    case True
    then have "tv I q" using S(2) by simp
    moreover have "?X = ?X'" using X True by simp
    moreover have "(2::nat) ^ Suc ?m - 1 + 2 ^ Suc ?m = 2 ^ Suc (length (a # as)) - 1" by simp
    ultimately show ?thesis using IH len True S(1) unfolding e by (simp add: bval_append)
  next
    case False
    then show ?thesis using IH len S(1) div_stage [OF X] unfolding e by (simp add: bval_append)
  qed
qed

lemma mk_udiv_urem:
  assumes "length as = length bs" "list_all bexp as" "list_all bexp bs" "as \<noteq> []"
  shows "length (mk_udiv C as bs) = length as" "list_all bexp (mk_udiv C as bs)"
    "bval I (mk_udiv C as bs) = udiv (length as) (bval I as) (bval I bs)"
    "length (mk_urem C as bs) = length as" "list_all bexp (mk_urem C as bs)"
    "bval I (mk_urem C as bs) = bval I as mod bval I bs"
proof -
  obtain as' a where as: "as = as' @ [a]" using assms(4) by (cases as rule: rev_cases) auto
  define p where "p = a # replicate (length as') m_mk_false"
  have e: "mk_udiv C as bs = fst (udiv_loop C bs p (rev as'))" "mk_urem C as bs = snd (udiv_loop C bs p (rev as'))"
    by (simp_all add: mk_udiv_def mk_urem_def mk_udiv_urem_def as p_def case_prod_beta Let_def)
  have p: "length p = length as" "list_all bexp p" "bval I p = of_bool (tv I a)"
    using assms(2) by (simp_all add: p_def as list_all_iff)
  have "bval I p < 2 ^ (length as - length (rev as'))" "0 < bval I bs \<Longrightarrow> bval I p < 2 * bval I bs"
    by (simp_all add: p(3) as)
  moreover have "list_all bexp (rev as')" "length (rev as') < length as"
    using assms(2) by (simp_all add: as)
  ultimately have L: "length (fst (udiv_loop C bs p (rev as'))) = Suc (length (rev as')) \<and> length (snd (udiv_loop C bs p (rev as'))) = length as \<and>
    list_all bexp (fst (udiv_loop C bs p (rev as'))) \<and> list_all bexp (snd (udiv_loop C bs p (rev as'))) \<and>
    bval I (fst (udiv_loop C bs p (rev as'))) = (if bval I bs = 0 then 2 ^ Suc (length (rev as')) - 1
      else (bval I p * 2 ^ length (rev as') + bval I (rev (rev as'))) div bval I bs) \<and>
    bval I (snd (udiv_loop C bs p (rev as'))) = (bval I p * 2 ^ length (rev as') + bval I (rev (rev as'))) mod bval I bs"
    by (intro udiv_loop [OF p(1) assms(1) [symmetric] p(2) assms(3)])
  have X: "bval I p * 2 ^ length (rev as') + bval I (rev (rev as')) = bval I as"
    using p(3) by (simp add: as bval_append mult.commute)
  show "length (mk_udiv C as bs) = length as" "list_all bexp (mk_udiv C as bs)"
    "bval I (mk_udiv C as bs) = udiv (length as) (bval I as) (bval I bs)"
    "length (mk_urem C as bs) = length as" "list_all bexp (mk_urem C as bs)"
    "bval I (mk_urem C as bs) = bval I as mod bval I bs"
    unfolding e using L unfolding X by (simp_all add: udiv_def as)
qed

end


section \<open>Signed operations through magnitudes\<close>

definition neg :: "nat \<Rightarrow> nat \<Rightarrow> nat" where
  "neg w n = (2 ^ w - n) mod 2 ^ w"

definition magnitude :: "nat \<Rightarrow> nat \<Rightarrow> nat" where
  "magnitude w n = (if 2 ^ (w - 1) \<le> n then 2 ^ w - n else n)"

lemma two_pow_half: "0 < w \<Longrightarrow> (2 :: 'a :: comm_semiring_1) ^ w = 2 * 2 ^ (w - 1)"
  by (cases w) simp_all

lemma magnitude_le: "n < 2 ^ w \<Longrightarrow> 0 < w \<Longrightarrow> magnitude w n \<le> 2 ^ (w - 1)"
  using two_pow_half [of w, where 'a = nat] unfolding magnitude_def by (simp only: split: if_split) linarith

lemma magnitude_less: "n < 2 ^ w \<Longrightarrow> 0 < w \<Longrightarrow> magnitude w n < 2 ^ w"
  using magnitude_le [of n w] power_strict_increasing [of "w - 1" w "2 :: nat"] by linarith

lemma to_signed_magnitude:
  "n < 2 ^ w \<Longrightarrow> to_signed w n = (if 2 ^ (w - 1) \<le> n then - int (magnitude w n) else int (magnitude w n))"
  by (simp add: to_signed_def magnitude_def of_nat_diff less_imp_le)

lemma neg_magnitude: "2 ^ (w - 1) \<le> n \<Longrightarrow> n < 2 ^ w \<Longrightarrow> neg w n = magnitude w n"
proof -
  assume n: "2 ^ (w - 1) \<le> n" "n < 2 ^ w"
  have "(0::nat) < 2 ^ (w - 1)" by simp
  then have "0 < n" using n(1) by (rule less_le_trans)
  then show ?thesis using n by (simp add: neg_def magnitude_def)
qed

lemma of_signed_neg:
  assumes "n \<le> 2 ^ w"
  shows "of_signed w (- int n) = neg w n"
proof -
  have "of_signed w (- int n) = of_signed w (int (2 ^ w - n))"
    using assms by (intro of_signed_cong) (simp add: of_nat_diff minus_mod_self1)
  then show ?thesis by (simp add: of_signed_of_nat neg_def)
qed

lemma sdiv_magnitude:
  assumes "a < 2 ^ w" "b < 2 ^ w" "0 < w"
  shows "sdiv w a b = (if (2 ^ (w - 1) \<le> a) = (2 ^ (w - 1) \<le> b) then udiv w (magnitude w a) (magnitude w b)
    else neg w (udiv w (magnitude w a) (magnitude w b)))"
proof -
  let ?x = "magnitude w a" and ?y = "magnitude w b"
  have h: "(1::nat) < 2 ^ w" using power_strict_increasing [of 0 w "2 :: nat"] assms(3) by simp
  show ?thesis
  proof (cases "?y = 0")
    case True
    then have b: "\<not> 2 ^ (w - 1) \<le> b" "to_signed w b = 0"
      using assms to_signed_magnitude [OF assms(2)] by (auto simp: magnitude_def)
    have "to_signed w a < 0 \<longleftrightarrow> 2 ^ (w - 1) \<le> a"
      using to_signed_magnitude [OF assms(1)] assms(1) by (auto simp: magnitude_def)
    moreover have "of_signed w 1 = 1" using assms(3) of_signed_of_nat [of w 1] by simp
    moreover have "of_signed w (- 1) = 2 ^ w - 1" using assms(3) h of_signed_neg [of 1 w] by (simp add: neg_def)
    moreover have "neg w (2 ^ w - 1) = 1" using assms(3) h by (simp add: neg_def)
    ultimately show ?thesis using b True by (simp add: sdiv_def udiv_def)
  next
    case False
    have lt: "?x div ?y < 2 ^ w" using magnitude_less [OF assms(1,3)] div_le_dividend le_less_trans by blast
    have q: "of_signed w (int (?x div ?y)) = ?x div ?y" "of_signed w (- int (?x div ?y)) = neg w (?x div ?y)"
      using lt of_signed_of_nat [of w "?x div ?y"] of_signed_neg [of "?x div ?y" w] by simp_all
    have z: "neg w 0 = 0" "of_signed w 0 = 0" by (simp_all add: neg_def of_signed_def)
    have nz: "to_signed w b \<noteq> 0" using to_signed_magnitude [OF assms(2)] False by simp
    have e: "sdiv w a b = of_signed w (sgn (to_signed w a) * sgn (to_signed w b) * (\<bar>to_signed w a\<bar> div \<bar>to_signed w b\<bar>))"
      using nz by (simp add: sdiv_def Let_def)
    have "sgn (to_signed w a) * sgn (to_signed w b) * (\<bar>to_signed w a\<bar> div \<bar>to_signed w b\<bar>) =
        (if (2 ^ (w - 1) \<le> a) = (2 ^ (w - 1) \<le> b) then int (?x div ?y) else - int (?x div ?y))"
      using False unfolding to_signed_magnitude [OF assms(1)] to_signed_magnitude [OF assms(2)]
      by (cases "?x = 0") (simp_all add: zdiv_int)
    then show ?thesis using False unfolding e by (simp add: q udiv_def)
  qed
qed

lemma srem_magnitude:
  assumes "a < 2 ^ w" "b < 2 ^ w" "0 < w"
  shows "srem w a b = (if 2 ^ (w - 1) \<le> a then neg w (magnitude w a mod magnitude w b)
    else magnitude w a mod magnitude w b)"
proof -
  let ?x = "magnitude w a" and ?y = "magnitude w b"
  have lt: "?x mod ?y < 2 ^ w" using magnitude_less [OF assms(1,3)] mod_less_eq_dividend le_less_trans by blast
  have q: "of_signed w (int (?x mod ?y)) = ?x mod ?y" "of_signed w (- int (?x mod ?y)) = neg w (?x mod ?y)"
    using lt of_signed_of_nat [of w "?x mod ?y"] of_signed_neg [of "?x mod ?y" w] by simp_all
  have "sgn (to_signed w a) * (\<bar>to_signed w a\<bar> mod \<bar>to_signed w b\<bar>) =
      (if 2 ^ (w - 1) \<le> a then - int (?x mod ?y) else int (?x mod ?y))"
    unfolding to_signed_magnitude [OF assms(1)] to_signed_magnitude [OF assms(2)]
    by (cases "?x = 0") (simp_all add: zmod_int)
  then show ?thesis by (simp add: srem_def Let_def q)
qed

text \<open>The four sign cases of \<open>mk_smod\<close>.\<close>

lemma smod_magnitude:
  assumes "a < 2 ^ w" "b < 2 ^ w" "0 < w"
  defines "u \<equiv> magnitude w a mod magnitude w b"
  shows "smod w a b = (if u = 0 then 0
    else if 2 ^ (w - 1) \<le> a then (if 2 ^ (w - 1) \<le> b then neg w u else (neg w u + b) mod 2 ^ w)
    else (if 2 ^ (w - 1) \<le> b then (u + b) mod 2 ^ w else u))"
proof -
  let ?x = "magnitude w a" and ?y = "magnitude w b"
  have lt: "u < 2 ^ w" unfolding u_def using magnitude_less [OF assms(1,3)] mod_less_eq_dividend le_less_trans by blast
  have u: "int ?x mod int ?y = int u" by (simp add: u_def zmod_int)
  have z: "of_signed w 0 = 0" by (simp add: of_signed_def)
  have add: "of_signed w (int b - int u) = (neg w u + b) mod 2 ^ w"
  proof -
    have "(int b - int u) mod 2 ^ w = int (neg w u + b) mod 2 ^ w"
      using lt by (simp add: neg_def zmod_int of_nat_diff less_imp_le mod_add_left_eq)
    then have "of_signed w (int b - int u) = of_signed w (int (neg w u + b))" by (rule of_signed_cong)
    then show ?thesis by (simp only: of_signed_of_nat)
  qed
  have pn: "of_signed w (int u - int ?y) = (u + b) mod 2 ^ w" if nb: "2 ^ (w - 1) \<le> b"
  proof -
    have "int u - int ?y = int (u + b) - 2 ^ w" using nb assms(2) by (simp add: magnitude_def of_nat_diff)
    then have "of_signed w (int u - int ?y) = of_signed w (int (u + b))"
      by (intro of_signed_cong) (simp only: minus_mod_self2)
    then show ?thesis by (simp only: of_signed_of_nat)
  qed
  have pp: "of_signed w (int u) = u" "of_signed w (- int u) = neg w u"
    using lt of_signed_of_nat [of w u] of_signed_neg [of u w] by simp_all
  have y: "\<not> 2 ^ (w - 1) \<le> b \<Longrightarrow> ?y = b" by (simp add: magnitude_def)
  have "0 < ?y \<Longrightarrow> u < ?y" unfolding u_def by (rule mod_less_divisor)
  then have ne: "0 < u \<Longrightarrow> ?y \<noteq> u" by (cases "?y = 0") auto
  show ?thesis
    unfolding smod_def to_signed_magnitude [OF assms(1)] to_signed_magnitude [OF assms(2)]
    using u z add pn pp y ne
    by (cases "2 ^ (w - 1) \<le> a"; cases "2 ^ (w - 1) \<le> b"; cases "u = 0")
      (simp_all add: zmod_zminus1_eq_if zmod_zminus2_eq_if)
qed


lemma msb_sign:
  assumes "as \<noteq> []"
  shows "tv I (as ! (length as - 1)) \<longleftrightarrow> 2 ^ (length as - 1) \<le> bval I as"
proof -
  have "bval I as < 2 * 2 ^ (length as - 1)"
    using bval_less [of I as] two_pow_half [of "length as", where 'a = nat] assms by simp
  then have "bval I as div 2 ^ (length as - 1) < 2" by (simp add: less_mult_imp_div_less)
  then have "odd (bval I as div 2 ^ (length as - 1)) \<longleftrightarrow> bval I as div 2 ^ (length as - 1) \<noteq> 0" by (auto simp: less_2_cases_iff)
  then show ?thesis using bval_nth [of "length as - 1" as I] assms by (simp add: div_eq_0_iff not_less)
qed

lemma is_power_of_two: "is_power_of_two n = Some k \<Longrightarrow> n = 2 ^ k"
proof (induction n arbitrary: k rule: is_power_of_two.induct)
  case (1 n)
  show ?case
  proof (cases "n = 0 \<or> n = 1 \<or> n mod 2 = 1")
    case True
    then show ?thesis using 1(2) by (subst (asm) is_power_of_two.simps) (auto split: if_splits)
  next
    case False
    then obtain k' where k': "is_power_of_two (n div 2) = Some k'" "k = k' + 1"
      using 1(2) by (subst (asm) is_power_of_two.simps) (auto split: option.splits)
    then have "n div 2 = 2 ^ k'" using 1(1) False by blast
    moreover have "n = 2 * (n div 2)" using False by presburger
    ultimately show ?thesis using k'(2) by simp
  qed
qed

context gates
begin

lemma bval_mk_neg: "list_all bexp as \<Longrightarrow> bval I (mk_neg C as) = neg (length as) (bval I as)"
  using mk_neg(3) by (simp add: neg_def)

lemma mk_abs:
  assumes "list_all bexp as" "as \<noteq> []"
  shows "length (mk_abs C as) = length as" "list_all bexp (mk_abs C as)"
    "bval I (mk_abs C as) = magnitude (length as) (bval I as)"
proof -
  let ?m = "as ! (length as - 1)"
  note N = mk_neg [OF assms(1)]
  have m: "bexp ?m" using assms by (simp add: list_all_length)
  note M = mk_multiplexer [OF m N(1) N(2) assms(1)]
  have n: "tv I ?m \<Longrightarrow> bval I (mk_neg C as) = magnitude (length as) (bval I as)"
    unfolding bval_mk_neg [OF assms(1)] by (rule neg_magnitude) (simp_all add: msb_sign [OF assms(2)] del: One_nat_def)
  have p: "\<not> tv I ?m \<Longrightarrow> bval I as = magnitude (length as) (bval I as)"
    by (simp add: msb_sign [OF assms(2)] magnitude_def del: One_nat_def)
  have e: "mk_abs C as = (if m_is_false ?m then as else if m_is_true ?m then mk_neg C as
      else mk_multiplexer C ?m (mk_neg C as) as)"
    by (simp add: mk_abs_def Let_def)
  consider "m_is_false ?m" | "m_is_true ?m" | "\<not> m_is_false ?m" "\<not> m_is_true ?m" by blast
  then have "length (mk_abs C as) = length as \<and> list_all bexp (mk_abs C as) \<and>
    bval I (mk_abs C as) = magnitude (length as) (bval I as)"
  proof cases
    case 1
    then have "mk_abs C as = as" "\<not> tv I ?m" unfolding e m_is_false_def by simp_all
    then show ?thesis using p assms(1) by (simp only: simp_thms)
  next
    case 2
    then have "mk_abs C as = mk_neg C as" "tv I ?m" unfolding e m_is_true_def m_is_false_def by simp_all
    then show ?thesis using n N by (simp only: simp_thms)
  next
    case 3
    then have "mk_abs C as = mk_multiplexer C ?m (mk_neg C as) as" unfolding e by simp
    then show ?thesis using n p N M by (cases "tv I ?m") (simp_all only: simp_thms if_True if_False)
  qed
  then show "length (mk_abs C as) = length as" "list_all bexp (mk_abs C as)"
    "bval I (mk_abs C as) = magnitude (length as) (bval I as)" by blast+
qed

text \<open>What the signed circuits use of their operands, and of the divider on operands of their width.\<close>

lemma signed_operands:
  assumes "length as = w" "length bs = w" "list_all bexp as" "list_all bexp bs" "0 < w"
  defines "a \<equiv> as ! (w - 1)" and "b \<equiv> bs ! (w - 1)"
  shows "as \<noteq> []" "bs \<noteq> []" "bval I as < 2 ^ w" "bval I bs < 2 ^ w" "bexp a" "bexp b"
    "tv I a \<longleftrightarrow> 2 ^ (w - 1) \<le> bval I as" "tv I b \<longleftrightarrow> 2 ^ (w - 1) \<le> bval I bs"
    "tv I a \<Longrightarrow> bval I (mk_neg C as) = magnitude w (bval I as)"
    "tv I b \<Longrightarrow> bval I (mk_neg C bs) = magnitude w (bval I bs)"
    "\<not> tv I a \<Longrightarrow> magnitude w (bval I as) = bval I as"
    "\<not> tv I b \<Longrightarrow> magnitude w (bval I bs) = bval I bs"
proof -
  show ne: "as \<noteq> []" "bs \<noteq> []" using assms(1,2,5) by auto
  show lt: "bval I as < 2 ^ w" "bval I bs < 2 ^ w" using bval_less [of I as] bval_less [of I bs] assms(1,2) by simp_all
  show "bexp a" "bexp b" using assms(1-5) by (simp_all add: a_def b_def list_all_length)
  show sa: "tv I a \<longleftrightarrow> 2 ^ (w - 1) \<le> bval I as" "tv I b \<longleftrightarrow> 2 ^ (w - 1) \<le> bval I bs"
    using msb_sign [OF ne(1)] msb_sign [OF ne(2)] assms(1,2) by (simp_all add: a_def b_def)
  show "tv I a \<Longrightarrow> bval I (mk_neg C as) = magnitude w (bval I as)"
    "tv I b \<Longrightarrow> bval I (mk_neg C bs) = magnitude w (bval I bs)"
    unfolding bval_mk_neg [OF assms(3)] bval_mk_neg [OF assms(4)] assms(1,2) sa
    using lt by (simp_all only: neg_magnitude)
  show "\<not> tv I a \<Longrightarrow> magnitude w (bval I as) = bval I as" "\<not> tv I b \<Longrightarrow> magnitude w (bval I bs) = bval I bs"
    unfolding sa by (simp_all add: magnitude_def)
qed

lemma divider:
  assumes "length xs = w" "length ys = w" "list_all bexp xs" "list_all bexp ys" "0 < w"
  shows "length (mk_udiv C xs ys) = w" "list_all bexp (mk_udiv C xs ys)"
    "bval I (mk_udiv C xs ys) = udiv w (bval I xs) (bval I ys)"
    "length (mk_neg C (mk_udiv C xs ys)) = w" "list_all bexp (mk_neg C (mk_udiv C xs ys))"
    "bval I (mk_neg C (mk_udiv C xs ys)) = neg w (udiv w (bval I xs) (bval I ys))"
    "length (mk_urem C xs ys) = w" "list_all bexp (mk_urem C xs ys)"
    "bval I (mk_urem C xs ys) = bval I xs mod bval I ys"
    "length (mk_neg C (mk_urem C xs ys)) = w" "list_all bexp (mk_neg C (mk_urem C xs ys))"
    "bval I (mk_neg C (mk_urem C xs ys)) = neg w (bval I xs mod bval I ys)"
proof -
  have ne: "length xs = length ys" "xs \<noteq> []" using assms(1,2,5) by auto
  note D = mk_udiv_urem [OF ne(1) assms(3,4) ne(2), unfolded assms(1)]
  show "length (mk_udiv C xs ys) = w" "list_all bexp (mk_udiv C xs ys)"
    "bval I (mk_udiv C xs ys) = udiv w (bval I xs) (bval I ys)"
    "length (mk_urem C xs ys) = w" "list_all bexp (mk_urem C xs ys)"
    "bval I (mk_urem C xs ys) = bval I xs mod bval I ys" by (rule D)+
  show "length (mk_neg C (mk_udiv C xs ys)) = w" "list_all bexp (mk_neg C (mk_udiv C xs ys))"
    "bval I (mk_neg C (mk_udiv C xs ys)) = neg w (udiv w (bval I xs) (bval I ys))"
    using mk_neg(1,2) [OF D(2)] bval_mk_neg [OF D(2)] D by simp_all
  show "length (mk_neg C (mk_urem C xs ys)) = w" "list_all bexp (mk_neg C (mk_urem C xs ys))"
    "bval I (mk_neg C (mk_urem C xs ys)) = neg w (bval I xs mod bval I ys)"
    using mk_neg(1,2) [OF D(5)] bval_mk_neg [OF D(5)] D by simp_all
qed

lemma neg_width: "list_all bexp xs \<Longrightarrow> length xs = w \<Longrightarrow> length (mk_neg C xs) = w \<and> list_all bexp (mk_neg C xs)"
  using mk_neg(1,2) by simp

lemma multiplexer_width:
  assumes "bexp c" "length ts = w" "length es = w" "list_all bexp ts" "list_all bexp es"
  shows "length (mk_multiplexer C c ts es) = w" "list_all bexp (mk_multiplexer C c ts es)"
    "bval I (mk_multiplexer C c ts es) = (if tv I c then bval I ts else bval I es)"
  using mk_multiplexer [OF assms(1) _ assms(4,5)] assms(2,3) by simp_all

lemma mk_sdiv:
  assumes "length as = w" "length bs = w" "list_all bexp as" "list_all bexp bs" "0 < w"
  shows "length (mk_sdiv C as bs) = w \<and> list_all bexp (mk_sdiv C as bs) \<and>
    bval I (mk_sdiv C as bs) = sdiv w (bval I as) (bval I bs)"
proof -
  let ?a = "as ! (w - 1)" and ?b = "bs ! (w - 1)" and ?na = "mk_neg C as" and ?nb = "mk_neg C bs"
  note F = signed_operands [OF assms]
  note S = sdiv_magnitude [OF F(3,4) assms(5), folded F(7,8)]
  note NA = neg_width [OF assms(3,1)] and NB = neg_width [OF assms(4,2)]
  note D = divider [OF _ _ _ _ assms(5)]
  note AB = mk_abs [OF assms(3) F(1), unfolded assms(1)] mk_abs [OF assms(4) F(2), unfolded assms(2)]
  note DA = D [OF AB(1) AB(4) AB(2) AB(5), unfolded AB]
  let ?c = "c_iff C ?a ?b" and ?u = "mk_udiv C (mk_abs C as) (mk_abs C bs)"
  have c: "bexp ?c" "tv I ?c = (tv I ?a = tv I ?b)" using F(5,6) by simp_all
  note M = multiplexer_width [OF c(1) DA(1,4,2,5), unfolded DA c(2)]
  have e: "mk_sdiv C as bs =
    (if m_is_false ?a \<and> m_is_false ?b then mk_udiv C as bs
     else if m_is_false ?a \<and> m_is_true ?b then mk_neg C (mk_udiv C as ?nb)
     else if m_is_true ?a \<and> m_is_false ?b then mk_neg C (mk_udiv C ?na bs)
     else if m_is_true ?a \<and> m_is_true ?b then mk_udiv C ?na ?nb
     else mk_multiplexer C ?c ?u (mk_neg C ?u))"
    by (simp add: mk_sdiv_def Let_def assms(1))
  consider (ff) "?a = m_mk_false" "?b = m_mk_false" | (ft) "?a = m_mk_false" "?b = m_mk_true"
    | (tf) "?a = m_mk_true" "?b = m_mk_false" | (tt) "?a = m_mk_true" "?b = m_mk_true"
    | (other) "mk_sdiv C as bs = mk_multiplexer C ?c ?u (mk_neg C ?u)"
    unfolding e m_is_true_def m_is_false_def by argo
  then show ?thesis
  proof cases
    case ff
    then have "mk_sdiv C as bs = mk_udiv C as bs" unfolding e by simp
    then show ?thesis using S D(1-3) [of as bs] F(11,12) assms(1-4) by (simp only: ff tv_mk simp_thms if_True if_False)
  next
    case ft
    then have "mk_sdiv C as bs = mk_neg C (mk_udiv C as ?nb)" unfolding e by simp
    then show ?thesis using S D(4-6) [of as ?nb] F(10,11) NB assms(1,3) by (simp only: ft tv_mk simp_thms if_True if_False)
  next
    case tf
    then have "mk_sdiv C as bs = mk_neg C (mk_udiv C ?na bs)" unfolding e by simp
    then show ?thesis using S D(4-6) [of ?na bs] F(9,12) NA assms(2,4) by (simp only: tf tv_mk simp_thms if_True if_False)
  next
    case tt
    then have "mk_sdiv C as bs = mk_udiv C ?na ?nb" unfolding e by simp
    then show ?thesis using S D(1-3) [of ?na ?nb] F(9,10) NA NB by (simp only: tt tv_mk simp_thms if_True if_False)
  next
    case other
    then show ?thesis using S M by (simp only: simp_thms)
  qed
qed

lemma mk_srem:
  assumes "length as = w" "length bs = w" "list_all bexp as" "list_all bexp bs" "0 < w"
  shows "length (mk_srem C as bs) = w \<and> list_all bexp (mk_srem C as bs) \<and>
    bval I (mk_srem C as bs) = srem w (bval I as) (bval I bs)"
proof -
  let ?a = "as ! (w - 1)" and ?b = "bs ! (w - 1)" and ?na = "mk_neg C as" and ?nb = "mk_neg C bs"
  note F = signed_operands [OF assms]
  note S = srem_magnitude [OF F(3,4) assms(5), folded F(7,8)]
  note NA = neg_width [OF assms(3,1)] and NB = neg_width [OF assms(4,2)]
  note D = divider [OF _ _ _ _ assms(5)]
  note AB = mk_abs [OF assms(3) F(1), unfolded assms(1)] mk_abs [OF assms(4) F(2), unfolded assms(2)]
  define u where "u = (case (case is_numeral (mk_abs C bs) of None \<Rightarrow> None | Some n_b \<Rightarrow> is_power_of_two n_b) of
      Some shift \<Rightarrow> mk_zero_extend (take shift (mk_abs C as)) (w - shift)
    | None \<Rightarrow> mk_urem C (mk_abs C as) (mk_abs C bs))"
  have u: "length u = w" "list_all bexp u" "bval I u = magnitude w (bval I as) mod magnitude w (bval I bs)"
  proof -
    have "length u = w \<and> list_all bexp u \<and> bval I u = magnitude w (bval I as) mod magnitude w (bval I bs)"
    proof (cases "case is_numeral (mk_abs C bs) of None \<Rightarrow> None | Some n_b \<Rightarrow> is_power_of_two n_b")
      case None
      then have "u = mk_urem C (mk_abs C as) (mk_abs C bs)" by (simp add: u_def)
      then show ?thesis using D(7-9) [OF AB(1,4,2,5), unfolded AB] by (simp only: simp_thms)
    next
      case (Some shift)
      then obtain n where n: "is_numeral (mk_abs C bs) = Some n" "n = 2 ^ shift"
        using is_power_of_two by (auto split: option.splits)
      then have B: "magnitude w (bval I bs) = 2 ^ shift" using is_numeral_Some [OF n(1), of I] AB(6) by simp
      then have "(2::nat) ^ shift < 2 ^ w" using magnitude_less [OF F(4) assms(5)] by simp
      then have shift: "shift < w" by simp
      have "list_all bexp (take shift (mk_abs C as))" using AB(2) by (auto simp: list_all_iff dest: in_set_takeD)
      moreover have "u = mk_zero_extend (take shift (mk_abs C as)) (w - shift)" using Some by (simp add: u_def)
      ultimately show ?thesis using shift by (simp add: mk_zero_extend AB(1,3) bval_take B)
    qed
    then show "length u = w" "list_all bexp u" "bval I u = magnitude w (bval I as) mod magnitude w (bval I bs)" by blast+
  qed
  note N = neg_width [OF u(2,1)]
  note M = multiplexer_width [OF F(5) conjunct1 [OF N] u(1) conjunct2 [OF N] u(2), unfolded bval_mk_neg [OF u(2)] u]
  have e: "mk_srem C as bs =
    (if m_is_false ?a \<and> m_is_false ?b then mk_urem C as bs
     else if m_is_false ?a \<and> m_is_true ?b then mk_urem C as ?nb
     else if m_is_true ?a \<and> m_is_false ?b then mk_neg C (mk_urem C ?na bs)
     else if m_is_true ?a \<and> m_is_true ?b then mk_neg C (mk_urem C ?na ?nb)
     else mk_multiplexer C ?a (mk_neg C u) u)"
    by (simp add: mk_srem_def Let_def assms(1) u_def)
  consider (ff) "?a = m_mk_false" "?b = m_mk_false" | (ft) "?a = m_mk_false" "?b = m_mk_true"
    | (tf) "?a = m_mk_true" "?b = m_mk_false" | (tt) "?a = m_mk_true" "?b = m_mk_true"
    | (other) "mk_srem C as bs = mk_multiplexer C ?a (mk_neg C u) u"
    unfolding e m_is_true_def m_is_false_def by argo
  then show ?thesis
  proof cases
    case ff
    then have "mk_srem C as bs = mk_urem C as bs" unfolding e by simp
    then show ?thesis using S D(7-9) [of as bs] F(11,12) assms(1-4) by (simp only: ff tv_mk simp_thms if_True if_False)
  next
    case ft
    then have "mk_srem C as bs = mk_urem C as ?nb" unfolding e by simp
    then show ?thesis using S D(7-9) [of as ?nb] F(10,11) NB assms(1,3) by (simp only: ft tv_mk simp_thms if_True if_False)
  next
    case tf
    then have "mk_srem C as bs = mk_neg C (mk_urem C ?na bs)" unfolding e by simp
    then show ?thesis using S D(10-12) [of ?na bs] F(9,12) NA assms(2,4) by (simp only: tf tv_mk simp_thms if_True if_False)
  next
    case tt
    then have "mk_srem C as bs = mk_neg C (mk_urem C ?na ?nb)" unfolding e by simp
    then show ?thesis using S D(10-12) [of ?na ?nb] F(9,10) NA NB by (simp only: tt tv_mk simp_thms if_True if_False)
  next
    case other
    then show ?thesis using S M by (simp only: simp_thms)
  qed
qed

lemma mk_smod:
  assumes "length as = w" "length bs = w" "list_all bexp as" "list_all bexp bs" "0 < w"
  shows "length (mk_smod C as bs) = w \<and> list_all bexp (mk_smod C as bs) \<and>
    bval I (mk_smod C as bs) = smod w (bval I as) (bval I bs)"
proof -
  let ?a = "as ! (w - 1)" and ?b = "bs ! (w - 1)"
  note F = signed_operands [OF assms]
  note S = smod_magnitude [OF F(3,4) assms(5), folded F(7,8)]
  note AB = mk_abs [OF assms(3) F(1), unfolded assms(1)] mk_abs [OF assms(4) F(2), unfolded assms(2)]
  define u where "u = mk_urem C (mk_abs C as) (mk_abs C bs)"
  let ?u = "magnitude w (bval I as) mod magnitude w (bval I bs)"
  note D = divider(7-12) [OF AB(1,4,2,5) assms(5), folded u_def, unfolded AB]
  define nn where "nn = mk_neg C u"
  define np where "np = mk_adder C nn bs"
  define pn where "pn = mk_adder C u bs"
  define z where "z = bb_mk_eq C u (num2bits 0 w)"
  note D = D [folded nn_def]
  have np: "length np = w" "list_all bexp np" "bval I np = (neg w ?u + bval I bs) mod 2 ^ w"
    using mk_adder [of nn bs] D assms(2,4) by (simp_all add: np_def)
  have pn: "length pn = w" "list_all bexp pn" "bval I pn = (?u + bval I bs) mod 2 ^ w"
    using mk_adder [of u bs] D assms(2,4) by (simp_all add: pn_def)
  have z: "bexp z" "tv I z \<longleftrightarrow> ?u = 0"
    using bb_mk_eq [of u "num2bits 0 w"] D by (simp_all add: z_def)
  note M1 = multiplexer_width [OF F(6) D(4) np(1) D(5) np(2), unfolded D np]
  note M2 = multiplexer_width [OF F(6) pn(1) D(1) pn(2) D(2), unfolded D pn]
  note M3 = multiplexer_width [OF F(5) M1(1) M2(1) M1(2) M2(2), unfolded M1 M2]
  note M4 = multiplexer_width [OF z(1) D(1) M3(1) D(2) M3(2), unfolded D M3 z(2)]
  have e: "mk_smod C as bs = mk_multiplexer C z u (mk_multiplexer C ?a (mk_multiplexer C ?b nn np) (mk_multiplexer C ?b pn u))"
    by (simp add: mk_smod_def Let_def assms(1) u_def nn_def np_def pn_def z_def)
  show ?thesis unfolding e S using M4 by (cases "?u = 0") (simp_all only: simp_thms if_True if_False)
qed

end


section \<open>The template with four dividers\<close>

context gates
begin

lemma four_dividers:
  assumes "length as = w" "length bs = w" "list_all bexp as" "list_all bexp bs" "0 < w"
    and pp: "length pp = w \<and> list_all bexp pp" "\<not> tv I (as ! (w - 1)) \<Longrightarrow> \<not> tv I (bs ! (w - 1)) \<Longrightarrow> bval I pp = vpp"
    and np: "length np = w \<and> list_all bexp np" "tv I (as ! (w - 1)) \<Longrightarrow> \<not> tv I (bs ! (w - 1)) \<Longrightarrow> bval I np = vnp"
    and pn: "length pn = w \<and> list_all bexp pn" "\<not> tv I (as ! (w - 1)) \<Longrightarrow> tv I (bs ! (w - 1)) \<Longrightarrow> bval I pn = vpn"
    and nn: "length nn = w \<and> list_all bexp nn" "tv I (as ! (w - 1)) \<Longrightarrow> tv I (bs ! (w - 1)) \<Longrightarrow> bval I nn = vnn"
  defines "out \<equiv> mk_multiplexer C (as ! (w - 1)) (mk_multiplexer C (bs ! (w - 1)) nn np) (mk_multiplexer C (bs ! (w - 1)) pn pp)"
  shows "length out = w \<and> list_all bexp out \<and> bval I out =
    (if tv I (as ! (w - 1)) then if tv I (bs ! (w - 1)) then vnn else vnp else if tv I (bs ! (w - 1)) then vpn else vpp)"
proof -
  let ?a = "as ! (w - 1)" and ?b = "bs ! (w - 1)"
  note F = signed_operands [OF assms(1-5)]
  note M1 = multiplexer_width [OF F(6), of nn w np] and M2 = multiplexer_width [OF F(6), of pn w pp]
  note M = multiplexer_width [OF F(5), of "mk_multiplexer C ?b nn np" w "mk_multiplexer C ?b pn pp"]
  show ?thesis
    using M M1 M2 pp np pn nn unfolding out_def by (cases "tv I ?a"; cases "tv I ?b") simp_all
qed

text \<open>A divider that is only built when its sign case is possible.\<close>

lemma guarded:
  assumes "length xs = w \<and> list_all bexp xs"
  shows "length (if P then xs else replicate w m_mk_false) = w \<and> list_all bexp (if P then xs else replicate w m_mk_false)"
  using assms by (simp add: list_all_length)

lemma guarded_val: "P \<Longrightarrow> bval I xs = v \<Longrightarrow> bval I (if P then xs else zs) = v"
  by simp

lemma mk_sdiv_srem_smod:
  assumes "length as = w" "length bs = w" "list_all bexp as" "list_all bexp bs" "0 < w"
  defines "A \<equiv> bval I as" and "B \<equiv> bval I bs"
  shows "length (mk_sdiv_srem_smod C k as bs) = w \<and> list_all bexp (mk_sdiv_srem_smod C k as bs) \<and>
    bval I (mk_sdiv_srem_smod C k as bs) =
      (case k of SDIV \<Rightarrow> sdiv w A B | SREM \<Rightarrow> srem w A B
       | SMOD \<Rightarrow> (if magnitude w A mod magnitude w B = 0 \<and> (2 ^ (w - 1) \<le> A) \<noteq> (2 ^ (w - 1) \<le> B) then B
          else smod w A B))"
proof -
  let ?a = "as ! (w - 1)" and ?b = "bs ! (w - 1)" and ?na = "mk_neg C as" and ?nb = "mk_neg C bs"
  let ?u = "magnitude w A mod magnitude w B" and ?q = "udiv w (magnitude w A) (magnitude w B)"
  let ?z = "replicate w m_mk_false"
  note F = signed_operands [OF assms(1-5), folded A_def B_def]
  note NA = neg_width [OF assms(3,1)] and NB = neg_width [OF assms(4,2)]
  have nl: "length ?na = w" "length ?nb = w" "list_all bexp ?na" "list_all bexp ?nb" using NA NB by simp_all
  note Dpp = divider [OF assms(1,2,3,4,5), folded A_def B_def]
  note Dnp = divider [OF nl(1) assms(2) nl(3) assms(4,5), folded B_def]
  note Dpn = divider [OF assms(1) nl(2) assms(3) nl(4) assms(5), folded A_def]
  note Dnn = divider [OF nl assms(5)]
  have msb: "tv I ?a \<Longrightarrow> \<not> m_is_false ?a" "\<not> tv I ?a \<Longrightarrow> \<not> m_is_true ?a" "tv I ?b \<Longrightarrow> \<not> m_is_false ?b" "\<not> tv I ?b \<Longrightarrow> \<not> m_is_true ?b"
    by (auto simp: m_is_true_def m_is_false_def)
  note M = four_dividers [OF assms(1-5)]
  have e: "fst (mk_udiv_urem C xs ys) = mk_udiv C xs ys" "snd (mk_udiv_urem C xs ys) = mk_urem C xs ys" for xs ys
    by (simp_all add: mk_udiv_def mk_urem_def case_prod_beta)
  have if_pair: "fst (if P then x else y) = (if P then fst x else fst y)" "snd (if P then x else y) = (if P then snd x else snd y)"
    for P and x y :: "expr list \<times> expr list" by simp_all
  have if_neg: "(if P then mk_neg C (if P then x else y) else z) = (if P then mk_neg C x else z)"
    "(if P then fst (mk_subtracter C bs (if P then x else y)) else z) = (if P then fst (mk_subtracter C bs x) else z)"
    "(if P then mk_adder C bs (if P then x else y) else z) = (if P then mk_adder C bs x else z)" for P x y z by simp_all
  show ?thesis
  proof (cases k)
    case SDIV
    have out: "mk_sdiv_srem_smod C k as bs = mk_multiplexer C ?a
      (mk_multiplexer C ?b (if \<not> m_is_false ?a \<and> \<not> m_is_false ?b then mk_udiv C ?na ?nb else ?z)
        (if \<not> m_is_false ?a \<and> \<not> m_is_true ?b then mk_neg C (mk_udiv C ?na bs) else ?z))
      (mk_multiplexer C ?b (if \<not> m_is_true ?a \<and> \<not> m_is_false ?b then mk_neg C (mk_udiv C as ?nb) else ?z)
        (if \<not> m_is_true ?a \<and> \<not> m_is_true ?b then mk_udiv C as bs else ?z))"
      unfolding mk_sdiv_srem_smod_def SDIV by (simp only: Let_def case_prod_beta sdiv_kind.case if_pair e fst_conv snd_conv if_neg assms(1))
    have "length (mk_sdiv_srem_smod C k as bs) = w \<and> list_all bexp (mk_sdiv_srem_smod C k as bs) \<and>
      bval I (mk_sdiv_srem_smod C k as bs) = (if tv I ?a then if tv I ?b then ?q else neg w ?q else if tv I ?b then neg w ?q else ?q)"
      unfolding out
      by (rule M; (rule guarded | rule guarded_val)?) (use Dpp Dnp Dpn Dnn F(9-12) msb in \<open>simp_all only: simp_thms\<close>)
    then show ?thesis using sdiv_magnitude [OF F(3,4) assms(5), folded F(7,8)] SDIV by (cases "tv I ?a"; cases "tv I ?b") simp_all
  next
    case SREM
    have out: "mk_sdiv_srem_smod C k as bs = mk_multiplexer C ?a
      (mk_multiplexer C ?b (if \<not> m_is_false ?a \<and> \<not> m_is_false ?b then mk_neg C (mk_urem C ?na ?nb) else ?z)
        (if \<not> m_is_false ?a \<and> \<not> m_is_true ?b then mk_neg C (mk_urem C ?na bs) else ?z))
      (mk_multiplexer C ?b (if \<not> m_is_true ?a \<and> \<not> m_is_false ?b then mk_urem C as ?nb else ?z)
        (if \<not> m_is_true ?a \<and> \<not> m_is_true ?b then mk_urem C as bs else ?z))"
      unfolding mk_sdiv_srem_smod_def SREM by (simp only: Let_def case_prod_beta sdiv_kind.case if_pair e fst_conv snd_conv if_neg assms(1))
    have "length (mk_sdiv_srem_smod C k as bs) = w \<and> list_all bexp (mk_sdiv_srem_smod C k as bs) \<and>
      bval I (mk_sdiv_srem_smod C k as bs) = (if tv I ?a then if tv I ?b then neg w ?u else neg w ?u else if tv I ?b then ?u else ?u)"
      unfolding out
      by (rule M; (rule guarded | rule guarded_val)?) (use Dpp Dnp Dpn Dnn F(9-12) msb in \<open>simp_all only: simp_thms\<close>)
    then show ?thesis using srem_magnitude [OF F(3,4) assms(5), folded F(7,8)] SREM by (cases "tv I ?a"; cases "tv I ?b") simp_all
  next
    case SMOD
    let ?s = "fst (mk_subtracter C bs (mk_urem C ?na bs))" and ?p = "mk_adder C bs (mk_urem C as ?nb)"
    have out: "mk_sdiv_srem_smod C k as bs = mk_multiplexer C ?a
      (mk_multiplexer C ?b (if \<not> m_is_false ?a \<and> \<not> m_is_false ?b then mk_neg C (mk_urem C ?na ?nb) else ?z)
        (if \<not> m_is_false ?a \<and> \<not> m_is_true ?b then ?s else ?z))
      (mk_multiplexer C ?b (if \<not> m_is_true ?a \<and> \<not> m_is_false ?b then ?p else ?z)
        (if \<not> m_is_true ?a \<and> \<not> m_is_true ?b then mk_urem C as bs else ?z))"
      unfolding mk_sdiv_srem_smod_def SMOD by (simp only: Let_def case_prod_beta sdiv_kind.case if_pair e fst_conv snd_conv if_neg assms(1))
    have s: "length ?s = w" "list_all bexp ?s" "tv I ?a \<Longrightarrow> \<not> tv I ?b \<Longrightarrow> bval I ?s = (B + 2 ^ w - ?u) mod 2 ^ w"
      using mk_subtracter [of bs "mk_urem C ?na bs"] Dnp(7-9) assms(2,4) F(9,12) by (simp_all add: B_def)
    have p: "length ?p = w" "list_all bexp ?p" "\<not> tv I ?a \<Longrightarrow> tv I ?b \<Longrightarrow> bval I ?p = (B + ?u) mod 2 ^ w"
      using mk_adder [of bs "mk_urem C as ?nb"] Dpn(7-9) assms(2,4) F(10,11) by (simp_all add: B_def)
    have R: "length (mk_sdiv_srem_smod C k as bs) = w \<and> list_all bexp (mk_sdiv_srem_smod C k as bs) \<and>
      bval I (mk_sdiv_srem_smod C k as bs) = (if tv I ?a then if tv I ?b then neg w ?u else (B + 2 ^ w - ?u) mod 2 ^ w
        else if tv I ?b then (B + ?u) mod 2 ^ w else ?u)"
      unfolding out
      by (rule M; (rule guarded | rule guarded_val)?) (use Dpp Dnn s p F(9-12) msb in \<open>simp_all only: simp_thms\<close>)
    have "?u < 2 ^ w" using magnitude_less [OF F(3) assms(5)] mod_less_eq_dividend le_less_trans by blast
    then have "(B + 2 ^ w - ?u) mod 2 ^ w = (neg w ?u + B) mod 2 ^ w"
      unfolding neg_def mod_add_left_eq by (simp add: less_imp_le_nat add.commute)
    moreover have "neg w 0 = 0" "B mod 2 ^ w = B" using F(4) by (simp_all add: neg_def)
    ultimately show ?thesis using R smod_magnitude [OF F(3,4) assms(5), folded F(7,8)] SMOD F(7,8)
      by (cases "tv I ?a"; cases "tv I ?b"; cases "?u = 0") (simp_all add: add.commute)
  qed
qed

end

section \<open>Overflow of products\<close>

text \<open>
  Two numbers below \<open>2 ^ s\<close>: either bits \<open>i\<close> and \<open>j\<close> with \<open>i + j \<ge> s\<close> are set and the product
  is at least \<open>2 ^ s\<close>, or the product is so small that it fits in one more bit.
\<close>

definition high_bits :: "nat \<Rightarrow> nat \<Rightarrow> nat \<Rightarrow> bool" where
  "high_bits s a b \<longleftrightarrow> (\<exists>i. 1 \<le> i \<and> i < s \<and> 2 ^ (s - i) \<le> a \<and> bit b i)"

lemma high_bits_ge:
  assumes "high_bits s a b"
  shows "2 ^ s \<le> a * b"
proof -
  obtain i where i: "1 \<le> i" "i < s" "2 ^ (s - i) \<le> a" "bit b i" using assms by (auto simp: high_bits_def)
  then have "2 ^ i \<le> b" by (metis bit_nat_iff bit_take_bit_iff linorder_not_less take_bit_nat_eq_self nle_le less_irrefl_nat)
  then have "2 ^ (s - i) * 2 ^ i \<le> a * b" using i(3) by (rule mult_le_mono [rotated])
  then show ?thesis using i(2) by (simp flip: power_add)
qed

lemma no_high_bits_le:
  assumes "\<not> high_bits s a b" "a < 2 ^ s" "b < 2 ^ s"
  shows "(a + 1) * (b + 1) \<le> 2 ^ (s + 1)"
proof (cases "b = 0")
  case True
  then show ?thesis using assms(2) by simp
next
  case False
  then obtain n where n: "2 ^ n \<le> b" "b < 2 ^ (n + 1)" using ex_power_ivl1 [of 2 b] by auto
  have "b div 2 ^ n < 2" using n(2) by (simp add: less_mult_imp_div_less)
  moreover have "1 \<le> b div 2 ^ n" using n(1) by (metis div_le_mono div_self power_not_zero zero_neq_numeral)
  ultimately have "b div 2 ^ n = 1" by simp
  then have bit: "bit b n" by (simp add: bit_iff_odd)
  have "(2::nat) ^ n < 2 ^ s" by (rule le_less_trans [OF n(1) assms(3)])
  then have ns: "n < s" by simp
  have "a + 1 \<le> 2 ^ (s - n)"
  proof (cases "n = 0")
    case True
    then show ?thesis using assms(2) by simp
  next
    case False
    then have "a < 2 ^ (s - n)" using assms(1) bit ns by (auto simp: high_bits_def not_le)
    then show ?thesis by simp
  qed
  then have "(a + 1) * (b + 1) \<le> 2 ^ (s - n) * 2 ^ (n + 1)" using n(2) by (intro mult_le_mono) simp_all
  also have "(2::nat) ^ (s - n) * 2 ^ (n + 1) = 2 ^ (s + 1)" using ns by (simp flip: power_add power_Suc)
  finally show ?thesis .
qed


lemma ge_power_step: "bit a j \<or> 2 ^ Suc j \<le> a \<longleftrightarrow> 2 ^ j \<le> (a :: nat)"
proof -
  have "2 ^ Suc j \<le> a \<longleftrightarrow> 2 \<le> a div 2 ^ j" "2 ^ j \<le> a \<longleftrightarrow> 1 \<le> a div 2 ^ j"
    by (simp_all add: less_eq_div_iff_mult_less_eq)
  moreover have "odd q \<or> 2 \<le> q \<longleftrightarrow> 1 \<le> q" for q :: nat by presburger
  ultimately show ?thesis by (simp only: bit_iff_odd)
qed

context gates
begin

lemma umul_ovf_loop:
  assumes "length as = s" "length bs = s" "list_all bexp as" "list_all bexp bs"
    and "1 \<le> k" "k \<le> s" "bexp ovf" "bexp v" "tv I ovf \<longleftrightarrow> 2 ^ Suc (s - k) \<le> bval I as"
  shows "bexp (umul_ovf_loop C as bs [k..<s] ovf v) \<and> (tv I (umul_ovf_loop C as bs [k..<s] ovf v) \<longleftrightarrow>
    tv I v \<or> (\<exists>i. k \<le> i \<and> i < s \<and> 2 ^ (s - i) \<le> bval I as \<and> bit (bval I bs) i))"
  using assms(5-9)
proof (induction "s - k" arbitrary: k ovf v)
  case 0
  then show ?case by auto
next
  case (Suc m)
  let ?ovf = "c_or C ovf (as ! (s - k))" and ?v = "c_or C (c_and C (c_or C ovf (as ! (s - k))) (bs ! k)) v"
  have k: "k < s" "s - Suc k = m" "Suc (s - Suc k) = s - k" using Suc.hyps(2) by simp_all
  have b: "bexp (as ! (s - k))" "bexp (bs ! k)" using assms(1-4) k Suc.prems(1) by (simp_all add: list_all_length)
  have bits: "tv I (as ! (s - k)) \<longleftrightarrow> bit (bval I as) (s - k)" "tv I (bs ! k) \<longleftrightarrow> bit (bval I bs) k"
    using k Suc.prems(1) assms(1,2) by (simp_all add: bit_bval)
  have ovf: "bexp ?ovf" "tv I ?ovf \<longleftrightarrow> 2 ^ (s - k) \<le> bval I as"
    using b(1) Suc.prems(3,5) bits(1) ge_power_step [of "bval I as" "s - k"] by auto
  have v: "bexp ?v" "tv I ?v \<longleftrightarrow> 2 ^ (s - k) \<le> bval I as \<and> bit (bval I bs) k \<or> tv I v"
    using ovf b(2) bits(2) Suc.prems(4) by simp_all
  have e: "umul_ovf_loop C as bs [k..<s] ovf v = umul_ovf_loop C as bs [Suc k..<s] ?ovf ?v"
    using k(1) assms(1) by (simp add: upt_conv_Cons Let_def)
  have "tv I ?ovf \<longleftrightarrow> 2 ^ Suc (s - Suc k) \<le> bval I as" unfolding k(3) by (rule ovf(2))
  note IH = Suc.hyps(1) [OF k(2) [symmetric] _ _ ovf(1) v(1) this]
  have split: "(\<exists>i. k \<le> i \<and> P i) \<longleftrightarrow> P k \<or> (\<exists>i. Suc k \<le> i \<and> P i)" for P
    by (metis Suc_leI le_eq_less_or_eq Suc_le_lessD)
  show ?case unfolding e using IH k(1) v(2) by (subst split) auto
qed

lemma mk_umul_no_overflow:
  assumes "m_cfg T = C" "length as = w" "length bs = w" "list_all bexp as" "list_all bexp bs" "0 < w"
  shows "bexp (mk_umul_no_overflow T as bs) \<and>
    (tv I (mk_umul_no_overflow T as bs) \<longleftrightarrow> bval I as * bval I bs < 2 ^ w)"
proof -
  let ?A = "bval I as" and ?B = "bval I bs"
  let ?m = "mk_multiplier T (as @ [m_mk_false]) (bs @ [m_mk_false])"
  have M: "length ?m = Suc w" "list_all bexp ?m" "bval I ?m = (?A * ?B) mod 2 ^ Suc w"
    using mk_multiplier [OF assms(1), of "as @ [m_mk_false]" "bs @ [m_mk_false]"] assms(2-5)
    by (simp_all add: bval_append)
  have lt: "?A < 2 ^ w" "?B < 2 ^ w" using bval_less [of I as] bval_less [of I bs] assms(2,3) by simp_all
  let ?o2 = "umul_ovf_loop C as bs [1..<w] m_mk_false m_mk_false"
  have o2: "bexp ?o2 \<and> (tv I ?o2 \<longleftrightarrow> high_bits w ?A ?B)"
    using umul_ovf_loop [OF assms(2-5), of 1 m_mk_false m_mk_false] assms(6) lt(1) by (simp add: high_bits_def)
  have o1: "bexp (?m ! w)" "tv I (?m ! w) \<longleftrightarrow> bit ((?A * ?B) mod 2 ^ Suc w) w"
    using M(1,2) bit_bval [of I ?m w] unfolding M(3) by (simp_all add: list_all_length)
  have e: "mk_umul_no_overflow T as bs = c_not C (c_or C (?m ! w) ?o2)"
    by (simp add: mk_umul_no_overflow_def Let_def assms(1,2))
  have "(bit ((?A * ?B) mod 2 ^ Suc w) w \<or> high_bits w ?A ?B) \<longleftrightarrow> 2 ^ w \<le> ?A * ?B"
  proof (cases "high_bits w ?A ?B")
    case True
    then show ?thesis using high_bits_ge by simp
  next
    case False
    then have "?A * ?B < 2 ^ Suc w" using no_high_bits_le [OF False lt] by simp
    moreover have "bit n w \<longleftrightarrow> 2 ^ w \<le> n" if "n < 2 ^ Suc w" for n :: nat
      using ge_power_step [of n w] that by auto
    ultimately show ?thesis using False by simp
  qed
  then show ?thesis using o1 o2 unfolding e by (auto simp: not_less)
qed

text \<open>The operand of the signed overflow test: the bits below the sign, inverted when it is set.\<close>

definition flip_sign :: "expr list \<Rightarrow> expr list" where
  "flip_sign es = map (c_xor C (last es)) (butlast es)"

lemma flip_sign:
  assumes "length as = Suc t" "list_all bexp as"
  shows "length (flip_sign as) = t" "list_all bexp (flip_sign as)"
    "to_signed (Suc t) (bval I as) =
      (if tv I (last as) then - int (bval I (flip_sign as)) - 1 else int (bval I (flip_sign as)))"
proof -
  obtain es e where as: "as = es @ [e]" using assms(1) by (cases as rule: rev_cases) auto
  have len: "length es = t" using assms(1) by (simp add: as)
  show "length (flip_sign as) = t" using len by (simp add: flip_sign_def as)
  show "list_all bexp (flip_sign as)" using assms(2) by (simp add: flip_sign_def as list_all_iff)
  have es: "list_all bexp es" "bexp e" using assms(2) by (simp_all add: as)
  have "tv I e \<Longrightarrow> bval I (map (c_xor C e) es) + bval I es + 1 = 2 ^ t"
    using es bval_compl [of es "map (c_xor C e) es" I] len by (simp add: list_all_length add.commute)
  then have n: "tv I e \<Longrightarrow> int (bval I (map (c_xor C e) es)) + int (bval I es) + 1 = 2 ^ t"
    by (metis of_nat_1 of_nat_add of_nat_numeral of_nat_power)
  have p: "\<not> tv I e \<Longrightarrow> bval I (map (c_xor C e) es) = bval I es"
    using es by (induction es) auto
  have "to_signed (Suc t) (bval I as) = int (bval I es) - of_bool (tv I e) * 2 ^ t"
    using to_signed_snoc [of es I e] len by (simp add: as)
  then show "to_signed (Suc t) (bval I as) =
      (if tv I (last as) then - int (bval I (flip_sign as)) - 1 else int (bval I (flip_sign as)))"
    using n p by (cases "tv I e") (simp_all add: flip_sign_def as)
qed

lemma smul_ovf_loop:
  assumes "length as = Suc t" "length bs = Suc t" "list_all bexp as" "list_all bexp bs"
    and "1 \<le> k" "k \<le> t" "bexp acc" "bexp v" "tv I acc \<longleftrightarrow> 2 ^ Suc (t - k) \<le> bval I (flip_sign as)"
  shows "bexp (smul_ovf_loop C as bs [k..<t] acc v) \<and> (tv I (smul_ovf_loop C as bs [k..<t] acc v) \<longleftrightarrow>
    tv I v \<or> (\<exists>i. k \<le> i \<and> i < t \<and> 2 ^ (t - i) \<le> bval I (flip_sign as) \<and> bit (bval I (flip_sign bs)) i))"
  using assms(5-9)
proof (induction "t - k" arbitrary: k acc v)
  case 0
  then show ?case by auto
next
  case (Suc m)
  let ?a = "c_xor C (as ! t) (as ! (t - k))" and ?b = "c_xor C (bs ! t) (bs ! k)"
  let ?acc = "c_or C ?a acc" and ?v = "c_or C (c_and C (c_or C ?a acc) ?b) v"
  note FA = flip_sign [OF assms(1,3)] and FB = flip_sign [OF assms(2,4)]
  have k: "k < t" "t - Suc k = m" "Suc (t - Suc k) = t - k" using Suc.hyps(2) by simp_all
  have ab: "?a = flip_sign as ! (t - k)" "?b = flip_sign bs ! k"
    using k Suc.prems(1) assms(1,2) by (simp_all add: flip_sign_def nth_butlast last_conv_nth_minus [symmetric])
      (metis diff_Suc_1 last_conv_nth length_0_conv nat.distinct(1))+
  have b: "bexp ?a" "bexp ?b" "tv I ?a \<longleftrightarrow> bit (bval I (flip_sign as)) (t - k)" "tv I ?b \<longleftrightarrow> bit (bval I (flip_sign bs)) k"
    unfolding ab using FA FB k Suc.prems(1) by (simp_all add: list_all_length bit_bval)
  have acc: "bexp ?acc" "tv I ?acc \<longleftrightarrow> 2 ^ (t - k) \<le> bval I (flip_sign as)"
    using b(1,3) Suc.prems(3,5) ge_power_step [of "bval I (flip_sign as)" "t - k"] by (simp_all only: gate_or)
  have v: "bexp ?v" "tv I ?v \<longleftrightarrow> 2 ^ (t - k) \<le> bval I (flip_sign as) \<and> bit (bval I (flip_sign bs)) k \<or> tv I v"
    using acc b(2,4) Suc.prems(4) by (simp_all only: gate_or gate_and)
  have e: "smul_ovf_loop C as bs [k..<t] acc v = smul_ovf_loop C as bs [Suc k..<t] ?acc ?v"
    using k(1) assms(1) by (simp add: upt_conv_Cons Let_def)
  have "tv I ?acc \<longleftrightarrow> 2 ^ Suc (t - Suc k) \<le> bval I (flip_sign as)" unfolding k(3) by (rule acc(2))
  note IH = Suc.hyps(1) [OF k(2) [symmetric] _ _ acc(1) v(1) this]
  have split: "(\<exists>i. k \<le> i \<and> P i) \<longleftrightarrow> P k \<or> (\<exists>i. Suc k \<le> i \<and> P i)" for P
    by (metis Suc_leI le_eq_less_or_eq Suc_le_lessD)
  show ?case unfolding e using IH k(1) v(2) by (subst split) auto
qed

end


text \<open>The two most significant bits of a product of width \<open>Suc (Suc t)\<close> differ when it leaves the smaller range.\<close>

lemma top_bits_differ:
  fixes z :: int
  assumes "- (2 * 2 ^ t) \<le> z" "z \<le> 2 * 2 ^ t"
  defines "P \<equiv> of_signed (Suc (Suc t)) z"
  shows "(bit P (Suc t) \<noteq> bit P t) \<longleftrightarrow> z < - (2 ^ t) \<or> 2 ^ t \<le> z"
proof -
  let ?h = "2 ^ t :: int"
  have h: "0 < ?h" by simp
  have P: "int P = z mod (4 * ?h)" by (simp add: P_def of_signed_def)
  have b1: "bit P (Suc t) \<longleftrightarrow> 2 * ?h \<le> int P"
  proof -
    have "P < 2 ^ Suc (Suc t)" unfolding P_def by (rule of_signed_less)
    then have "bit P (Suc t) \<longleftrightarrow> 2 ^ Suc t \<le> P" using ge_power_step [of P "Suc t"] by (simp add: not_le)
    also have "\<dots> \<longleftrightarrow> int (2 ^ Suc t) \<le> int P" by (simp only: of_nat_le_iff)
    finally show ?thesis by simp
  qed
  have b0: "bit P t \<longleftrightarrow> odd (int P div ?h)"
  proof -
    have "int P div ?h = int (P div 2 ^ t)" by (simp add: zdiv_int)
    then show ?thesis by (simp add: bit_iff_odd)
  qed
  have d: "int P div ?h = n" if "n * ?h \<le> int P" "int P < (n + 1) * ?h" for n
    using that by (intro int_div_pos_eq [of _ _ _ "int P - n * ?h"]) (simp_all add: algebra_simps)
  have big: "int P = z + 4 * ?h" if "z < 0"
  proof -
    have "z mod (4 * ?h) = z + 4 * ?h" using that assms(1) by (intro int_mod_pos_eq [of _ _ "-1"]) (simp_all add: algebra_simps)
    then show ?thesis using P by simp
  qed
  have small: "int P = z" if "0 \<le> z"
  proof -
    have "z < 4 * ?h" using assms(2) h by linarith
    then show ?thesis using that P by (simp add: mod_pos_pos_trivial)
  qed
  consider "z < - ?h" | "- ?h \<le> z" "z < 0" | "0 \<le> z" "z < ?h" | "?h \<le> z" "z < 2 * ?h" | "z = 2 * ?h"
    using assms(2) by linarith
  then show ?thesis
  proof cases
    case 1
    then have v: "int P = z + 4 * ?h" using big h by simp
    then have "int P div ?h = 2" using 1 assms(1) by (intro d) simp_all
    then have "\<not> bit P t" unfolding b0 by simp
    moreover have "bit P (Suc t)" unfolding b1 v using assms(1) by simp
    ultimately have "\<not> bit P t" "bit P (Suc t)" by blast+
    then show ?thesis using 1 by simp
  next
    case 2
    then have v: "int P = z + 4 * ?h" using big by simp
    then have "int P div ?h = 3" using 2 by (intro d) simp_all
    then have "bit P t" unfolding b0 by simp
    moreover have "bit P (Suc t)" unfolding b1 v using 2 h by simp
    ultimately show ?thesis using 2 h by simp
  next
    case 3
    then have "int P = z" using small by simp
    then show ?thesis using 3 d [of 0] b1 b0 h by simp
  next
    case 4
    then have "int P = z" using small h by simp
    then show ?thesis using 4 d [of 1] b1 b0 h by simp
  next
    case 5
    then have "int P = 2 * ?h" using small by simp
    then show ?thesis using 5 d [of 2] b1 b0 h by simp
  qed
qed

text \<open>The overflow test on numbers given by their sign and the flipped bits.\<close>

lemma signed_overflow:
  fixes a b :: nat and n m :: bool and t
  defines "x \<equiv> (if n then - int a - 1 else int a)" and "y \<equiv> (if m then - int b - 1 else int b)"
  assumes "a < 2 ^ t" "b < 2 ^ t"
  shows "high_bits t a b \<Longrightarrow> x * y < - (2 ^ t) \<or> 2 ^ t \<le> x * y"
    "\<not> high_bits t a b \<Longrightarrow> - (2 * 2 ^ t) \<le> x * y \<and> x * y \<le> 2 * 2 ^ t"
proof -
  have xy: "x * y = (if n then if m then (int a + 1) * (int b + 1) else - ((int a + 1) * int b)
      else if m then - (int a * (int b + 1)) else int a * int b)"
    by (simp add: x_def y_def algebra_simps)
  have le: "int a * int b \<le> int a * (int b + 1)" "int a * int b \<le> (int a + 1) * int b"
    "(int a + 1) * int b \<le> (int a + 1) * (int b + 1)" "int a * (int b + 1) \<le> (int a + 1) * (int b + 1)" "0 \<le> int a * int b"
    by (simp_all add: algebra_simps)
  show "x * y < - (2 ^ t) \<or> 2 ^ t \<le> x * y" if hb: "high_bits t a b"
  proof -
    have "(2::nat) ^ t \<le> a * b" by (rule high_bits_ge [OF hb])
    then have ab: "2 ^ t \<le> int a * int b" by (metis of_nat_le_iff of_nat_mult of_nat_numeral of_nat_power)
    moreover have "0 < a * b" using \<open>2 ^ t \<le> a * b\<close> by (rule less_le_trans [rotated]) simp
    then have "0 < int a" "0 < int b" by simp_all
    moreover have "(int a + 1) * int b = int a * int b + int b" "int a * (int b + 1) = int a * int b + int a"
      by (simp_all add: algebra_simps)
    ultimately show ?thesis using le unfolding xy by (simp split: if_split)
  qed
  show "- (2 * 2 ^ t) \<le> x * y \<and> x * y \<le> 2 * 2 ^ t" if hb: "\<not> high_bits t a b"
  proof -
    have "(a + 1) * (b + 1) \<le> 2 ^ (t + 1)" by (rule no_high_bits_le [OF hb assms(3,4)])
    then have "int ((a + 1) * (b + 1)) \<le> int (2 ^ (t + 1))" by (simp only: of_nat_le_iff)
    then have "(int a + 1) * (int b + 1) \<le> 2 * 2 ^ t" by (simp add: algebra_simps)
    then show ?thesis using le unfolding xy
      by (cases n; cases m) (simp_all only: if_True if_False, linarith+)
  qed
qed

context gates
begin

lemma mk_smul_no_overflow_core:
  assumes "m_cfg T = C" "length as = w" "length bs = w" "list_all bexp as" "list_all bexp bs" "0 < w"
  defines "z \<equiv> to_signed w (bval I as) * to_signed w (bval I bs)"
  shows "bexp (mk_smul_no_overflow_core T as bs is_ovf) \<and>
    (tv I (mk_smul_no_overflow_core T as bs is_ovf) \<longleftrightarrow> (if is_ovf then z < 2 ^ (w - 1) else - (2 ^ (w - 1)) \<le> z))"
proof -
  obtain t where w: "w = Suc t" using assms(6) by (cases w) auto
  let ?a = "as ! t" and ?b = "bs ! t"
  let ?m = "mk_multiplier T (as @ [?a]) (bs @ [?b])"
  let ?x = "to_signed w (bval I as)" and ?y = "to_signed w (bval I bs)"
  have ne: "as \<noteq> []" "bs \<noteq> []" using assms(2,3,6) by auto
  have last: "last as = ?a" "last bs = ?b" using assms(2,3) w ne by (simp_all add: last_conv_nth)
  have ab: "bexp ?a" "bexp ?b" using assms(2-5) w by (simp_all add: list_all_length)
  note FA = flip_sign [of as t, unfolded last] and FB = flip_sign [of bs t, unfolded last]
  have fa: "length (flip_sign as) = t" "list_all bexp (flip_sign as)"
      "?x = (if tv I ?a then - int (bval I (flip_sign as)) - 1 else int (bval I (flip_sign as)))"
    and fb: "length (flip_sign bs) = t" "list_all bexp (flip_sign bs)"
      "?y = (if tv I ?b then - int (bval I (flip_sign bs)) - 1 else int (bval I (flip_sign bs)))"
    using FA FB assms(2-5) w by simp_all
  let ?\<alpha> = "bval I (flip_sign as)" and ?\<beta> = "bval I (flip_sign bs)"
  have lt: "?\<alpha> < 2 ^ t" "?\<beta> < 2 ^ t" using bval_less [of I "flip_sign as"] bval_less [of I "flip_sign bs"] fa fb by simp_all
  have ext: "bval I (as @ [?a]) = of_signed (Suc w) ?x" "bval I (bs @ [?b]) = of_signed (Suc w) ?y"
    using mk_sign_extend(3) [OF ne(1), of I 1] mk_sign_extend(3) [OF ne(2), of I 1] assms(2,3) w
    by (simp_all add: mk_sign_extend_def)
  have M: "length ?m = Suc w" "list_all bexp ?m" "bval I ?m = (of_signed (Suc w) ?x * of_signed (Suc w) ?y) mod 2 ^ Suc w"
    using mk_multiplier [OF assms(1), of "as @ [?a]" "bs @ [?b]"] assms(2-5) ab ext by simp_all
  have "of_signed (Suc w) (int (of_signed (Suc w) ?x * of_signed (Suc w) ?y)) = of_signed (Suc w) z"
    by (rule of_signed_cong) (simp add: of_signed_def z_def mod_mult_eq)
  then have P: "bval I ?m = of_signed (Suc (Suc t)) z" using M(3) w by (simp only: of_signed_of_nat)
  let ?o1 = "c_xor C (?m ! w) (?m ! t)"
  have bits: "tv I (?m ! w) \<longleftrightarrow> bit (bval I ?m) (Suc t)" "tv I (?m ! t) \<longleftrightarrow> bit (bval I ?m) t" "bexp (?m ! w)" "bexp (?m ! t)"
    using M(1,2) w by (simp_all add: bit_bval list_all_length)
  have o1: "bexp ?o1" "tv I ?o1 \<longleftrightarrow> (bit (of_signed (Suc (Suc t)) z) (Suc t) \<noteq> bit (of_signed (Suc (Suc t)) z) t)"
    using bits unfolding P by simp_all
  let ?o2 = "smul_ovf_loop C as bs [1..<t] m_mk_false m_mk_false"
  have o2: "bexp ?o2 \<and> (tv I ?o2 \<longleftrightarrow> high_bits t ?\<alpha> ?\<beta>)"
  proof (cases "t = 0")
    case True
    then show ?thesis by (simp add: high_bits_def)
  next
    case False
    then show ?thesis
      using smul_ovf_loop [of as t bs 1 m_mk_false m_mk_false] assms(2-5) w lt(1) by (simp add: high_bits_def)
  qed
  have ovf: "bexp (c_or C ?o1 ?o2)" "tv I (c_or C ?o1 ?o2) \<longleftrightarrow> z < - (2 ^ t) \<or> 2 ^ t \<le> z"
  proof -
    show "bexp (c_or C ?o1 ?o2)" using o1(1) o2 by simp
    have z: "z = (if tv I ?a then - int ?\<alpha> - 1 else int ?\<alpha>) * (if tv I ?b then - int ?\<beta> - 1 else int ?\<beta>)"
      unfolding z_def fa(3) fb(3) ..
    note S = signed_overflow [OF lt, of "tv I ?a" "tv I ?b", folded z]
    show "tv I (c_or C ?o1 ?o2) \<longleftrightarrow> z < - (2 ^ t) \<or> 2 ^ t \<le> z"
      using o1 o2 S top_bits_differ [of t z] by (cases "high_bits t ?\<alpha> ?\<beta>") simp_all
  qed
  have sign: "tv I ?a = tv I ?b \<Longrightarrow> 0 \<le> z" "tv I ?a \<noteq> tv I ?b \<Longrightarrow> z \<le> 0"
  proof -
    have "?x < 0 \<longleftrightarrow> tv I ?a" "?y < 0 \<longleftrightarrow> tv I ?b" using fa(3) fb(3) by simp_all
    then show "tv I ?a = tv I ?b \<Longrightarrow> 0 \<le> z" "tv I ?a \<noteq> tv I ?b \<Longrightarrow> z \<le> 0"
      unfolding z_def by (auto simp: zero_le_mult_iff mult_le_0_iff not_less)
  qed
  have e: "mk_smul_no_overflow_core T as bs is_ovf =
    c_not C (c_and C (if is_ovf then c_iff C ?a ?b else c_xor C ?a ?b) (c_or C ?o1 ?o2))"
    using w by (simp add: mk_smul_no_overflow_core_def Let_def assms(1,2))
  have arith: "\<not> ((if v then s else \<not> s) \<and> (z < - h \<or> h \<le> z)) \<longleftrightarrow> (if v then z < h else - h \<le> z)"
    if "0 < h" "s \<Longrightarrow> 0 \<le> z" "\<not> s \<Longrightarrow> z \<le> 0" for s v h
    using that by (cases v; cases s) auto
  have "bexp (if is_ovf then c_iff C ?a ?b else c_xor C ?a ?b)"
    "tv I (if is_ovf then c_iff C ?a ?b else c_xor C ?a ?b) \<longleftrightarrow> (if is_ovf then tv I ?a = tv I ?b else tv I ?a \<noteq> tv I ?b)"
    using ab by simp_all
  then have "bexp (mk_smul_no_overflow_core T as bs is_ovf)"
    "tv I (mk_smul_no_overflow_core T as bs is_ovf) \<longleftrightarrow>
      \<not> ((if is_ovf then tv I ?a = tv I ?b else \<not> (tv I ?a = tv I ?b)) \<and> (z < - (2 ^ t) \<or> 2 ^ t \<le> z))"
    unfolding e using ovf by (simp_all only: gate_not gate_and simp_thms)
  moreover have "(0::int) < 2 ^ t" "w - 1 = t" using w by simp_all
  ultimately show ?thesis using arith [of "2 ^ t" "tv I ?a = tv I ?b" is_ovf] sign by (simp only: simp_thms)
qed

end

end
