(* ===== verification/Bit_Blaster_Shift.thy ===== *)
theory Bit_Blaster_Shift
  imports Bit_Blaster_Div_Sound
begin

text \<open>
  Shifts and rotations by a term (\<open>bit_blaster_tpl_def.h\<close>): a numeral amount copies bits, any
  other goes through stages that shift by \<open>1, 2, 4, \<dots>\<close> under the bits of the amount. The amount
  \<open>1 << i\<close> of a stage is a natural number; it stays below \<open>2 ^ 32\<close> for widths up to \<open>2 ^ 31\<close>.
\<close>

section \<open>Shifts\<close>

text \<open>
  The first loop, from position \<open>i\<close>: a stage while \<open>2 ^ i < sz\<close>. \<open>stage s out\<close> is the row of
  \<open>out\<close> moved by \<open>s\<close>. It returns the row and the position where it broke off.
\<close>

function shift_loop ::
    "bb_cfg \<Rightarrow> (nat \<Rightarrow> expr list \<Rightarrow> expr list) \<Rightarrow> expr list \<Rightarrow> nat \<Rightarrow> expr list \<Rightarrow> expr list \<times> nat" where
  "shift_loop C stage b_bits i out_bits =
    (let sz = length b_bits; shift_i = 2 ^ i in
     if i < sz \<and> shift_i < sz then
       shift_loop C stage b_bits (i + 1) (map2 (c_ite C (b_bits ! i)) (stage shift_i out_bits) out_bits)
     else (out_bits, i))"
  by pat_completeness auto
termination
  by (relation "measure (\<lambda>(C, stage, b_bits, i, out). length b_bits - i)") auto

declare shift_loop.simps [simp del]

text \<open>The second loop: some bit of the amount from position \<open>i\<close> on is set.\<close>

definition mk_is_large :: "bb_cfg \<Rightarrow> expr list \<Rightarrow> nat \<Rightarrow> expr" where
  "mk_is_large C b_bits i = foldl (c_or C) m_mk_false (drop i b_bits)"

definition shift_circuit ::
    "bb_cfg \<Rightarrow> (nat \<Rightarrow> expr list \<Rightarrow> expr list) \<Rightarrow> expr \<Rightarrow> expr list \<Rightarrow> expr list \<Rightarrow> expr list" where
  "shift_circuit C stage fill a_bits b_bits =
    (let (out_bits, i) = shift_loop C stage b_bits 0 a_bits;
         is_large = mk_is_large C b_bits i
     in map (\<lambda>out. c_ite C is_large fill out) out_bits)"

definition shl_stage :: "nat \<Rightarrow> expr list \<Rightarrow> expr list" where
  "shl_stage shift_i out_bits =
    map (\<lambda>j. if shift_i \<le> j then out_bits ! (j - shift_i) else m_mk_false) [0..<length out_bits]"

definition shr_stage :: "expr \<Rightarrow> nat \<Rightarrow> expr list \<Rightarrow> expr list" where
  "shr_stage fill shift_i out_bits =
    map (\<lambda>j. if shift_i + j < length out_bits then out_bits ! (j + shift_i) else fill) [0..<length out_bits]"

definition mk_shl :: "bb_cfg \<Rightarrow> expr list \<Rightarrow> expr list \<Rightarrow> expr list" where
  "mk_shl C a_bits b_bits =
    (let sz = length a_bits in
     case is_numeral b_bits of
       Some k \<Rightarrow>
         (let n = (if k > sz then sz else k)
          in replicate n m_mk_false @ map (\<lambda>i. a_bits ! i) [0..<sz - n])
     | None \<Rightarrow> shift_circuit C shl_stage m_mk_false a_bits b_bits)"

definition mk_lshr :: "bb_cfg \<Rightarrow> expr list \<Rightarrow> expr list \<Rightarrow> expr list" where
  "mk_lshr C a_bits b_bits =
    (let sz = length a_bits in
     case is_numeral b_bits of
       Some k \<Rightarrow>
         (let n = (if k > sz then sz else k)
          in map (\<lambda>i. a_bits ! i) [n..<sz] @ replicate n m_mk_false)
     | None \<Rightarrow> shift_circuit C (shr_stage m_mk_false) m_mk_false a_bits b_bits)"

definition mk_ashr :: "bb_cfg \<Rightarrow> expr list \<Rightarrow> expr list \<Rightarrow> expr list" where
  "mk_ashr C a_bits b_bits =
    (let sz = length a_bits; a_msb = a_bits ! (sz - 1) in
     case is_numeral b_bits of
       Some k \<Rightarrow>
         (let n = (if k > sz then sz else k)
          in map (\<lambda>i. a_bits ! i) [n..<sz] @ replicate n a_msb)
     | None \<Rightarrow> shift_circuit C (shr_stage a_msb) a_msb a_bits b_bits)"

section \<open>Rotations\<close>

definition mk_ext_rotate_left_right :: "bb_cfg \<Rightarrow> bool \<Rightarrow> expr list \<Rightarrow> expr list \<Rightarrow> expr list" where
  "mk_ext_rotate_left_right C is_left a_bits b_bits =
    (let sz = length a_bits in
     case (case is_numeral b_bits of Some k \<Rightarrow> (if k < 2 ^ 32 then Some k else None) | None \<Rightarrow> None) of
       Some k \<Rightarrow> (if is_left then mk_rotate_left a_bits k else mk_rotate_right a_bits k)
     | None \<Rightarrow>
         (let sz_bits = num2bits sz sz;
              masked_b_bits = mk_urem C b_bits sz_bits;
              eqs = mk_eqs C masked_b_bits
          in map (\<lambda>i. foldl (\<lambda>out j. c_ite C (eqs ! j) (a_bits ! ((if is_left then sz + i - j else i + j) mod sz)) out)
                        (a_bits ! i) [1..<sz])
               [0..<sz]))"

definition mk_ext_rotate_left :: "bb_cfg \<Rightarrow> expr list \<Rightarrow> expr list \<Rightarrow> expr list" where
  "mk_ext_rotate_left C a_bits b_bits = mk_ext_rotate_left_right C True a_bits b_bits"

definition mk_ext_rotate_right :: "bb_cfg \<Rightarrow> expr list \<Rightarrow> expr list \<Rightarrow> expr list" where
  "mk_ext_rotate_right C a_bits b_bits = mk_ext_rotate_left_right C False a_bits b_bits"

end
