(* ===== verification/Bit_Blaster_Shift_Sound.thy ===== *)
theory Bit_Blaster_Shift_Sound
  imports Bit_Blaster_Shift
begin

text \<open>
  The shifts against multiplication and division by powers of two, the arithmetic shift against
  division on signed numbers, and the rotations by a term against the rotations by a number.
\<close>


section \<open>Shifts\<close>

text \<open>The meaning of the arithmetic shift to the right.\<close>

definition ash :: "nat \<Rightarrow> nat \<Rightarrow> nat \<Rightarrow> nat" where
  "ash w k v = of_signed w (to_signed w v div 2 ^ k)"

lemma to_signed_of_signed:
  assumes "0 < w" "- (2 ^ (w - 1)) \<le> z" "z < 2 ^ (w - 1)"
  shows "to_signed w (of_signed w z) = z"
proof -
  have p: "(2::int) ^ w = 2 * 2 ^ (w - 1)" by (rule two_pow_half [OF assms(1)])
  have c: "2 ^ (w - 1) \<le> of_signed w z \<longleftrightarrow> 2 ^ (w - 1) \<le> int (of_signed w z)"
    by (metis of_nat_le_iff of_nat_numeral of_nat_power)
  show ?thesis
  proof (cases "0 \<le> z")
    case True
    then have "z mod 2 ^ w = z" using assms(3) p by simp
    then have "int (of_signed w z) = z" using True by (simp add: of_signed_def)
    then show ?thesis using assms(3) c by (simp add: to_signed_def)
  next
    case False
    then have "z mod 2 ^ w = z + 2 ^ w" using assms(2) p by (intro int_mod_pos_eq [of _ _ "-1"]) simp_all
    moreover have "0 \<le> z + 2 ^ w" 
    proof -
      have "(0::int) \<le> 2 ^ (w - 1)" by simp
      then show ?thesis using assms(2) unfolding p by linarith
    qed
    ultimately have "int (of_signed w z) = z + 2 ^ w" by (simp add: of_signed_def)
    then show ?thesis using assms(2) c p by (simp add: to_signed_def)
  qed
qed

lemma signed_div_bounds:
  assumes "v < 2 ^ w" "0 < w"
  shows "- (2 ^ (w - 1)) \<le> to_signed w v div 2 ^ k" "to_signed w v div 2 ^ k < 2 ^ (w - 1)"
proof -
  note B = to_signed_bounds [OF assms]
  have h: "0 \<le> (2::int) ^ (w - 1)" "1 \<le> (2::int) ^ k" by simp_all
  have "- (2 ^ (w - 1)) * 2 ^ k \<le> - (2 ^ (w - 1)) * (1 :: int)" using h by (intro mult_left_mono_neg) simp_all
  then have "- (2 ^ (w - 1)) * 2 ^ k \<le> to_signed w v" using B by linarith
  then have "- (2 ^ (w - 1)) * 2 ^ k div 2 ^ k \<le> to_signed w v div 2 ^ k" by (rule zdiv_mono1) simp
  moreover have "- (2 ^ (w - 1)) * 2 ^ k div 2 ^ k = (- (2 ^ (w - 1)) :: int)"
    by (rule nonzero_mult_div_cancel_right) simp
  ultimately show "- (2 ^ (w - 1)) \<le> to_signed w v div 2 ^ k" by (simp only:)
  show "to_signed w v div 2 ^ k < 2 ^ (w - 1)"
  proof (cases "0 \<le> to_signed w v")
    case True
    then have "to_signed w v div 2 ^ k \<le> to_signed w v" using zdiv_mono2 [OF True _ h(2)] by simp
    then show ?thesis using B by simp
  next
    case False
    then have "to_signed w v div 2 ^ k < 0" by (simp add: pos_imp_zdiv_neg_iff)
    then show ?thesis using h(1) by linarith
  qed
qed

lemma ash_0: "v < 2 ^ w \<Longrightarrow> ash w 0 v = v"
  by (simp add: ash_def of_signed_to_signed)

lemma ash_ash: "v < 2 ^ w \<Longrightarrow> 0 < w \<Longrightarrow> ash w k (ash w n v) = ash w (n + k) v"
  unfolding ash_def
  by (subst to_signed_of_signed) (simp_all add: signed_div_bounds [unfolded One_nat_def] power_add zdiv_zmult2_eq)

lemma ash_large:
  assumes "v < 2 ^ w" "0 < w" "w \<le> k"
  shows "ash w k v = of_signed w (if to_signed w v < 0 then - 1 else 0)"
proof -
  have "to_signed w v div 2 ^ k = (if to_signed w v < 0 then - 1 else 0)"
  proof -
    note B = to_signed_bounds [OF assms(1,2)]
    have "(2::int) ^ (w - 1) \<le> 2 ^ k" using assms(3) by (intro power_increasing) simp_all
    then have b: "- (2 ^ k) \<le> to_signed w v" "to_signed w v < 2 ^ k" using B by linarith+
    show ?thesis
    proof (cases "to_signed w v < 0")
      case True
      then have "to_signed w v div 2 ^ k = - 1" using b by (intro int_div_pos_eq [of _ _ _ "to_signed w v + 2 ^ k"]) simp_all
      then show ?thesis using True by simp
    next
      case False
      then show ?thesis using b by simp
    qed
  qed
  then show ?thesis by (simp add: ash_def)
qed

text \<open>Dropping low bits and repeating the sign.\<close>

lemma ash_bits:
  assumes "as \<noteq> []" "k \<le> length as" "tv I e = tv I (last as)"
  shows "bval I (drop k as @ replicate k e) = ash (length as) k (bval I as)"
proof -
  let ?w = "length as"
  obtain es l where as: "as = es @ [l]" using assms(1) by (cases as rule: rev_cases) auto
  have v: "to_signed ?w (bval I as) = int (bval I es) - of_bool (tv I l) * 2 ^ length es"
    using to_signed_snoc [of es I l] by (simp add: as)
  have rep: "bval I (drop k as @ replicate k e) = bval I (drop k as @ replicate k (last as))"
    using assms(3) by (simp add: bval_append bval_replicate)
  show ?thesis
  proof (cases "k < ?w")
    case True
    then have d: "drop k as = drop k es @ [l]" "drop k as \<noteq> []" by (simp_all add: as)
    have "drop k as @ replicate k (last as) = mk_sign_extend (drop k as) k"
      using d(2) by (simp add: mk_sign_extend_def last_conv_nth_minus [OF d(2), simplified] True)
    then have "bval I (drop k as @ replicate k (last as)) = of_signed ?w (to_signed (?w - k) (bval I (drop k as)))"
      using mk_sign_extend(3) [OF d(2), of I k] True by simp
    moreover have "to_signed (?w - k) (bval I (drop k as)) = to_signed ?w (bval I as) div 2 ^ k"
    proof -
      have len: "length (drop k es) = length es - k" "?w - k = length (drop k es) + 1" using True by (simp_all add: as)
      have "to_signed (?w - k) (bval I (drop k as)) = int (bval I es div 2 ^ k) - of_bool (tv I l) * 2 ^ (length es - k)"
        using to_signed_snoc [of "drop k es" I l] by (simp only: d(1) len bval_drop)
      also have "\<dots> = to_signed ?w (bval I as) div 2 ^ k"
      proof -
        have p: "(2::int) ^ length es = 2 ^ (length es - k) * 2 ^ k" using True by (simp add: as flip: power_add)
        have "to_signed ?w (bval I as) div 2 ^ k = (int (bval I es) + - (of_bool (tv I l) * 2 ^ (length es - k)) * 2 ^ k) div 2 ^ k"
          unfolding v p by (simp add: mult.assoc)
        also have "\<dots> = - (of_bool (tv I l) * 2 ^ (length es - k)) + int (bval I es) div 2 ^ k"
          by (rule div_mult_self1) simp
        finally show ?thesis by (simp add: zdiv_int)
      qed
      finally show ?thesis .
    qed
    ultimately show ?thesis unfolding rep ash_def by simp
  next
    case False
    then have k: "k = ?w" using assms(2) by simp
    have "int (bval I es) < 2 ^ length es" using bval_less [of I es] by (metis of_nat_less_iff of_nat_numeral of_nat_power)
    then have s: "to_signed ?w (bval I as) < 0 \<longleftrightarrow> tv I l" unfolding v by simp
    have "bval I (drop k as @ replicate k (last as)) = (if tv I (last as) then 2 ^ ?w - 1 else 0)"
      unfolding k by (simp only: drop_all order.refl append_Nil bval_replicate)
    then have "bval I (drop k as @ replicate k e) = (if tv I l then 2 ^ ?w - 1 else 0)"
      unfolding rep by (simp only: as last_snoc)
    moreover have "of_signed ?w (- 1) = 2 ^ ?w - 1"
      using of_signed_neg [of 1 ?w] by (simp add: as neg_def)
    moreover have "of_signed ?w 0 = 0" by (simp add: of_signed_def)
    ultimately show ?thesis
      using ash_large [of "bval I as" ?w k] k s assms(1) by simp
  qed
qed

lemma shr_stage_bits: "k \<le> length out \<Longrightarrow> shr_stage fill k out = drop k out @ replicate k fill"
  by (intro nth_equalityI) (auto simp: shr_stage_def nth_append add.commute)

lemma shl_stage_bits: "k \<le> length out \<Longrightarrow> shl_stage k out = replicate k m_mk_false @ take (length out - k) out"
  by (intro nth_equalityI) (auto simp: shl_stage_def nth_append)

lemma bval_shl: "k \<le> length as \<Longrightarrow> bval I (replicate k m_mk_false @ take (length as - k) as) = (bval I as * 2 ^ k) mod 2 ^ length as"
proof -
  assume k: "k \<le> length as"
  have "(bval I as * 2 ^ k) mod (2 ^ (length as - k) * 2 ^ k) = (bval I as mod 2 ^ (length as - k)) * 2 ^ k"
    by (rule mult_mod_left [symmetric])
  also have "(2::nat) ^ (length as - k) * 2 ^ k = 2 ^ length as" using k by (simp flip: power_add)
  finally show ?thesis by (simp only: bval_append bval_take bval_replicate_false length_replicate mult.commute [of "2 ^ k"] add_0)
qed


context gates
begin

text \<open>
  The shift loop for any stage: \<open>sh k v\<close> is the value shifted by \<open>k\<close>, and shifting adds up.
\<close>

lemma shift_loop:
  assumes "length bs = w" "list_all bexp bs" "length out = w" "list_all bexp out" "i \<le> w"
    and stage: "\<And>out k n. length out = w \<Longrightarrow> list_all bexp out \<Longrightarrow> bval I out = sh n A \<Longrightarrow> k < w \<Longrightarrow>
      length (stage k out) = w \<and> list_all bexp (stage k out) \<and> bval I (stage k out) = sh (n + k) A"
    and "bval I out = sh (bval I bs mod 2 ^ i) A"
  defines "R \<equiv> shift_loop C stage bs i out"
  shows "length (fst R) = w \<and> list_all bexp (fst R) \<and> snd R \<le> w \<and> w \<le> 2 ^ snd R \<and>
    bval I (fst R) = sh (bval I bs mod 2 ^ snd R) A"
  using assms(3-5,7) unfolding R_def
proof (induction "w - i" arbitrary: i out rule: less_induct)
  case less
  let ?B = "bval I bs"
  show ?case
  proof (cases "i < w \<and> 2 ^ i < w")
    case True
    define next_out where "next_out = map2 (c_ite C (bs ! i)) (stage (2 ^ i) out) out"
    have e: "shift_loop C stage bs i out = shift_loop C stage bs (i + 1) next_out"
      using True assms(1) by (subst shift_loop.simps) (simp add: Let_def next_out_def)
    have b: "bexp (bs ! i)" "tv I (bs ! i) \<longleftrightarrow> bit ?B i"
      using True assms(1,2) by (simp_all add: list_all_length bit_bval)
    have S: "length (stage (2 ^ i) out) = w" "list_all bexp (stage (2 ^ i) out)"
        "bval I (stage (2 ^ i) out) = sh (?B mod 2 ^ i + 2 ^ i) A"
      using stage [OF less.prems(1,2,4)] True by simp_all
    note M = multiplexer_width [OF b(1) S(1) less.prems(1) S(2) less.prems(2), unfolded mk_multiplexer_def, folded next_out_def]
    have "?B mod 2 ^ (i + 1) = ?B mod 2 ^ i + of_bool (bit ?B i) * 2 ^ i"
      using take_bit_Suc_from_most [of i ?B]
      by (simp only: take_bit_eq_mod Suc_eq_plus1 add.commute [of "?B mod 2 ^ i"] mult.commute [of "of_bool (bit ?B i)"])
    then have "bval I next_out = sh (?B mod 2 ^ (i + 1)) A"
      using M(3) S(3) less.prems(4) b(2) by simp
    moreover have "w - (i + 1) < w - i" "i + 1 \<le> w" using True by linarith+
    ultimately show ?thesis unfolding e using less.hyps [of "i + 1" next_out] M(1,2) by blast
  next
    case False
    then have e: "shift_loop C stage bs i out = (out, i)"
      using assms(1) by (subst shift_loop.simps) (auto simp: Let_def)
    have "w \<le> 2 ^ i" using False less.prems(3) less_exp [of i] by linarith
    then show ?thesis unfolding e using less.prems by simp
  qed
qed

lemma mk_is_large:
  assumes "list_all bexp bs"
  shows "bexp (mk_is_large C bs i)" "tv I (mk_is_large C bs i) \<longleftrightarrow> 2 ^ i \<le> bval I bs"
proof -
  have f: "bexp (foldl (c_or C) e es) \<and> (tv I (foldl (c_or C) e es) \<longleftrightarrow> tv I e \<or> bval I es \<noteq> 0)"
    if "list_all bexp es" "bexp e" for e es
    using that by (induction es arbitrary: e) auto
  have "list_all bexp (drop i bs)" using assms by (auto simp: list_all_iff dest: in_set_dropD)
  note F = f [OF this, of m_mk_false]
  show "bexp (mk_is_large C bs i)" using F by (simp add: mk_is_large_def)
  have "bval I bs div 2 ^ i \<noteq> 0 \<longleftrightarrow> 2 ^ i \<le> bval I bs" by (simp add: div_eq_0_iff not_less)
  then show "tv I (mk_is_large C bs i) \<longleftrightarrow> 2 ^ i \<le> bval I bs"
    using F by (simp add: mk_is_large_def bval_drop)
qed

lemma shift_circuit:
  assumes "length as = w" "length bs = w" "list_all bexp as" "list_all bexp bs" "bexp fill"
    and stage: "\<And>out k n. length out = w \<Longrightarrow> list_all bexp out \<Longrightarrow> bval I out = sh n (bval I as) \<Longrightarrow> k < w \<Longrightarrow>
      length (stage k out) = w \<and> list_all bexp (stage k out) \<and> bval I (stage k out) = sh (n + k) (bval I as)"
    and "sh 0 (bval I as) = bval I as"
    and large: "\<And>k. w \<le> k \<Longrightarrow> sh k (bval I as) = (if tv I fill then 2 ^ w - 1 else 0)"
  shows "length (shift_circuit C stage fill as bs) = w \<and> list_all bexp (shift_circuit C stage fill as bs) \<and>
    bval I (shift_circuit C stage fill as bs) = sh (bval I bs) (bval I as)"
proof -
  let ?A = "bval I as" and ?B = "bval I bs"
  define R where "R = shift_loop C stage bs 0 as"
  have "length (fst R) = w \<and> list_all bexp (fst R) \<and> snd R \<le> w \<and> w \<le> 2 ^ snd R \<and> bval I (fst R) = sh (?B mod 2 ^ snd R) ?A"
    unfolding R_def by (rule shift_loop [OF assms(2,4,1,3), where sh = sh and A = ?A]) (use stage assms(7) in simp_all)
  then have L: "length (fst R) = w" "list_all bexp (fst R)" "snd R \<le> w" "w \<le> 2 ^ snd R" "bval I (fst R) = sh (?B mod 2 ^ snd R) ?A"
    by blast+
  let ?l = "mk_is_large C bs (snd R)"
  note K = mk_is_large [OF assms(4), of "snd R"]
  have e: "shift_circuit C stage fill as bs = map (c_ite C ?l fill) (fst R)"
    by (simp add: shift_circuit_def R_def case_prod_beta Let_def)
  have m: "list_all bexp (map (c_ite C ?l fill) es) \<and> bval I (map (c_ite C ?l fill) es) =
      (if tv I ?l then bval I (replicate (length es) fill) else bval I es)" if "list_all bexp es" for es
    using that K(1) assms(5) by (induction es) auto
  show ?thesis
  proof (cases "2 ^ snd R \<le> ?B")
    case True
    then have "sh ?B ?A = bval I (replicate w fill)" using L(4) large [of ?B] by (simp add: bval_replicate)
    then show ?thesis using m [OF L(2)] K(2) True L(1) unfolding e by simp
  next
    case False
    then show ?thesis using m [OF L(2)] K(2) L(1,5) unfolding e by simp
  qed
qed

lemma mk_shl:
  assumes "length as = w" "length bs = w" "list_all bexp as" "list_all bexp bs"
  shows "length (mk_shl C as bs) = w \<and> list_all bexp (mk_shl C as bs) \<and>
    bval I (mk_shl C as bs) = (if w \<le> bval I bs then 0 else (bval I as * 2 ^ bval I bs) mod 2 ^ w)"
proof -
  let ?A = "bval I as"
  have lt: "?A < 2 ^ w" using bval_less [of I as] assms(1) by simp
  have large: "(?A * 2 ^ k) mod 2 ^ w = 0" if "w \<le> k" for k
    using that by (metis dvd_imp_mod_0 dvd_mult le_imp_power_dvd)
  then have spec: "(if w \<le> k then 0 else (?A * 2 ^ k) mod 2 ^ w) = (?A * 2 ^ k) mod 2 ^ w" for k by simp
  show ?thesis
  proof (cases "is_numeral bs")
    case (Some k)
    then have k: "bval I bs = k" using is_numeral_Some by metis
    define n where "n = (if k > w then w else k)"
    have n: "n \<le> w" by (simp add: n_def)
    have "map ((!) as) [0..<w - n] = take (w - n) as"
      using assms(1) by (intro nth_equalityI) simp_all
    then have e: "mk_shl C as bs = replicate n m_mk_false @ take (w - n) as"
      using Some assms(1) by (simp add: mk_shl_def n_def Let_def)
    have "(?A * 2 ^ n) mod 2 ^ w = (?A * 2 ^ k) mod 2 ^ w"
      using large by (simp add: n_def)
    moreover have "list_all bexp (take (w - n) as)" using assms(3) by (auto simp: list_all_iff dest: in_set_takeD)
    ultimately show ?thesis
      unfolding spec e k using bval_shl [of n as I] n assms(1) by (auto simp: list_all_iff)
  next
    case None
    have e: "mk_shl C as bs = shift_circuit C shl_stage m_mk_false as bs"
      using None by (simp add: mk_shl_def Let_def)
    have "length (shift_circuit C shl_stage m_mk_false as bs) = w \<and> list_all bexp (shift_circuit C shl_stage m_mk_false as bs) \<and>
      bval I (shift_circuit C shl_stage m_mk_false as bs) = (?A * 2 ^ bval I bs) mod 2 ^ w"
    proof (rule shift_circuit [OF assms, where sh = "\<lambda>k v. (v * 2 ^ k) mod 2 ^ w"])
      fix out k n
      assume o: "length out = w" "list_all bexp out" "bval I out = (?A * 2 ^ n) mod 2 ^ w" "k < w"
      then have s: "shl_stage k out = replicate k m_mk_false @ take (w - k) out" by (simp add: shl_stage_bits)
      have "list_all bexp (take (w - k) out)" using o(2) by (auto simp: list_all_iff dest: in_set_takeD)
      moreover have "((?A * 2 ^ n) mod 2 ^ w * 2 ^ k) mod 2 ^ w = (?A * 2 ^ (n + k)) mod 2 ^ w"
        by (simp add: mod_mult_left_eq power_add mult.assoc)
      ultimately show "length (shl_stage k out) = w \<and> list_all bexp (shl_stage k out) \<and>
          bval I (shl_stage k out) = (?A * 2 ^ (n + k)) mod 2 ^ w"
        unfolding s using bval_shl [of k out I] o by (auto simp: list_all_iff)
    qed (use large lt in simp_all)
    then show ?thesis unfolding spec e .
  qed
qed

end


lemma to_signed_less_0: "n < 2 ^ w \<Longrightarrow> to_signed w n < 0 \<longleftrightarrow> 2 ^ (w - 1) \<le> n"
proof -
  assume "n < 2 ^ w"
  then have "int n < 2 ^ w" by (metis of_nat_less_iff of_nat_numeral of_nat_power)
  then show ?thesis by (simp add: to_signed_def)
qed

context gates
begin

text \<open>A shift to the right by a numeral drops bits and fills up.\<close>

lemma shr_numeral:
  assumes "length as = w" "list_all bexp as" "bexp fill" "n \<le> w"
  defines "out \<equiv> map ((!) as) [n..<w] @ replicate n fill"
  shows "out = drop n as @ replicate n fill" "length out = w \<and> list_all bexp out"
proof -
  have "map ((!) as) [n..<w] = drop n as" using assms(1) by (intro nth_equalityI) simp_all
  then show e: "out = drop n as @ replicate n fill" by (simp add: out_def)
  show "length out = w \<and> list_all bexp out" using assms(1-4) unfolding e by (auto simp: list_all_iff dest: in_set_dropD)
qed

lemma shr_stage:
  assumes "length out = w" "list_all bexp out" "bexp fill" "k < w"
  shows "length (shr_stage fill k out) = w \<and> list_all bexp (shr_stage fill k out)"
    "shr_stage fill k out = drop k out @ replicate k fill"
proof -
  show e: "shr_stage fill k out = drop k out @ replicate k fill" using assms by (simp add: shr_stage_bits)
  show "length (shr_stage fill k out) = w \<and> list_all bexp (shr_stage fill k out)"
    using assms unfolding e by (auto simp: list_all_iff dest: in_set_dropD)
qed

lemma mk_lshr:
  assumes "length as = w" "length bs = w" "list_all bexp as" "list_all bexp bs"
  shows "length (mk_lshr C as bs) = w \<and> list_all bexp (mk_lshr C as bs) \<and>
    bval I (mk_lshr C as bs) = (if w \<le> bval I bs then 0 else bval I as div 2 ^ bval I bs)"
proof -
  let ?A = "bval I as"
  have lt: "?A < 2 ^ w" using bval_less [of I as] assms(1) by simp
  have large: "?A div 2 ^ k = 0" if "w \<le> k" for k

  proof -
    have "(2::nat) ^ w \<le> 2 ^ k" using that by (rule power_increasing) simp
    then have "?A < 2 ^ k" by (rule less_le_trans [OF lt])
    then show ?thesis by (rule div_less)
  qed
  then have spec: "(if w \<le> k then 0 else ?A div 2 ^ k) = ?A div 2 ^ k" for k by simp
  have f: "bexp m_mk_false" by simp
  show ?thesis
  proof (cases "is_numeral bs")
    case (Some k)
    then have k: "bval I bs = k" using is_numeral_Some by metis
    define n where "n = (if k > w then w else k)"
    have e: "mk_lshr C as bs = map ((!) as) [n..<w] @ replicate n m_mk_false"
      using Some assms(1) by (simp add: mk_lshr_def n_def Let_def)
    have "n \<le> w" by (simp add: n_def)
    note S = shr_numeral [OF assms(1,3) f this]
    have "bval I (drop n as @ replicate n m_mk_false) = ?A div 2 ^ n" by (simp add: bval_append bval_drop)
    moreover have "?A div 2 ^ n = ?A div 2 ^ k" using large by (simp add: n_def)
    ultimately show ?thesis using S unfolding spec e k by (simp only: simp_thms)
  next
    case None
    have e: "mk_lshr C as bs = shift_circuit C (shr_stage m_mk_false) m_mk_false as bs"
      using None by (simp add: mk_lshr_def Let_def)
    have "length (shift_circuit C (shr_stage m_mk_false) m_mk_false as bs) = w \<and>
      list_all bexp (shift_circuit C (shr_stage m_mk_false) m_mk_false as bs) \<and>
      bval I (shift_circuit C (shr_stage m_mk_false) m_mk_false as bs) = ?A div 2 ^ bval I bs"
    proof (rule shift_circuit [OF assms f, where sh = "\<lambda>k v. v div 2 ^ k"])
      fix out k n
      assume o: "length out = w" "list_all bexp out" "bval I out = ?A div 2 ^ n" "k < w"
      show "length (shr_stage m_mk_false k out) = w \<and> list_all bexp (shr_stage m_mk_false k out) \<and>
          bval I (shr_stage m_mk_false k out) = ?A div 2 ^ (n + k)"
        using shr_stage [OF o(1,2) f o(4)] o(3) by (simp add: bval_append bval_drop power_add div_mult2_eq)
    qed (use large in simp_all)
    then show ?thesis unfolding spec e .
  qed
qed

lemma mk_ashr:
  assumes "length as = w" "length bs = w" "list_all bexp as" "list_all bexp bs" "0 < w"
  shows "length (mk_ashr C as bs) = w \<and> list_all bexp (mk_ashr C as bs) \<and>
    bval I (mk_ashr C as bs) = of_signed w (to_signed w (bval I as) div 2 ^ min (bval I bs) w)"
proof -
  let ?A = "bval I as" and ?m = "as ! (w - 1)"
  have ne: "as \<noteq> []" using assms(1,5) by auto
  have lt: "?A < 2 ^ w" using bval_less [of I as] assms(1) by simp
  have m: "bexp ?m" "?m = last as" using assms(1,3,5) ne by (simp_all add: list_all_length last_conv_nth)
  have sgn: "tv I ?m \<longleftrightarrow> to_signed w ?A < 0"
    using msb_sign [OF ne, of I] to_signed_less_0 [OF lt] assms(1) by simp
  have large: "ash w k ?A = (if tv I ?m then 2 ^ w - 1 else 0)" if "w \<le> k" for k
    using ash_large [OF lt assms(5) that] of_signed_neg [of 1 w] assms(5) unfolding sgn by (simp add: neg_def of_signed_def)
  have spec: "of_signed w (to_signed w ?A div 2 ^ min k w) = ash w k ?A" for k
    using large [of k] large [of w] by (cases "w \<le> k") (simp_all add: ash_def)
  show ?thesis
  proof (cases "is_numeral bs")
    case (Some k)
    then have k: "bval I bs = k" using is_numeral_Some by metis
    define n where "n = (if k > w then w else k)"
    have e: "mk_ashr C as bs = map ((!) as) [n..<w] @ replicate n ?m"
      using Some assms(1) by (simp add: mk_ashr_def n_def Let_def)
    have n: "n \<le> w" by (simp add: n_def)
    note S = shr_numeral [OF assms(1,3) m(1) n]
    have "bval I (drop n as @ replicate n ?m) = ash w n ?A" using ash_bits [OF ne, of n I ?m] n m assms(1) by simp
    moreover have "ash w n ?A = ash w k ?A" using large [of k] large [of w] by (simp add: n_def)
    ultimately show ?thesis using S unfolding spec e k by (simp only: simp_thms)
  next
    case None
    have e: "mk_ashr C as bs = shift_circuit C (shr_stage ?m) ?m as bs"
      using None assms(1) by (simp add: mk_ashr_def Let_def)
    have "length (shift_circuit C (shr_stage ?m) ?m as bs) = w \<and> list_all bexp (shift_circuit C (shr_stage ?m) ?m as bs) \<and>
      bval I (shift_circuit C (shr_stage ?m) ?m as bs) = ash w (bval I bs) ?A"
    proof (rule shift_circuit [OF assms(1-4) m(1), where sh = "ash w"])
      fix out k n
      assume o: "length out = w" "list_all bexp out" "bval I out = ash w n ?A" "k < w"
      have ne': "out \<noteq> []" using o(1) assms(5) by auto
      have lt': "bval I out < 2 ^ w" using bval_less [of I out] o(1) by simp
      have "to_signed w (bval I out) = to_signed w ?A div 2 ^ n"
        unfolding o(3) ash_def by (rule to_signed_of_signed [OF assms(5) signed_div_bounds [OF lt assms(5)]])
      moreover have "to_signed w ?A div 2 ^ n < 0 \<longleftrightarrow> to_signed w ?A < 0" by (simp add: pos_imp_zdiv_neg_iff)
      moreover have "tv I (last out) \<longleftrightarrow> to_signed w (bval I out) < 0"
        using msb_sign [OF ne', of I] to_signed_less_0 [OF lt'] o(1) ne' by (simp add: last_conv_nth)
      ultimately have "tv I ?m = tv I (last out)" using sgn by (simp only:)
      then have "bval I (drop k out @ replicate k ?m) = ash w k (bval I out)"
        using ash_bits [OF ne'] o(1,4) by simp
      also have "\<dots> = ash w (n + k) ?A" unfolding o(3) by (rule ash_ash [OF lt assms(5)])
      finally show "length (shr_stage ?m k out) = w \<and> list_all bexp (shr_stage ?m k out) \<and>
          bval I (shr_stage ?m k out) = ash w (n + k) ?A"
        using shr_stage [OF o(1,2) m(1) o(4)] by (simp only: simp_thms)
    qed (use large ash_0 [OF lt] in simp_all)
    then show ?thesis unfolding spec e .
  qed
qed

section \<open>Rotations\<close>

lemma select_loop:
  assumes "\<And>j. j < n \<Longrightarrow> bexp (f j) \<and> bexp (c j) \<and> (tv I (c j) \<longleftrightarrow> m = j)" "bexp (f 0)" "0 < n"
  defines "r \<equiv> foldl (\<lambda>out j. c_ite C (c j) (f j) out) (f 0) [1..<n]"
  shows "bexp r \<and> (tv I r \<longleftrightarrow> (if m < n then tv I (f m) else tv I (f 0)))"
  using assms(1,3) unfolding r_def
proof (induction n)
  case (Suc n)
  show ?case
  proof (cases "n = 0")
    case True
    then show ?thesis using assms(2) by simp
  next
    case False
    then have IH: "bexp (foldl (\<lambda>out j. c_ite C (c j) (f j) out) (f 0) [1..<n]) \<and>
        (tv I (foldl (\<lambda>out j. c_ite C (c j) (f j) out) (f 0) [1..<n]) \<longleftrightarrow> (if m < n then tv I (f m) else tv I (f 0)))"
      using Suc.IH Suc.prems(1) by simp
    have u: "[1..<Suc n] = [1..<n] @ [n]" using False by simp
    show ?thesis unfolding u using IH Suc.prems(1) [of n] by (auto simp: less_Suc_eq)
  qed
qed simp

lemma rotate_sources:
  assumes "length as = w" "m < w"
  shows "mk_rotate_left as m = map (\<lambda>i. as ! ((w + i - m) mod w)) [0..<w]"
    "mk_rotate_right as m = map (\<lambda>i. as ! ((i + m) mod w)) [0..<w]"
proof -
  have ne: "as \<noteq> []" using assms by auto
  show "mk_rotate_left as m = map (\<lambda>i. as ! ((w + i - m) mod w)) [0..<w]"
  proof (rule nth_equalityI)
    show "length (mk_rotate_left as m) = length (map (\<lambda>i. as ! ((w + i - m) mod w)) [0..<w])"
      using mk_rotate_left(1) [OF ne] assms(1) by simp
    fix i assume "i < length (mk_rotate_left as m)"
    then have i: "i < w" using mk_rotate_left(1) [OF ne] assms(1) by simp
    have "(w + i - m) mod w = (if i < m then w + i - m else i - m)"
    proof (cases "i < m")
      case False
      then have "w + i - m = (i - m) + w" by simp
      then have "(w + i - m) mod w = (i - m) mod w" by (simp only: mod_add_self2)
      then show ?thesis using False i by simp
    qed (use i assms(2) in simp)
    then show "mk_rotate_left as m ! i = map (\<lambda>i. as ! ((w + i - m) mod w)) [0..<w] ! i"
      using i assms by (auto simp: mk_rotate_left_eq nth_append add.commute)
  qed
  have r: "mk_rotate_right as m = drop m as @ take m as"
    using assms by (cases "m = 0") (simp_all add: mk_rotate_right_def mk_rotate_left_eq Let_def)
  show "mk_rotate_right as m = map (\<lambda>i. as ! ((i + m) mod w)) [0..<w]"
  proof (rule nth_equalityI)
    show "length (mk_rotate_right as m) = length (map (\<lambda>i. as ! ((i + m) mod w)) [0..<w])"
      using assms by (simp add: r)
    fix i assume "i < length (mk_rotate_right as m)"
    then have i: "i < w" using assms by (simp add: r)
    have "(i + m) mod w = (if i + m < w then i + m else i + m - w)"
      using i assms(2) by (simp add: mod_if [of "i + m"])
    then show "mk_rotate_right as m ! i = map (\<lambda>i. as ! ((i + m) mod w)) [0..<w] ! i"
      using i assms by (auto simp: r nth_append add.commute)
  qed
qed

lemma rotate_mod: "rotl w a (n mod w) = rotl w a n" "rotr w a (n mod w) = rotr w a n"
  by (simp_all add: rotl_def rotr_def)

lemma mk_ext_rotate_left_right:
  assumes "length as = w" "length bs = w" "list_all bexp as" "list_all bexp bs" "0 < w"
  shows "length (mk_ext_rotate_left_right C is_left as bs) = w \<and> list_all bexp (mk_ext_rotate_left_right C is_left as bs) \<and>
    bval I (mk_ext_rotate_left_right C is_left as bs) =
      (if is_left then rotl w (bval I as) (bval I bs) else rotr w (bval I as) (bval I bs))"
proof -
  have ne: "as \<noteq> []" using assms(1,5) by auto
  show ?thesis
  proof (cases "case is_numeral bs of Some k \<Rightarrow> (if k < 2 ^ 32 then Some k else None) | None \<Rightarrow> None")
    case (Some k)
    then have e: "mk_ext_rotate_left_right C is_left as bs = (if is_left then mk_rotate_left as k else mk_rotate_right as k)"
      by (simp add: mk_ext_rotate_left_right_def Let_def)
    have "bval I bs = k" using Some is_numeral_Some by (auto split: option.splits if_splits)
    then show ?thesis unfolding e using mk_rotate_left [OF ne] mk_rotate_right [OF ne] assms(1,3) by simp
  next
    case None
    define r where "r = mk_urem C bs (num2bits w w)"
    define src where "src = (\<lambda>i j. (if is_left then w + i - j else i + j) mod w)"
    have sz: "w mod 2 ^ w = w" by simp
    have R: "length r = w" "list_all bexp r" "bval I r = bval I bs mod w"
      using divider(7-9) [OF assms(2) _ assms(4) _ assms(5), of "num2bits w w"] sz by (simp_all add: r_def)
    let ?m = "bval I bs mod w"
    have m: "?m < w" using assms(5) by simp
    have E: "bexp (mk_eqs C r ! j) \<and> (tv I (mk_eqs C r ! j) \<longleftrightarrow> ?m = j)" if "j < w" for j
      using mk_eqs [OF R(2)] R that by (simp add: list_all_length)
    have src: "src i j < w" for i j using assms(5) by (simp add: src_def)
    have a: "bexp (as ! src i j)" for i j using src assms(1,3) by (simp add: list_all_length)
    let ?bit = "\<lambda>i. foldl (\<lambda>out j. c_ite C (mk_eqs C r ! j) (as ! src i j) out) (as ! i) [1..<w]"
    have s0: "as ! src i 0 = as ! i" if "i < w" for i using that by (simp add: src_def)
    have a0: "bexp (as ! i)" if "i < w" for i using that assms(1,3) by (simp add: list_all_length)
    have B: "bexp (?bit i) \<and> (tv I (?bit i) \<longleftrightarrow> tv I (as ! src i ?m))" if "i < w" for i
      using select_loop [of w "\<lambda>j. as ! src i j" "\<lambda>j. mk_eqs C r ! j" ?m] E a a0 [OF that] assms(5) m unfolding s0 [OF that] by simp
    have e: "mk_ext_rotate_left_right C is_left as bs = map ?bit [0..<w]"
      using None assms(1) by (simp add: mk_ext_rotate_left_right_def Let_def r_def src_def)
    have "map (tv I) (map ?bit [0..<w]) = map (tv I) (map (\<lambda>i. as ! src i ?m) [0..<w])" using B by simp
    then have "bval I (mk_ext_rotate_left_right C is_left as bs) = bval I (map (\<lambda>i. as ! src i ?m) [0..<w])"
      unfolding e bval_def by (rule arg_cong)
    also have "map (\<lambda>i. as ! src i ?m) [0..<w] = (if is_left then mk_rotate_left as ?m else mk_rotate_right as ?m)"
      using rotate_sources [OF assms(1) m] by (simp add: src_def)
    also have "bval I \<dots> = (if is_left then rotl w (bval I as) (bval I bs) else rotr w (bval I as) (bval I bs))"
      using mk_rotate_left(3) [OF ne, of I ?m] mk_rotate_right(3) [OF ne, of I ?m] assms(1) by (simp add: rotate_mod)
    finally show ?thesis unfolding e using B by (auto simp: list_all_iff)
  qed
qed

end

end
