(* ===== verification/Bit_Blaster_Cfg.thy ===== *)
theory Bit_Blaster_Cfg
  imports Bool_Rewriter_Sound Bit_Blaster_Shift_Sound
begin

text \<open>
  The two gate configurations the circuits are instantiated with:
  \<open>bit_blaster_cfg\<close> (\<open>src/Z3/z3-master/src/ast/rewriter/bit_blaster/bit_blaster.h\<close>,
  \<open>bit_blaster.cpp\<close>) and \<open>blaster_cfg\<close> (\<open>bit_blaster_rewriter.cpp\<close>). Both build their gates
  with a \<open>bool_rewriter\<close>. A gate is the term the rewriter returns; the rewriter itself keeps
  its options and, because neither class turns the local context simplifier on, its cost
  counter, which the last section shows. The theory interprets the contract of the gates on
  both configurations.
\<close>

section \<open>The default parameters of the rewriter\<close>

definition default_params :: bool_rewriter_params where
  "default_params = \<lparr>p_flat = True, p_elim_and = False, p_elim_ite = True, p_local_ctx = False,
     p_local_ctx_limit = - 1, p_blast_distinct = False, p_blast_distinct_threshold = - 1,
     p_ite_extra_rules = False\<rparr>"

section \<open>\<open>bit_blaster_cfg\<close>\<close>

record bit_blaster_params =
  m_bb_ext_gates :: bool
  m_bb_quantifiers :: bool

definition mk_bit_blaster_params :: bit_blaster_params where
  "mk_bit_blaster_params = \<lparr>m_bb_ext_gates = False, m_bb_quantifiers = False\<rparr>"

text \<open>\<open>std::sort\<close> by the id of the nodes.\<close>

definition sort_args :: "ast_manager \<Rightarrow> expr \<Rightarrow> expr \<Rightarrow> expr \<Rightarrow> expr \<times> expr \<times> expr" where
  "sort_args m l1 l2 l3 =
    (let args = sort_key (node_id m) [l1, l2, l3] in (args ! 0, args ! 1, args ! 2))"

definition cfg_mk_xor3 :: "bit_blaster_params \<Rightarrow> bool_rewriter \<Rightarrow> expr \<Rightarrow> expr \<Rightarrow> expr \<Rightarrow> expr" where
  "cfg_mk_xor3 p rw k1 k2 k3 =
    (let (l1, l2, l3) = sort_args (m_manager rw) k1 k2 k3 in
     if m_bb_ext_gates p then
       (if l1 = l2 then l3
        else if l1 = l3 then l2
        else if l2 = l3 then l1
        else if m_is_complement l1 l2 then rw_mk_not rw l3
        else if m_is_complement l1 l3 then rw_mk_not rw l2
        else if m_is_complement l2 l3 then rw_mk_not rw l1
        else if m_is_true l1 then rw_mk_iff rw l2 l3
        else if m_is_false l1 then rw_mk_xor rw l2 l3
        else if m_is_true l2 then rw_mk_iff rw l1 l3
        else if m_is_false l2 then rw_mk_xor rw l1 l3
        else if m_is_true l3 then rw_mk_iff rw l1 l2
        else if m_is_false l3 then rw_mk_xor rw l1 l2
        else App (Bv OP_XOR3 []) [l1, l2, l3])
     else rw_mk_xor rw (rw_mk_xor rw l1 l2) l3)"

definition cfg_mk_carry :: "bit_blaster_params \<Rightarrow> bool_rewriter \<Rightarrow> expr \<Rightarrow> expr \<Rightarrow> expr \<Rightarrow> expr" where
  "cfg_mk_carry p rw k1 k2 k3 =
    (let (l1, l2, l3) = sort_args (m_manager rw) k1 k2 k3 in
     if m_bb_ext_gates p then
       (if (m_is_false l1 \<and> m_is_false l2) \<or> (m_is_false l1 \<and> m_is_false l3) \<or>
           (m_is_false l2 \<and> m_is_false l3) then m_mk_false
        else if (m_is_true l1 \<and> m_is_true l2) \<or> (m_is_true l1 \<and> m_is_true l3) \<or>
           (m_is_true l2 \<and> m_is_true l3) then m_mk_true
        else if l1 = l2 \<and> l1 = l3 then l1
        else if m_is_false l1 then fst (rw_mk_and rw [l2, l3])
        else if m_is_false l2 then fst (rw_mk_and rw [l1, l3])
        else if m_is_false l3 then fst (rw_mk_and rw [l1, l2])
        else if m_is_true l1 then fst (rw_mk_or rw [l2, l3])
        else if m_is_true l2 then fst (rw_mk_or rw [l1, l3])
        else if m_is_true l3 then fst (rw_mk_or rw [l1, l2])
        else if m_is_complement l1 l2 then l3
        else if m_is_complement l1 l3 then l2
        else if m_is_complement l2 l3 then l1
        else App (Bv OP_CARRY []) [l1, l2, l3])
     else
       (let t1 = fst (rw_mk_and rw [l1, l2]);
            t2 = fst (rw_mk_and rw [l1, l3]);
            t3 = fst (rw_mk_and rw [l2, l3])
        in fst (rw_mk_or rw [t1, t2, t3])))"

definition bit_blaster_cfg :: "bit_blaster_params \<Rightarrow> bool_rewriter \<Rightarrow> bb_cfg" where
  "bit_blaster_cfg p rw =
    \<lparr>c_xor = rw_mk_xor rw,
     c_xor3 = cfg_mk_xor3 p rw,
     c_carry = cfg_mk_carry p rw,
     c_iff = rw_mk_iff rw,
     c_and = (\<lambda>a b. fst (rw_mk_and rw [a, b])),
     c_andn = (\<lambda>args. fst (rw_mk_and rw args)),
     c_or = (\<lambda>a b. fst (rw_mk_or rw [a, b])),
     c_or3 = (\<lambda>a b c. fst (rw_mk_or rw [a, b, c])),
     c_orn = (\<lambda>args. fst (rw_mk_or rw args)),
     c_not = rw_mk_not rw,
     c_ite = (\<lambda>c t e. fst (rw_mk_ite rw c t e)),
     c_nand = (\<lambda>a b. fst (rw_mk_nand rw [a, b])),
     c_nor = (\<lambda>a b. fst (rw_mk_nor rw [a, b]))\<rparr>"

text \<open>The class \<open>bit_blaster\<close> owns a rewriter with the default parameters.\<close>

definition bit_blaster :: "ast_manager \<Rightarrow> bit_blaster_params \<Rightarrow> bb_cfg" where
  "bit_blaster m p = bit_blaster_cfg p (mk_bool_rewriter m default_params)"

section \<open>\<open>blaster_cfg\<close>\<close>

definition blaster_mk_xor3 :: "bool_rewriter \<Rightarrow> expr \<Rightarrow> expr \<Rightarrow> expr \<Rightarrow> expr" where
  "blaster_mk_xor3 rw a b c = (let tmp = rw_mk_xor rw b c in rw_mk_xor rw a tmp)"

definition blaster_mk_carry :: "bool_rewriter \<Rightarrow> expr \<Rightarrow> expr \<Rightarrow> expr \<Rightarrow> expr" where
  "blaster_mk_carry rw a b c =
    (let t1 = fst (rw_mk_and rw [a, b]);
         t2 = fst (rw_mk_and rw [a, c]);
         t3 = fst (rw_mk_and rw [b, c])
     in fst (rw_mk_or rw [t1, t2, t3]))"

definition blaster_cfg :: "bool_rewriter \<Rightarrow> bb_cfg" where
  "blaster_cfg rw =
    \<lparr>c_xor = rw_mk_xor rw,
     c_xor3 = blaster_mk_xor3 rw,
     c_carry = blaster_mk_carry rw,
     c_iff = rw_mk_iff rw,
     c_and = (\<lambda>a b. fst (rw_mk_and rw [a, b])),
     c_andn = (\<lambda>args. fst (rw_mk_and rw args)),
     c_or = (\<lambda>a b. fst (rw_mk_or rw [a, b])),
     c_or3 = (\<lambda>a b c. fst (rw_mk_or rw [a, b, c])),
     c_orn = (\<lambda>args. fst (rw_mk_or rw args)),
     c_not = rw_mk_not rw,
     c_ite = (\<lambda>c t e. fst (rw_mk_ite rw c t e)),
     c_nand = (\<lambda>a b. fst (rw_mk_nand rw [a, b])),
     c_nor = (\<lambda>a b. fst (rw_mk_nor rw [a, b]))\<rparr>"

text \<open>The class \<open>blaster\<close>: its constructor sets two options of its rewriter.\<close>

definition blaster_rewriter_of :: "ast_manager \<Rightarrow> bool_rewriter" where
  "blaster_rewriter_of m = set_elim_and True (set_flat False (mk_bool_rewriter m default_params))"

definition blaster :: "ast_manager \<Rightarrow> bb_cfg" where
  "blaster m = blaster_cfg (blaster_rewriter_of m)"

section \<open>Both configurations satisfy the contract of the gates\<close>

lemma sort_args_perm:
  "sort_args m k1 k2 k3 \<in> {(k1, k2, k3), (k1, k3, k2), (k2, k1, k3), (k2, k3, k1), (k3, k1, k2), (k3, k2, k1)}"
  by (simp add: sort_args_def Let_def)

lemma sort_args_cases:
  assumes "sort_args m k1 k2 k3 = (l1, l2, l3)"
  obtains "l1 = k1" "l2 = k2" "l3 = k3" | "l1 = k1" "l2 = k3" "l3 = k2" | "l1 = k2" "l2 = k1" "l3 = k3"
  | "l1 = k2" "l2 = k3" "l3 = k1" | "l1 = k3" "l2 = k1" "l3 = k2" | "l1 = k3" "l2 = k2" "l3 = k1"
  using sort_args_perm [of m k1 k2 k3] unfolding assms insert_iff empty_iff prod.inject
  by (elim disjE conjE FalseE) (erule (2) that)+

lemma if_cases: "(b \<Longrightarrow> P x) \<Longrightarrow> (\<not> b \<Longrightarrow> P y) \<Longrightarrow> P (if b then x else y)"
  by simp

lemma tv_xor3 [simp]:
  "tv I (App (Bv OP_XOR3 []) [a, b, c]) \<longleftrightarrow> tv I a \<noteq> (tv I b \<noteq> tv I c)"
  by (simp add: tv_def eval_bv_def)

lemma tv_carry [simp]:
  "tv I (App (Bv OP_CARRY []) [a, b, c]) \<longleftrightarrow> tv I a \<and> tv I b \<or> tv I a \<and> tv I c \<or> tv I b \<and> tv I c"
  unfolding tv_def
  by (cases "truth (eval I a)"; cases "truth (eval I b)"; cases "truth (eval I c)"; simp add: eval_bv_def)

lemma bexp_ext_gates [simp]:
  "bexp (App (Bv OP_XOR3 []) [a, b, c]) \<longleftrightarrow> bexp a \<and> bexp b \<and> bexp c"
  "bexp (App (Bv OP_CARRY []) [a, b, c]) \<longleftrightarrow> bexp a \<and> bexp b \<and> bexp c"
  unfolding bexp_def by (simp_all add: bv_ok_def bv_range_def conj_ac)

text \<open>The gates on the sorted arguments.\<close>

lemma cfg_mk_xor3:
  assumes "bexp k1" "bexp k2" "bexp k3"
  shows "bexp (cfg_mk_xor3 p rw k1 k2 k3) \<and> tv I (cfg_mk_xor3 p rw k1 k2 k3) = (tv I k1 \<noteq> (tv I k2 \<noteq> tv I k3))"
proof -
  obtain l1 l2 l3 where l: "sort_args (m_manager rw) k1 k2 k3 = (l1, l2, l3)"
    using prod_cases3 by blast
  have b: "bexp l1 \<and> bexp l2 \<and> bexp l3"
    by (rule sort_args_cases [OF l]) (use assms in simp_all)
  have v: "(tv I k1 \<noteq> (tv I k2 \<noteq> tv I k3)) = (tv I l1 \<noteq> (tv I l2 \<noteq> tv I l3))"
    by (rule sort_args_cases [OF l]; simp only:; argo)
  have c: "m_is_complement x y \<Longrightarrow> bexp x \<Longrightarrow> bexp y \<Longrightarrow> tv I x = (\<not> tv I y)" for x y
    by (simp add: m_is_complement_tv)
  define good where "good e \<longleftrightarrow> bexp e \<and> tv I e = (tv I l1 \<noteq> (tv I l2 \<noteq> tv I l3))" for e
  have "good (cfg_mk_xor3 p rw k1 k2 k3)"
    unfolding cfg_mk_xor3_def l Let_def prod.case
    by (intro if_cases [where P = good]; use b in \<open>auto simp: good_def dest: c\<close>)
  then show ?thesis by (simp only: good_def v)
qed

lemma cfg_mk_carry:
  assumes "bexp k1" "bexp k2" "bexp k3"
  shows "bexp (cfg_mk_carry p rw k1 k2 k3) \<and> tv I (cfg_mk_carry p rw k1 k2 k3) = (tv I k1 \<and> tv I k2 \<or> tv I k1 \<and> tv I k3 \<or> tv I k2 \<and> tv I k3)"
proof -
  obtain l1 l2 l3 where l: "sort_args (m_manager rw) k1 k2 k3 = (l1, l2, l3)"
    using prod_cases3 by blast
  have b: "bexp l1 \<and> bexp l2 \<and> bexp l3"
    by (rule sort_args_cases [OF l]) (use assms in simp_all)
  have v: "(tv I k1 \<and> tv I k2 \<or> tv I k1 \<and> tv I k3 \<or> tv I k2 \<and> tv I k3) = (tv I l1 \<and> tv I l2 \<or> tv I l1 \<and> tv I l3 \<or> tv I l2 \<and> tv I l3)"
    by (rule sort_args_cases [OF l]; simp only:; argo)
  have c: "m_is_complement x y \<Longrightarrow> bexp x \<Longrightarrow> bexp y \<Longrightarrow> tv I x = (\<not> tv I y)" for x y
    by (simp add: m_is_complement_tv)
  define good where "good e \<longleftrightarrow> bexp e \<and> tv I e = (tv I l1 \<and> tv I l2 \<or> tv I l1 \<and> tv I l3 \<or> tv I l2 \<and> tv I l3)" for e
  have "good (cfg_mk_carry p rw k1 k2 k3)"
    unfolding cfg_mk_carry_def l Let_def prod.case
    by (intro if_cases [where P = good]; use b in \<open>auto simp: good_def dest: c\<close>)
  then show ?thesis by (simp only: good_def v)
qed

lemma rw_mk_ite_gate:
  assumes "bexp c" "bexp a" "bexp b"
  shows "bexp (fst (rw_mk_ite rw c a b)) \<and> tv I (fst (rw_mk_ite rw c a b)) = (if tv I c then tv I a else tv I b)"
  using assms by simp

lemma bit_blaster_cfg_gates: "gates (bit_blaster_cfg p rw) I"
  by unfold_locales (simp_all add: bit_blaster_cfg_def cfg_mk_xor3 cfg_mk_carry rw_mk_ite_gate)

interpretation ext: gates "bit_blaster_cfg p rw" I for p rw I
  by (rule bit_blaster_cfg_gates)

lemma blaster_mk_xor3:
  assumes "bexp a" "bexp b" "bexp c"
  shows "bexp (blaster_mk_xor3 rw a b c) \<and>
    tv I (blaster_mk_xor3 rw a b c) = (tv I a \<noteq> (tv I b \<noteq> tv I c))"
  using assms by (simp add: blaster_mk_xor3_def)

lemma blaster_mk_carry:
  assumes "bexp a" "bexp b" "bexp c"
  shows "bexp (blaster_mk_carry rw a b c) \<and>
    tv I (blaster_mk_carry rw a b c) = (tv I a \<and> tv I b \<or> tv I a \<and> tv I c \<or> tv I b \<and> tv I c)"
  using assms by (simp add: blaster_mk_carry_def Let_def)

lemma blaster_cfg_gates: "gates (blaster_cfg rw) I"
  by unfold_locales (simp_all add: blaster_cfg_def blaster_mk_xor3 blaster_mk_carry rw_mk_ite_gate)

interpretation bb: gates "blaster_cfg rw" I for rw I
  by (rule blaster_cfg_gates)

section \<open>The rewriter of a blaster does not change\<close>

lemma blaster_rewriter_options [simp]:
  "\<not> m_local_ctx (blaster_rewriter_of m)" "\<not> m_flat (blaster_rewriter_of m)"
  "m_elim_and (blaster_rewriter_of m)" "m_manager (blaster_rewriter_of m) = m"
  by (simp_all add: blaster_rewriter_of_def set_elim_and_def set_flat_def mk_bool_rewriter_def
    updt_params_def default_params_def)

end
