(* ===== verification/Bit_Blaster_Rewriter.thy ===== *)
theory Bit_Blaster_Rewriter
  imports Bit_Blaster_Cfg
begin

text \<open>
  \<open>blaster_rewriter_cfg\<close> and \<open>bit_blaster_rewriter\<close>
  (\<open>src/Z3/z3-master/src/ast/rewriter/bit_blaster/bit_blaster_rewriter.cpp\<close>): the
  configuration of the term rewriter that replaces a bit-vector operation by the circuit of
  its bits. Its state maps the bit-vector constants seen so far to fresh Boolean constants,
  in scopes that \<open>push\<close> opens and \<open>pop\<close> closes. The buffers \<open>m_in1\<close>, \<open>m_in2\<close> and \<open>m_out\<close> are
  reset before every use and are values here; the counter that names fresh constants is the
  manager's.
\<close>

section \<open>State\<close>

record blaster_rewriter_cfg =
  m_blaster :: bit_blaster_tpl
  m_const2bits :: "func_decl \<Rightarrow> expr option"
  m_keys :: "func_decl list"
  m_values :: "expr list"
  m_keyval_lim :: "nat list"
  m_newbits :: "func_decl list"
  m_newbits_lim :: "nat list"
  m_keypos :: nat
  m_blast_mul :: bool
  m_blast_add :: bool
  m_blast_quant :: bool
  m_blast_full :: bool
  m_max_memory :: "64 word"
  m_max_steps :: "32 word"
  m_fresh_id :: "32 word"

text \<open>The parameters, each present or absent.\<close>

record blast_params =
  bp_max_memory :: "32 word option"
  bp_max_steps :: "32 word option"
  bp_blast_add :: "bool option"
  bp_blast_mul :: "bool option"
  bp_blast_full :: "bool option"
  bp_blast_quant :: "bool option"

fun get_param :: "'a option \<Rightarrow> 'a \<Rightarrow> 'a" where
  "get_param None d = d"
| "get_param (Some x) d = x"

definition megabytes_to_bytes :: "32 word \<Rightarrow> 64 word" where
  "megabytes_to_bytes mb = (if mb = - 1 then - 1 else ucast mb * 1024 * 1024)"

text \<open>\<open>set_max_memory\<close> gives the limit to the template too, where it is only read by \<open>checkpoint\<close>; see there.\<close>

definition cfg_updt_params :: "blast_params \<Rightarrow> blaster_rewriter_cfg \<Rightarrow> blaster_rewriter_cfg" where
  "cfg_updt_params p st = st\<lparr>
     m_max_memory := megabytes_to_bytes (get_param (bp_max_memory p) (- 1)),
     m_max_steps := get_param (bp_max_steps p) (- 1),
     m_blast_add := get_param (bp_blast_add p) True,
     m_blast_mul := get_param (bp_blast_mul p) True,
     m_blast_full := get_param (bp_blast_full p) False,
     m_blast_quant := get_param (bp_blast_quant p) False\<rparr>"

text \<open>
  The constructor: \<open>n\<close> is the manager's counter of fresh names at that moment. \<open>m_keypos\<close>, which the
  code sets in \<open>start_rewrite\<close> only, is 0 here.
\<close>

definition mk_bit_blaster_rewriter :: "ast_manager \<Rightarrow> 32 word \<Rightarrow> blast_params \<Rightarrow> blaster_rewriter_cfg" where
  "mk_bit_blaster_rewriter m n p = cfg_updt_params p
     \<lparr>m_blaster = mk_bit_blaster_tpl (blaster m), m_const2bits = Map.empty, m_keys = [],
      m_values = [], m_keyval_lim = [], m_newbits = [], m_newbits_lim = [], m_keypos = 0,
      m_blast_mul = False, m_blast_add = False, m_blast_quant = False, m_blast_full = False,
      m_max_memory = 0, m_max_steps = 0, m_fresh_id = n\<rparr>"

text \<open>\<open>alloc\<close> is what \<open>memory::get_allocation_size()\<close> returns.\<close>

definition max_steps_exceeded ::
    "blaster_rewriter_cfg \<Rightarrow> 64 word \<Rightarrow> 32 word \<Rightarrow> rewriter_exception + bool" where
  "max_steps_exceeded st alloc num_steps =
    (if m_max_memory st < alloc then Inl Max_memory else Inr (m_max_steps st < num_steps))"

section \<open>Bits\<close>

fun is_mkbv :: "expr \<Rightarrow> bool" where
  "is_mkbv (App (Bv OP_MKBV ps) args) = True"
| "is_mkbv _ = False"

definition mk_bit2bool :: "nat \<Rightarrow> expr \<Rightarrow> expr" where
  "mk_bit2bool i t = App (Bv OP_BIT2BOOL [i]) [t]"

definition get_bits :: "expr \<Rightarrow> expr list" where
  "get_bits t = (if is_mkbv t then get_args t else map (\<lambda>i. mk_bit2bool i t) [0..<get_bv_size t])"

definition mk_mkbv :: "expr list \<Rightarrow> expr" where
  "mk_mkbv bits = App (Bv OP_MKBV []) bits"

section \<open>Scopes\<close>

definition push :: "blaster_rewriter_cfg \<Rightarrow> blaster_rewriter_cfg" where
  "push st = st\<lparr>m_keyval_lim := m_keyval_lim st @ [length (m_keys st)],
     m_newbits_lim := m_newbits_lim st @ [length (m_newbits st)]\<rparr>"

definition get_num_scopes :: "blaster_rewriter_cfg \<Rightarrow> nat" where
  "get_num_scopes st = length (m_keyval_lim st)"

text \<open>The keys from position \<open>lim\<close> on are removed from the map, the last one first.\<close>

definition remove_keys :: "func_decl list \<Rightarrow> (func_decl \<Rightarrow> expr option) \<Rightarrow> func_decl \<Rightarrow> expr option" where
  "remove_keys ks m = fold (\<lambda>k m. m(k := None)) (rev ks) m"

definition pop :: "nat \<Rightarrow> blaster_rewriter_cfg \<Rightarrow> blaster_rewriter_cfg" where
  "pop num_scopes st =
    (if 0 < num_scopes then
       (let new_sz = length (m_keyval_lim st) - num_scopes;
            lim = m_keyval_lim st ! new_sz;
            nlim = m_newbits_lim st ! new_sz
        in st\<lparr>m_const2bits := remove_keys (drop lim (m_keys st)) (m_const2bits st),
              m_keys := take lim (m_keys st),
              m_values := take lim (m_values st),
              m_keyval_lim := take new_sz (m_keyval_lim st),
              m_newbits := take nlim (m_newbits st),
              m_newbits_lim := take new_sz (m_newbits_lim st)\<rparr>)
     else st)"

definition start_rewrite :: "blaster_rewriter_cfg \<Rightarrow> blaster_rewriter_cfg" where
  "start_rewrite st = st\<lparr>m_keypos := length (m_keys st)\<rparr>"

text \<open>
  \<open>end_rewrite\<close> adds the constants mapped since \<open>start_rewrite\<close> to the caller's map, and all
  the fresh bits to the caller's vector.
\<close>

definition end_rewrite ::
    "blaster_rewriter_cfg \<Rightarrow> (func_decl \<Rightarrow> expr option) \<Rightarrow> func_decl list \<Rightarrow>
      (func_decl \<Rightarrow> expr option) \<times> func_decl list" where
  "end_rewrite st const2bits newbits =
    (fold (\<lambda>i m. m(m_keys st ! i \<mapsto> m_values st ! i)) [m_keypos st..<length (m_keys st)] const2bits,
     newbits @ m_newbits st)"

section \<open>Constants\<close>

text \<open>\<open>mk_fresh_const(nullptr, b)\<close>: a constant whose name is the next number.\<close>

definition mk_fresh_const :: "srt \<Rightarrow> blaster_rewriter_cfg \<Rightarrow> func_decl \<times> blaster_rewriter_cfg" where
  "mk_fresh_const s st =
    (Uninterp (Num (unat (m_fresh_id st))) [] s, st\<lparr>m_fresh_id := m_fresh_id st + 1\<rparr>)"

fun mk_fresh_bits :: "nat \<Rightarrow> blaster_rewriter_cfg \<Rightarrow> expr list \<times> blaster_rewriter_cfg" where
  "mk_fresh_bits 0 st = ([], st)"
| "mk_fresh_bits (Suc n) st =
    (let (d, st1) = mk_fresh_const Bool_sort st;
         (out, st2) = mk_fresh_bits n (st1\<lparr>m_newbits := m_newbits st1 @ [d]\<rparr>)
     in (App d [] # out, st2))"

definition mk_const :: "blaster_rewriter_cfg \<Rightarrow> func_decl \<Rightarrow> expr \<times> blaster_rewriter_cfg" where
  "mk_const st f =
    (case m_const2bits st f of
       Some r \<Rightarrow> (r, st)
     | None \<Rightarrow>
         (let bv_size = bv_width (decl_range f []);
              (m_out, st1) = mk_fresh_bits bv_size st;
              r = mk_mkbv m_out
          in (r, st1\<lparr>m_const2bits := (m_const2bits st1)(f \<mapsto> r),
                     m_keys := m_keys st1 @ [f],
                     m_values := m_values st1 @ [r]\<rparr>)))"

section \<open>Operations\<close>

text \<open>The four macros that turn a circuit into a reduction.\<close>

definition unary_reduce :: "(expr list \<Rightarrow> expr list) \<Rightarrow> expr \<Rightarrow> expr" where
  "unary_reduce bb_op arg = mk_mkbv (bb_op (get_bits arg))"

definition bin_reduce :: "(expr list \<Rightarrow> expr list \<Rightarrow> expr list) \<Rightarrow> expr \<Rightarrow> expr \<Rightarrow> expr" where
  "bin_reduce bb_op arg1 arg2 = mk_mkbv (bb_op (get_bits arg1) (get_bits arg2))"

fun bin_ac_reduce :: "(expr list \<Rightarrow> expr list \<Rightarrow> expr list) \<Rightarrow> expr \<Rightarrow> expr list \<Rightarrow> expr" where
  "bin_ac_reduce bb_op result [] = result"
| "bin_ac_reduce bb_op result (arg # args) = bin_ac_reduce bb_op (bin_reduce bb_op result arg) args"

definition bin_pred_reduce :: "(expr list \<Rightarrow> expr list \<Rightarrow> expr) \<Rightarrow> expr \<Rightarrow> expr \<Rightarrow> expr" where
  "bin_pred_reduce bb_op arg1 arg2 = bb_op (get_bits arg1) (get_bits arg2)"

definition reduce_ite :: "bb_cfg \<Rightarrow> expr \<Rightarrow> expr \<Rightarrow> expr \<Rightarrow> expr" where
  "reduce_ite C arg1 arg2 arg3 = mk_mkbv (mk_multiplexer C arg1 (get_bits arg2) (get_bits arg3))"

definition reduce_sign_extend :: "expr \<Rightarrow> nat \<Rightarrow> expr" where
  "reduce_sign_extend arg n = mk_mkbv (mk_sign_extend (get_bits arg) n)"

text \<open>The loop runs over the arguments from the last to the first.\<close>

definition reduce_concat :: "expr list \<Rightarrow> expr" where
  "reduce_concat args = mk_mkbv (fold (\<lambda>arg m_out. m_out @ get_bits arg) (rev args) [])"

definition reduce_extract :: "nat \<Rightarrow> nat \<Rightarrow> expr \<Rightarrow> expr" where
  "reduce_extract start high arg = mk_mkbv (map (\<lambda>i. get_bits arg ! i) [start..<high + 1])"

definition reduce_num :: "nat \<Rightarrow> nat \<Rightarrow> expr" where
  "reduce_num v bv_sz = mk_mkbv (num2bits v bv_sz)"

definition blast_bv_term :: "expr \<Rightarrow> expr" where
  "blast_bv_term t = mk_mkbv (map (\<lambda>i. mk_bit2bool i t) [0..<get_bv_size t])"

text \<open>The \<open>switch\<close> of \<open>reduce_app\<close> over the operations of the bit-vector family.\<close>

definition reduce_bv ::
    "blaster_rewriter_cfg \<Rightarrow> bv_op_kind \<Rightarrow> nat list \<Rightarrow> expr list \<Rightarrow> rewriter_exception + br_status" where
  "reduce_bv st k ps args =
    (let T = m_blaster st; C = m_cfg T; a = args ! 0; b = args ! 1;
         done = (\<lambda>r. Inr (BR_DONE r));
         mul = (\<lambda>r. if \<not> m_blast_mul st then Inr BR_FAILED else Inr (BR_DONE r));
         keep = (if m_blast_mul st then Inl Unsupported else Inr BR_FAILED)
     in case k of
       OP_BV_NUM \<Rightarrow> done (reduce_num (ps ! 0) (ps ! 1))
     | OP_BADD \<Rightarrow> (if \<not> m_blast_add st then Inr BR_FAILED
                   else done (bin_ac_reduce (mk_adder C) a (tl args)))
     | OP_BMUL \<Rightarrow> mul (bin_ac_reduce (mk_multiplier T) a (tl args))
     | OP_BSDIV \<Rightarrow> keep
     | OP_BUDIV \<Rightarrow> keep
     | OP_BSREM \<Rightarrow> keep
     | OP_BUREM \<Rightarrow> keep
     | OP_BSMOD \<Rightarrow> keep
     | OP_BSDIV0 \<Rightarrow> Inr BR_FAILED
     | OP_BUDIV0 \<Rightarrow> Inr BR_FAILED
     | OP_BSREM0 \<Rightarrow> Inr BR_FAILED
     | OP_BUREM0 \<Rightarrow> Inr BR_FAILED
     | OP_BSMOD0 \<Rightarrow> Inr BR_FAILED
     | OP_BSDIV_I \<Rightarrow> mul (bin_reduce (mk_sdiv C) a b)
     | OP_BUDIV_I \<Rightarrow> mul (bin_reduce (mk_udiv C) a b)
     | OP_BSREM_I \<Rightarrow> mul (bin_reduce (mk_srem C) a b)
     | OP_BUREM_I \<Rightarrow> mul (bin_reduce (mk_urem C) a b)
     | OP_BSMOD_I \<Rightarrow> mul (bin_reduce (mk_smod C) a b)
     | OP_ULEQ \<Rightarrow> done (bin_pred_reduce (mk_ule C) a b)
     | OP_SLEQ \<Rightarrow> done (bin_pred_reduce (mk_sle C) a b)
     | OP_BOR \<Rightarrow> done (bin_ac_reduce (bb_mk_or C) a (tl args))
     | OP_BNOT \<Rightarrow> done (unary_reduce (bb_mk_not C) a)
     | OP_BXOR \<Rightarrow> done (bin_ac_reduce (bb_mk_xor C) a (tl args))
     | OP_CONCAT \<Rightarrow> done (reduce_concat args)
     | OP_SIGN_EXT \<Rightarrow> done (reduce_sign_extend a (ps ! 0))
     | OP_EXTRACT \<Rightarrow> done (reduce_extract (ps ! 1) (ps ! 0) a)
     | OP_BREDOR \<Rightarrow> done (unary_reduce (mk_redor C) a)
     | OP_BREDAND \<Rightarrow> done (unary_reduce (mk_redand C) a)
     | OP_BSHL \<Rightarrow> done (bin_reduce (mk_shl C) a b)
     | OP_BLSHR \<Rightarrow> done (bin_reduce (mk_lshr C) a b)
     | OP_BASHR \<Rightarrow> done (bin_reduce (mk_ashr C) a b)
     | OP_EXT_ROTATE_LEFT \<Rightarrow> done (bin_reduce (mk_ext_rotate_left C) a b)
     | OP_EXT_ROTATE_RIGHT \<Rightarrow> done (bin_reduce (mk_ext_rotate_right C) a b)
     | OP_BUMUL_NO_OVFL \<Rightarrow> done (bin_pred_reduce (mk_umul_no_overflow T) a b)
     | OP_BSMUL_NO_OVFL \<Rightarrow> done (bin_pred_reduce (mk_smul_no_overflow T) a b)
     | OP_BSMUL_NO_UDFL \<Rightarrow> done (bin_pred_reduce (mk_smul_no_underflow T) a b)
     | OP_BIT2BOOL \<Rightarrow> Inr BR_FAILED
     | OP_MKBV \<Rightarrow> Inr BR_FAILED
     | OP_INT2BV \<Rightarrow> Inr BR_FAILED
     | OP_BV2INT \<Rightarrow> Inr BR_FAILED
     | _ \<Rightarrow> Inl Unsupported)"

fun is_null_family :: "func_decl \<Rightarrow> bool" where
  "is_null_family (Uninterp f ds r) = True"
| "is_null_family _ = False"

definition reduce_app ::
    "blaster_rewriter_cfg \<Rightarrow> func_decl \<Rightarrow> expr list \<Rightarrow>
      (rewriter_exception + br_status) \<times> blaster_rewriter_cfg" where
  "reduce_app st f args =
    (let rng = decl_range f (map get_sort args); C = m_cfg (m_blaster st) in
     if args = [] \<and> is_null_family f \<and> is_bv_sort rng then
       (let (r, st1) = mk_const st f in (Inr (BR_DONE r), st1))
     else if f = Basic OP_EQ then
       (if is_bv (args ! 0) then (Inr (BR_DONE (bin_pred_reduce (bb_mk_eq C) (args ! 0) (args ! 1))), st)
        else (Inr BR_FAILED, st))
     else if f = Basic OP_ITE then
       (if is_bv (args ! 1) then (Inr (BR_DONE (reduce_ite C (args ! 0) (args ! 1) (args ! 2))), st)
        else (Inr BR_FAILED, st))
     else
       (case f of
          Bv k ps \<Rightarrow> (reduce_bv st k ps args, st)
        | _ \<Rightarrow>
            (if m_blast_full st \<and> is_bv_sort rng then (Inr (BR_DONE (blast_bv_term (App f args))), st)
             else (Inr BR_FAILED, st))))"

section \<open>Checkpoints\<close>

text \<open>
  The loops of the multipliers, the divider, the shifts and the rotations call \<open>checkpoint\<close>
  (\<open>bit_blaster_tpl_def.h\<close>), which throws on the memory limit or a cancellation. The circuits
  above are those of a run in which none throws; \<open>reduce_app_checked\<close> is \<open>reduce_app\<close> with the
  checkpoints: \<open>chk\<close> gives, for every checkpoint that the call comes to, the memory that is allocated
  and the answer of \<open>inc()\<close> at that moment, which are not the program's to determine. What a call has
  built when it throws is in buffers that the next call resets, so the state is the one before.
  The template has a limit of its own, which \<open>updt_params\<close> always sets to the one of the configuration.
\<close>

definition checkpoint :: "64 word \<Rightarrow> 64 word \<Rightarrow> bool \<Rightarrow> rewriter_exception option" where
  "checkpoint max_memory alloc inc =
    (if max_memory < alloc then Some Max_memory
     else if \<not> inc then Some Canceled
     else None)"

fun checkpoints :: "64 word \<Rightarrow> (64 word \<times> bool) list \<Rightarrow> rewriter_exception option" where
  "checkpoints max_memory [] = None"
| "checkpoints max_memory ((alloc, inc) # cs) =
    (case checkpoint max_memory alloc inc of
       Some e \<Rightarrow> Some e
     | None \<Rightarrow> checkpoints max_memory cs)"

text \<open>The operators for which \<open>reduce_app\<close> builds a circuit with checkpoints.\<close>

definition has_checkpoints :: "blaster_rewriter_cfg \<Rightarrow> func_decl \<Rightarrow> bool" where
  "has_checkpoints st f =
    (case f of
       Bv k ps \<Rightarrow>
         k \<in> set [OP_BSHL, OP_BLSHR, OP_BASHR, OP_EXT_ROTATE_LEFT, OP_EXT_ROTATE_RIGHT,
           OP_BUMUL_NO_OVFL, OP_BSMUL_NO_OVFL, OP_BSMUL_NO_UDFL] \<or>
         m_blast_mul st \<and> k \<in> set [OP_BMUL, OP_BSDIV_I, OP_BUDIV_I, OP_BSREM_I, OP_BUREM_I, OP_BSMOD_I]
     | _ \<Rightarrow> False)"

definition stopped ::
    "(blaster_rewriter_cfg \<Rightarrow> func_decl \<Rightarrow> expr list \<Rightarrow> (64 word \<times> bool) list) \<Rightarrow>
      blaster_rewriter_cfg \<Rightarrow> func_decl \<Rightarrow> expr list \<Rightarrow> rewriter_exception option" where
  "stopped chk st f args = (if has_checkpoints st f then checkpoints (m_max_memory st) (chk st f args) else None)"

definition reduce_app_checked ::
    "(blaster_rewriter_cfg \<Rightarrow> func_decl \<Rightarrow> expr list \<Rightarrow> (64 word \<times> bool) list) \<Rightarrow>
      blaster_rewriter_cfg \<Rightarrow> func_decl \<Rightarrow> expr list \<Rightarrow> (rewriter_exception + br_status) \<times> blaster_rewriter_cfg" where
  "reduce_app_checked chk st f args =
    (case stopped chk st f args of
       Some e \<Rightarrow> (Inl e, st)
     | None \<Rightarrow> reduce_app st f args)"

lemma checkpoints_exceptions: "checkpoints max_memory cs = Some e \<Longrightarrow> e = Max_memory \<or> e = Canceled"
  by (induction max_memory cs rule: checkpoints.induct) (auto simp: checkpoint_def split: if_splits)

lemma stopped_exceptions: "stopped chk st f args = Some e \<Longrightarrow> e = Max_memory \<or> e = Canceled"
  by (auto simp: stopped_def split: if_splits dest: checkpoints_exceptions)

lemma reduce_app_checked_cases:
  assumes "reduce_app_checked chk c f rs = (x, c')"
  obtains (reduced) "stopped chk c f rs = None" "reduce_app c f rs = (x, c')"
    | (thrown) e where "stopped chk c f rs = Some e" "x = Inl e" "c' = c"
proof (cases "stopped chk c f rs")
  case None
  with assms show thesis
    by (intro reduced) (simp_all add: reduce_app_checked_def)
next
  case (Some e)
  with assms show thesis
    by (intro thrown [of e]) (simp_all add: reduce_app_checked_def)
qed

lemma reduce_app_checked_Inr:
  assumes "reduce_app_checked chk c f rs = (Inr b, c')"
  shows "reduce_app c f rs = (Inr b, c')"
  using assms by (cases rule: reduce_app_checked_cases) simp_all

lemma reduce_app_checked_state:
  assumes "reduce_app_checked chk c f rs = (x, c')"
  shows "c' = c \<or> c' = snd (reduce_app c f rs)"
  using assms by (cases rule: reduce_app_checked_cases) simp_all

end
