(* ===== verification/Bit_Blaster_Rewriter_Sound.thy ===== *)
theory Bit_Blaster_Rewriter_Sound
  imports Bit_Blaster_Rewriter
begin

text \<open>
  What the reductions of \<open>bit_blaster_rewriter\<close> promise: a term that \<open>reduce_app\<close> replaces
  has the sort and the value of the term it replaces; the operators that are not supported
  raise the exception and no others do.
\<close>

section \<open>Widths are positive\<close>

lemma same_bv_sort_ok:
  assumes "same_bv ss" "list_all sort_ok ss"
  shows "0 < bv_width (hd ss)" "hd ss = BV_sort (bv_width (hd ss))" "\<forall>s \<in> set ss. s = hd ss" "ss \<noteq> []"
proof -
  obtain w where "ss \<noteq> []" "hd ss = BV_sort w"
    using assms(1) by (auto simp: same_bv_def is_bv_sort_iff)
  moreover have "sort_ok (hd ss)" using assms(2) \<open>ss \<noteq> []\<close> by (simp add: list_all_iff)
  ultimately show "0 < bv_width (hd ss)" "hd ss = BV_sort (bv_width (hd ss))" "ss \<noteq> []" by simp_all
  show "\<forall>s \<in> set ss. s = hd ss" using assms(1) by (simp add: same_bv_def all_same_def)
qed

lemma bv_range_ok:
  assumes "bv_ok k ps ss" "list_all sort_ok ss"
  shows "sort_ok (bv_range k ps ss)"
proof (cases "same_bv ss")
  case True
  note s = same_bv_sort_ok [OF True assms(2)]
  have "sort_ok (hd ss)" using s(1,2) by (metis sort_ok.simps(1))
  have "0 < sum_list (map bv_width ss)" using s(1,4) by (cases ss) simp_all
  with \<open>sort_ok (hd ss)\<close> show ?thesis using s assms(1)
    by (cases k) (simp_all add: bv_range_def bv_ok_def)
next
  case False
  have "0 < sum_list (map bv_width ss)" if "ss \<noteq> []" "\<forall>s \<in> set ss. is_bv_sort s"
    using that assms(2) by (cases ss) (auto simp: is_bv_sort_iff elim: sort_ok.elims)
  then show ?thesis using assms(1) False
    by (cases k) (simp_all add: bv_range_def bv_ok_def)
qed

lemma wf_sort_ok: "wf e \<Longrightarrow> sort_ok (get_sort e)"
proof (induction e)
  case (Var i s)
  then show ?case by simp
next
  case (App d args)
  have l: "list_all sort_ok (map get_sort args)" using App by (auto simp: list_all_iff)
  show ?case
  proof (cases d)
    case (Basic k)
    have "length args = 3 \<Longrightarrow> sort_ok (get_sort (args ! 1))"
      using l by (simp add: list_all_length)
    then show ?thesis using App.prems Basic by (cases k) auto
  next
    case (Bv k ps)
    then show ?thesis using App.prems bv_range_ok [of k ps "map get_sort args"] l by simp
  qed (use App.prems in \<open>auto elim: is_user_sort.elims\<close>)
qed

lemma wf_bv_width: "wf e \<Longrightarrow> get_sort e = BV_sort w \<Longrightarrow> 0 < w"
  using wf_sort_ok [of e] by simp

section \<open>Bits of a term\<close>

lemma bval_eval: "bval I es = bits_val (map truth (map (eval I) es))"
proof -
  have "tv I = truth \<circ> eval I" by (simp add: fun_eq_iff tv_def)
  then show ?thesis by (simp add: bval_def)
qed

lemma list_all_bexp_iff: "list_all bexp es \<longleftrightarrow> list_all wf es \<and> (\<forall>e \<in> set es. get_sort e = Bool_sort)"
  unfolding list_all_iff bexp_def by blast

definition bvterm :: "nat \<Rightarrow> expr \<Rightarrow> bool" where
  "bvterm w t = (wf t \<and> get_sort t = BV_sort w)"

lemma bvterm_pos: "bvterm w t \<Longrightarrow> 0 < w"
  using wf_bv_width by (auto simp: bvterm_def)

lemma bvterm_eval: "bvterm w t \<Longrightarrow> eval I t = VBV w (bvn (eval I t)) \<and> bvn (eval I t) < 2 ^ w"
  using eval_bv [of t w I] by (auto simp: bvterm_def)

lemma bvterm_valE:
  assumes "bvterm w t"
  obtains n where "eval I t = VBV w n" "n < 2 ^ w"
  using bvterm_eval [OF assms, of I] by metis

lemma mk_bit2bool:
  assumes "bvterm w t" "i < w"
  shows "bexp (mk_bit2bool i t)" "tv I (mk_bit2bool i t) \<longleftrightarrow> odd (bvn (eval I t) div 2 ^ i)"
proof -
  have "wf (mk_bit2bool i t) \<and> get_sort (mk_bit2bool i t) = Bool_sort"
    using assms by (simp add: mk_bit2bool_def bvterm_def bv_ok_def bv_range_def same_bv_def all_same_def)
  then show "bexp (mk_bit2bool i t)" by (simp add: bexpI)
  show "tv I (mk_bit2bool i t) \<longleftrightarrow> odd (bvn (eval I t) div 2 ^ i)"
    by (simp add: tv_def mk_bit2bool_def eval_bv_def)
qed

lemma bits_of_term:
  assumes "bvterm w t"
  shows "list_all bexp (map (\<lambda>i. mk_bit2bool i t) [0..<w])"
    "bval I (map (\<lambda>i. mk_bit2bool i t) [0..<w]) = bvn (eval I t)"
proof -
  show "list_all bexp (map (\<lambda>i. mk_bit2bool i t) [0..<w])"
    using mk_bit2bool(1) [OF assms] by (simp add: list_all_iff)
  have "map (tv I) (map (\<lambda>i. mk_bit2bool i t) [0..<w]) = map (\<lambda>i. odd (bvn (eval I t) div 2 ^ i)) [0..<w]"
    using mk_bit2bool(2) [OF assms] by simp
  then show "bval I (map (\<lambda>i. mk_bit2bool i t) [0..<w]) = bvn (eval I t)"
    unfolding bval_def using bvterm_eval [OF assms, of I] by (simp only: bits_val_map_odd) simp
qed

lemma is_mkbvE:
  assumes "is_mkbv t"
  obtains ps args where "t = App (Bv OP_MKBV ps) args"
  using assms by (cases t rule: is_mkbv.cases) auto

lemma get_bits:
  assumes "bvterm w t"
  shows "length (get_bits t) = w \<and> list_all bexp (get_bits t) \<and> bval I (get_bits t) = bvn (eval I t)"
proof (cases "is_mkbv t")
  case True
  then obtain ps args where t: "t = App (Bv OP_MKBV ps) args" by (rule is_mkbvE)
  have "list_all bexp args" "length args = w"
    using assms unfolding t bvterm_def by (simp_all add: bv_ok_def bv_range_def list_all_bexp_iff)
  then show ?thesis using True by (simp add: get_bits_def t eval_bv_def bval_eval)
next
  case False
  have "get_bv_size t = w" using assms by (simp add: bvterm_def get_bv_size_def)
  then show ?thesis using False bits_of_term [OF assms] by (simp add: get_bits_def)
qed

lemma get_bits_ne: "bvterm w t \<Longrightarrow> get_bits t \<noteq> []"
  using get_bits [of w t undefined] bvterm_pos [of w t] by auto

lemma mk_mkbv:
  assumes "length bs = w" "list_all bexp bs" "0 < w"
  shows "bvterm w (mk_mkbv bs) \<and> eval I (mk_mkbv bs) = VBV w (bval I bs)"
  using assms by (auto simp: mk_mkbv_def bvterm_def bv_ok_def bv_range_def list_all_bexp_iff eval_bv_def bval_eval)

section \<open>The reductions\<close>

text \<open>\<open>computes I w n r\<close>: the reduction returned a term of width \<open>w\<close> with value \<open>n\<close>.\<close>

definition computes :: "interp \<Rightarrow> nat \<Rightarrow> nat \<Rightarrow> expr \<Rightarrow> bool" where
  "computes I w n r = (bvterm w r \<and> eval I r = VBV w n)"

text \<open>A circuit of width \<open>w\<close> whose value is \<open>g\<close> of the values of its inputs.\<close>

definition circuit1 :: "interp \<Rightarrow> nat \<Rightarrow> nat \<Rightarrow> (expr list \<Rightarrow> expr list) \<Rightarrow> (nat \<Rightarrow> nat) \<Rightarrow> bool" where
  "circuit1 I w v op g = (\<forall>as. length as = w \<longrightarrow> list_all bexp as \<longrightarrow>
     length (op as) = v \<and> list_all bexp (op as) \<and> bval I (op as) = g (bval I as))"

definition circuit2 :: "interp \<Rightarrow> nat \<Rightarrow> (expr list \<Rightarrow> expr list \<Rightarrow> expr list) \<Rightarrow> (nat \<Rightarrow> nat \<Rightarrow> nat) \<Rightarrow> bool" where
  "circuit2 I w op g = (\<forall>as bs. length as = w \<longrightarrow> length bs = w \<longrightarrow> list_all bexp as \<longrightarrow> list_all bexp bs \<longrightarrow>
     length (op as bs) = w \<and> list_all bexp (op as bs) \<and> bval I (op as bs) = g (bval I as) (bval I bs))"

definition test2 :: "interp \<Rightarrow> nat \<Rightarrow> (expr list \<Rightarrow> expr list \<Rightarrow> expr) \<Rightarrow> (nat \<Rightarrow> nat \<Rightarrow> bool) \<Rightarrow> bool" where
  "test2 I w op g = (\<forall>as bs. length as = w \<longrightarrow> length bs = w \<longrightarrow> list_all bexp as \<longrightarrow> list_all bexp bs \<longrightarrow>
     bexp (op as bs) \<and> tv I (op as bs) = g (bval I as) (bval I bs))"

lemma unary_reduce:
  assumes "circuit1 I w v op g" "bvterm w a" "0 < v"
  shows "computes I v (g (bvn (eval I a))) (unary_reduce op a)"
  using assms get_bits [OF assms(2), of I] mk_mkbv [of "op (get_bits a)" v I]
  by (simp add: circuit1_def computes_def unary_reduce_def)

lemma bin_reduce:
  assumes "circuit2 I w op g" "bvterm w a" "bvterm w b"
  shows "computes I w (g (bvn (eval I a)) (bvn (eval I b))) (bin_reduce op a b)"
  using assms get_bits [OF assms(2), of I] get_bits [OF assms(3), of I] bvterm_pos [OF assms(2)]
    mk_mkbv [of "op (get_bits a) (get_bits b)" w I]
  by (simp add: circuit2_def computes_def bin_reduce_def)

lemma bin_ac_reduce:
  assumes "circuit2 I w op g" "bvterm w r" "list_all (bvterm w) args"
  shows "computes I w (foldl g (bvn (eval I r)) (map (bvn \<circ> eval I) args)) (bin_ac_reduce op r args)"
  using assms(2,3)
proof (induction args arbitrary: r)
  case Nil
  then show ?case using bvterm_eval [of w r I] by (simp add: computes_def)
next
  case (Cons a args)
  have c: "computes I w (g (bvn (eval I r)) (bvn (eval I a))) (bin_reduce op r a)"
    using bin_reduce [OF assms(1)] Cons.prems by simp
  then show ?case using Cons.IH [of "bin_reduce op r a"] Cons.prems by (simp add: computes_def)
qed

lemma bin_pred_reduce:
  assumes "test2 I w op g" "bvterm w a" "bvterm w b"
  shows "bexp (bin_pred_reduce op a b) \<and>
    tv I (bin_pred_reduce op a b) = g (bvn (eval I a)) (bvn (eval I b))"
  using assms get_bits [OF assms(2), of I] get_bits [OF assms(3), of I]
  by (simp add: test2_def bin_pred_reduce_def)

lemma foldl_add_mod: "a < m \<Longrightarrow> foldl (\<lambda>x y. (x + y) mod m) a xs = (a + sum_list xs) mod m" for a :: nat
  by (induction xs arbitrary: a) (simp_all add: mod_add_left_eq add.assoc)

lemma foldl_mult_mod: "a < m \<Longrightarrow> foldl (\<lambda>x y. (x * y) mod m) a xs = (a * prod_list xs) mod m" for a :: nat
  by (induction xs arbitrary: a) (simp_all add: mod_mult_left_eq mult.assoc)

lemma foldl_or: "foldl (OR) a xs = a OR foldr (OR) xs 0" for a :: nat
  by (induction xs arbitrary: a) (simp_all add: or.assoc)

lemma foldl_xor: "foldl (XOR) a xs = a XOR foldr (XOR) xs 0" for a :: nat
  by (induction xs arbitrary: a) (simp_all add: xor.assoc)

section \<open>The circuits of a blaster\<close>

context gates
begin

lemma circuits1:
  assumes "0 < w"
  shows "circuit1 I w w (bb_mk_not C) (\<lambda>x. 2 ^ w - 1 - x)"
    "circuit1 I w 1 (mk_redor C) (\<lambda>x. of_bool (x \<noteq> 0))"
    "circuit1 I w 1 (mk_redand C) (\<lambda>x. of_bool (x = 2 ^ w - 1))"
    "circuit1 I w (w + n) (\<lambda>as. mk_sign_extend as n) (\<lambda>x. of_signed (w + n) (to_signed w x))"
  using assms bb_mk_not mk_redor mk_redand mk_sign_extend unfolding circuit1_def by fastforce+

lemma circuits2:
  assumes "0 < w"
  shows "circuit2 I w (mk_adder C) (\<lambda>x y. (x + y) mod 2 ^ w)"
    "m_cfg T = C \<Longrightarrow> circuit2 I w (mk_multiplier T) (\<lambda>x y. (x * y) mod 2 ^ w)"
    "circuit2 I w (bb_mk_or C) (OR)"
    "circuit2 I w (bb_mk_xor C) (XOR)"
    "circuit2 I w (mk_sdiv C) (sdiv w)"
    "circuit2 I w (mk_udiv C) (udiv w)"
    "circuit2 I w (mk_srem C) (srem w)"
    "circuit2 I w (mk_urem C) (mod)"
    "circuit2 I w (mk_smod C) (smod w)"
    "circuit2 I w (mk_shl C) (\<lambda>x y. if w \<le> y then 0 else (x * 2 ^ y) mod 2 ^ w)"
    "circuit2 I w (mk_lshr C) (\<lambda>x y. if w \<le> y then 0 else x div 2 ^ y)"
    "circuit2 I w (mk_ashr C) (\<lambda>x y. of_signed w (to_signed w x div 2 ^ min y w))"
    "circuit2 I w (mk_ext_rotate_left C) (rotl w)"
    "circuit2 I w (mk_ext_rotate_right C) (rotr w)"
proof -
  have ne: "length as = w \<Longrightarrow> as \<noteq> []" for as :: "expr list" using assms by auto
  show "circuit2 I w (mk_adder C) (\<lambda>x y. (x + y) mod 2 ^ w)"
    unfolding circuit2_def using mk_adder by simp
  show "circuit2 I w (mk_multiplier T) (\<lambda>x y. (x * y) mod 2 ^ w)" if "m_cfg T = C"
    unfolding circuit2_def using mk_multiplier [OF that] ne by simp
  show "circuit2 I w (bb_mk_or C) (OR)" "circuit2 I w (bb_mk_xor C) (XOR)"
    unfolding circuit2_def using bb_mk_or bb_mk_xor by simp_all
  show "circuit2 I w (mk_sdiv C) (sdiv w)" "circuit2 I w (mk_srem C) (srem w)" "circuit2 I w (mk_smod C) (smod w)"
    unfolding circuit2_def using mk_sdiv mk_srem mk_smod assms by simp_all
  show "circuit2 I w (mk_udiv C) (udiv w)" "circuit2 I w (mk_urem C) (mod)"
    unfolding circuit2_def using mk_udiv_urem ne by simp_all
  show "circuit2 I w (mk_shl C) (\<lambda>x y. if w \<le> y then 0 else (x * 2 ^ y) mod 2 ^ w)"
    unfolding circuit2_def using mk_shl by simp
  show "circuit2 I w (mk_lshr C) (\<lambda>x y. if w \<le> y then 0 else x div 2 ^ y)"
    unfolding circuit2_def using mk_lshr by simp
  show "circuit2 I w (mk_ashr C) (\<lambda>x y. of_signed w (to_signed w x div 2 ^ min y w))"
    unfolding circuit2_def using mk_ashr assms by simp
  show "circuit2 I w (mk_ext_rotate_left C) (rotl w)" "circuit2 I w (mk_ext_rotate_right C) (rotr w)"
    unfolding circuit2_def mk_ext_rotate_left_def mk_ext_rotate_right_def
    using mk_ext_rotate_left_right assms by simp_all
qed

lemma tests2:
  assumes "0 < w"
  shows "test2 I w (bb_mk_eq C) (=)"
    "test2 I w (mk_ule C) (\<le>)"
    "test2 I w (mk_sle C) (\<lambda>x y. to_signed w x \<le> to_signed w y)"
    "m_cfg T = C \<Longrightarrow> test2 I w (mk_umul_no_overflow T) (\<lambda>x y. x * y < 2 ^ w)"
    "m_cfg T = C \<Longrightarrow> test2 I w (mk_smul_no_overflow T) (\<lambda>x y. to_signed w x * to_signed w y < 2 ^ (w - 1))"
    "m_cfg T = C \<Longrightarrow> test2 I w (mk_smul_no_underflow T) (\<lambda>x y. - (2 ^ (w - 1)) \<le> to_signed w x * to_signed w y)"
proof -
  have ne: "length as = w \<Longrightarrow> as \<noteq> []" for as :: "expr list" using assms by auto
  show "test2 I w (bb_mk_eq C) (=)" "test2 I w (mk_ule C) (\<le>)"
    "test2 I w (mk_sle C) (\<lambda>x y. to_signed w x \<le> to_signed w y)"
    unfolding test2_def using bb_mk_eq mk_ule mk_sle ne by simp_all
  show "test2 I w (mk_umul_no_overflow T) (\<lambda>x y. x * y < 2 ^ w)" if "m_cfg T = C"
    unfolding test2_def using mk_umul_no_overflow [OF that] assms by simp
  show "test2 I w (mk_smul_no_overflow T) (\<lambda>x y. to_signed w x * to_signed w y < 2 ^ (w - 1))"
    "test2 I w (mk_smul_no_underflow T) (\<lambda>x y. - (2 ^ (w - 1)) \<le> to_signed w x * to_signed w y)" if "m_cfg T = C"
    unfolding test2_def mk_smul_no_overflow_def mk_smul_no_underflow_def
    using mk_smul_no_overflow_core [OF that] assms by simp_all
qed

end

section \<open>\<open>reduce_app\<close>\<close>

text \<open>A reduction of \<open>e\<close> keeps its sort and its value.\<close>

definition reduces :: "interp \<Rightarrow> expr \<Rightarrow> expr \<Rightarrow> bool" where
  "reduces I e r = (wf r \<and> get_sort r = get_sort e \<and> eval I r = eval I e)"

lemma computes_reduces:
  "computes I w n r \<Longrightarrow> get_sort e = BV_sort w \<Longrightarrow> eval I e = VBV w n \<Longrightarrow> reduces I e r"
  by (simp add: computes_def reduces_def bvterm_def)

lemma test_reduces:
  "bexp r \<and> tv I r = b \<Longrightarrow> get_sort e = Bool_sort \<Longrightarrow> eval I e = VBool b \<Longrightarrow> reduces I e r"
  by (simp add: reduces_def eval_bool)

lemma bin_reduces:
  assumes "circuit2 I w op g" "bvterm w a" "bvterm w b"
    "bv_range k ps [BV_sort w, BV_sort w] = BV_sort w"
    "\<And>x y. eval_bv I k ps [VBV w x, VBV w y] = VBV w (g x y)"
  shows "reduces I (App (Bv k ps) [a, b]) (bin_reduce op a b)"
proof (rule computes_reduces [OF bin_reduce [OF assms(1-3)]])
  show "get_sort (App (Bv k ps) [a, b]) = BV_sort w" using assms(2-4) by (simp add: bvterm_def)
  show "eval I (App (Bv k ps) [a, b]) = VBV w (g (bvn (eval I a)) (bvn (eval I b)))"
    by (rule bvterm_valE [OF assms(2), of I], rule bvterm_valE [OF assms(3), of I]) (simp add: assms(5))
qed

lemma bin_pred_reduces:
  assumes "test2 I w op g" "bvterm w a" "bvterm w b"
    "bv_range k ps [BV_sort w, BV_sort w] = Bool_sort"
    "\<And>x y. eval_bv I k ps [VBV w x, VBV w y] = VBool (g x y)"
  shows "reduces I (App (Bv k ps) [a, b]) (bin_pred_reduce op a b)"
proof (rule test_reduces [OF bin_pred_reduce [OF assms(1-3)]])
  show "get_sort (App (Bv k ps) [a, b]) = Bool_sort" using assms(2-4) by (simp add: bvterm_def)
  show "eval I (App (Bv k ps) [a, b]) = VBool (g (bvn (eval I a)) (bvn (eval I b)))"
    by (rule bvterm_valE [OF assms(2), of I], rule bvterm_valE [OF assms(3), of I]) (simp add: assms(5))
qed

lemma unary_reduces:
  assumes "circuit1 I w v op g" "bvterm w a" "0 < v"
    "bv_range k ps [BV_sort w] = BV_sort v"
    "\<And>x. eval_bv I k ps [VBV w x] = VBV v (g x)"
  shows "reduces I (App (Bv k ps) [a]) (unary_reduce op a)"
proof (rule computes_reduces [OF unary_reduce [OF assms(1-3)]])
  show "get_sort (App (Bv k ps) [a]) = BV_sort v" using assms(2-4) by (simp add: bvterm_def)
  show "eval I (App (Bv k ps) [a]) = VBV v (g (bvn (eval I a)))"
    by (rule bvterm_valE [OF assms(2), of I]) (simp add: assms(5))
qed

lemma ac_reduces:
  assumes "circuit2 I w op g" "list_all (bvterm w) (a # args)"
    "bv_range k ps (map get_sort (a # args)) = get_sort a"
    "eval_bv I k ps (map (eval I) (a # args)) =
      VBV w (foldl g (bvn (eval I a)) (map (bvn \<circ> eval I) args))"
  shows "reduces I (App (Bv k ps) (a # args)) (bin_ac_reduce op a args)"
proof (rule computes_reduces [OF bin_ac_reduce [OF assms(1)]])
  show "bvterm w a" "list_all (bvterm w) args" using assms(2) by simp_all
  then show "get_sort (App (Bv k ps) (a # args)) = BV_sort w" using assms(3) by (simp add: bvterm_def)
qed (use assms(4) in simp)

text \<open>The arguments of a well-sorted application.\<close>

lemma same_bv_args:
  assumes "same_bv (map get_sort args)" "list_all wf args"
  obtains w where "list_all (bvterm w) args" "args \<noteq> []" "0 < w"
proof -
  obtain w where w: "args \<noteq> []" "get_sort (hd args) = BV_sort w"
    using assms(1) by (cases args) (auto simp: same_bv_def is_bv_sort_iff)
  have "get_sort a = BV_sort w" if "a \<in> set args" for a
    using assms(1) that w by (auto simp: same_bv_def all_same_def hd_map)
  then have b: "list_all (bvterm w) args" using assms(2) by (auto simp: list_all_iff bvterm_def)
  moreover have "0 < w" using b w(1) by (cases args) (auto dest: bvterm_pos)
  ultimately show ?thesis using that w(1) by blast
qed

lemma bvterm_sort [simp]: "bvterm w a \<Longrightarrow> get_sort a = BV_sort w" and bvterm_wf [simp]: "bvterm w a \<Longrightarrow> wf a"
  by (simp_all add: bvterm_def)

lemma bvterm_val_sort [simp]: "bvterm w a \<Longrightarrow> val_sort (eval I a) = BV_sort w"
  using bvterm_eval [of w a I] by (metis val_sort.simps(2))

lemma bvterm_bvn_less [simp]: "bvterm w a \<Longrightarrow> bvn (eval I a) < 2 ^ w"
  using bvterm_eval by blast

lemma reduce_num_reduces:
  assumes "wf (App (Bv OP_BV_NUM ps) args)"
  shows "reduces I (App (Bv OP_BV_NUM ps) args) (reduce_num (ps ! 0) (ps ! 1))"
proof -
  have b: "0 < ps ! 1" "ps ! 0 < 2 ^ (ps ! 1)" using assms by (simp_all add: bv_ok_def)
  then have "computes I (ps ! 1) (ps ! 0) (reduce_num (ps ! 0) (ps ! 1))"
    using mk_mkbv [of "num2bits (ps ! 0) (ps ! 1)" "ps ! 1" I] by (simp add: computes_def reduce_num_def)
  then show ?thesis by (rule computes_reduces) (simp_all add: bv_range_def eval_bv_def)
qed

lemma extract_bits:
  assumes "low \<le> high" "high < length bs"
  shows "map (\<lambda>i. bs ! i) [low..<high + 1] = take (high - low + 1) (drop low bs)"
  using assms by (intro nth_equalityI) (simp_all del: upt_Suc)

lemma reduce_extract_reduces:
  assumes "wf (App (Bv OP_EXTRACT ps) [a])" "bvterm w a"
  shows "reduces I (App (Bv OP_EXTRACT ps) [a]) (reduce_extract (ps ! 1) (ps ! 0) a)"
proof -
  let ?n = "ps ! 0 - ps ! 1 + 1"
  have b: "ps ! 1 \<le> ps ! 0" "ps ! 0 < w" using assms by (simp_all add: bv_ok_def)
  note g = get_bits [OF assms(2), of I]
  have e: "reduce_extract (ps ! 1) (ps ! 0) a = mk_mkbv (take ?n (drop (ps ! 1) (get_bits a)))"
    unfolding reduce_extract_def using extract_bits [OF b(1), of "get_bits a"] g b(2) by simp
  have l: "length (take ?n (drop (ps ! 1) (get_bits a))) = ?n" using g b by simp
  have "list_all bexp (take ?n (drop (ps ! 1) (get_bits a)))"
    using g by (auto simp: list_all_iff dest!: in_set_takeD in_set_dropD)
  from mk_mkbv [OF l this, of I]
  have "computes I ?n ((bvn (eval I a) div 2 ^ (ps ! 1)) mod 2 ^ ?n) (reduce_extract (ps ! 1) (ps ! 0) a)"
    unfolding e computes_def bval_take bval_drop using g by simp
  then show ?thesis by (rule computes_reduces) (simp_all add: bv_range_def eval_bv_def)
qed

lemma reduce_sign_extend_reduces:
  assumes "wf (App (Bv OP_SIGN_EXT ps) [a])" "bvterm w a"
  shows "reduces I (App (Bv OP_SIGN_EXT ps) [a]) (reduce_sign_extend a (ps ! 0))"
proof -
  have w: "0 < w" using bvterm_pos [OF assms(2)] .
  have ne: "as \<noteq> []" if "length as = w" for as :: "expr list" using that w by auto
  have "circuit1 I w (w + ps ! 0) (\<lambda>as. mk_sign_extend as (ps ! 0)) (\<lambda>x. of_signed (w + ps ! 0) (to_signed w x))"
    unfolding circuit1_def using mk_sign_extend ne by simp
  then have "reduces I (App (Bv OP_SIGN_EXT ps) [a]) (unary_reduce (\<lambda>as. mk_sign_extend as (ps ! 0)) a)"
    by (rule unary_reduces [OF _ assms(2)]) (simp_all add: w bv_range_def eval_bv_def)
  then show ?thesis by (simp add: unary_reduce_def reduce_sign_extend_def)
qed

lemma eval_widths:
  assumes "list_all wf args"
  shows "sum_list (map (bv_width \<circ> val_sort) (map (eval I) args)) = sum_list (map (bv_width \<circ> get_sort) args)"
proof -
  have "map (bv_width \<circ> val_sort) (map (eval I) args) = map (bv_width \<circ> get_sort) args"
    using assms eval_sort by (auto simp: list_all_iff)
  then show ?thesis by (simp only:)
qed

lemma fold_append_bits: "fold (\<lambda>arg out. out @ get_bits arg) xs acc = acc @ concat (map get_bits xs)"
  by (induction xs arbitrary: acc) simp_all

lemma concat_bits:
  assumes "list_all (\<lambda>a. wf a \<and> is_bv_sort (get_sort a)) args"
  shows "length (concat (map get_bits (rev args))) = sum_list (map (bv_width \<circ> get_sort) args) \<and>
    list_all bexp (concat (map get_bits (rev args))) \<and>
    bval I (concat (map get_bits (rev args))) = concat_val (map (eval I) args)"
  using assms
proof (induction args)
  case (Cons a args)
  obtain w where a: "bvterm w a" using Cons.prems unfolding bvterm_def by (cases "get_sort a") auto
  have "list_all wf args" using Cons.prems by (auto simp: list_all_iff)
  note s = eval_widths [OF this, of I]
  have p: "list_all (\<lambda>a. wf a \<and> is_bv_sort (get_sort a)) args" using Cons.prems by (simp only: list.pred_inject)
  note ih = Cons.IH [OF p, THEN conjunct1] Cons.IH [OF p, THEN conjunct2, THEN conjunct1]
    Cons.IH [OF p, THEN conjunct2, THEN conjunct2]
  note g = get_bits [OF a, of I]
  have c: "concat (map get_bits (rev (a # args))) = concat (map get_bits (rev args)) @ get_bits a" by simp
  show ?case
  proof (intro conjI)
    show "length (concat (map get_bits (rev (a # args)))) = sum_list (map (bv_width \<circ> get_sort) (a # args))"
      unfolding c length_append ih(1) using g a by simp
    show "list_all bexp (concat (map get_bits (rev (a # args))))"
      unfolding c list_all_append using ih(2) g by simp
    show "bval I (concat (map get_bits (rev (a # args)))) = concat_val (map (eval I) (a # args))"
      unfolding c bval_append ih(1,3) list.map concat_val.simps s using g by simp
  qed
qed simp

lemma reduce_concat_reduces:
  assumes "wf (App (Bv OP_CONCAT ps) args)"
  shows "reduces I (App (Bv OP_CONCAT ps) args) (reduce_concat args)"
proof -
  have ok: "args \<noteq> []" "list_all (\<lambda>a. wf a \<and> is_bv_sort (get_sort a)) args"
    using assms by (auto simp: bv_ok_def list_all_iff)
  let ?w = "sum_list (map (bv_width \<circ> get_sort) args)"
  have "list_all wf args" using ok(2) by (auto simp: list_all_iff)
  note s = eval_widths [OF this, of I]
  have srt: "get_sort (App (Bv OP_CONCAT ps) args) = BV_sort ?w"
    by (simp add: bv_range_def comp_def)
  have w: "0 < ?w" using wf_bv_width [OF assms srt] .
  have "computes I ?w (concat_val (map (eval I) args)) (reduce_concat args)"
    using concat_bits [OF ok(2), of I] mk_mkbv [of "concat (map get_bits (rev args))" ?w I] w
    by (simp add: computes_def reduce_concat_def fold_append_bits)
  then show ?thesis
  proof (rule computes_reduces [OF _ srt])
    show "eval I (App (Bv OP_CONCAT ps) args) = VBV ?w (concat_val (map (eval I) args))"
      unfolding eval.simps eval_decl.simps eval_bv_def Let_def bv_op_kind.case s ..
  qed
qed

lemma reduces_eq_bv:
  assumes "test2 I w op (=)" "bvterm w a" "bvterm w b"
  shows "reduces I (m_mk_eq a b) (bin_pred_reduce op a b)"
proof -
  obtain x y where "eval I a = VBV w x" "eval I b = VBV w y" 
    using bvterm_eval [OF assms(2), of I] bvterm_eval [OF assms(3), of I] by blast
  then show ?thesis using bin_pred_reduce [OF assms]
    by (intro test_reduces) (simp_all add: m_mk_eq_def eval_basic_def)
qed

text \<open>The kinds by the shape of their declaration.\<close>

definition bin_kinds :: "bv_op_kind list" where
  "bin_kinds = [OP_BSDIV_I, OP_BUDIV_I, OP_BSREM_I, OP_BUREM_I, OP_BSMOD_I, OP_BSHL, OP_BLSHR, OP_BASHR,
     OP_EXT_ROTATE_LEFT, OP_EXT_ROTATE_RIGHT]"

definition pred_kinds :: "bv_op_kind list" where
  "pred_kinds = [OP_ULEQ, OP_SLEQ, OP_BUMUL_NO_OVFL, OP_BSMUL_NO_OVFL, OP_BSMUL_NO_UDFL]"

definition ac_kinds :: "bv_op_kind list" where
  "ac_kinds = [OP_BADD, OP_BMUL, OP_BOR, OP_BXOR]"

definition unary_kinds :: "bv_op_kind list" where
  "unary_kinds = [OP_BNOT, OP_BREDOR, OP_BREDAND]"

definition special_kinds :: "bv_op_kind list" where
  "special_kinds = [OP_BV_NUM, OP_CONCAT, OP_SIGN_EXT, OP_EXTRACT]"

lemmas kinds_defs = bin_kinds_def pred_kinds_def ac_kinds_def unary_kinds_def special_kinds_def

lemma reduce_bv_done:
  assumes "reduce_bv st k ps args = Inr (BR_DONE r)"
  shows "k \<in> set bin_kinds \<or> k \<in> set pred_kinds \<or> k \<in> set ac_kinds \<or> k \<in> set unary_kinds \<or> k \<in> set special_kinds"
  using assms by (cases k) (simp_all add: reduce_bv_def Let_def kinds_defs split: if_split_asm)

lemma kinds_args:
  assumes "wf (App (Bv k ps) args)"
  shows "k \<in> set bin_kinds \<or> k \<in> set pred_kinds \<Longrightarrow> same_bv (map get_sort args) \<and> length args = 2"
    "k \<in> set ac_kinds \<Longrightarrow> same_bv (map get_sort args)"
    "k \<in> set unary_kinds \<or> k = OP_SIGN_EXT \<or> k = OP_EXTRACT \<Longrightarrow> same_bv (map get_sort args) \<and> length args = 1"
  using assms by (auto simp: kinds_defs bv_ok_def)

context gates
begin

text \<open>Every kind with the circuit the \<open>switch\<close> chooses for it.\<close>

lemma bin_kinds_reduce:
  assumes "bvterm w a" "bvterm w b"
  shows
    "reduces I (App (Bv OP_BSDIV_I ps) [a, b]) (bin_reduce (mk_sdiv C) a b)"
    "reduces I (App (Bv OP_BUDIV_I ps) [a, b]) (bin_reduce (mk_udiv C) a b)"
    "reduces I (App (Bv OP_BSREM_I ps) [a, b]) (bin_reduce (mk_srem C) a b)"
    "reduces I (App (Bv OP_BUREM_I ps) [a, b]) (bin_reduce (mk_urem C) a b)"
    "reduces I (App (Bv OP_BSMOD_I ps) [a, b]) (bin_reduce (mk_smod C) a b)"
    "reduces I (App (Bv OP_BSHL ps) [a, b]) (bin_reduce (mk_shl C) a b)"
    "reduces I (App (Bv OP_BLSHR ps) [a, b]) (bin_reduce (mk_lshr C) a b)"
    "reduces I (App (Bv OP_BASHR ps) [a, b]) (bin_reduce (mk_ashr C) a b)"
    "reduces I (App (Bv OP_EXT_ROTATE_LEFT ps) [a, b]) (bin_reduce (mk_ext_rotate_left C) a b)"
    "reduces I (App (Bv OP_EXT_ROTATE_RIGHT ps) [a, b]) (bin_reduce (mk_ext_rotate_right C) a b)"
proof -
  note c = circuits2 [OF bvterm_pos [OF assms(1)]]
  show "reduces I (App (Bv OP_BSDIV_I ps) [a, b]) (bin_reduce (mk_sdiv C) a b)"
    by (rule bin_reduces [OF c(5) assms]) (simp_all add: bv_range_def eval_bv_def)
  show "reduces I (App (Bv OP_BUDIV_I ps) [a, b]) (bin_reduce (mk_udiv C) a b)"
    by (rule bin_reduces [OF c(6) assms]) (simp_all add: bv_range_def eval_bv_def)
  show "reduces I (App (Bv OP_BSREM_I ps) [a, b]) (bin_reduce (mk_srem C) a b)"
    by (rule bin_reduces [OF c(7) assms]) (simp_all add: bv_range_def eval_bv_def)
  show "reduces I (App (Bv OP_BUREM_I ps) [a, b]) (bin_reduce (mk_urem C) a b)"
    by (rule bin_reduces [OF c(8) assms]) (simp_all add: bv_range_def eval_bv_def)
  show "reduces I (App (Bv OP_BSMOD_I ps) [a, b]) (bin_reduce (mk_smod C) a b)"
    by (rule bin_reduces [OF c(9) assms]) (simp_all add: bv_range_def eval_bv_def)
  show "reduces I (App (Bv OP_BSHL ps) [a, b]) (bin_reduce (mk_shl C) a b)"
    by (rule bin_reduces [OF c(10) assms]) (simp_all add: bv_range_def eval_bv_def)
  show "reduces I (App (Bv OP_BLSHR ps) [a, b]) (bin_reduce (mk_lshr C) a b)"
    by (rule bin_reduces [OF c(11) assms]) (simp_all add: bv_range_def eval_bv_def)
  show "reduces I (App (Bv OP_BASHR ps) [a, b]) (bin_reduce (mk_ashr C) a b)"
    by (rule bin_reduces [OF c(12) assms]) (simp_all add: bv_range_def eval_bv_def)
  show "reduces I (App (Bv OP_EXT_ROTATE_LEFT ps) [a, b]) (bin_reduce (mk_ext_rotate_left C) a b)"
    by (rule bin_reduces [OF c(13) assms]) (simp_all add: bv_range_def eval_bv_def)
  show "reduces I (App (Bv OP_EXT_ROTATE_RIGHT ps) [a, b]) (bin_reduce (mk_ext_rotate_right C) a b)"
    by (rule bin_reduces [OF c(14) assms]) (simp_all add: bv_range_def eval_bv_def)
qed

lemma pred_kinds_reduce:
  assumes "bvterm w a" "bvterm w b" "m_cfg T = C"
  shows
    "reduces I (App (Bv OP_ULEQ ps) [a, b]) (bin_pred_reduce (mk_ule C) a b)"
    "reduces I (App (Bv OP_SLEQ ps) [a, b]) (bin_pred_reduce (mk_sle C) a b)"
    "reduces I (App (Bv OP_BUMUL_NO_OVFL ps) [a, b]) (bin_pred_reduce (mk_umul_no_overflow T) a b)"
    "reduces I (App (Bv OP_BSMUL_NO_OVFL ps) [a, b]) (bin_pred_reduce (mk_smul_no_overflow T) a b)"
    "reduces I (App (Bv OP_BSMUL_NO_UDFL ps) [a, b]) (bin_pred_reduce (mk_smul_no_underflow T) a b)"
proof -
  note c = tests2 [OF bvterm_pos [OF assms(1)]]
  show "reduces I (App (Bv OP_ULEQ ps) [a, b]) (bin_pred_reduce (mk_ule C) a b)"
    by (rule bin_pred_reduces [OF c(2) assms(1,2)]) (simp_all add: bv_range_def eval_bv_def)
  show "reduces I (App (Bv OP_SLEQ ps) [a, b]) (bin_pred_reduce (mk_sle C) a b)"
    by (rule bin_pred_reduces [OF c(3) assms(1,2)]) (simp_all add: bv_range_def eval_bv_def)
  show "reduces I (App (Bv OP_BUMUL_NO_OVFL ps) [a, b]) (bin_pred_reduce (mk_umul_no_overflow T) a b)"
    by (rule bin_pred_reduces [OF c(4) [OF assms(3)] assms(1,2)]) (simp_all add: bv_range_def eval_bv_def)
  show "reduces I (App (Bv OP_BSMUL_NO_OVFL ps) [a, b]) (bin_pred_reduce (mk_smul_no_overflow T) a b)"
    by (rule bin_pred_reduces [OF c(5) [OF assms(3)] assms(1,2)]) (simp_all add: bv_range_def eval_bv_def)
  show "reduces I (App (Bv OP_BSMUL_NO_UDFL ps) [a, b]) (bin_pred_reduce (mk_smul_no_underflow T) a b)"
    by (rule bin_pred_reduces [OF c(6) [OF assms(3)] assms(1,2)]) (simp_all add: bv_range_def eval_bv_def)
qed

lemma unary_kinds_reduce:
  assumes "bvterm w a"
  shows "reduces I (App (Bv OP_BNOT ps) [a]) (unary_reduce (bb_mk_not C) a)"
    "reduces I (App (Bv OP_BREDOR ps) [a]) (unary_reduce (mk_redor C) a)"
    "reduces I (App (Bv OP_BREDAND ps) [a]) (unary_reduce (mk_redand C) a)"
proof -
  note w = bvterm_pos [OF assms(1)]
  note c = circuits1 [OF w]
  show "reduces I (App (Bv OP_BNOT ps) [a]) (unary_reduce (bb_mk_not C) a)"
    by (rule unary_reduces [OF c(1) assms w]) (simp_all add: bv_range_def eval_bv_def)
  show "reduces I (App (Bv OP_BREDOR ps) [a]) (unary_reduce (mk_redor C) a)"
    by (rule unary_reduces [OF c(2) assms]) (simp_all add: bv_range_def eval_bv_def)
  show "reduces I (App (Bv OP_BREDAND ps) [a]) (unary_reduce (mk_redand C) a)"
    by (rule unary_reduces [OF c(3) assms]) (simp_all add: bv_range_def eval_bv_def)
qed

lemma ac_kinds_reduce:
  assumes "list_all (bvterm w) (a # args)" "m_cfg T = C"
  shows "reduces I (App (Bv OP_BADD ps) (a # args)) (bin_ac_reduce (mk_adder C) a args)"
    "reduces I (App (Bv OP_BMUL ps) (a # args)) (bin_ac_reduce (mk_multiplier T) a args)"
    "reduces I (App (Bv OP_BOR ps) (a # args)) (bin_ac_reduce (bb_mk_or C) a args)"
    "reduces I (App (Bv OP_BXOR ps) (a # args)) (bin_ac_reduce (bb_mk_xor C) a args)"
proof -
  have a: "bvterm w a" using assms(1) by simp
  note c = circuits2 [OF bvterm_pos [OF a]]
  have lt: "bvn (eval I a) < 2 ^ w" using bvterm_bvn_less [OF a] .
  note s = bv_range_def eval_bv_def bvterm_val_sort [OF a] Let_def
  show "reduces I (App (Bv OP_BADD ps) (a # args)) (bin_ac_reduce (mk_adder C) a args)"
    by (rule ac_reduces [OF c(1) assms(1)]) (simp_all add: s foldl_add_mod [OF lt])
  show "reduces I (App (Bv OP_BMUL ps) (a # args)) (bin_ac_reduce (mk_multiplier T) a args)"
    by (rule ac_reduces [OF c(2) [OF assms(2)] assms(1)]) (simp_all add: s foldl_mult_mod [OF lt])
  show "reduces I (App (Bv OP_BOR ps) (a # args)) (bin_ac_reduce (bb_mk_or C) a args)"
    by (rule ac_reduces [OF c(3) assms(1)]) (simp_all add: s foldl_or)
  show "reduces I (App (Bv OP_BXOR ps) (a # args)) (bin_ac_reduce (bb_mk_xor C) a args)"
    by (rule ac_reduces [OF c(4) assms(1)]) (simp_all add: s foldl_xor)
qed

lemma reduce_bv_sound:
  assumes cfg: "m_cfg (m_blaster st) = C" and wf: "wf (App (Bv k ps) args)"
    and r: "reduce_bv st k ps args = Inr (BR_DONE r)"
  shows "reduces I (App (Bv k ps) args) r"
proof -
  have wfa: "list_all wf args" using wf by simp
  note sh = kinds_args [OF wf]
  from reduce_bv_done [OF r] show ?thesis
  proof (elim disjE)
    assume k: "k \<in> set bin_kinds"
    then obtain w where w: "list_all (bvterm w) args" using sh(1) same_bv_args wfa by metis
    obtain a b where ab: "args = [a, b]" using sh(1) k unfolding length_2_conv by blast
    have "bvterm w a" "bvterm w b" using w by (simp_all add: ab)
    from bin_kinds_reduce [OF this, of ps] k r show ?thesis
      by (auto simp: bin_kinds_def reduce_bv_def ab cfg split: if_split_asm)
  next
    assume k: "k \<in> set pred_kinds"
    then obtain w where w: "list_all (bvterm w) args" using sh(1) same_bv_args wfa by metis
    obtain a b where ab: "args = [a, b]" using sh(1) k unfolding length_2_conv by blast
    have "bvterm w a" "bvterm w b" using w by (simp_all add: ab)
    from pred_kinds_reduce [OF this cfg, of ps] k r show ?thesis
      by (auto simp: pred_kinds_def reduce_bv_def ab cfg split: if_split_asm)
  next
    assume k: "k \<in> set ac_kinds"
    then obtain w where w: "list_all (bvterm w) args" "args \<noteq> []" using sh(2) same_bv_args wfa by metis
    then obtain a as where ab: "args = a # as" by (cases args) simp_all
    from ac_kinds_reduce [OF w(1) [unfolded ab] cfg, of ps] k r show ?thesis
      by (auto simp: ac_kinds_def reduce_bv_def ab cfg split: if_split_asm)
  next
    assume k: "k \<in> set unary_kinds"
    then obtain w where w: "list_all (bvterm w) args" using sh(3) same_bv_args wfa by metis
    obtain a where ab: "args = [a]" using sh(3) k by (auto simp: length_Suc_conv)
    have "bvterm w a" using w by (simp add: ab)
    from unary_kinds_reduce [OF this, of ps] k r show ?thesis
      by (auto simp: unary_kinds_def reduce_bv_def ab cfg split: if_split_asm)
  next
    assume k: "k \<in> set special_kinds"
    show ?thesis
    proof (cases "k = OP_SIGN_EXT \<or> k = OP_EXTRACT")
      case True
      then obtain w where w: "list_all (bvterm w) args" using sh(3) same_bv_args wfa by metis
      obtain a where ab: "args = [a]" using sh(3) True by (auto simp: length_Suc_conv)
      have a: "bvterm w a" using w by (simp add: ab)
      show ?thesis
        using True r wf reduce_sign_extend_reduces [OF _ a, of ps] reduce_extract_reduces [OF _ a, of ps]
        by (auto simp: reduce_bv_def ab)
    next
      case False
      then show ?thesis
        using k r wf reduce_num_reduces [of ps args] reduce_concat_reduces [of ps args]
        by (auto simp: special_kinds_def reduce_bv_def)
    qed
  qed
qed

lemma reduce_ite_reduces:
  assumes "bexp c" "bvterm w a" "bvterm w b"
  shows "reduces I (App (Basic OP_ITE) [c, a, b]) (reduce_ite C c a b)"
proof -
  note g = get_bits [OF assms(2), of I] get_bits [OF assms(3), of I]
  have m: "length (mk_multiplexer C c (get_bits a) (get_bits b)) = w"
    "list_all bexp (mk_multiplexer C c (get_bits a) (get_bits b))"
    "bval I (mk_multiplexer C c (get_bits a) (get_bits b)) = (if tv I c then bvn (eval I a) else bvn (eval I b))"
    using mk_multiplexer [OF assms(1), of "get_bits a" "get_bits b"] g by simp_all
  from mk_mkbv [OF m(1,2) bvterm_pos [OF assms(2)], of I]
  have "computes I w (if tv I c then bvn (eval I a) else bvn (eval I b)) (reduce_ite C c a b)"
    by (simp add: computes_def reduce_ite_def m)
  then show ?thesis
  proof (rule computes_reduces)
    show "get_sort (App (Basic OP_ITE) [c, a, b]) = BV_sort w" using assms by simp
    show "eval I (App (Basic OP_ITE) [c, a, b]) = VBV w (if tv I c then bvn (eval I a) else bvn (eval I b))"
      by (rule bvterm_valE [OF assms(2), of I], rule bvterm_valE [OF assms(3), of I])
        (simp add: eval_basic_def tv_def)
  qed
qed

end

lemma blast_bv_term_reduces:
  assumes "bvterm w t"
  shows "reduces I t (blast_bv_term t)"
proof -
  have "get_bv_size t = w" using assms by (simp add: get_bv_size_def)
  then have "computes I w (bvn (eval I t)) (blast_bv_term t)"
    using bits_of_term(1) [OF assms] bits_of_term(2) [OF assms, of I] mk_mkbv [of "map (\<lambda>i. mk_bit2bool i t) [0..<w]" w I] bvterm_pos [OF assms]
    by (simp add: computes_def blast_bv_term_def)
  then show ?thesis
    by (rule computes_reduces [OF _ bvterm_sort [OF assms] conjunct1 [OF bvterm_eval [OF assms]]])
qed

section \<open>The constants\<close>

text \<open>
  \<open>consistent st I\<close>: under \<open>I\<close> every constant mapped so far has the value of its bits. The
  reductions of constants keep the value under such interpretations.
\<close>

definition consistent :: "blaster_rewriter_cfg \<Rightarrow> interp \<Rightarrow> bool" where
  "consistent st I = (\<forall>f r. m_const2bits st f = Some r \<longrightarrow> eval I (App f []) = eval I r)"

text \<open>
  The invariant of the state: the map is the table of keys and values, the keys are distinct
  bit-vector constants, their values are vectors of Boolean constants of the same width, and
  the limits of the scopes are positions in the tables, in order.
\<close>

fun is_bit_const :: "expr \<Rightarrow> bool" where
  "is_bit_const (App (Uninterp s [] Bool_sort) []) = True"
| "is_bit_const _ = False"

fun entry_ok :: "func_decl \<Rightarrow> expr \<Rightarrow> bool" where
  "entry_ok (Uninterp s ds (BV_sort w)) (App (Bv OP_MKBV ps) bits) =
    (ds = [] \<and> ps = [] \<and> length bits = w \<and> 0 < w \<and> list_all is_bit_const bits)"
| "entry_ok _ _ = False"

definition cfg_inv :: "blaster_rewriter_cfg \<Rightarrow> bool" where
  "cfg_inv st = (length (m_values st) = length (m_keys st) \<and> distinct (m_keys st)
     \<and> m_const2bits st = map_of (zip (m_keys st) (m_values st))
     \<and> list_all2 entry_ok (m_keys st) (m_values st)
     \<and> length (m_newbits_lim st) = length (m_keyval_lim st)
     \<and> sorted (m_keyval_lim st @ [length (m_keys st)])
     \<and> sorted (m_newbits_lim st @ [length (m_newbits st)]))"

lemma is_bit_const_bexp: "is_bit_const e \<Longrightarrow> bexp e"
  by (cases e rule: is_bit_const.cases) (auto intro: bexpI)

lemma entry_okE:
  assumes "entry_ok f r"
  obtains s w bits where "f = Uninterp s [] (BV_sort w)" "r = mk_mkbv bits" "length bits = w" "0 < w"
    "list_all is_bit_const bits"
  using assms by (cases "(f, r)" rule: entry_ok.cases) (auto simp: mk_mkbv_def)

lemma entry_ok_bvterm:
  assumes "entry_ok f r"
  obtains w where "bvterm w (App f [])" "bvterm w r"
proof -
  obtain s w bits where e: "f = Uninterp s [] (BV_sort w)" "r = mk_mkbv bits" "length bits = w" "0 < w"
    "list_all is_bit_const bits" using assms by (rule entry_okE)
  have "list_all bexp bits" using e(5) is_bit_const_bexp by (auto simp: list_all_iff)
  from mk_mkbv [OF e(3) this e(4)] have "bvterm w r" by (simp add: e(2))
  moreover have "bvterm w (App f [])" using e(4) by (simp add: e(1) bvterm_def)
  ultimately show ?thesis using that by blast
qed

definition fresh_bit :: "32 word \<Rightarrow> nat \<Rightarrow> func_decl" where
  "fresh_bit n i = Uninterp (Num (unat (n + of_nat i))) [] Bool_sort"

definition fresh_bits :: "32 word \<Rightarrow> nat \<Rightarrow> func_decl list" where
  "fresh_bits n k = map (fresh_bit n) [0..<k]"

lemma fresh_bits_Suc: "fresh_bits n (Suc k) = fresh_bit n 0 # fresh_bits (n + 1) k"
proof -
  have "[0..<Suc k] = 0 # map Suc [0..<k]" by (simp add: map_Suc_upt upt_conv_Cons)
  then show ?thesis by (simp add: fresh_bits_def fresh_bit_def add.assoc)
qed

lemma length_fresh_bits [simp]: "length (fresh_bits n k) = k"
  by (simp add: fresh_bits_def)

lemma mk_fresh_bits:
  "mk_fresh_bits k st =
    (map (\<lambda>d. App d []) (fresh_bits (m_fresh_id st) k),
     st\<lparr>m_newbits := m_newbits st @ fresh_bits (m_fresh_id st) k, m_fresh_id := m_fresh_id st + of_nat k\<rparr>)"
proof (induction k arbitrary: st)
  case 0
  then show ?case by (simp add: fresh_bits_def)
next
  case (Suc k)
  then show ?case
    by (simp add: mk_fresh_const_def Let_def fresh_bits_Suc fresh_bit_def add.assoc add.commute)
qed

lemma fresh_bits_const: "list_all is_bit_const (map (\<lambda>d. App d []) (fresh_bits n k))"
  by (simp add: fresh_bits_def fresh_bit_def list_all_iff)

lemma mk_const_known: "m_const2bits st f = Some r \<Longrightarrow> mk_const st f = (r, st)"
  by (simp add: mk_const_def)

definition new_const :: "blaster_rewriter_cfg \<Rightarrow> func_decl \<Rightarrow> expr" where
  "new_const st f = mk_mkbv (map (\<lambda>d. App d []) (fresh_bits (m_fresh_id st) (bv_width (decl_range f []))))"

lemma mk_const_new:
  assumes "m_const2bits st f = None"
  shows "mk_const st f = (new_const st f,
    st\<lparr>m_newbits := m_newbits st @ fresh_bits (m_fresh_id st) (bv_width (decl_range f [])),
       m_fresh_id := m_fresh_id st + of_nat (bv_width (decl_range f [])),
       m_const2bits := (m_const2bits st)(f \<mapsto> new_const st f),
       m_keys := m_keys st @ [f], m_values := m_values st @ [new_const st f]\<rparr>)"
  using assms by (simp add: mk_const_def mk_fresh_bits Let_def new_const_def)

text \<open>The constants \<open>mk_const\<close> accepts.\<close>

fun is_bv_const :: "func_decl \<Rightarrow> bool" where
  "is_bv_const (Uninterp s ds (BV_sort w)) = (ds = [] \<and> 0 < w)"
| "is_bv_const _ = False"

lemma new_const_entry: "is_bv_const f \<Longrightarrow> entry_ok f (new_const st f)"
  using fresh_bits_const by (cases f rule: is_bv_const.cases) (auto simp: new_const_def mk_mkbv_def)

lemma cfg_inv_entry:
  assumes "cfg_inv st" "m_const2bits st f = Some r"
  shows "entry_ok f r"
proof -
  have "(f, r) \<in> set (zip (m_keys st) (m_values st))"
    using assms by (auto simp: cfg_inv_def dest: map_of_SomeD)
  then show ?thesis using assms(1) by (auto simp: cfg_inv_def list_all2_iff)
qed

lemma mk_const_inv:
  assumes inv: "cfg_inv st" and f: "is_bv_const f"
  shows "cfg_inv (snd (mk_const st f)) \<and> m_const2bits (snd (mk_const st f)) f = Some (fst (mk_const st f))"
proof (cases "m_const2bits st f")
  case (Some r)
  then show ?thesis using inv by (simp add: mk_const_known)
next
  case None
  have k: "f \<notin> set (m_keys st)"
    using None inv by (simp add: cfg_inv_def map_of_zip_is_None)
  have m: "m_const2bits st = map_of (zip (m_keys st) (m_values st))" using inv by (simp add: cfg_inv_def)
  have e: "map_of (zip (m_keys st @ [f]) (m_values st @ [new_const st f])) = (m_const2bits st)(f \<mapsto> new_const st f)"
  proof
    fix x
    let ?m = "map_of (zip (m_keys st) (m_values st))"
    have len: "length (m_keys st) = length (m_values st)" using inv by (simp add: cfg_inv_def)
    have mf: "?m f = None" unfolding map_of_zip_is_None [OF len] by (rule k)
    have z: "map_of (zip (m_keys st @ [f]) (m_values st @ [new_const st f])) x =
        (case ?m x of None \<Rightarrow> [f \<mapsto> new_const st f] x | Some v \<Rightarrow> Some v)"
      using len by (simp add: map_add_def)
    show "map_of (zip (m_keys st @ [f]) (m_values st @ [new_const st f])) x =
        ((m_const2bits st)(f \<mapsto> new_const st f)) x"
      unfolding z m using mf by (cases "x = f"; cases "?m x") (simp_all only: fun_upd_apply option.case if_True if_False refl)
  qed
  have "cfg_inv (snd (mk_const st f))"
    unfolding mk_const_new [OF None] cfg_inv_def snd_conv
    using inv k new_const_entry [OF f, of st] e
    by (auto simp: cfg_inv_def sorted_append list_all2_append intro: le_trans)
  then show ?thesis by (simp add: mk_const_new [OF None])
qed

lemma mk_const_sound:
  assumes "cfg_inv st" "is_bv_const f" "consistent (snd (mk_const st f)) I"
  shows "reduces I (App f []) (fst (mk_const st f))"
proof -
  note i = mk_const_inv [OF assms(1,2)]
  have "entry_ok f (fst (mk_const st f))" using i by (blast intro: cfg_inv_entry)
  then obtain w where w: "bvterm w (App f [])" "bvterm w (fst (mk_const st f))" by (rule entry_ok_bvterm)
  have "eval I (App f []) = eval I (fst (mk_const st f))"
    using assms(3) i by (simp add: consistent_def)
  then show ?thesis unfolding reduces_def using w by (metis bvterm_sort bvterm_wf)
qed

text \<open>\<open>reduce_app\<close> on a constant and on the other terms.\<close>

definition const_case :: "func_decl \<Rightarrow> expr list \<Rightarrow> bool" where
  "const_case f args = (args = [] \<and> is_null_family f \<and> is_bv_sort (decl_range f (map get_sort args)))"

lemma const_case_is_bv_const: "const_case f args \<Longrightarrow> wf (App f args) \<Longrightarrow> args = [] \<and> is_bv_const f"
  by (cases f rule: is_bv_const.cases) (auto simp: const_case_def)

lemma reduce_app_const:
  "const_case f args \<Longrightarrow> reduce_app st f args = (Inr (BR_DONE (fst (mk_const st f))), snd (mk_const st f))"
  unfolding reduce_app_def const_case_def Let_def case_prod_beta by (rule if_P)

lemma reduce_app_other_state:
  assumes "\<not> const_case f args"
  shows "snd (reduce_app st f args) = st"
proof (cases f)
  case (Basic k)
  then show ?thesis using assms by (simp add: reduce_app_def const_case_def Let_def)
qed (use assms in \<open>auto simp: reduce_app_def const_case_def Let_def\<close>)

lemma basic_eq_args:
  assumes "wf (App (Basic OP_EQ) args)"
  obtains a b where "args = [a, b]" "wf a" "wf b" "get_sort a = get_sort b"
proof -
  have "length args = 2" using assms by simp
  then obtain a b where "args = [a, b]" unfolding length_2_conv by blast
  with that assms show ?thesis by simp
qed

lemma basic_ite_args:
  assumes "wf (App (Basic OP_ITE) args)"
  obtains c a b where "args = [c, a, b]" "bexp c" "wf a" "wf b" "get_sort a = get_sort b"
proof -
  have "length args = 3" using assms by simp
  then obtain c a b where e: "args = [c, a, b]" unfolding length_3_conv by blast
  have p: "wf c" "get_sort c = Bool_sort" "wf a" "wf b" "get_sort a = get_sort b"
    using assms by (simp_all add: e)
  show ?thesis by (rule that [OF e bexpI [OF p(1,2)] p(3-5)])
qed

lemma is_bvE:
  assumes "is_bv a" "wf a"
  obtains w where "bvterm w a"
proof -
  obtain w where "get_sort a = BV_sort w" using assms(1) unfolding is_bv_def by (cases "get_sort a") auto
  then have "bvterm w a" using assms(2) unfolding bvterm_def by blast
  then show ?thesis by (rule that)
qed

context gates
begin

lemma reduce_app_sound:
  assumes cfg: "m_cfg (m_blaster st) = C" and inv: "cfg_inv st" and wf: "wf (App f args)"
    and r: "reduce_app st f args = (Inr (BR_DONE r), st')" and I: "consistent st' I"
  shows "reduces I (App f args) r"
proof (cases "const_case f args")
  case True
  then have "args = []" "is_bv_const f" using const_case_is_bv_const wf by blast+
  then show ?thesis using mk_const_sound [OF inv, of f I] r I reduce_app_const [OF True, of st] by simp
next
  case False
  then have nc: "\<not> (args = [] \<and> is_null_family f \<and> is_bv_sort (decl_range f (map get_sort args)))"
    by (simp add: const_case_def)
  have blast: "reduces I (App f args) (blast_bv_term (App f args))" if "is_bv_sort (decl_range f (map get_sort args))"
    using is_bvE [OF _ wf] blast_bv_term_reduces that by (metis get_sort.simps(2) is_bv_def)
  show ?thesis
  proof (cases f)
    case (Basic k)
    consider "k = OP_EQ" | "k = OP_ITE" | "k \<noteq> OP_EQ" "k \<noteq> OP_ITE" by blast
    then show ?thesis
    proof cases
      case 1
      obtain a b where ab: "args = [a, b]" "wf a" "wf b" "get_sort a = get_sort b"
        using basic_eq_args wf 1 Basic by blast
      have bv: "is_bv a" "r = bin_pred_reduce (bb_mk_eq C) a b"
        using r 1 Basic ab(1) cfg by (auto simp: reduce_app_def Let_def split: if_split_asm)
      obtain w where w: "bvterm w a" using bv(1) ab(2) by (rule is_bvE)
      have wb: "bvterm w b" using w ab(3,4) unfolding bvterm_def by simp
      show ?thesis
        using reduces_eq_bv [OF tests2(1) [OF bvterm_pos [OF w]] w wb] bv(2)
        by (simp add: 1 Basic ab(1) m_mk_eq_def)
    next
      case 2
      obtain c a b where ab: "args = [c, a, b]" "bexp c" "wf a" "wf b" "get_sort a = get_sort b"
        using basic_ite_args wf 2 Basic by blast
      have bv: "is_bv a" "r = reduce_ite C c a b"
        using r 2 Basic ab(1) cfg by (auto simp: reduce_app_def Let_def split: if_split_asm)
      obtain w where w: "bvterm w a" using bv(1) ab(3) by (rule is_bvE)
      have wb: "bvterm w b" using w ab(4,5) unfolding bvterm_def by simp
      show ?thesis using reduce_ite_reduces [OF ab(2) w wb] bv(2) by (simp add: 2 Basic ab(1))
    next
      case 3
      then show ?thesis using r Basic blast by (auto simp: reduce_app_def Let_def split: if_split_asm)
    qed
  next
    case (Bv k ps)
    then have "reduce_bv st k ps args = Inr (BR_DONE r)" using r nc by (auto simp: reduce_app_def Let_def)
    then show ?thesis using reduce_bv_sound [OF cfg] wf Bv by blast
  qed (use r nc blast in \<open>auto simp: reduce_app_def Let_def split: if_split_asm\<close>)
qed

end

lemma reduce_app_inv:
  assumes "cfg_inv st" "wf (App f args)"
  shows "cfg_inv (snd (reduce_app st f args))"
proof (cases "const_case f args")
  case True
  then have "is_bv_const f" using const_case_is_bv_const assms(2) by blast
  then show ?thesis using mk_const_inv [OF assms(1)] reduce_app_const [OF True] by simp
qed (simp add: reduce_app_other_state assms(1))

end
