(* ===== verification/Bit_Blaster_Scopes.thy ===== *)
theory Bit_Blaster_Scopes
  imports Bit_Blaster_Rewriter_Sound
begin

text \<open>
  The scopes of \<open>bit_blaster_rewriter\<close> as a state machine: the constants mapped inside a
  scope disappear when it is closed and nothing else changes; the map handed out by
  \<open>end_rewrite\<close> holds exactly the constants mapped since \<open>start_rewrite\<close>; and mapping a
  constant to fresh bits loses no model.
\<close>

section \<open>Growth\<close>

text \<open>The tables of \<open>st'\<close> begin with those of \<open>st\<close>; scopes and options are the same.\<close>

definition grows :: "blaster_rewriter_cfg \<Rightarrow> blaster_rewriter_cfg \<Rightarrow> bool" where
  "grows st st' = (\<exists>c ks vs ns n. st' = st\<lparr>m_const2bits := c, m_keys := m_keys st @ ks,
     m_values := m_values st @ vs, m_newbits := m_newbits st @ ns, m_fresh_id := n\<rparr>)"

lemma growsI:
  "st' = st\<lparr>m_const2bits := c, m_keys := m_keys st @ ks, m_values := m_values st @ vs,
     m_newbits := m_newbits st @ ns, m_fresh_id := n\<rparr> \<Longrightarrow> grows st st'"
  unfolding grows_def by blast

lemma grows_refl [simp]: "grows st st"
  by (rule growsI [where c = "m_const2bits st" and ks = "[]" and vs = "[]" and ns = "[]" and n = "m_fresh_id st"]) simp

lemma grows_trans [trans]:
  assumes "grows a b" "grows b c"
  shows "grows a c"
proof -
  obtain m ks vs ns n where b: "b = a\<lparr>m_const2bits := m, m_keys := m_keys a @ ks,
     m_values := m_values a @ vs, m_newbits := m_newbits a @ ns, m_fresh_id := n\<rparr>"
    using assms(1) unfolding grows_def by blast
  obtain m' ks' vs' ns' n' where c: "c = b\<lparr>m_const2bits := m', m_keys := m_keys b @ ks',
     m_values := m_values b @ vs', m_newbits := m_newbits b @ ns', m_fresh_id := n'\<rparr>"
    using assms(2) unfolding grows_def by blast
  show ?thesis
    by (rule growsI [where c = m' and ks = "ks @ ks'" and vs = "vs @ vs'" and ns = "ns @ ns'" and n = n']) (simp add: c b)
qed

lemma mk_const_grows: "grows st (snd (mk_const st f))"
proof (cases "m_const2bits st f")
  case None
  show ?thesis
    by (rule growsI [where c = "(m_const2bits st)(f \<mapsto> new_const st f)" and ks = "[f]" and vs = "[new_const st f]"
        and ns = "fresh_bits (m_fresh_id st) (bv_width (decl_range f []))"
        and n = "m_fresh_id st + of_nat (bv_width (decl_range f []))"])
      (simp add: mk_const_new [OF None])
qed (simp add: mk_const_known)

lemma reduce_app_grows: "grows st (snd (reduce_app st f args))"
  using mk_const_grows [of st f] reduce_app_other_state [of f args st] reduce_app_const [of f args st]
  by (cases "const_case f args") simp_all

text \<open>A sequence of reductions, each of a well-sorted application.\<close>

fun reduce_apps ::
    "blaster_rewriter_cfg \<Rightarrow> (func_decl \<times> expr list) list \<Rightarrow> blaster_rewriter_cfg" where
  "reduce_apps st [] = st"
| "reduce_apps st ((f, args) # es) = reduce_apps (snd (reduce_app st f args)) es"

lemma reduce_apps:
  assumes "cfg_inv st" "\<forall>(f, args) \<in> set es. wf (App f args)"
  shows "cfg_inv (reduce_apps st es) \<and> grows st (reduce_apps st es)"
  using assms
proof (induction es arbitrary: st)
  case (Cons e es)
  obtain f args where e: "e = (f, args)" by force
  have "cfg_inv (snd (reduce_app st f args))" using Cons.prems by (simp add: e reduce_app_inv)
  then have "cfg_inv (reduce_apps (snd (reduce_app st f args)) es) \<and>
      grows (snd (reduce_app st f args)) (reduce_apps (snd (reduce_app st f args)) es)"
    using Cons.IH Cons.prems(2) by simp
  then show ?case using grows_trans [OF reduce_app_grows [of st f args]] by (simp add: e)
qed simp

section \<open>Push and pop\<close>

lemma remove_keys: "remove_keys ks m = m |` (- set ks)"
proof -
  have "fold (\<lambda>k m. m(k := None)) xs m = m |` (- set xs)" for xs and m :: "func_decl \<Rightarrow> expr option"
    by (induction xs arbitrary: m) (auto simp: restrict_map_def fun_eq_iff)
  then show ?thesis by (simp add: remove_keys_def)
qed

lemma restrict_zip:
  assumes "distinct ks" "length ks = length vs"
  shows "map_of (zip ks vs) |` (- set (drop n ks)) = map_of (zip (take n ks) (take n vs))"
proof
  fix x
  have d: "set (take n ks) \<inter> set (drop n ks) = {}"
    using assms(1) by (rule set_take_disj_set_drop_if_distinct) simp
  have z: "map_of (zip ks vs) = map_of (zip (drop n ks) (drop n vs)) ++ map_of (zip (take n ks) (take n vs))"
  proof -
    have "zip ks vs = zip (take n ks) (take n vs) @ zip (drop n ks) (drop n vs)"
      using append_take_drop_id [of n "zip ks vs"] by (simp only: take_zip drop_zip)
    then show ?thesis by (simp only: map_of_append)
  qed
  have l: "length (take n ks) = length (take n vs)" "length (drop n ks) = length (drop n vs)"
    using assms(2) by simp_all
  show "(map_of (zip ks vs) |` (- set (drop n ks))) x = map_of (zip (take n ks) (take n vs)) x"
  proof (cases "x \<in> set (drop n ks)")
    case True
    then have "x \<notin> set (take n ks)" using d by blast
    then have "map_of (zip (take n ks) (take n vs)) x = None" by (simp only: map_of_zip_is_None [OF l(1)] not_False_eq_True)
    then show ?thesis using True by (simp only: restrict_map_def Compl_iff not_True_eq_False if_False)
  next
    case False
    then have "map_of (zip (drop n ks) (drop n vs)) x = None" by (simp only: map_of_zip_is_None [OF l(2)] not_False_eq_True)
    then show ?thesis unfolding z using False
      by (cases "map_of (zip (take n ks) (take n vs)) x") (simp_all add: restrict_map_def map_add_def)
  qed
qed

lemma push_inv: "cfg_inv st \<Longrightarrow> cfg_inv (push st)"
  by (auto simp: cfg_inv_def push_def sorted_append)

lemma start_rewrite_inv: "cfg_inv st \<Longrightarrow> cfg_inv (start_rewrite st)"
  by (simp add: cfg_inv_def start_rewrite_def)

text \<open>What \<open>pop\<close> does to a state that satisfies the invariant.\<close>

lemma pop_fields:
  assumes "cfg_inv st" "0 < n"
  defines "sz \<equiv> length (m_keyval_lim st) - n"
  shows "pop n st = st\<lparr>m_const2bits := map_of (zip (take (m_keyval_lim st ! sz) (m_keys st)) (take (m_keyval_lim st ! sz) (m_values st))),
     m_keys := take (m_keyval_lim st ! sz) (m_keys st), m_values := take (m_keyval_lim st ! sz) (m_values st),
     m_keyval_lim := take sz (m_keyval_lim st), m_newbits := take (m_newbits_lim st ! sz) (m_newbits st),
     m_newbits_lim := take sz (m_newbits_lim st)\<rparr>"
proof -
  have i: "m_const2bits st = map_of (zip (m_keys st) (m_values st))" "distinct (m_keys st)"
    "length (m_keys st) = length (m_values st)"
    using assms(1) by (simp_all add: cfg_inv_def)
  show ?thesis
    using assms(2) unfolding pop_def Let_def sz_def [symmetric] remove_keys i(1) restrict_zip [OF i(2,3)] by simp
qed

lemma sorted_take_lim:
  assumes "sorted (lims @ [k])" "sz < length lims"
  shows "sorted (take sz lims @ [lims ! sz])" "lims ! sz \<le> k"
proof -
  have "take sz lims @ [lims ! sz] = take (Suc sz) (lims @ [k])"
    using assms(2) by (simp add: take_Suc_conv_app_nth)
  then show "sorted (take sz lims @ [lims ! sz])" using assms(1) sorted_wrt_take by metis
  show "lims ! sz \<le> k" using assms by (auto simp: sorted_append)
qed

lemma pop_inv:
  assumes inv: "cfg_inv st" and n: "n \<le> get_num_scopes st"
  shows "cfg_inv (pop n st)"
proof (cases "n = 0")
  case True
  then show ?thesis using inv by (simp add: pop_def)
next
  case False
  define sz where "sz = length (m_keyval_lim st) - n"
  have sz: "sz < length (m_keyval_lim st)" "sz < length (m_newbits_lim st)"
    using n False inv by (auto simp: sz_def get_num_scopes_def cfg_inv_def)
  have s: "sorted (m_keyval_lim st @ [length (m_keys st)])" "sorted (m_newbits_lim st @ [length (m_newbits st)])"
    using inv by (simp_all add: cfg_inv_def)
  note k = sorted_take_lim [OF s(1) sz(1)] sorted_take_lim [OF s(2) sz(2)]
  have "list_all2 entry_ok (take m (m_keys st)) (take m (m_values st))" for m
    using inv by (auto simp: cfg_inv_def intro: list_all2_takeI)
  then show ?thesis
    unfolding pop_fields [OF inv, of n, folded sz_def, OF False [unfolded neq0_conv]]
    using inv k by (simp add: cfg_inv_def min_absorb2)
qed

lemma pop_push:
  assumes inv: "cfg_inv st" "cfg_inv st'" and g: "grows (push st) st'"
  shows "pop 1 st' = st\<lparr>m_fresh_id := m_fresh_id st'\<rparr>"
proof -
  obtain c ks vs ns n where e: "st' = (push st)\<lparr>m_const2bits := c, m_keys := m_keys st @ ks,
     m_values := m_values st @ vs, m_newbits := m_newbits st @ ns, m_fresh_id := n\<rparr>"
    using g unfolding grows_def by (auto simp: push_def)
  have l: "length (m_newbits_lim st) = length (m_keyval_lim st)" "length (m_values st) = length (m_keys st)"
    "m_const2bits st = map_of (zip (m_keys st) (m_values st))"
    using inv(1) by (simp_all add: cfg_inv_def)
  have p: "length (m_keyval_lim st') - 1 = length (m_keyval_lim st)" by (simp add: e push_def)
  have f: "m_keyval_lim st' = m_keyval_lim st @ [length (m_keys st)]"
    "m_newbits_lim st' = m_newbits_lim st @ [length (m_newbits st)]"
    "m_keys st' = m_keys st @ ks" "m_values st' = m_values st @ vs" "m_newbits st' = m_newbits st @ ns"
    by (simp_all add: e push_def)
  have "pop 1 st' = st'\<lparr>m_const2bits := m_const2bits st, m_keys := m_keys st, m_values := m_values st,
     m_keyval_lim := m_keyval_lim st, m_newbits := m_newbits st, m_newbits_lim := m_newbits_lim st\<rparr>"
    unfolding pop_fields [OF inv(2) zero_less_one] p f
    by (simp add: l nth_append)
  then show ?thesis by (simp add: e push_def)
qed

lemma pop_scopes: "n \<le> get_num_scopes st \<Longrightarrow> get_num_scopes (pop n st) = get_num_scopes st - n"
  by (auto simp: get_num_scopes_def pop_def Let_def)

lemma pop_0: "pop 0 st = st"
  by (simp add: pop_def)

text \<open>Closing \<open>m\<close> scopes and then \<open>n\<close> is closing \<open>m + n\<close>.\<close>

lemma pop_add:
  assumes inv: "cfg_inv st" and n: "m + n \<le> get_num_scopes st"
  shows "pop n (pop m st) = pop (m + n) st"
proof (cases "m = 0 \<or> n = 0")
  case True
  then show ?thesis by (elim disjE) (simp_all add: pop_0)
next
  case False
  then have mn: "0 < m" "0 < n" by simp_all
  define a where "a = length (m_keyval_lim st) - m"
  define b where "b = length (m_keyval_lim st) - (m + n)"
  have ab: "b < a" "a < length (m_keyval_lim st)" "length (m_newbits_lim st) = length (m_keyval_lim st)"
    using n mn inv by (simp_all add: a_def b_def get_num_scopes_def cfg_inv_def)
  have inv': "cfg_inv (pop m st)" using pop_inv [OF inv] n by simp
  note P = pop_fields [OF inv mn(1), folded a_def]
  have l: "length (m_keyval_lim (pop m st)) - n = b"
    unfolding P using ab by (simp add: min_absorb2 a_def b_def)
  have s: "sorted (m_keyval_lim st)" "sorted (m_newbits_lim st)" using inv by (auto simp: cfg_inv_def sorted_append)
  have le: "m_keyval_lim st ! b \<le> m_keyval_lim st ! a" "m_newbits_lim st ! b \<le> m_newbits_lim st ! a"
    using s ab by (auto intro: sorted_nth_mono)
  have F: "m_keyval_lim (pop m st) ! b = m_keyval_lim st ! b" "m_newbits_lim (pop m st) ! b = m_newbits_lim st ! b"
    "m_keys (pop m st) = take (m_keyval_lim st ! a) (m_keys st)"
    "m_values (pop m st) = take (m_keyval_lim st ! a) (m_values st)"
    "m_newbits (pop m st) = take (m_newbits_lim st ! a) (m_newbits st)"
    "take b (m_keyval_lim (pop m st)) = take b (m_keyval_lim st)"
    "take b (m_newbits_lim (pop m st)) = take b (m_newbits_lim st)"
    unfolding P using ab by (simp_all add: min_absorb1)
  have "pop n (pop m st) = (pop m st)\<lparr>
     m_const2bits := map_of (zip (take (m_keyval_lim st ! b) (m_keys st)) (take (m_keyval_lim st ! b) (m_values st))),
     m_keys := take (m_keyval_lim st ! b) (m_keys st), m_values := take (m_keyval_lim st ! b) (m_values st),
     m_keyval_lim := take b (m_keyval_lim st), m_newbits := take (m_newbits_lim st ! b) (m_newbits st),
     m_newbits_lim := take b (m_newbits_lim st)\<rparr>"
    unfolding pop_fields [OF inv' mn(2)] l F take_take min_absorb1 [OF le(1)] min_absorb1 [OF le(2)] ..
  also have "\<dots> = pop (m + n) st"
    unfolding pop_fields [OF inv trans_less_add1 [OF mn(1)], folded b_def] P by (simp add: b_def)
  finally show ?thesis .
qed

section \<open>The state machine\<close>

text \<open>The operations of \<open>bit_blaster_rewriter\<close> between two calls.\<close>

inductive step :: "blaster_rewriter_cfg \<Rightarrow> blaster_rewriter_cfg \<Rightarrow> bool" where
  step_push: "step st (push st)"
| step_pop: "n \<le> get_num_scopes st \<Longrightarrow> step st (pop n st)"
| step_start: "step st (start_rewrite st)"
| step_params: "step st (cfg_updt_params p st)"
| step_reduce: "wf (App f args) \<Longrightarrow> step st (snd (reduce_app st f args))"

inductive_cases stepE: "step st st'"

definition reachable :: "ast_manager \<Rightarrow> blaster_rewriter_cfg \<Rightarrow> bool" where
  "reachable m st = (\<exists>n p. step\<^sup>*\<^sup>* (mk_bit_blaster_rewriter m n p) st)"

lemma cfg_updt_params_inv: "cfg_inv st \<Longrightarrow> cfg_inv (cfg_updt_params p st)"
  by (simp add: cfg_inv_def cfg_updt_params_def)

lemma init_inv: "cfg_inv (mk_bit_blaster_rewriter m n p)"
  by (simp add: cfg_inv_def mk_bit_blaster_rewriter_def cfg_updt_params_def)

lemma step_inv: "step st st' \<Longrightarrow> cfg_inv st \<Longrightarrow> cfg_inv st'"
  by (induction rule: step.induct)
    (simp_all add: push_inv pop_inv start_rewrite_inv cfg_updt_params_inv reduce_app_inv)

lemma reduce_app_blaster: "m_blaster (snd (reduce_app st f args)) = m_blaster st"
  using reduce_app_grows [of st f args] by (auto simp: grows_def)

lemma step_blaster: "step st st' \<Longrightarrow> m_blaster st' = m_blaster st"
  by (induction rule: step.induct)
    (simp_all add: push_def pop_def Let_def start_rewrite_def cfg_updt_params_def reduce_app_blaster)

lemma reachable_inv:
  assumes "reachable m st"
  shows "cfg_inv st" "m_blaster st = mk_bit_blaster_tpl (blaster m)"
proof -
  obtain n p where r: "step\<^sup>*\<^sup>* (mk_bit_blaster_rewriter m n p) st" using assms by (auto simp: reachable_def)
  then show "cfg_inv st" by (induction rule: rtranclp_induct) (auto simp: init_inv intro: step_inv)
  have "m_blaster (mk_bit_blaster_rewriter m n p) = mk_bit_blaster_tpl (blaster m)"
    by (simp add: mk_bit_blaster_rewriter_def cfg_updt_params_def)
  with r show "m_blaster st = mk_bit_blaster_tpl (blaster m)"
    by (induction rule: rtranclp_induct) (simp_all add: step_blaster)
qed

section \<open>\<open>end_rewrite\<close>\<close>

lemma fold_upd_upt:
  "i \<le> j \<Longrightarrow> j \<le> length ks \<Longrightarrow> length vs = length ks \<Longrightarrow> distinct ks \<Longrightarrow>
    fold (\<lambda>i m. m(ks ! i \<mapsto> vs ! i)) [i..<j] c =
      c ++ map_of (zip (drop i (take j ks)) (drop i (take j vs)))"
proof (induction j rule: dec_induct)
  case base
  then show ?case by simp
next
  case (step j)
  have d: "drop i (take (Suc j) ks) = drop i (take j ks) @ [ks ! j]" "drop i (take (Suc j) vs) = drop i (take j vs) @ [vs ! j]"
    using step by (simp_all add: take_Suc_conv_app_nth)
  have nk: "ks ! j \<notin> set (drop i (take j ks))"
  proof -
    have "ks ! j \<notin> set (take j ks)"
      using step.prems by (metis Suc_le_lessD distinct_take not_distinct_conv_prefix take_Suc_conv_app_nth)
    then show ?thesis by (meson in_set_dropD)
  qed
  have len: "length (drop i (take j ks)) = length (drop i (take j vs))" using step.prems by simp
  have z: "zip (drop i (take j ks) @ [ks ! j]) (drop i (take j vs) @ [vs ! j]) =
      zip (drop i (take j ks)) (drop i (take j vs)) @ [(ks ! j, vs ! j)]"
    using len by simp
  have mn: "map_of (zip (drop i (take j ks)) (drop i (take j vs))) (ks ! j) = None"
    unfolding map_of_zip_is_None [OF len] by (rule nk)
  have ih: "fold (\<lambda>i m. m(ks ! i \<mapsto> vs ! i)) [i..<j] c = c ++ map_of (zip (drop i (take j ks)) (drop i (take j vs)))"
    by (rule step.IH) (use step.prems in simp_all)
  have "(c ++ map_of (zip (drop i (take j ks)) (drop i (take j vs))))(ks ! j \<mapsto> vs ! j) =
      c ++ ([ks ! j \<mapsto> vs ! j] ++ map_of (zip (drop i (take j ks)) (drop i (take j vs))))"
  proof
    fix x
    show "((c ++ map_of (zip (drop i (take j ks)) (drop i (take j vs))))(ks ! j \<mapsto> vs ! j)) x =
      (c ++ ([ks ! j \<mapsto> vs ! j] ++ map_of (zip (drop i (take j ks)) (drop i (take j vs))))) x"
      using mn by (cases "x = ks ! j") (simp_all add: map_add_def split: option.split)
  qed
  moreover have "fold (\<lambda>i m. m(ks ! i \<mapsto> vs ! i)) [i..<Suc j] c =
      (fold (\<lambda>i m. m(ks ! i \<mapsto> vs ! i)) [i..<j] c)(ks ! j \<mapsto> vs ! j)"
    using \<open>i \<le> j\<close> by simp
  ultimately show ?case
    unfolding d z map_of_append ih by (simp only: map_of.simps fst_conv snd_conv)
qed

text \<open>The caller's map gains the entries since \<open>start_rewrite\<close>, and only those.\<close>

lemma end_rewrite:
  assumes "cfg_inv st" "m_keypos st \<le> length (m_keys st)"
  shows "end_rewrite st c nb =
    (c ++ map_of (zip (drop (m_keypos st) (m_keys st)) (drop (m_keypos st) (m_values st))), nb @ m_newbits st)"
  using assms fold_upd_upt [OF assms(2) order_refl, of "m_values st" c]
  by (simp add: end_rewrite_def cfg_inv_def)

end
