(* ===== verification/Bit_Blaster_Models.thy ===== *)
theory Bit_Blaster_Models
  imports Bit_Blaster_Scopes
begin

text \<open>
  No model is lost: when \<open>mk_const\<close> maps a bit-vector constant to fresh Boolean constants, every
  interpretation in which the earlier constants agree with their bits extends to one in which
  the new constant does too, and terms that do not use the fresh names keep their value. The
  names are numbers of the manager's 32-bit counter, so the result needs the counter not to
  wrap.
\<close>

section \<open>Names\<close>

text \<open>\<open>below n e\<close>: the numerical symbols of \<open>e\<close> are smaller than \<open>n\<close>.\<close>

fun decl_below :: "nat \<Rightarrow> func_decl \<Rightarrow> bool" where
  "decl_below n (Uninterp (Num k) ds r) = (k < n)"
| "decl_below n _ = True"

fun below :: "nat \<Rightarrow> expr \<Rightarrow> bool" where
  "below n (Var i s) = True"
| "below n (App d args) = (decl_below n d \<and> list_all (below n) args)"

lemma decl_below_mono: "decl_below n d \<Longrightarrow> n \<le> k \<Longrightarrow> decl_below k d"
  by (cases "(n, d)" rule: decl_below.cases) auto

lemma below_mono: "below n e \<Longrightarrow> n \<le> k \<Longrightarrow> below k e"
  by (induction e) (auto simp: list_all_iff decl_below_mono)

text \<open>The interpretation \<open>I\<close> with the \<open>i\<close>-th fresh bit from \<open>n\<close> on set to bit \<open>i\<close> of \<open>v\<close>.\<close>

definition set_bits :: "interp \<Rightarrow> nat \<Rightarrow> nat \<Rightarrow> interp" where
  "set_bits I n v = I\<lparr>ifun := (\<lambda>s ds r vs. case s of
      Num k \<Rightarrow> (if n \<le> k then v div 2 ^ (k - n) else ifun I s ds r vs) | Str x \<Rightarrow> ifun I s ds r vs)\<rparr>"

lemma eval_bv_set_bits: "eval_bv (set_bits I n v) k ps vs = eval_bv I k ps vs"
  by (cases k) (simp_all add: eval_bv_def set_bits_def)

lemma eval_decl_set_bits: "decl_below n d \<Longrightarrow> eval_decl (set_bits I n v) d vs = eval_decl I d vs"
  by (cases "(n, d)" rule: decl_below.cases) (simp_all add: eval_bv_set_bits, simp_all add: set_bits_def)

lemma eval_set_bits: "below n e \<Longrightarrow> eval (set_bits I n v) e = eval I e"
proof (induction e)
  case (Var i s)
  then show ?case by (simp add: set_bits_def)
next
  case (App d args)
  then have "map (eval (set_bits I n v)) args = map (eval I) args" by (auto simp: list_all_iff)
  then show ?case using App.prems by (simp only: eval.simps below.simps eval_decl_set_bits)
qed

text \<open>The invariant: every name in the tables is smaller than the counter.\<close>

definition names_ok :: "blaster_rewriter_cfg \<Rightarrow> bool" where
  "names_ok st = (list_all (decl_below (unat (m_fresh_id st))) (m_keys st) \<and>
     list_all (below (unat (m_fresh_id st))) (m_values st))"

section \<open>The fresh bits\<close>

lemma unat_fresh_id: "unat n + k < 2 ^ 32 \<Longrightarrow> unat (n + of_nat k) = unat n + k" for n :: "32 word"
proof -
  assume a: "unat n + k < 2 ^ 32"
  have i: "unat (of_nat k :: 32 word) = k" using a by (simp add: unat_of_nat)
  have "unat (n + of_nat k) = unat n + unat (of_nat k :: 32 word)"
    using a i by (subst unat_add_lem [symmetric]) simp_all
  then show ?thesis by (simp add: i)
qed

lemma fresh_bit_name:
  "unat n + k < 2 ^ 32 \<Longrightarrow> i < k \<Longrightarrow> fresh_bit n i = Uninterp (Num (unat n + i)) [] Bool_sort"
  using unat_fresh_id [of n i] by (simp add: fresh_bit_def)

lemma eval_new_const:
  assumes "unat (m_fresh_id st) + w < 2 ^ 32" "w = bv_width (decl_range f [])"
  shows "eval (set_bits I (unat (m_fresh_id st)) v) (new_const st f) = VBV w (v mod 2 ^ w)"
proof -
  let ?n = "m_fresh_id st"
  have "map (\<lambda>d. App d []) (fresh_bits ?n w) = map (\<lambda>i. App (Uninterp (Num (unat ?n + i)) [] Bool_sort) []) [0..<w]"
    using fresh_bit_name [OF assms(1)] by (simp add: fresh_bits_def)
  then have "map truth (map (eval (set_bits I (unat ?n) v)) (map (\<lambda>d. App d []) (fresh_bits ?n w))) =
      map (\<lambda>i. odd (v div 2 ^ i)) [0..<w]"
    by (simp add: set_bits_def)
  then have "bits_val (map truth (map (eval (set_bits I (unat ?n) v)) (map (\<lambda>d. App d []) (fresh_bits ?n w)))) = v mod 2 ^ w"
    by (simp only: bits_val_map_odd)
  then show ?thesis
    by (simp add: new_const_def mk_mkbv_def eval_bv_def assms(2) [symmetric])
qed

lemma new_const_below:
  assumes "unat (m_fresh_id st) + w < 2 ^ 32" "w = bv_width (decl_range f [])"
  shows "below (unat (m_fresh_id st) + w) (new_const st f)"
  using fresh_bit_name [OF assms(1)]
  by (auto simp: new_const_def mk_mkbv_def fresh_bits_def list_all_iff assms(2) [symmetric])

lemma mk_const_names:
  assumes "names_ok st" "decl_below (unat (m_fresh_id st)) f"
    "unat (m_fresh_id st) + bv_width (decl_range f []) < 2 ^ 32"
  shows "names_ok (snd (mk_const st f))"
proof (cases "m_const2bits st f")
  case None
  note u = unat_fresh_id [OF assms(3)]
  show ?thesis
    using assms(1,2) new_const_below [OF assms(3) refl] decl_below_mono below_mono
    by (auto simp: mk_const_new [OF None] names_ok_def list_all_iff u)
qed (use assms in \<open>simp add: mk_const_known\<close>)

lemma mk_const_model:
  assumes inv: "cfg_inv st" "names_ok st" and f: "is_bv_const f" "decl_below (unat (m_fresh_id st)) f"
    and no_wrap: "unat (m_fresh_id st) + bv_width (decl_range f []) < 2 ^ 32"
    and I: "consistent st I"
  obtains I' where "consistent (snd (mk_const st f)) I'"
    "\<And>e. below (unat (m_fresh_id st)) e \<Longrightarrow> eval I' e = eval I e"
proof (cases "m_const2bits st f")
  case (Some r)
  then show ?thesis using that [of I] I by (simp add: mk_const_known)
next
  case None
  let ?n = "unat (m_fresh_id st)" and ?w = "bv_width (decl_range f [])"
  define I' where "I' = set_bits I ?n (bvn (eval I (App f [])))"
  have same: "eval I' e = eval I e" if "below ?n e" for e
    using eval_set_bits that by (simp add: I'_def)
  have "bvterm ?w (App f [])" using f(1) by (cases f rule: is_bv_const.cases) (auto simp: bvterm_def)
  then have v: "eval I (App f []) = VBV ?w (bvn (eval I (App f [])) mod 2 ^ ?w)"
    using bvterm_eval [of ?w "App f []" I] by (metis mod_less)
  have "consistent (snd (mk_const st f)) I'"
    unfolding consistent_def
  proof (intro allI impI)
    fix g r
    assume m: "m_const2bits (snd (mk_const st f)) g = Some r"
    show "eval I' (App g []) = eval I' r"
    proof (cases "g = f")
      case True
      then have "r = new_const st f" using m by (simp add: mk_const_new [OF None])
      then show ?thesis
        using True v same [of "App f []"] f(2) eval_new_const [OF no_wrap refl, of I "bvn (eval I (App f []))"]
        by (simp add: I'_def)
    next
      case False
      then have g: "m_const2bits st g = Some r" using m by (simp add: mk_const_new [OF None])
      then have "(g, r) \<in> set (zip (m_keys st) (m_values st))"
        using inv(1) by (auto simp: cfg_inv_def dest: map_of_SomeD)
      then have "decl_below ?n g" "below ?n r"
        using inv(2) by (auto simp: names_ok_def list_all_iff dest: set_zip_leftD set_zip_rightD)
      then show ?thesis using same [of "App g []"] same [of r] I g by (simp add: consistent_def)
    qed
  qed
  then show ?thesis using same that by blast
qed

lemma reduce_app_names:
  assumes "names_ok st" "wf (App f args)" "below (unat (m_fresh_id st)) (App f args)"
    "unat (m_fresh_id st) + bv_width (get_sort (App f args)) < 2 ^ 32"
  shows "names_ok (snd (reduce_app st f args))"
proof (cases "const_case f args")
  case True
  then have "args = []" by (simp add: const_case_def)
  then show ?thesis using mk_const_names [OF assms(1)] assms(3,4) reduce_app_const [OF True] by simp
qed (simp add: reduce_app_other_state assms(1))

lemma reduce_app_model:
  assumes inv: "cfg_inv st" "names_ok st" and e: "wf (App f args)" "below (unat (m_fresh_id st)) (App f args)"
    and no_wrap: "unat (m_fresh_id st) + bv_width (get_sort (App f args)) < 2 ^ 32"
    and I: "consistent st I"
  obtains I' where "consistent (snd (reduce_app st f args)) I'"
    "\<And>e. below (unat (m_fresh_id st)) e \<Longrightarrow> eval I' e = eval I e"
proof (cases "const_case f args")
  case True
  then have a: "args = []" "is_bv_const f" using const_case_is_bv_const e(1) by blast+
  have d: "decl_below (unat (m_fresh_id st)) f" "unat (m_fresh_id st) + bv_width (decl_range f []) < 2 ^ 32"
    using e(2) no_wrap a(1) by simp_all
  show ?thesis
    by (rule mk_const_model [OF inv a(2) d I]) (use that reduce_app_const [OF True] in simp)
qed (use that [of I] I reduce_app_other_state in simp)

end
