(* ===== verification/Bool_Rewriter_Fuel.thy ===== *)
theory Bool_Rewriter_Fuel
  imports Bool_Rewriter_Sound
begin

text \<open>
  The local context simplifier (\<open>local_ctx_simp\<close> of \<open>bool_rewriter.cpp\<close>) always returns: a
  round that modifies an argument makes the arguments lighter, so the fuel the model gives
  its \<open>while (true)\<close> loop is never used up on well-sorted arguments.
\<close>

lemma rw_mk_not_weight: "weight (rw_mk_not rw t) \<le> weight t"
  and rw_mk_eq_weight: "weight (rw_mk_eq rw l r) \<le> weight l * weight r"
  unfolding rw_mk_not_def rw_mk_eq_def
  by (rule mk_not_mk_eq_weight [OF spec [OF mk_not_mk_eq_dom]])+

definition is_const :: "expr \<Rightarrow> bool" where
  "is_const e = (e = m_mk_true \<or> e = m_mk_false)"

lemma rw_mk_eq_weight_less:
  assumes "is_const l \<or> is_const r" "bexp l"
  shows "weight (rw_mk_eq rw l r) < weight l * weight r"
proof -
  define x where "x = (if m_ite_extra_rules rw then
                (if m_is_ite l \<and> m_is_value r then try_ite_value l r
                 else if m_is_ite r \<and> m_is_value l then try_ite_value r l
                 else BR_FAILED)
              else BR_FAILED)"
  have x: "weight (br_get x d) < weight l * weight r" if nf: "x \<noteq> BR_FAILED" for d
  proof -
    obtain e where "br_result x = Some e" using nf by (cases x) auto
    then show ?thesis using try_ite_value_weight [of l r e] try_ite_value_weight [of r l e]
      by (auto simp: x_def br_get_def mult.commute split: if_splits)
  qed
  have u: "\<not> (m_is_not l \<and> m_is_not r)" using assms(1) by (auto simp: is_const_def)
  have b: "m_is_bool l" using assms(2) by (simp add: m_is_bool_def)
  have tf: "m_is_true l \<or> m_is_false l \<or> m_is_true r \<or> m_is_false r"
    using assms(1) by (auto simp: is_const_def)
  have lt: "2 < weight l * weight r" "weight l < weight l * weight r" "weight r < weight l * weight r"
    using weight_eq_less [of l r] weight_eq_less [of r l] weight_ge_2 [of l] by linarith+
  have n: "weight (br_get (mk_not_core rw l) (m_mk_not l)) < weight l * weight r"
    "weight (br_get (mk_not_core rw r) (m_mk_not r)) < weight l * weight r"
    using rw_mk_not_weight [of rw l] rw_mk_not_weight [of rw r] lt unfolding rw_mk_not_def by linarith+
  show ?thesis
    unfolding rw_mk_eq_def
    apply (subst mk_eq_core.simps)
    apply (simp only: Let_def m_are_equal_iff u if_False flip: x_def)
    using x lt n tf b
    by (cases "l = r"; cases "m_are_distinct l r"; cases "x = BR_FAILED"; cases "m_is_true l"; cases "m_is_false l";
        cases "m_is_true r"; cases "m_is_false r"; simp)
qed

lemma nested_not_or_loop_weight:
  assumes "nested_not_or_loop args neg pos simp acc = Some (simp', acc')"
  shows "weights acc' + (if simp' \<and> \<not> simp then 2 else 0) \<le> weights acc + weights args"
  using assms
proof (induction args arbitrary: simp acc)
  case (Cons arg args)
  show ?case
    using Cons.prems Cons.IH [of True acc] Cons.IH [of simp "acc @ [arg]"] weight_ge_2 [of arg]
    by (auto split: if_split_asm simp del: weight_ge_2 weight_ge_1)
qed simp

lemma simp_nested_not_or_weight:
  assumes "simp_nested_not_or rw args neg pos = (Some e, rw')"
  shows "weight e < 2 + weights args"
proof (cases "nested_not_or_loop args neg pos False []")
  case None
  have "args \<noteq> []" using None by (cases args) auto
  then have "2 \<le> weights args" using weight_ge_2 [of "hd args"] by (cases args) (auto simp del: weight_ge_2 weight_ge_1)
  then show ?thesis using assms None by (auto simp: simp_nested_not_or_def Let_def)
next
  case (Some p)
  obtain s acc where p: "p = (s, acc)" by force
  have w: "weights acc + (if s then 2 else 0) \<le> weights args"
    using nested_not_or_loop_weight Some p by fastforce
  consider "acc = []" | a where "acc = [a]" | a b bs where "acc = a # b # bs"
    by (cases acc rule: remdups_adj.cases) auto
  then show ?thesis
  proof cases
    case (2 a)
    then show ?thesis using assms w rw_mk_not_weight [of "add_cost (length args) rw" a] Some p
      by (auto simp: simp_nested_not_or_def Let_def split: if_splits)
  qed (use assms w Some p in \<open>auto simp: simp_nested_not_or_def Let_def split: if_splits\<close>)
qed

lemma simp_arg_weight:
  assumes "simp_arg arg neg pos = (e, m)"
  shows "weight e \<le> weight arg \<and> (m \<longrightarrow> is_const e)"
  using assms by (auto simp: simp_arg_def Let_def is_const_def split: if_splits)

lemma mk_nested_ite_weight:
  assumes "is_const c \<or> is_const t \<or> is_const e" "bexp c" "bexp t" "bexp e"
  shows "weight (mk_nested_ite rw c t e) < 2 + weight c + weight t + weight e"
proof -
  have b: "m_is_bool t" using assms by (simp add: m_is_bool_def)
  have w: "weight (rw_mk_not rw c) \<le> weight c" "weight (rw_mk_not rw t) \<le> weight t" "weight (rw_mk_not rw e) \<le> weight e"
    by (rule rw_mk_not_weight)+
  have c: "m_is_true c \<or> m_is_false c \<or> m_is_true t \<or> m_is_false t \<or> m_is_true e \<or> m_is_false e"
    using assms(1) by (auto simp: is_const_def)
  have p: "0 < weight c" "0 < weight t" "0 < weight e" by simp_all
  show ?thesis using b c w p
    unfolding mk_nested_ite_def
    by (cases "m_is_true c"; cases "m_is_false c"; cases "t = e"; cases "m_is_true t"; cases "m_is_false t";
        cases "m_is_true e"; cases "m_is_false e"; simp del: weight_ge_1)
qed


lemma simp_nested_eq_ite_weight:
  assumes "simp_nested_eq_ite rw t0 neg pos = (Some e, rw')" "bexp t0" "list_all bexp neg" "list_all bexp pos"
  shows "weight e < weight t0"
proof -
  define t where "t = (if m_is_not t0 then get_arg t0 0 else t0)"
  define rw1 where "rw1 = add_cost 3 rw"
  have t: "bexp t" "weight t0 = weight t" using assms(2) by (auto simp: t_def elim!: m_is_notE)
  have n: "weight (if m_is_not t0 then rw_mk_not rw1 r else r) \<le> weight r" for r
    using rw_mk_not_weight by simp
  have "\<exists>r. e = (if m_is_not t0 then rw_mk_not rw1 r else r) \<and> weight r < weight t"
  proof (cases "m_is_eq t")
    case True
    then obtain a b where ab: "t = m_mk_eq a b" by (rule m_is_eqE)
    obtain l m1 where l: "simp_arg a neg pos = (l, m1)" by force
    obtain r m2 where r: "simp_arg b neg pos = (r, m2)" by force
    have e: "e = (if m_is_not t0 then rw_mk_not rw1 (rw_mk_eq rw1 l r) else rw_mk_eq rw1 l r)" "m1 \<or> m2"
      using assms(1) True by (auto simp: simp_nested_eq_ite_def Let_def ab l r split: if_splits simp flip: t_def rw1_def)
    have c: "is_const l \<or> is_const r" using e(2) simp_arg_weight [OF l] simp_arg_weight [OF r] by auto
    have ws: "wf l" "wf r" "get_sort l = get_sort r"
      using simp_arg_sound [OF _ l assms(3,4)] simp_arg_sound [OF _ r assms(3,4)] t(1) ab by simp_all
    then have "bexp l" using c by (auto simp: is_const_def intro: bexpI)
    then have "weight (rw_mk_eq rw1 l r) < weight l * weight r" using rw_mk_eq_weight_less c by blast
    also have "\<dots> \<le> weight t" using simp_arg_weight [OF l] simp_arg_weight [OF r] by (simp add: ab mult_le_mono)
    finally show ?thesis using e by auto
  next
    case False
    then have "m_is_ite t" using assms(1)
      by (auto simp: simp_nested_eq_ite_def Let_def split: if_splits simp flip: t_def)
    then obtain a b d where ab: "t = m_mk_ite a b d" by (rule m_is_iteE)
    obtain c m1 where l: "simp_arg a neg pos = (c, m1)" by force
    obtain r m2 where r: "simp_arg b neg pos = (r, m2)" by force
    obtain s m3 where s: "simp_arg d neg pos = (s, m3)" by force
    have e: "e = (if m_is_not t0 then rw_mk_not rw1 (mk_nested_ite rw1 c r s) else mk_nested_ite rw1 c r s)" "m1 \<or> m2 \<or> m3"
      using assms(1) False
      by (auto simp: simp_nested_eq_ite_def Let_def ab l r s split: if_splits simp flip: t_def rw1_def)
    have k: "is_const c \<or> is_const r \<or> is_const s"
      using e(2) simp_arg_weight [OF l] simp_arg_weight [OF r] simp_arg_weight [OF s] by auto
    have ws: "bexp a" "bexp b" "bexp d" using t(1) ab by simp_all
    have N: "wf c \<and> get_sort c = Bool_sort" "wf r \<and> get_sort r = Bool_sort" "wf s \<and> get_sort s = Bool_sort"
      using simp_arg_sound [OF bexp_wf [OF ws(1)] l assms(3,4)] simp_arg_sound [OF bexp_wf [OF ws(2)] r assms(3,4)]
        simp_arg_sound [OF bexp_wf [OF ws(3)] s assms(3,4)] bexp_sort [OF ws(1)] bexp_sort [OF ws(2)] bexp_sort [OF ws(3)]
      by metis+
    have "bexp c" "bexp r" "bexp s" by (rule bexpI; simp add: N)+
    then have "weight (mk_nested_ite rw1 c r s) < 2 + weight c + weight r + weight s"
      using mk_nested_ite_weight k by blast
    also have "\<dots> \<le> weight t"
      using simp_arg_weight [OF l] simp_arg_weight [OF r] simp_arg_weight [OF s] by (simp add: ab)
    finally show ?thesis using e by auto
  qed
  then obtain r where r: "e = (if m_is_not t0 then rw_mk_not rw1 r else r)" "weight r < weight t" by blast
  show ?thesis using n [of r] r(2) t(2) unfolding r(1) by linarith
qed

lemma push_new_arg_weight:
  "weights (lc_new_args (push_new_arg arg st)) \<le> weights (lc_new_args st) + weight arg"
  "lc_modified (push_new_arg arg st) = lc_modified st"
  by (simp_all add: push_new_arg_def Let_def)

lemma push_new_args_weight:
  "weights (lc_new_args (fold push_new_arg args st)) \<le> weights (lc_new_args st) + weights args \<and>
   lc_modified (fold push_new_arg args st) = lc_modified st"
proof (induction args arbitrary: st)
  case (Cons arg args)
  then show ?case using push_new_arg_weight [of arg st] by (smt (verit) add.assoc add_mono_thms_linordered_semiring(3) fold_simps(2) le_trans weights_simps(2))
qed simp

text \<open>An argument that is modified becomes lighter.\<close>

lemma process_arg_weight:
  assumes "lctx_inv st" "bexp arg" "process_arg rw arg st = (Inr st', rw')"
  shows "weights (lc_new_args st') + of_bool (lc_modified st' \<and> \<not> lc_modified st) \<le> weights (lc_new_args st) + weight arg
    \<and> (lc_modified st \<longrightarrow> lc_modified st')"
proof -
  obtain r1 rw1 where r1: "(if m_is_not arg \<and> m_is_or (get_arg arg 0)
            then simp_nested_not_or rw (get_args (get_arg arg 0)) (lc_neg_lits st) (lc_pos_lits st)
            else (None, rw)) = (r1, rw1)" by force
  obtain arg1 st1 where s1: "(case r1 of None \<Rightarrow> (arg, st)
            | Some new_arg \<Rightarrow> (new_arg, st\<lparr>lc_modified := True, lc_simped := True\<rparr>)) = (arg1, st1)" by force
  obtain r2 rw2 where r2: "simp_nested_eq_ite rw1 arg1 (lc_neg_lits st1) (lc_pos_lits st1) = (r2, rw2)" by force
  obtain arg2 st2 where s2: "(case r2 of None \<Rightarrow> (arg1, st1)
            | Some new_arg \<Rightarrow> (new_arg, st1\<lparr>lc_modified := True, lc_simped := True\<rparr>)) = (arg2, st2)" by force
  have st1: "lc_new_args st1 = lc_new_args st" "lc_neg_lits st1 = lc_neg_lits st" "lc_pos_lits st1 = lc_pos_lits st"
    using s1 assms(1) by (auto split: option.splits)
  have lits: "list_all bexp (lc_neg_lits st)" "list_all bexp (lc_pos_lits st)" using assms(1) by (simp_all add: lctx_inv_def)
  have a1: "bexp arg1 \<and> weight arg1 + of_bool (lc_modified st1 \<and> \<not> lc_modified st) \<le> weight arg \<and> (lc_modified st \<longrightarrow> lc_modified st1)"
  proof (cases r1)
    case None
    then show ?thesis using s1 assms(2) by auto
  next
    case (Some e)
    then obtain as where as: "arg = m_mk_not (m_mk_or as)"
      "simp_nested_not_or rw as (lc_neg_lits st) (lc_pos_lits st) = (Some e, rw1)"
      using r1 by (auto split: if_splits elim!: m_is_notE m_is_orE)
    then show ?thesis using simp_nested_not_or_sound [OF _ as(2)] simp_nested_not_or_weight [OF as(2)] s1 Some assms(2)
      by auto
  qed
  have a2: "weight arg2 + of_bool (lc_modified st2 \<and> \<not> lc_modified st) \<le> weight arg \<and> (lc_modified st \<longrightarrow> lc_modified st2)
     \<and> lc_new_args st2 = lc_new_args st"
  proof (cases r2)
    case None
    then show ?thesis using s2 a1 st1 by auto
  next
    case (Some e)
    then have "weight e < weight arg1"
      using simp_nested_eq_ite_weight [OF r2 [unfolded Some]] a1 st1 lits by simp
    then show ?thesis using a1 s2 st1 Some by auto
  qed
  have eq: "process_arg rw arg st = (if m_is_false arg2 then (Inr st2, rw2)
     else if m_is_true arg2 then (Inl arg2, rw2)
     else if m_flat rw2 \<and> m_is_or arg2 then (Inr (fold push_new_arg (get_args arg2) st2), rw2)
     else (Inr (push_new_arg arg2 st2), rw2))"
    unfolding process_arg_def by (simp add: r1 s1 r2 s2)
  have "weights (lc_new_args st') \<le> weights (lc_new_args st2) + weight arg2 \<and> lc_modified st' = lc_modified st2"
  proof (cases "m_is_or arg2")
    case True
    then obtain as where "arg2 = m_mk_or as" by (rule m_is_orE)
    then show ?thesis using assms(3) push_new_args_weight [of as st2] push_new_arg_weight [of arg2 st2] unfolding eq
      by (auto split: if_split_asm)
  next
    case False
    then show ?thesis using assms(3) push_new_arg_weight [of arg2 st2] unfolding eq
      by (auto split: if_split_asm)
  qed
  then show ?thesis using a2 by auto
qed

lemma process_args_weight:
  assumes "lctx_inv st" "list_all bexp args" "process_args rw args st = (Inr st', rw')"
  shows "weights (lc_new_args st') + of_bool (lc_modified st' \<and> \<not> lc_modified st) \<le> weights (lc_new_args st) + weights args
    \<and> (lc_modified st \<longrightarrow> lc_modified st')"
  using assms
proof (induction args arbitrary: rw st)
  case Nil
  then show ?case by auto
next
  case (Cons arg args)
  obtain r1 rw1 where r1: "process_arg rw arg st = (r1, rw1)" by force
  then obtain st1 where st1: "r1 = Inr st1" "process_args rw1 args st1 = (Inr st', rw')"
    using Cons.prems(3) by (auto split: sum.splits)
  have "lctx_inv st1" using process_arg_sound [OF Cons.prems(1) _ r1] Cons.prems(2) st1 by simp
  then have "weights (lc_new_args st') + of_bool (lc_modified st' \<and> \<not> lc_modified st1) \<le> weights (lc_new_args st1) + weights args
    \<and> (lc_modified st1 \<longrightarrow> lc_modified st')"
    using Cons.IH st1 Cons.prems(2) by simp
  then show ?case
    using process_arg_weight [OF Cons.prems(1) _ r1 [unfolded st1]] Cons.prems(2)
    by (cases "lc_modified st1") auto
qed

lemma local_ctx_rounds_fuel:
  assumes "list_all bexp args"
    "if forward then \<not> m \<and> 2 * weights args + 2 \<le> fuel else (if m then 2 * weights args + 3 else 2 * weights args + 1) \<le> fuel"
  shows "local_ctx_rounds fuel rw forward m s args \<noteq> None"
  using assms
proof (induction fuel arbitrary: rw forward m s args)
  case 0
  then show ?case by (simp split: if_splits)
next
  case (Suc fuel)
  define st0 where "st0 = \<lparr>lc_neg_lits = [], lc_pos_lits = [], lc_new_args = [], lc_modified = m, lc_simped = s\<rparr>"
  define rw1 where "rw1 = add_cost (2 * length args) rw"
  have st0: "lctx_inv st0" "lc_new_args st0 = []" "lc_modified st0 = m" by (simp_all add: lctx_inv_def st0_def)
  let ?as = "if forward then args else rev args"
  have as: "list_all bexp ?as" "weights ?as = weights args" using Suc.prems(1) by simp_all
  obtain r rw2 where r: "process_args rw1 ?as st0 = (r, rw2)" by force
  show ?case
  proof (cases r)
    case (Inl e)
    then show ?thesis using r by (cases forward) (auto simp: Let_def simp flip: st0_def rw1_def)
  next
    case (Inr st')
    have b: "list_all bexp (lc_new_args st')"
      using process_args_sound [OF st0(1) as(1) r] Inr by (simp add: lctx_inv_def)
    have w: "weights (lc_new_args st') + of_bool (lc_modified st' \<and> \<not> m) \<le> weights args \<and> (m \<longrightarrow> lc_modified st')"
      using process_args_weight [OF st0(1) as(1) r [unfolded Inr]] st0 as by simp
    show ?thesis
    proof (cases forward)
      case True
      then have "\<not> m" "2 * weights args + 1 \<le> fuel" using Suc.prems(2) by auto
      then have "local_ctx_rounds fuel rw2 False (lc_modified st') (lc_simped st') (lc_new_args st') \<noteq> None"
        using w by (intro Suc.IH [OF b]) auto
      then show ?thesis using r Inr True by (simp add: Let_def flip: st0_def rw1_def)
    next
      case False
      show ?thesis
      proof (cases "lc_modified st'")
        case m: True
        then have "2 * weights (lc_new_args st') + 2 \<le> fuel" using w Suc.prems(2) False by (auto split: if_splits)
        then have "local_ctx_rounds fuel rw2 True False (lc_simped st') (rev (lc_new_args st')) \<noteq> None"
          using b by (intro Suc.IH) simp_all
        then show ?thesis using r Inr False m by (simp add: Let_def flip: st0_def rw1_def)
      qed (use r Inr False in \<open>simp add: Let_def flip: st0_def rw1_def\<close>)
    qed
  qed
qed

lemma local_ctx_fuel_enough:
  "list_all bexp args \<Longrightarrow> local_ctx_rounds (local_ctx_fuel args) rw True False False args \<noteq> None"
  by (rule local_ctx_rounds_fuel) (simp_all add: local_ctx_fuel_def weights_def)

lemma local_ctx_rounds_Suc:
  "local_ctx_rounds n rw forward m s args = Some r \<Longrightarrow> local_ctx_rounds (Suc n) rw forward m s args = Some r"
proof (induction n arbitrary: rw forward m s args)
  case (Suc n)
  then show ?case
    by (subst local_ctx_rounds.simps, subst (asm) local_ctx_rounds.simps)
      (auto simp: Let_def simp del: local_ctx_rounds.simps split: if_split_asm sum.splits prod.splits)
qed simp

lemma local_ctx_rounds_mono:
  assumes "local_ctx_rounds n rw forward m s args = Some r" "n \<le> k"
  shows "local_ctx_rounds k rw forward m s args = Some r"
  using assms(2,1) by (induction k rule: dec_induct) (auto intro: local_ctx_rounds_Suc simp del: local_ctx_rounds.simps)

end
