(* ===== verification/Samples.thy ===== *)
theory Samples
  imports Bit_Blaster_Models Bool_Rewriter_Fuel
begin

text \<open>
  Concrete inputs on which the properties are applied: a manager that orders nodes by size, a
  rewriter with every option on, an interpretation, Boolean and bit-vector constants.
\<close>

definition sample_manager :: ast_manager where
  "sample_manager = \<lparr>node_lt = (\<lambda>a b. size a < size b), node_id = size\<rparr>"

definition sample_rw :: bool_rewriter where
  "sample_rw = mk_bool_rewriter sample_manager
     \<lparr>p_flat = True, p_elim_and = True, p_elim_ite = True, p_local_ctx = True, p_local_ctx_limit = 100,
      p_blast_distinct = True, p_blast_distinct_threshold = 10, p_ite_extra_rules = True\<rparr>"

definition sample_interp :: interp where
  "sample_interp = \<lparr>ivar = (\<lambda>i s. i), ifun = (\<lambda>s ds r vs. case s of Str x \<Rightarrow> length x | Num k \<Rightarrow> k),
     ibv = (\<lambda>k ps vs. 0)\<rparr>"

definition sample_bit :: "string \<Rightarrow> expr" where
  "sample_bit x = App (Uninterp (Str x) [] Bool_sort) []"

definition sample_bv :: "string \<Rightarrow> nat \<Rightarrow> expr" where
  "sample_bv x w = App (Uninterp (Str x) [] (BV_sort w)) []"

text \<open>A blaster with the Wallace tree turned on.\<close>

definition sample_blaster :: bit_blaster_tpl where
  "sample_blaster = \<lparr>m_cfg = blaster_cfg sample_rw, m_use_wtm = True, m_use_bcm = True\<rparr>"

lemma sample_bit [simp]: "bexp (sample_bit x)" "tv sample_interp (sample_bit x) = odd (length x)"
  by (simp_all add: sample_bit_def bexpI tv_def sample_interp_def)

lemma sample_bv [simp]:
  "wf (sample_bv x w) \<longleftrightarrow> 0 < w" "get_sort (sample_bv x w) = BV_sort w"
  "eval sample_interp (sample_bv x w) = VBV w (length x mod 2 ^ w)"
  by (simp_all add: sample_bv_def sample_interp_def)

lemma sample_blaster_cfg [simp]: "m_cfg sample_blaster = blaster_cfg sample_rw"
  by (simp add: sample_blaster_def)

end
