(* ===== verification/Simplifier_Properties.thy ===== *)
theory Simplifier_Properties
  imports Samples
begin

text \<open>What \<open>bool_rewriter\<close> promises its callers, whatever its options.\<close>

text \<open>
  C17: every result of \<open>bool_rewriter\<close>'s dispatcher, on any operation of the basic family and
  any options, is a well-sorted term with the sort and the value of the application it replaces.
\<close>

theorem simplifier_preserves_value:
  assumes "wf (App (Basic f) args)"
  shows "wf (fst (rw_mk_app rw f args))
    \<and> get_sort (fst (rw_mk_app rw f args)) = get_sort (App (Basic f) args)
    \<and> eval I (fst (rw_mk_app rw f args)) = eval I (App (Basic f) args)"
  by (intro conjI rw_mk_app_sound [OF assms])

theorem simplifier_preserves_value_witness:
  "eval sample_interp (fst (rw_mk_app sample_rw OP_OR [sample_bit ''ab'', m_mk_not (sample_bit ''abc''), sample_bit ''abc'']))
    = VBool True"
proof -
  have "wf (App (Basic OP_OR) [sample_bit ''ab'', m_mk_not (sample_bit ''abc''), sample_bit ''abc''])"
    by simp
  from simplifier_preserves_value [OF this, of sample_rw sample_interp] show ?thesis
    using sample_bit(2) [of "''abc''"] unfolding tv_def by (simp add: eval_basic_def)
qed

text \<open>
  C24: the local context simplifier returns: with the fuel of the model, and with any larger
  amount, its rounds end with the result \<open>local_ctx_simp\<close> gives.
\<close>

theorem local_ctx_simp_returns:
  assumes "list_all bexp args" "local_ctx_fuel args \<le> k"
  shows "local_ctx_rounds k rw True False False args = Some (local_ctx_simp rw args)"
proof -
  obtain r where r: "local_ctx_rounds (local_ctx_fuel args) rw True False False args = Some r"
    using local_ctx_fuel_enough [OF assms(1)] by blast
  then show ?thesis using local_ctx_rounds_mono [OF r assms(2)] by (simp add: local_ctx_simp_def)
qed

theorem local_ctx_simp_returns_witness:
  "local_ctx_rounds 100 sample_rw True False False [sample_bit ''a'', m_mk_not (sample_bit ''a'')]
    = Some (local_ctx_simp sample_rw [sample_bit ''a'', m_mk_not (sample_bit ''a'')])"
proof (rule local_ctx_simp_returns)
  show "local_ctx_fuel [sample_bit ''a'', m_mk_not (sample_bit ''a'')] \<le> 100"
    by (simp add: local_ctx_fuel_def sample_bit_def)
qed simp

text \<open>
  With the local context simplifier off, no operation changes the rewriter: its options
  and its cost counter are those it was given.
\<close>

lemma simplifier_state_unchanged:
  assumes "\<not> m_local_ctx rw"
  shows "snd (mk_app_core rw f args) = rw"
  using assms by (rule mk_app_core_state)

lemma simplifier_state_unchanged_example:
  "snd (mk_app_core (blaster_rewriter_of sample_manager) OP_AND [sample_bit ''a'', sample_bit ''b''])
    = blaster_rewriter_of sample_manager"
  by (rule simplifier_state_unchanged) simp

text \<open>
  Negating a Boolean term never makes it heavier, and the equality built for two terms
  weighs at most the product of their weights; this bound is what ends the mutual recursion of
  \<open>mk_not_core\<close> and \<open>mk_eq_core\<close>.
\<close>

theorem not_eq_weight_bound:
  "weight (rw_mk_not rw t) \<le> weight t \<and> weight (rw_mk_eq rw l r) \<le> weight l * weight r"
  by (intro conjI rw_mk_not_weight rw_mk_eq_weight)

text \<open>
  \<open>mk_distinct_core\<close> answers a Boolean term that holds exactly when the arguments have
  pairwise different values.
\<close>

theorem distinct_correct:
  assumes "list_all wf args" "all_same (map get_sort args)"
  shows "bexp (rw_mk_distinct rw args) \<and> tv I (rw_mk_distinct rw args) = distinct (map (eval I) args)"
  using mk_distinct_core_sound [OF assms] by (simp add: rw_mk_distinct_def)

theorem distinct_correct_witness:
  "tv sample_interp (rw_mk_distinct sample_rw [sample_bv ''a'' 2, sample_bv ''ab'' 2, sample_bv ''abc'' 2])"
proof -
  have "list_all wf [sample_bv ''a'' 2, sample_bv ''ab'' 2, sample_bv ''abc'' 2]"
    "all_same (map get_sort [sample_bv ''a'' 2, sample_bv ''ab'' 2, sample_bv ''abc'' 2])"
    by (simp_all add: all_same_def)
  from distinct_correct [OF this, of sample_rw sample_interp] show ?thesis by simp
qed

end
