(* ===== verification/Circuit_Properties.thy ===== *)
theory Circuit_Properties
  imports Samples
begin

text \<open>
  What the circuits promise, for both classes the template is instantiated with and for any
  rewriter behind their gates: the numbers their output bits denote, under every interpretation
  of the input bits.
\<close>

section \<open>The instances of the template\<close>

datatype blaster_instance =
    Bit_blaster_of bit_blaster_params bool_rewriter
  | Blaster_of bool_rewriter

fun cfg_of :: "blaster_instance \<Rightarrow> bb_cfg" where
  "cfg_of (Bit_blaster_of p rw) = bit_blaster_cfg p rw"
| "cfg_of (Blaster_of rw) = blaster_cfg rw"

lemma cfg_of_gates: "gates (cfg_of g) I"
  by (cases g) (simp_all add: bit_blaster_cfg_gates blaster_cfg_gates)

interpretation inst: gates "cfg_of g" I for g I
  by (rule cfg_of_gates)

text \<open>Both operands are vectors of \<open>w\<close> Boolean terms.\<close>

definition operands :: "nat \<Rightarrow> expr list \<Rightarrow> expr list \<Rightarrow> bool" where
  "operands w as bs = (length as = w \<and> length bs = w \<and> list_all bexp as \<and> list_all bexp bs \<and> 0 < w)"

lemma operandsD:
  assumes "operands w as bs"
  shows "length as = w" "length bs = w" "list_all bexp as" "list_all bexp bs" "0 < w"
    "length as = length bs" "as \<noteq> []"
  using assms by (auto simp: operands_def)

text \<open>A blaster with the given gates and options.\<close>

definition with_cfg :: "blaster_instance \<Rightarrow> bool \<Rightarrow> bool \<Rightarrow> bit_blaster_tpl" where
  "with_cfg g wtm bcm = \<lparr>m_cfg = cfg_of g, m_use_wtm = wtm, m_use_bcm = bcm\<rparr>"

lemma with_cfg [simp]: "m_cfg (with_cfg g wtm bcm) = cfg_of g"
  by (simp add: with_cfg_def)

text \<open>The inputs of the examples: the symbolic numbers 5 and 3 of three bits.\<close>

definition five :: "expr list" where
  "five = [sample_bit ''a'', sample_bit ''ab'', sample_bit ''abc'']"

definition three :: "expr list" where
  "three = [sample_bit ''abc'', sample_bit ''a'', m_mk_false]"

abbreviation sample_instance :: blaster_instance where
  "sample_instance \<equiv> Bit_blaster_of \<lparr>m_bb_ext_gates = True, m_bb_quantifiers = False\<rparr> sample_rw"

lemma sample_operands:
  "operands 3 five three" "bval sample_interp five = 5" "bval sample_interp three = 3"
  by (simp_all add: operands_def five_def three_def)

lemma sample_operands_simps [simp]:
  "length five = 3" "length three = 3" "list_all bexp five" "list_all bexp three" "five \<noteq> []"
  using operandsD [OF sample_operands(1)] by simp_all

section \<open>The properties\<close>

text \<open>
  C25: \<open>mk_multiplier\<close> computes the product modulo \<open>2 ^ w\<close>, whichever of the constant, Booth,
  array and Wallace tree multipliers it chooses.
\<close>

theorem multiplier_product:
  assumes "operands w as bs"
  shows "length (mk_multiplier (with_cfg g wtm bcm) as bs) = w \<and>
    bval I (mk_multiplier (with_cfg g wtm bcm) as bs) = (bval I as * bval I bs) mod 2 ^ w"
  using inst.mk_multiplier [OF with_cfg operandsD(6,3,4,7) [OF assms]] operandsD(1) [OF assms] by simp

theorem multiplier_product_witness:
  "bval sample_interp (mk_multiplier (with_cfg sample_instance True False) five three) = 7"
  using multiplier_product [OF sample_operands(1), of sample_instance True False sample_interp]
  by (simp add: sample_operands)

text \<open>
  C26: the Wallace tree multiplier and the array multiplier are equivalent: under every
  interpretation their output bits are the same.
\<close>

theorem wallace_array_equivalent:
  assumes "operands w as bs"
  shows "map (tv I) (mk_wallace_multiplier (cfg_of g) as bs) = map (tv I) (mk_array_multiplier (cfg_of g) as bs)"
proof -
  note o = operandsD(6,3,4,7) [OF assms]
  show ?thesis
    using inst.mk_wallace_multiplier [OF o] inst.mk_array_multiplier [OF o]
    by (simp flip: bval_eq_iff)
qed

theorem wallace_array_equivalent_witness:
  "map (tv sample_interp) (mk_wallace_multiplier (cfg_of sample_instance) five three)
    = map (tv sample_interp) (mk_array_multiplier (cfg_of sample_instance) five three)"
  by (rule wallace_array_equivalent [OF sample_operands(1)])

text \<open>
  C27: the multiplier by case distinction on the inputs that are not constants, when the estimated size is
  below that of the circuit, computes the product, and yet reports failure, as it does when it gives
  up. So its caller \<open>mk_const_multiplier\<close> never uses the product: it builds Booth's circuit when that is
  turned on and the first operand is a constant, and fails otherwise.
\<close>

theorem const_case_multiplier_discarded:
  assumes "operands w as bs"
  shows "(case mk_const_case_multiplier as bs of (success, out) \<Rightarrow> \<not> success \<and>
      (if case_size_loop as bs 1 (of_nat w * of_nat w * 5) < of_nat w * of_nat w * 5
       then length out = w \<and> bval I out = (bval I as * bval I bs) mod 2 ^ w
       else out = [])) \<and>
    mk_const_multiplier T as bs =
      (if is_numeral as = None \<or> \<not> m_use_bcm T then (False, [])
       else (True, booth_loop (m_cfg T) bs (mk_neg (m_cfg T) bs) as 0 False (replicate w m_mk_false)))"
proof -
  have o: "length as = w" "length bs = w" "list_all bexp as" "list_all bexp bs"
    using operandsD [OF assms] by simp_all
  have r: "length (mk_const_case_multiplier_rec True 0 w as bs) = w"
    "bval I (mk_const_case_multiplier_rec True 0 w as bs) = (bval I as * bval I bs) mod 2 ^ w"
    using mk_const_case_multiplier_rec [OF o, of 0 True I] by simp_all
  have e: "mk_const_case_multiplier as bs =
      (False, if case_size_loop as bs 1 (of_nat w * of_nat w * 5) < of_nat w * of_nat w * 5
        then mk_const_case_multiplier_rec True 0 w as bs else [])"
    using o(1) by (auto simp: mk_const_case_multiplier_def Let_def not_less)
  show ?thesis
    using o(1) r by (auto simp: e mk_const_multiplier_def split: option.split)
qed

theorem const_case_multiplier_discarded_witness:
  "fst (mk_const_case_multiplier five three) = False \<and>
    bval sample_interp (snd (mk_const_case_multiplier five three)) = 7"
proof -
  have "case_size_loop five three 1 (of_nat 3 * of_nat 3 * 5) < of_nat 3 * of_nat 3 * 5" by code_simp
  then show ?thesis
    using const_case_multiplier_discarded [OF sample_operands(1), of sample_interp]
    by (cases "mk_const_case_multiplier five three") (simp add: sample_operands)
qed

text \<open>
  C28: the restoring divider computes quotient and remainder of the unsigned numbers, and the
  values of SMT-LIB when the divisor is zero.
\<close>

theorem udiv_urem_correct:
  assumes "operands w as bs"
  shows "bval I (mk_udiv (cfg_of g) as bs) = (if bval I bs = 0 then 2 ^ w - 1 else bval I as div bval I bs) \<and>
    bval I (mk_urem (cfg_of g) as bs) = bval I as mod bval I bs"
  using inst.mk_udiv_urem [OF operandsD(6,3,4,7) [OF assms]] operandsD(1) [OF assms]
  by (simp add: udiv_def)

theorem udiv_urem_correct_witness:
  "bval sample_interp (mk_udiv (cfg_of sample_instance) five three) = 1 \<and>
    bval sample_interp (mk_urem (cfg_of sample_instance) five three) = 2"
  using udiv_urem_correct [OF sample_operands(1), of sample_interp sample_instance]
  by (simp add: sample_operands)

text \<open>
  \<open>mk_sdiv\<close> divides the two's complement numbers, rounding to zero; division by zero gives
  1 for a negative dividend and -1 otherwise.
\<close>

lemma sdiv_correct:
  assumes "operands w as bs"
  shows "bval I (mk_sdiv (cfg_of g) as bs) = of_signed w (let x = to_signed w (bval I as); y = to_signed w (bval I bs) in
      if y = 0 then (if x < 0 then 1 else -1) else sgn x * sgn y * (\<bar>x\<bar> div \<bar>y\<bar>))"
  using inst.mk_sdiv [OF operandsD(1-5) [OF assms]] by (simp add: sdiv_def Let_def)

lemma sdiv_correct_example:
  "bval sample_interp (mk_sdiv (cfg_of sample_instance) five three) = 7"
  using sdiv_correct [OF sample_operands(1), of sample_interp sample_instance]
  by (simp add: sample_operands to_signed_def of_signed_def)

text \<open>
  \<open>mk_srem\<close> computes the remainder that has the sign of the dividend.
\<close>

lemma srem_correct:
  assumes "operands w as bs"
  shows "bval I (mk_srem (cfg_of g) as bs) = of_signed w (let x = to_signed w (bval I as); y = to_signed w (bval I bs) in sgn x * (\<bar>x\<bar> mod \<bar>y\<bar>))"
  using inst.mk_srem [OF operandsD(1-5) [OF assms]] by (simp add: srem_def Let_def)

lemma srem_correct_example:
  "bval sample_interp (mk_srem (cfg_of sample_instance) five three) = 0"
  using srem_correct [OF sample_operands(1), of sample_interp sample_instance]
  by (simp add: sample_operands to_signed_def of_signed_def)

text \<open>
  \<open>mk_smod\<close> computes the remainder that has the sign of the divisor.
\<close>

lemma smod_correct:
  assumes "operands w as bs"
  shows "bval I (mk_smod (cfg_of g) as bs) = of_signed w (to_signed w (bval I as) mod to_signed w (bval I bs))"
  using inst.mk_smod [OF operandsD(1-5) [OF assms]] by (simp add: smod_def Let_def)

lemma smod_correct_example:
  "bval sample_interp (mk_smod (cfg_of sample_instance) five three) = 0"
  using smod_correct [OF sample_operands(1), of sample_interp sample_instance]
  by (simp add: sample_operands to_signed_def of_signed_def)

text \<open>
  C29: signed division: \<open>mk_sdiv\<close> divides the two's complement numbers, rounding to zero, and gives
  1 for a negative dividend and -1 otherwise when the divisor is zero; the remainder of \<open>mk_srem\<close>
  has the sign of the dividend, that of \<open>mk_smod\<close> the sign of the divisor.
\<close>

theorem signed_division_correct:
  assumes "operands w as bs"
  shows "let x = to_signed w (bval I as); y = to_signed w (bval I bs) in
    bval I (mk_sdiv (cfg_of g) as bs) =
      of_signed w (if y = 0 then (if x < 0 then 1 else -1) else sgn x * sgn y * (\<bar>x\<bar> div \<bar>y\<bar>)) \<and>
    bval I (mk_srem (cfg_of g) as bs) = of_signed w (sgn x * (\<bar>x\<bar> mod \<bar>y\<bar>)) \<and>
    bval I (mk_smod (cfg_of g) as bs) = of_signed w (x mod y)"
  using sdiv_correct [OF assms, of I g] srem_correct [OF assms, of I g] smod_correct [OF assms, of I g]
  unfolding Let_def by blast

theorem signed_division_correct_witness:
  "bval sample_interp (mk_sdiv (cfg_of sample_instance) five three) = 7 \<and>
    bval sample_interp (mk_srem (cfg_of sample_instance) five three) = 0"
  using signed_division_correct [OF sample_operands(1), of sample_interp sample_instance]
  by (simp add: sample_operands to_signed_def of_signed_def)

text \<open>
  C30: the template \<open>mk_sdiv_srem_smod\<close> computes the signed quotient and remainders, except that
  its modulo returns the divisor, and not zero, when the signs differ and the remainder is zero.
\<close>

theorem sdiv_srem_smod_correct:
  assumes "operands w as bs"
  shows "bval I (mk_sdiv_srem_smod (cfg_of g) k as bs) =
    (case k of SDIV \<Rightarrow> sdiv w (bval I as) (bval I bs) | SREM \<Rightarrow> srem w (bval I as) (bval I bs)
     | SMOD \<Rightarrow> (if magnitude w (bval I as) mod magnitude w (bval I bs) = 0 \<and>
           (2 ^ (w - 1) \<le> bval I as) \<noteq> (2 ^ (w - 1) \<le> bval I bs) then bval I bs
         else smod w (bval I as) (bval I bs)))"
  using inst.mk_sdiv_srem_smod [OF operandsD(1-5) [OF assms]] by simp

theorem sdiv_srem_smod_correct_witness:
  "bval sample_interp (mk_sdiv_srem_smod (cfg_of sample_instance) SMOD five three) = 3"
  using sdiv_srem_smod_correct [OF sample_operands(1), of sample_interp sample_instance SMOD]
  by (simp add: sample_operands magnitude_def)

text \<open>
  The adder adds modulo \<open>2 ^ w\<close>.
\<close>

lemma adder_sum:
  assumes "operands w as bs"
  shows "length (mk_adder (cfg_of g) as bs) = w \<and>
    bval I (mk_adder (cfg_of g) as bs) = (bval I as + bval I bs) mod 2 ^ w"
  using inst.mk_adder [OF operandsD(6,3,4) [OF assms]] operandsD(1) [OF assms] by simp

lemma adder_sum_example:
  "bval sample_interp (mk_adder (cfg_of sample_instance) five three) = 0"
  using adder_sum [OF sample_operands(1), of sample_instance sample_interp] by (simp add: sample_operands)

text \<open>
  The subtracter subtracts modulo \<open>2 ^ w\<close>, and its carry out is set exactly when there is
  no borrow.
\<close>

lemma subtracter_difference:
  assumes "operands w as bs"
  shows "bval I (fst (mk_subtracter (cfg_of g) as bs)) = (bval I as + 2 ^ w - bval I bs) mod 2 ^ w \<and>
    tv I (snd (mk_subtracter (cfg_of g) as bs)) = (bval I bs \<le> bval I as)"
  using inst.mk_subtracter [OF operandsD(6,3,4) [OF assms]] operandsD(1) [OF assms] by simp

lemma subtracter_difference_example:
  "bval sample_interp (fst (mk_subtracter (cfg_of sample_instance) five three)) = 2"
  using subtracter_difference [OF sample_operands(1), of sample_interp sample_instance] by (simp add: sample_operands)

text \<open>
  \<open>mk_neg\<close> and \<open>mk_abs\<close> compute the opposite and the absolute value of a two's complement
  number.
\<close>

lemma neg_abs_correct:
  assumes "operands w as as"
  shows "bval I (mk_neg (cfg_of g) as) = of_signed w (- to_signed w (bval I as)) \<and>
    bval I (mk_abs (cfg_of g) as) = of_signed w \<bar>to_signed w (bval I as)\<bar>"
proof -
  note o = operandsD [OF assms]
  have lt: "bval I as < 2 ^ w" using bval_less [of I as] o(1) by simp
  have n: "bval I (mk_neg (cfg_of g) as) = (2 ^ w - bval I as) mod 2 ^ w"
    using inst.mk_neg [OF o(3)] o(1) by simp
  have neg: "of_signed w (- to_signed w (bval I as)) = (2 ^ w - bval I as) mod 2 ^ w"
  proof -
    have "(- to_signed w (bval I as)) mod 2 ^ w = int (2 ^ w - bval I as) mod 2 ^ w"
      using lt by (simp add: to_signed_def of_nat_diff mod_simps)
    then show ?thesis using of_signed_cong of_signed_of_nat by metis
  qed
  have "bval I (mk_abs (cfg_of g) as) = magnitude w (bval I as)"
    using inst.mk_abs [OF o(3,7)] o(1) by simp
  moreover have "0 < bval I as \<Longrightarrow> (2 ^ w - bval I as) mod 2 ^ w = 2 ^ w - bval I as" by simp
  moreover have "0 < bval I as" if "2 ^ (w - 1) \<le> bval I as"
    by (rule less_le_trans [OF _ that]) simp
  ultimately have "bval I (mk_abs (cfg_of g) as) = of_signed w \<bar>to_signed w (bval I as)\<bar>"
    using lt neg of_signed_of_nat [of w "bval I as"] to_signed_less_0 [OF lt]
    by (auto simp: magnitude_def abs_if to_signed_def)
  then show ?thesis using n neg by simp
qed

lemma neg_abs_correct_example:
  "bval sample_interp (mk_neg (cfg_of sample_instance) five) = 3 \<and>
    bval sample_interp (mk_abs (cfg_of sample_instance) five) = 3"
proof -
  have "operands 3 five five" by (simp add: operands_def)
  from neg_abs_correct [OF this, of sample_interp sample_instance] show ?thesis
    by (simp add: sample_operands to_signed_def of_signed_def)
qed

text \<open>
  C31: addition and subtraction: the adder adds modulo \<open>2 ^ w\<close>, the subtracter subtracts modulo
  \<open>2 ^ w\<close> and sets its carry exactly when there is no borrow, and \<open>mk_neg\<close> and \<open>mk_abs\<close> compute the
  opposite and the absolute value of a two's complement number.
\<close>

theorem addition_correct:
  assumes "operands w as bs"
  shows "bval I (mk_adder (cfg_of g) as bs) = (bval I as + bval I bs) mod 2 ^ w \<and>
    bval I (fst (mk_subtracter (cfg_of g) as bs)) = (bval I as + 2 ^ w - bval I bs) mod 2 ^ w \<and>
    tv I (snd (mk_subtracter (cfg_of g) as bs)) = (bval I bs \<le> bval I as) \<and>
    bval I (mk_neg (cfg_of g) as) = of_signed w (- to_signed w (bval I as)) \<and>
    bval I (mk_abs (cfg_of g) as) = of_signed w \<bar>to_signed w (bval I as)\<bar>"
proof -
  have "operands w as as" using assms by (simp add: operands_def)
  from neg_abs_correct [OF this] show ?thesis
    using adder_sum [OF assms] subtracter_difference [OF assms] by blast
qed

theorem addition_correct_witness:
  "bval sample_interp (mk_adder (cfg_of sample_instance) five three) = 0 \<and>
    bval sample_interp (mk_abs (cfg_of sample_instance) five) = 3"
  using addition_correct [OF sample_operands(1), of sample_interp sample_instance]
  by (simp add: sample_operands to_signed_def of_signed_def)

text \<open>
  \<open>mk_shl\<close> shifts to the left, to zero for a distance of at least the width.
\<close>

lemma shl_correct:
  assumes "operands w as bs"
  shows "bval I (mk_shl (cfg_of g) as bs) = (if w \<le> bval I bs then 0 else (bval I as * 2 ^ bval I bs) mod 2 ^ w)"
  using inst.mk_shl [OF operandsD(1-4) [OF assms]] by simp

lemma shl_correct_example:
  "bval sample_interp (mk_shl (cfg_of sample_instance) five three) = 0"
  using shl_correct [OF sample_operands(1), of sample_interp sample_instance]
  by (simp add: sample_operands to_signed_def of_signed_def)

text \<open>
  \<open>mk_lshr\<close> shifts to the right, to zero for a distance of at least the width.
\<close>

lemma lshr_correct:
  assumes "operands w as bs"
  shows "bval I (mk_lshr (cfg_of g) as bs) = bval I as div 2 ^ min (bval I bs) w"
proof -
  have "bval I as < 2 ^ w" using bval_less [of I as] operandsD(1) [OF assms] by simp
  then show ?thesis
    using inst.mk_lshr [OF operandsD(1-4) [OF assms]] by (simp add: min_def)
qed

lemma lshr_correct_example:
  "bval sample_interp (mk_lshr (cfg_of sample_instance) five three) = 0"
  using lshr_correct [OF sample_operands(1), of sample_interp sample_instance]
  by (simp add: sample_operands to_signed_def of_signed_def)

text \<open>
  \<open>mk_ashr\<close> shifts to the right a two's complement number, keeping its sign.
\<close>

lemma ashr_correct:
  assumes "operands w as bs"
  shows "bval I (mk_ashr (cfg_of g) as bs) = of_signed w (to_signed w (bval I as) div 2 ^ min (bval I bs) w)"
  using inst.mk_ashr [OF operandsD(1-5) [OF assms]] by simp

lemma ashr_correct_example:
  "bval sample_interp (mk_ashr (cfg_of sample_instance) five three) = 7"
  using ashr_correct [OF sample_operands(1), of sample_interp sample_instance]
  by (simp add: sample_operands to_signed_def of_signed_def)

text \<open>
  C32: shifts by a variable distance: \<open>mk_shl\<close> and \<open>mk_lshr\<close> shift in zeros and give zero for a
  distance of at least the width, \<open>mk_ashr\<close> shifts a two's complement number and keeps its sign.
\<close>

theorem shifts_correct:
  assumes "operands w as bs"
  shows "bval I (mk_shl (cfg_of g) as bs) = (if w \<le> bval I bs then 0 else (bval I as * 2 ^ bval I bs) mod 2 ^ w) \<and>
    bval I (mk_lshr (cfg_of g) as bs) = bval I as div 2 ^ min (bval I bs) w \<and>
    bval I (mk_ashr (cfg_of g) as bs) = of_signed w (to_signed w (bval I as) div 2 ^ min (bval I bs) w)"
  using shl_correct [OF assms] lshr_correct [OF assms] ashr_correct [OF assms] by blast

theorem shifts_correct_witness:
  "bval sample_interp (mk_shl (cfg_of sample_instance) five three) = 0 \<and>
    bval sample_interp (mk_ashr (cfg_of sample_instance) five three) = 7"
  using shifts_correct [OF sample_operands(1), of sample_interp sample_instance]
  by (simp add: sample_operands to_signed_def of_signed_def)

text \<open>
  Rotating by a variable distance rotates by the distance modulo the width; a rotation to
  the left keeps every bit, at the position increased by the distance.
\<close>

theorem ext_rotate_correct:
  assumes "operands w as bs"
  shows "bval I (mk_ext_rotate_left (cfg_of g) as bs) = rotl w (bval I as) (bval I bs) \<and>
    bval I (mk_ext_rotate_right (cfg_of g) as bs) = rotr w (bval I as) (bval I bs)"
  using inst.mk_ext_rotate_left_right [OF operandsD(1-5) [OF assms]]
  by (simp add: mk_ext_rotate_left_def mk_ext_rotate_right_def)

theorem ext_rotate_correct_witness:
  "bval sample_interp (mk_ext_rotate_left (cfg_of sample_instance) five three) = 5"
  using ext_rotate_correct [OF sample_operands(1), of sample_interp sample_instance]
  by (simp add: sample_operands rotl_def)

text \<open>
  C33: the comparators decide the unsigned and the signed order.
\<close>

theorem comparators_correct:
  assumes "operands w as bs"
  shows "tv I (mk_ule (cfg_of g) as bs) = (bval I as \<le> bval I bs) \<and>
    tv I (mk_sle (cfg_of g) as bs) = (to_signed w (bval I as) \<le> to_signed w (bval I bs)) \<and>
    tv I (bb_mk_eq (cfg_of g) as bs) = (bval I as = bval I bs)"
  using inst.mk_ule [OF operandsD(6,3,4,7) [OF assms]] inst.mk_sle [OF operandsD(6,3,4,7) [OF assms]]
    inst.bb_mk_eq [OF operandsD(6,3,4) [OF assms]] operandsD(1) [OF assms] by simp

theorem comparators_correct_witness:
  "\<not> tv sample_interp (mk_ule (cfg_of sample_instance) five three) \<and>
    tv sample_interp (mk_sle (cfg_of sample_instance) five three)"
  using comparators_correct [OF sample_operands(1), of sample_interp sample_instance]
  by (simp add: sample_operands to_signed_def)

text \<open>
  The unsigned overflow predicate holds exactly when the product fits in \<open>w\<close> bits.
\<close>

lemma umul_no_overflow_correct:
  assumes "operands w as bs"
  shows "tv I (mk_umul_no_overflow (with_cfg g wtm bcm) as bs) = (bval I as * bval I bs < 2 ^ w)"
  using inst.mk_umul_no_overflow [OF with_cfg operandsD(1-5) [OF assms]] by simp

lemma umul_no_overflow_correct_example:
  "\<not> tv sample_interp (mk_umul_no_overflow (with_cfg sample_instance False False) five three)"
  using umul_no_overflow_correct [OF sample_operands(1), of sample_interp sample_instance False False]
  by (simp add: sample_operands)

text \<open>
  The signed overflow and underflow predicates hold exactly when the product of the two's
  complement numbers is not too large, respectively not too small, for \<open>w\<close> bits.
\<close>

lemma smul_overflow_correct:
  assumes "operands w as bs"
  shows "tv I (mk_smul_no_overflow (with_cfg g wtm bcm) as bs) =
      (to_signed w (bval I as) * to_signed w (bval I bs) < 2 ^ (w - 1)) \<and>
    tv I (mk_smul_no_underflow (with_cfg g wtm bcm) as bs) =
      (- (2 ^ (w - 1)) \<le> to_signed w (bval I as) * to_signed w (bval I bs))"
  using inst.mk_smul_no_overflow_core [OF with_cfg operandsD(1-5) [OF assms]]
  by (simp add: mk_smul_no_overflow_def mk_smul_no_underflow_def)

lemma smul_overflow_correct_example:
  "tv sample_interp (mk_smul_no_overflow (with_cfg sample_instance True True) five three) \<and>
    \<not> tv sample_interp (mk_smul_no_underflow (with_cfg sample_instance True True) five three)"
  using smul_overflow_correct [OF sample_operands(1), of sample_interp sample_instance True True]
  by (simp add: sample_operands to_signed_def)

text \<open>
  C34: the overflow predicates: the unsigned one holds exactly when the product fits in \<open>w\<close> bits, the
  signed ones when the product of the two's complement numbers is not too large, respectively not
  too small.
\<close>

theorem overflow_correct:
  assumes "operands w as bs"
  shows "tv I (mk_umul_no_overflow (with_cfg g wtm bcm) as bs) = (bval I as * bval I bs < 2 ^ w) \<and>
    tv I (mk_smul_no_overflow (with_cfg g wtm bcm) as bs) =
      (to_signed w (bval I as) * to_signed w (bval I bs) < 2 ^ (w - 1)) \<and>
    tv I (mk_smul_no_underflow (with_cfg g wtm bcm) as bs) =
      (- (2 ^ (w - 1)) \<le> to_signed w (bval I as) * to_signed w (bval I bs))"
  using umul_no_overflow_correct [OF assms] smul_overflow_correct [OF assms] by blast

theorem overflow_correct_witness:
  "\<not> tv sample_interp (mk_umul_no_overflow (with_cfg sample_instance True True) five three) \<and>
    \<not> tv sample_interp (mk_smul_no_underflow (with_cfg sample_instance True True) five three)"
  using overflow_correct [OF sample_operands(1), of sample_interp sample_instance True True]
  by (simp add: sample_operands to_signed_def)

text \<open>
  The bits \<open>num2bits\<close> makes of a number are recognized by \<open>is_numeral\<close> as that number, also
  when they are produced 32 at a time.
\<close>

theorem num2bits_is_numeral:
  assumes "v < 2 ^ sz"
  shows "is_numeral (num2bits v sz) = Some v"
proof -
  have c: "list_all is_bool_const (num2bits_loop aux i n)" for aux i n
    by (induction aux i n rule: num2bits_loop.induct, subst num2bits_loop.simps)
      (auto simp: unsigned_bits_def is_bool_const_def list_all_iff)
  then obtain n where n: "is_numeral (num2bits v sz) = Some n"
    using is_numeral_iff [of "num2bits v sz"] by (auto simp: num2bits_def)
  have "n = v" using is_numeral_Some [OF n, of sample_interp] assms by simp
  with n show ?thesis by simp
qed

theorem num2bits_is_numeral_witness: "is_numeral (num2bits 12345678901 40) = Some 12345678901"
  by (rule num2bits_is_numeral) simp

text \<open>
  Rotating to the left and then to the right by the same constant gives back the bits.
\<close>

theorem rotate_roundtrip:
  "mk_rotate_right (mk_rotate_left as n) n = as"
proof (cases "as = []")
  case True
  then show ?thesis by (simp add: mk_rotate_right_def mk_rotate_left_def)
next
  case False
  let ?w = "length as"
  define k where "k = n mod ?w"
  have k: "k < ?w" using False by (simp add: k_def)
  have l: "mk_rotate_left as n = drop (?w - k) as @ take (?w - k) as"
    using mk_rotate_left_eq [of as n] by (simp add: k_def)
  have len: "length (mk_rotate_left as n) = ?w" by (simp add: l)
  have nm: "n mod ?w = k" by (simp add: k_def)
  have "mk_rotate_right (mk_rotate_left as n) n = mk_rotate_left (mk_rotate_left as n) (?w - k)"
    by (simp add: mk_rotate_right_def len k_def Let_def)
  also have "\<dots> = as"
    using k nm by (cases "k = 0") (simp_all add: mk_rotate_left_eq l)
  finally show ?thesis .
qed

text \<open>
  Sign extension keeps the two's complement number, zero extension the unsigned one.
\<close>

theorem extensions_correct:
  assumes "operands w as as"
  shows "to_signed (w + n) (bval I (mk_sign_extend as n)) = to_signed w (bval I as) \<and>
    bval I (mk_zero_extend as n) = bval I as"
proof -
  note o = operandsD [OF assms]
  have lt: "bval I as < 2 ^ w" using bval_less [of I as] o(1) by simp
  have s: "bval I (mk_sign_extend as n) = of_signed (w + n) (to_signed w (bval I as))"
    using mk_sign_extend [OF o(7)] o(1) by simp
  have p: "(2::int) ^ (w - 1) \<le> 2 ^ (w + n - 1)" using o(5) by (intro power_increasing) simp_all
  have b: "- (2 ^ (w + n - 1)) \<le> to_signed w (bval I as)" "to_signed w (bval I as) < 2 ^ (w + n - 1)"
    using to_signed_bounds [OF lt o(5)] p by linarith+
  have "to_signed (w + n) (of_signed (w + n) (to_signed w (bval I as))) = to_signed w (bval I as)"
    by (rule to_signed_of_signed [OF _ b]) (use o(5) in simp)
  then show ?thesis using s mk_zero_extend by simp
qed

theorem extensions_correct_witness:
  "to_signed 5 (bval sample_interp (mk_sign_extend five 2)) = - 3"
proof -
  have "operands 3 five five" by (simp add: operands_def)
  from extensions_correct [OF this, of 2 sample_interp] show ?thesis by (simp add: sample_operands to_signed_def)
qed

text \<open>
  Of the outputs of \<open>mk_eqs\<close> at most the one at the position of the number is true.
\<close>

lemma eqs_one_hot:
  assumes "list_all bexp as" "i < length as"
  shows "tv I (mk_eqs (cfg_of g) as ! i) = (bval I as = i)"
  using inst.mk_eqs(3) [OF assms] by simp

lemma eqs_one_hot_example:
  "tv sample_interp (mk_eqs (cfg_of sample_instance) three ! 1) = (bval sample_interp three = 1)"
  by (rule eqs_one_hot) simp_all

text \<open>
  The extended gates of \<open>bit_blaster_cfg\<close> and the gates of \<open>blaster_cfg\<close> compute the same
  full adder, for any order of the node ids.
\<close>

theorem full_adders_equivalent:
  assumes "bexp a" "bexp b" "bexp c"
  shows "map (tv I) [cfg_mk_xor3 p rw a b c, cfg_mk_carry p rw a b c] =
    map (tv I) [blaster_mk_xor3 rw' a b c, blaster_mk_carry rw' a b c]"
  using assms by (simp add: cfg_mk_xor3 cfg_mk_carry blaster_mk_xor3 blaster_mk_carry)

theorem full_adders_equivalent_witness:
  "map (tv sample_interp) [cfg_mk_xor3 \<lparr>m_bb_ext_gates = True, m_bb_quantifiers = False\<rparr> sample_rw
       (sample_bit ''a'') (sample_bit ''ab'') (sample_bit ''abc''),
     cfg_mk_carry \<lparr>m_bb_ext_gates = True, m_bb_quantifiers = False\<rparr> sample_rw
       (sample_bit ''a'') (sample_bit ''ab'') (sample_bit ''abc'')] =
   map (tv sample_interp) [blaster_mk_xor3 sample_rw (sample_bit ''a'') (sample_bit ''ab'') (sample_bit ''abc''),
     blaster_mk_carry sample_rw (sample_bit ''a'') (sample_bit ''ab'') (sample_bit ''abc'')]"
  by (rule full_adders_equivalent) simp_all

end
