(* ===== verification/Model_Converter.thy ===== *)
theory Model_Converter
  imports Bit_Blaster_Models
begin

text \<open>
  Models and model converters. \<open>model\<close> (\<open>src/Z3/z3-master/src/model/model_core.h\<close>, \<open>model.h\<close>) maps
  constants to values and functions to tables; \<open>bit_blaster_model_converter\<close>
  (\<open>src/Z3/z3-master/src/tactic/bv/bit_blaster_model_converter.cpp\<close>) turns a model of the bits into a
  model of the constants that were blasted, and \<open>concat\<close> (\<open>tactic/model_converter.cpp\<close>) applies two
  converters, the second one first. The order in which a hash table is traversed only shows in the
  order of the lists of declarations.
\<close>

section \<open>Models\<close>

text \<open>An entry of a function interpretation: the arguments and the result.\<close>

record func_interp =
  fi_entries :: "(expr list \<times> expr) list"
  fi_else :: "expr option"

record model =
  m_interp :: "func_decl \<Rightarrow> expr option"
  m_const_decls :: "func_decl list"
  m_finterp :: "func_decl \<Rightarrow> func_interp option"
  m_usort2universe :: "srt \<Rightarrow> expr list option"

definition empty_model :: model where
  "empty_model = \<lparr>m_interp = Map.empty, m_const_decls = [], m_finterp = Map.empty, m_usort2universe = Map.empty\<rparr>"

text \<open>\<open>register_decl\<close> of a constant; the converters register no function this way.\<close>

definition register_decl :: "func_decl \<Rightarrow> expr \<Rightarrow> model \<Rightarrow> model" where
  "register_decl d v md = md\<lparr>m_interp := (m_interp md)(d \<mapsto> v),
     m_const_decls := (if m_interp md d = None then m_const_decls md @ [d] else m_const_decls md)\<rparr>"

definition copy_func_interps :: "model \<Rightarrow> model \<Rightarrow> model" where
  "copy_func_interps source md = md\<lparr>m_finterp := m_finterp md ++ m_finterp source\<rparr>"

definition copy_usort_interps :: "model \<Rightarrow> model \<Rightarrow> model" where
  "copy_usort_interps source md = md\<lparr>m_usort2universe := m_usort2universe md ++ m_usort2universe source\<rparr>"

section \<open>The converter of the bit-blaster\<close>

fun get_decl :: "expr \<Rightarrow> func_decl option" where
  "get_decl (App d args) = Some d"
| "get_decl (Var i s) = None"

text \<open>The declarations of the bits; every bit is a constant.\<close>

definition collect_bits :: "expr list \<Rightarrow> func_decl list" where
  "collect_bits m_bits = List.map_filter get_decl (concat (map get_args m_bits))"

definition copy_non_bits :: "func_decl list \<Rightarrow> model \<Rightarrow> model \<Rightarrow> model" where
  "copy_non_bits bits old_model new_model =
    copy_usort_interps old_model (copy_func_interps old_model
      (fold (\<lambda>f md. if f \<in> set bits then md
         else (case m_interp old_model f of None \<Rightarrow> md | Some fi \<Rightarrow> register_decl f fi md))
       (m_const_decls old_model) new_model))"

definition mk_numeral :: "nat \<Rightarrow> nat \<Rightarrow> expr" where
  "mk_numeral val bv_size = App (Bv OP_BV_NUM [val mod 2 ^ bv_size, bv_size]) []"

fun is_zero :: "expr \<Rightarrow> bool" where
  "is_zero (App (Bv k ps) args) = (k = OP_BV_NUM \<and> ps ! 0 = 0)"
| "is_zero _ = False"

definition bit_interp :: "model \<Rightarrow> expr \<Rightarrow> expr option" where
  "bit_interp md b = (case get_decl b of None \<Rightarrow> None | Some d \<Rightarrow> m_interp md d)"

text \<open>The number the model gives to the bits, the last one first or the first one first.\<close>

definition mk_bv_value :: "bool \<Rightarrow> model \<Rightarrow> expr list \<Rightarrow> nat" where
  "mk_bv_value TO_BOOL old_model args =
    (if TO_BOOL then
       foldr (\<lambda>b val. case bit_interp old_model b of
           None \<Rightarrow> val * 2
         | Some bit_val \<Rightarrow> (if m_is_true bit_val then val * 2 + 1 else val * 2)) args 0
     else
       foldl (\<lambda>val b. case bit_interp old_model b of
           None \<Rightarrow> val * 2
         | Some bit_val \<Rightarrow> (if \<not> is_zero bit_val then val * 2 + 1 else val * 2)) 0 args)"

fun mk_bvs :: "bool \<Rightarrow> func_decl list \<Rightarrow> expr list \<Rightarrow> model \<Rightarrow> model \<Rightarrow> model" where
  "mk_bvs TO_BOOL (v # vs) (bs # bss) old_model new_model =
    mk_bvs TO_BOOL vs bss old_model
      (case m_interp old_model v of
         Some new_val \<Rightarrow> register_decl v new_val new_model
       | None \<Rightarrow> register_decl v (mk_numeral (mk_bv_value TO_BOOL old_model (get_args bs)) (get_num_args bs)) new_model)"
| "mk_bvs TO_BOOL _ _ old_model new_model = new_model"

definition convert_bits :: "bool \<Rightarrow> func_decl list \<Rightarrow> expr list \<Rightarrow> model \<Rightarrow> model" where
  "convert_bits TO_BOOL m_vars m_bits md =
    mk_bvs TO_BOOL m_vars m_bits md (copy_non_bits (collect_bits m_bits) md empty_model)"

text \<open>
  The formula a converter stands for: the constants equal their bits. Once it has been added to a
  formula, the converter has no constants left.
\<close>

definition ast_mk_and :: "expr list \<Rightarrow> expr" where
  "ast_mk_and args = (case args of [] \<Rightarrow> m_mk_true | [a] \<Rightarrow> a | _ \<Rightarrow> m_mk_and args)"

definition convert_formula :: "func_decl list \<Rightarrow> expr list \<Rightarrow> expr \<Rightarrow> expr \<times> func_decl list \<times> expr list" where
  "convert_formula m_vars m_bits fml =
    (if m_vars = [] then (fml, m_vars, m_bits)
     else (ast_mk_and (fml # map (\<lambda>(v, bs). m_mk_eq (App v []) bs) (zip m_vars m_bits)), [], []))"

section \<open>Converters\<close>

text \<open>
  The converters a goal may carry here: the one of the bit-blaster (a template with the parameter
  \<open>TO_BOOL\<close>), \<open>model2mc\<close> and their concatenation.
\<close>

datatype model_converter =
    Bit_blaster_model_converter bool "func_decl list" "expr list" "func_decl list"
  | Model2mc model
  | Concat_model_converter model_converter model_converter

definition mk_bit_blaster_model_converter ::
    "(func_decl \<times> expr) list \<Rightarrow> func_decl list \<Rightarrow> model_converter option" where
  "mk_bit_blaster_model_converter const2bits newbits =
    (if const2bits = [] then None
     else Some (Bit_blaster_model_converter True (map fst const2bits) (map snd const2bits) newbits))"

definition mk_bv1_blaster_model_converter ::
    "(func_decl \<times> expr) list \<Rightarrow> func_decl list \<Rightarrow> model_converter option" where
  "mk_bv1_blaster_model_converter const2bits newbits =
    (if const2bits = [] then None
     else Some (Bit_blaster_model_converter False (map fst const2bits) (map snd const2bits) newbits))"

definition copy_const_interps :: "model \<Rightarrow> model \<Rightarrow> model" where
  "copy_const_interps source md =
    fold (\<lambda>d md. case m_interp source d of None \<Rightarrow> md | Some v \<Rightarrow> register_decl d v md) (m_const_decls source) md"

fun mc_apply :: "model_converter \<Rightarrow> model \<Rightarrow> model" where
  "mc_apply (Bit_blaster_model_converter TO_BOOL m_vars m_bits newbits) md = convert_bits TO_BOOL m_vars m_bits md"
| "mc_apply (Model2mc m_model) md =
    copy_usort_interps m_model (copy_func_interps m_model (copy_const_interps m_model md))"
| "mc_apply (Concat_model_converter m_c1 m_c2) md = mc_apply m_c1 (mc_apply m_c2 md)"

definition mc_concat :: "model_converter option \<Rightarrow> model_converter option \<Rightarrow> model_converter option" where
  "mc_concat mc1 mc2 =
    (case mc1 of None \<Rightarrow> mc2
     | Some c1 \<Rightarrow> (case mc2 of None \<Rightarrow> mc1 | Some c2 \<Rightarrow> Some (Concat_model_converter c1 c2)))"

definition apply_mc :: "model_converter option \<Rightarrow> model \<Rightarrow> model" where
  "apply_mc mc m = (case mc of None \<Rightarrow> m | Some c \<Rightarrow> mc_apply c m)"

lemma apply_mc_concat [simp]: "apply_mc (mc_concat mc1 mc2) md = apply_mc mc1 (apply_mc mc2 md)"
  by (simp add: apply_mc_def mc_concat_def split: option.split)

section \<open>The interpretation of a model\<close>

text \<open>
  A constant or function without a value gets a default, as the evaluator with model completion
  gives it: false and 0. Variables and the operators a model does not speak of are those of \<open>I\<close>.
\<close>

fun val_num :: "val \<Rightarrow> nat" where
  "val_num (VBool b) = of_bool b"
| "val_num (VBV w n) = n"
| "val_num (VUser k n) = n"

definition const_value :: "interp \<Rightarrow> expr option \<Rightarrow> nat" where
  "const_value I v = (case v of None \<Rightarrow> 0 | Some e \<Rightarrow> val_num (eval I e))"

definition func_value :: "interp \<Rightarrow> func_interp option \<Rightarrow> val list \<Rightarrow> nat" where
  "func_value I f vs = (case f of
       None \<Rightarrow> 0
     | Some fi \<Rightarrow>
         (case find (\<lambda>(as, r). map (eval I) as = vs) (fi_entries fi) of
            Some (as, r) \<Rightarrow> val_num (eval I r)
          | None \<Rightarrow> const_value I (fi_else fi)))"

definition model_interp :: "interp \<Rightarrow> model \<Rightarrow> interp" where
  "model_interp I md = I\<lparr>ifun := (\<lambda>f ds r vs.
     if ds = [] \<and> vs = [] then const_value I (m_interp md (Uninterp f [] r))
     else func_value I (m_finterp md (Uninterp f ds r)) vs)\<rparr>"

end
