(* ===== verification/Goal.thy ===== *)
theory Goal
  imports Model_Converter
begin

text \<open>
  \<open>goal\<close> (\<open>src/Z3/z3-master/src/tactic/goal.h\<close>, \<open>goal.cpp\<close>): the formulas a tactic works on. Adding a
  formula takes conjunctions and negated disjunctions apart, drops the formula true, and makes the
  goal inconsistent when it meets false. The goals here have no proofs: \<open>m_proofs_enabled\<close> is
  false, and the arrays of proofs and the converters of proofs and dependencies are left out.
  Dependencies are values of the type \<open>'d\<close>, with None for the null pointer.
\<close>

section \<open>State\<close>

datatype precision = PRECISE | UNDER | OVER | UNDER_OVER

record 'd goal =
  m_mc :: "model_converter option"
  m_forms :: "expr list"
  m_dependencies :: "'d option list"
  m_depth :: "26 word"
  m_models_enabled :: bool
  m_core_enabled :: bool
  m_inconsistent :: bool
  m_precision :: precision

definition mk_union :: "precision \<Rightarrow> precision \<Rightarrow> precision" where
  "mk_union p1 p2 =
    (if p1 = PRECISE then p2
     else if p2 = PRECISE then p1
     else if p1 \<noteq> p2 then UNDER_OVER
     else p1)"

definition mk_goal :: "bool \<Rightarrow> bool \<Rightarrow> 'd goal" where
  "mk_goal models_enabled core_enabled =
    \<lparr>m_mc = None, m_forms = [], m_dependencies = [], m_depth = 0, m_models_enabled = models_enabled,
     m_core_enabled = core_enabled, m_inconsistent = False, m_precision = PRECISE\<rparr>"

definition copy_to :: "'d goal \<Rightarrow> 'd goal \<Rightarrow> 'd goal" where
  "copy_to g target = target\<lparr>m_mc := m_mc g, m_forms := m_forms g, m_dependencies := m_dependencies g,
     m_depth := max (m_depth g) (m_depth target), m_inconsistent := m_inconsistent g,
     m_precision := mk_union (m_precision g) (m_precision target)\<rparr>"

text \<open>The copy constructor makes a goal with the flags of \<open>src\<close> and copies from it.\<close>

definition goal_copy :: "'d goal \<Rightarrow> 'd goal" where
  "goal_copy src = copy_to src (mk_goal (m_models_enabled src) (m_core_enabled src))"

text \<open>The constructor that copies the configuration only.\<close>

definition goal_config :: "'d goal \<Rightarrow> 'd goal" where
  "goal_config src = src\<lparr>m_forms := [], m_dependencies := [], m_inconsistent := False\<rparr>"

definition goal_size :: "'d goal \<Rightarrow> nat" where
  "goal_size g = length (m_forms g)"

definition dep :: "'d goal \<Rightarrow> nat \<Rightarrow> 'd option" where
  "dep g i = (if m_core_enabled g then m_dependencies g ! i else None)"

definition inc_depth :: "'d goal \<Rightarrow> 'd goal" where
  "inc_depth g = g\<lparr>m_depth := m_depth g + 1\<rparr>"

definition updt_prec :: "precision \<Rightarrow> 'd goal \<Rightarrow> 'd goal" where
  "updt_prec d g = g\<lparr>m_precision := mk_union (m_precision g) d\<rparr>"

definition add_mc :: "model_converter option \<Rightarrow> 'd goal \<Rightarrow> 'd goal" where
  "add_mc mc g = g\<lparr>m_mc := mc_concat (m_mc g) mc\<rparr>"

section \<open>Adding formulas\<close>

definition push_back :: "expr \<Rightarrow> 'd option \<Rightarrow> 'd goal \<Rightarrow> 'd goal" where
  "push_back f d g =
    (if m_is_true f then g
     else if m_is_false f then
       g\<lparr>m_forms := [m_mk_false], m_dependencies := (if m_core_enabled g then [d] else []), m_inconsistent := True\<rparr>
     else
       g\<lparr>m_forms := m_forms g @ [f],
         m_dependencies := (if m_core_enabled g then m_dependencies g @ [d] else m_dependencies g)\<rparr>)"

lemma args_size: "sum_list (map (size \<circ> fst \<circ> (\<lambda>a. (a, b))) (get_args e)) + length (get_args e) < Suc (size e)"
  by (cases e) (simp_all add: comp_def size_list_conv_sum_list)

lemma not_arg_size: "m_is_not e \<Longrightarrow> size (get_arg e 0) < size e"
  by (elim m_is_notE) (simp add: m_mk_not_def)

text \<open>
  The loop of \<open>quick_process\<close> over its stack of formulas with a polarity; the first formula that is
  not taken apart is given back in \<open>f\<close> when \<open>save_first\<close> holds.
\<close>

function quick_loop ::
    "bool \<Rightarrow> (expr \<times> bool) list \<Rightarrow> expr \<Rightarrow> 'd option \<Rightarrow> 'd goal \<Rightarrow> expr \<times> 'd goal" where
  "quick_loop save_first [] f d g = (f, g)"
| "quick_loop save_first ((cur, pol) # todo) f d g =
    (if m_inconsistent g then (f, g)
     else if pol \<and> m_is_and cur then
       quick_loop save_first (map (\<lambda>a. (a, True)) (get_args cur) @ todo) f d g
     else if \<not> pol \<and> m_is_or cur then
       quick_loop save_first (map (\<lambda>a. (a, False)) (get_args cur) @ todo) f d g
     else if m_is_not cur then quick_loop save_first ((get_arg cur 0, \<not> pol) # todo) f d g
     else
       (let lit = (if pol then cur else m_mk_not cur)
        in if save_first then quick_loop False todo lit d g
           else quick_loop False todo f d (push_back lit d g)))"
  by pat_completeness auto

termination quick_loop
  by (relation "measure (\<lambda>(s, todo, f, d, g). sum_list (map (size \<circ> fst) todo) + length todo)")
    (use args_size not_arg_size in auto)

definition quick_process :: "bool \<Rightarrow> expr \<Rightarrow> 'd option \<Rightarrow> 'd goal \<Rightarrow> expr \<times> 'd goal" where
  "quick_process save_first f d g =
    (if \<not> m_is_and f \<and> \<not> (m_is_not f \<and> m_is_or (get_arg f 0)) then
       (f, if \<not> save_first then push_back f d g else g)
     else quick_loop save_first [(f, True)] f d g)"

definition assert_expr :: "expr \<Rightarrow> 'd option \<Rightarrow> 'd goal \<Rightarrow> 'd goal" where
  "assert_expr f d g = (if m_inconsistent g then g else snd (quick_process False f d g))"

definition set_form :: "nat \<Rightarrow> expr \<Rightarrow> 'd option \<Rightarrow> 'd goal \<Rightarrow> 'd goal" where
  "set_form i f d g = g\<lparr>m_forms := (m_forms g)[i := f],
     m_dependencies := (if m_core_enabled g then (m_dependencies g)[i := d] else m_dependencies g)\<rparr>"

definition goal_update :: "nat \<Rightarrow> expr \<Rightarrow> 'd option \<Rightarrow> 'd goal \<Rightarrow> 'd goal" where
  "goal_update i f d g =
    (if m_inconsistent g then g
     else
       (let (fr, g1) = quick_process True f d g
        in if m_inconsistent g1 then g1
           else if m_is_false fr then push_back f d g1
           else set_form i fr d g1))"

section \<open>Removing formulas\<close>

definition reset_core :: "'d goal \<Rightarrow> 'd goal" where
  "reset_core g = g\<lparr>m_forms := [], m_dependencies := []\<rparr>"

definition reset_all :: "'d goal \<Rightarrow> 'd goal" where
  "reset_all g = (reset_core g)\<lparr>m_depth := 0, m_inconsistent := False, m_precision := PRECISE\<rparr>"

definition goal_reset :: "'d goal \<Rightarrow> 'd goal" where
  "goal_reset g = (reset_core g)\<lparr>m_inconsistent := False\<rparr>"

definition shrink :: "nat \<Rightarrow> 'd goal \<Rightarrow> 'd goal" where
  "shrink j g = g\<lparr>m_forms := take j (m_forms g),
     m_dependencies := (if m_core_enabled g then take j (m_dependencies g) else m_dependencies g)\<rparr>"

text \<open>The loop moves the formula at \<open>i\<close> to \<open>j\<close>.\<close>

definition move_form :: "nat \<Rightarrow> nat \<Rightarrow> 'd goal \<Rightarrow> 'd goal" where
  "move_form i j g = (if i = j then g else set_form j (m_forms g ! i) (dep g i) g)"

fun elim_true_loop :: "nat list \<Rightarrow> nat \<Rightarrow> 'd goal \<Rightarrow> nat \<times> 'd goal" where
  "elim_true_loop [] j g = (j, g)"
| "elim_true_loop (i # is) j g =
    (if m_is_true (m_forms g ! i) then elim_true_loop is j g
     else elim_true_loop is (j + 1) (move_form i j g))"

definition elim_true :: "'d goal \<Rightarrow> 'd goal" where
  "elim_true g = (let (j, g1) = elim_true_loop [0..<goal_size g] 0 g in shrink j g1)"

fun first_index :: "(expr \<Rightarrow> bool) \<Rightarrow> nat \<Rightarrow> expr list \<Rightarrow> nat" where
  "first_index p j [] = 2 ^ 32 - 1"
| "first_index p j (x # xs) = (if p x then j else first_index p (j + 1) xs)"

definition get_idx :: "'d goal \<Rightarrow> expr \<Rightarrow> nat" where
  "get_idx g f = first_index (\<lambda>x. x = f) 0 (m_forms g)"

definition get_not_idx :: "'d goal \<Rightarrow> expr \<Rightarrow> nat" where
  "get_not_idx g f = first_index (\<lambda>x. m_is_not x \<and> get_arg x 0 = f) 0 (m_forms g)"

text \<open>
  The loop of \<open>elim_redundancies\<close>, with the marked atoms of negative and positive literals; None
  for the number of formulas left means that a contradiction was found. \<open>mk_join\<close> joins the
  dependencies of its two literals.
\<close>

fun elim_redundancies_loop ::
    "('d option \<Rightarrow> 'd option \<Rightarrow> 'd option) \<Rightarrow> expr list \<Rightarrow> expr list \<Rightarrow> nat list \<Rightarrow> nat \<Rightarrow> 'd goal \<Rightarrow>
      nat option \<times> 'd goal" where
  "elim_redundancies_loop mk_join neg_lits pos_lits [] j g = (Some j, g)"
| "elim_redundancies_loop mk_join neg_lits pos_lits (i # is) j g =
    (let f = m_forms g ! i
     in if m_is_true f then elim_redundancies_loop mk_join neg_lits pos_lits is j g
        else if m_is_not f then
          (let atom = get_arg f 0
           in if atom \<in> set neg_lits then elim_redundancies_loop mk_join neg_lits pos_lits is j g
              else if atom \<in> set pos_lits then
                (None, push_back m_mk_false
                   (if m_core_enabled g then mk_join (dep g (get_idx g atom)) (dep g i) else None) g)
              else elim_redundancies_loop mk_join (atom # neg_lits) pos_lits is (j + 1) (move_form i j g))
        else
          (if f \<in> set pos_lits then elim_redundancies_loop mk_join neg_lits pos_lits is j g
           else if f \<in> set neg_lits then
             (None, push_back m_mk_false
                (if m_core_enabled g then mk_join (dep g (get_not_idx g f)) (dep g i) else None) g)
           else elim_redundancies_loop mk_join neg_lits (f # pos_lits) is (j + 1) (move_form i j g)))"

definition elim_redundancies :: "('d option \<Rightarrow> 'd option \<Rightarrow> 'd option) \<Rightarrow> 'd goal \<Rightarrow> 'd goal" where
  "elim_redundancies mk_join g =
    (if m_inconsistent g then g
     else
       (case elim_redundancies_loop mk_join [] [] [0..<goal_size g] 0 g of
          (None, g1) \<Rightarrow> g1
        | (Some j, g1) \<Rightarrow> shrink j g1))"

section \<open>Tests\<close>

definition is_well_formed :: "'d goal \<Rightarrow> bool" where
  "is_well_formed g = list_all wf (m_forms g)"

definition sat_preserved :: "'d goal \<Rightarrow> bool" where
  "sat_preserved g = (m_precision g = PRECISE \<or> m_precision g = UNDER)"

definition unsat_preserved :: "'d goal \<Rightarrow> bool" where
  "unsat_preserved g = (m_precision g = PRECISE \<or> m_precision g = OVER)"

definition is_decided_sat :: "'d goal \<Rightarrow> bool" where
  "is_decided_sat g = (goal_size g = 0 \<and> sat_preserved g)"

definition is_decided_unsat :: "'d goal \<Rightarrow> bool" where
  "is_decided_unsat g = (m_inconsistent g \<and> unsat_preserved g)"

definition is_decided :: "'d goal \<Rightarrow> bool" where
  "is_decided g = (is_decided_sat g \<or> is_decided_unsat g)"

text \<open>The numbers of different formulas are compared, after every formula of \<open>s2\<close> was found in \<open>s1\<close>.\<close>

definition goal_is_equal :: "'d goal \<Rightarrow> 'd goal \<Rightarrow> bool" where
  "goal_is_equal s1 s2 =
    (if goal_size s1 \<noteq> goal_size s2 then False
     else if \<exists>f \<in> set (m_forms s2). f \<notin> set (m_forms s1) then False
     else length (remdups (m_forms s1)) = length (remdups (m_forms s2)))"

definition is_literal :: "expr \<Rightarrow> bool" where
  "is_literal f =
    (let f = (if m_is_not f then get_arg f 0 else f)
     in case f of
          Var i s \<Rightarrow> False
        | App (Basic k) args \<Rightarrow> \<not> list_ex m_is_bool args
        | App d args \<Rightarrow> True)"

text \<open>The loop returns at the first disjunction.\<close>

fun is_cnf_loop :: "expr list \<Rightarrow> bool" where
  "is_cnf_loop [] = True"
| "is_cnf_loop (f # fs) =
    (if m_is_or f then list_all is_literal (get_args f)
     else if \<not> is_literal f then False
     else is_cnf_loop fs)"

definition is_cnf :: "'d goal \<Rightarrow> bool" where
  "is_cnf g = is_cnf_loop (m_forms g)"

section \<open>What a goal says\<close>

text \<open>
  A goal holds under an interpretation when all its formulas are true. In a well-formed goal the
  formulas are Boolean terms, an inconsistent goal is the formula false alone, and there is a
  dependency for every formula if the goal tracks them.
\<close>

definition holds :: "interp \<Rightarrow> 'd goal \<Rightarrow> bool" where
  "holds I g = list_all (tv I) (m_forms g)"

definition goal_ok :: "'d goal \<Rightarrow> bool" where
  "goal_ok g = (list_all bexp (m_forms g) \<and> (m_inconsistent g \<longrightarrow> m_forms g = [m_mk_false]) \<and>
     (m_core_enabled g \<longrightarrow> length (m_dependencies g) = length (m_forms g)))"

lemma inconsistent_holds: "goal_ok g \<Longrightarrow> m_inconsistent g \<Longrightarrow> \<not> holds I g"
  by (simp add: goal_ok_def holds_def)

text \<open>Everything but the formulas, their dependencies and the flag of inconsistency.\<close>

definition same_goal :: "'d goal \<Rightarrow> 'd goal \<Rightarrow> bool" where
  "same_goal g g' = (m_mc g' = m_mc g \<and> m_depth g' = m_depth g \<and> m_models_enabled g' = m_models_enabled g \<and>
     m_core_enabled g' = m_core_enabled g \<and> m_precision g' = m_precision g)"

lemma same_goal_refl [simp]: "same_goal g g"
  by (simp add: same_goal_def)

lemma same_goal_trans: "same_goal a b \<Longrightarrow> same_goal b c \<Longrightarrow> same_goal a c"
  by (simp add: same_goal_def)

definition todo_holds :: "interp \<Rightarrow> (expr \<times> bool) list \<Rightarrow> bool" where
  "todo_holds I todo = (\<forall>(e, pol) \<in> set todo. tv I e = pol)"

lemma todo_holds_simps [simp]:
  "todo_holds I []" "todo_holds I ((e, pol) # todo) \<longleftrightarrow> tv I e = pol \<and> todo_holds I todo"
  "todo_holds I (xs @ ys) \<longleftrightarrow> todo_holds I xs \<and> todo_holds I ys"
  "todo_holds I (map (\<lambda>a. (a, True)) as) \<longleftrightarrow> list_all (tv I) as"
  "todo_holds I (map (\<lambda>a. (a, False)) as) \<longleftrightarrow> \<not> list_ex (tv I) as"
  by (auto simp: todo_holds_def list_all_iff list_ex_iff)

lemma push_back_cases:
  assumes "goal_ok g" "\<not> m_inconsistent g" "bexp f"
  shows "goal_ok (push_back f d g) \<and> same_goal g (push_back f d g) \<and>
    (if m_inconsistent (push_back f d g) then m_forms (push_back f d g) = [m_mk_false] \<and> (\<forall>I. \<not> tv I f)
     else \<exists>ext. m_forms (push_back f d g) = m_forms g @ ext \<and> (\<forall>I. list_all (tv I) ext \<longleftrightarrow> tv I f))"
  using assms by (auto simp: push_back_def goal_ok_def same_goal_def)

text \<open>
  What processing a stack does: it appends formulas that hold when the stack does, less the one that
  is saved; the goal becomes inconsistent only when the stack cannot hold.
\<close>

definition quick_post :: "bool \<Rightarrow> (expr \<times> bool) list \<Rightarrow> expr \<Rightarrow> 'd goal \<Rightarrow> expr \<Rightarrow> 'd goal \<Rightarrow> bool" where
  "quick_post save todo f g f' g' = (goal_ok g' \<and> same_goal g g' \<and> bexp f' \<and>
     (if m_inconsistent g' then \<forall>I. \<not> todo_holds I todo
      else \<exists>ext. m_forms g' = m_forms g @ ext \<and>
        (if save then (f' = f \<and> ext = [] \<and> (\<forall>I. todo_holds I todo)) \<or>
             (\<forall>I. tv I f' \<and> list_all (tv I) ext \<longleftrightarrow> todo_holds I todo)
         else f' = f \<and> (\<forall>I. list_all (tv I) ext \<longleftrightarrow> todo_holds I todo))))"

lemma quick_post_cong:
  assumes "quick_post save todo f g f' g'" "\<And>I. todo_holds I todo = todo_holds I todo'"
  shows "quick_post save todo' f g f' g'"
  using assms(1) unfolding quick_post_def assms(2) .

lemma quick_post_saved:
  assumes "quick_post False todo l g f' g'" "\<And>I. tv I l \<longleftrightarrow> tv I e = pol"
  shows "quick_post True ((e, pol) # todo) f g f' g'"
proof -
  have "goal_ok g'" "same_goal g g'" "bexp f'" using assms(1) by (simp_all add: quick_post_def)
  moreover have "\<not> todo_holds I ((e, pol) # todo)" if "m_inconsistent g'" for I
    using assms(1) that by (simp add: quick_post_def)
  moreover have "\<exists>ext. m_forms g' = m_forms g @ ext \<and>
      (\<forall>I. tv I f' \<and> list_all (tv I) ext \<longleftrightarrow> todo_holds I ((e, pol) # todo))" if "\<not> m_inconsistent g'"
  proof -
    obtain ext where "f' = l" "m_forms g' = m_forms g @ ext" "\<And>I. list_all (tv I) ext \<longleftrightarrow> todo_holds I todo"
      using assms(1) \<open>\<not> m_inconsistent g'\<close> by (auto simp: quick_post_def)
    then show ?thesis using assms(2) by (intro exI [of _ ext]) simp
  qed
  ultimately show ?thesis unfolding quick_post_def by auto
qed

lemma quick_post_pushed:
  assumes "quick_post False todo f g1 f' g'" "same_goal g g1" "m_forms g1 = m_forms g @ ext"
    "\<And>I. list_all (tv I) ext \<longleftrightarrow> tv I l" "\<And>I. tv I l \<longleftrightarrow> tv I e = pol"
  shows "quick_post False ((e, pol) # todo) f g f' g'"
proof -
  have "goal_ok g'" "same_goal g g'" "bexp f'"
    using assms(1) same_goal_trans [OF assms(2)] by (simp_all add: quick_post_def)
  moreover have "\<not> todo_holds I ((e, pol) # todo)" if "m_inconsistent g'" for I
    using assms(1) that by (simp add: quick_post_def)
  moreover have "f' = f \<and> (\<exists>ext. m_forms g' = m_forms g @ ext \<and>
      (\<forall>I. list_all (tv I) ext \<longleftrightarrow> todo_holds I ((e, pol) # todo)))" if "\<not> m_inconsistent g'"
  proof -
    obtain ext' where "f' = f" "m_forms g' = m_forms g1 @ ext'" "\<And>I. list_all (tv I) ext' \<longleftrightarrow> todo_holds I todo"
      using assms(1) \<open>\<not> m_inconsistent g'\<close> by (auto simp: quick_post_def)
    then show ?thesis using assms(3-5) by (intro conjI exI [of _ "ext @ ext'"]) simp_all
  qed
  ultimately show ?thesis unfolding quick_post_def by auto
qed

lemma quick_loop_inconsistent [simp]: "m_inconsistent g \<Longrightarrow> quick_loop save todo f d g = (f, g)"
  by (cases todo) auto

lemma bexp_parts:
  "m_is_and e \<Longrightarrow> bexp e \<Longrightarrow> list_all bexp (get_args e)" "m_is_or e \<Longrightarrow> bexp e \<Longrightarrow> list_all bexp (get_args e)"
  "m_is_not e \<Longrightarrow> bexp e \<Longrightarrow> bexp (get_arg e 0)"
  by (auto elim!: m_is_andE m_is_orE m_is_notE)

lemma tv_parts:
  "m_is_and e \<Longrightarrow> tv I e = list_all (tv I) (get_args e)" "m_is_or e \<Longrightarrow> tv I e = list_ex (tv I) (get_args e)"
  "m_is_not e \<Longrightarrow> tv I e = (\<not> tv I (get_arg e 0))"
  by (auto elim!: m_is_andE m_is_orE m_is_notE)

lemma quick_loop:
  assumes "goal_ok g" "\<not> m_inconsistent g" "list_all (bexp \<circ> fst) todo" "bexp f"
    "quick_loop save todo f d g = (f', g')"
  shows "quick_post save todo f g f' g'"
  using assms
proof (induction save todo f d g arbitrary: f' g' rule: quick_loop.induct)
  case (1 save f d g)
  then show ?case by (auto simp: quick_post_def)
next
  case (2 save e pol todo f d g)
  note prems = 2(6-10)
  have e: "bexp e" "list_all (bexp \<circ> fst) todo" using prems(3) by (simp_all add: comp_def)
  consider (conj) "pol" "m_is_and e" | (disj) "\<not> pol" "m_is_or e"
    | (neg) "\<not> (pol \<and> m_is_and e)" "\<not> (\<not> pol \<and> m_is_or e)" "m_is_not e"
    | (lit) "\<not> (pol \<and> m_is_and e)" "\<not> (\<not> pol \<and> m_is_or e)" "\<not> m_is_not e" by blast
  then show ?case
  proof cases
    case conj
    then have "quick_post save (map (\<lambda>a. (a, True)) (get_args e) @ todo) f g f' g'"
      using bexp_parts(1) [OF conj(2) e(1)] e(2) conj prems by (intro 2(1)) (auto simp: list_all_iff)
    then show ?thesis by (rule quick_post_cong) (simp add: conj tv_parts(1))
  next
    case disj
    then have "quick_post save (map (\<lambda>a. (a, False)) (get_args e) @ todo) f g f' g'"
      using bexp_parts(2) [OF disj(2) e(1)] e(2) disj prems by (intro 2(2)) (auto simp: list_all_iff)
    then show ?thesis by (rule quick_post_cong) (simp add: disj tv_parts(2))
  next
    case neg
    have "quick_post save ((get_arg e 0, \<not> pol) # todo) f g f' g'"
    proof (rule 2(3) [OF prems(2) neg prems(1,2) _ prems(4)])
      show "list_all (bexp \<circ> fst) ((get_arg e 0, \<not> pol) # todo)" using bexp_parts(3) [OF neg(3) e(1)] e(2) by simp
      show "quick_loop save ((get_arg e 0, \<not> pol) # todo) f d g = (f', g')"
        using prems(5) by (subst (asm) quick_loop.simps(2)) (simp only: prems(2) neg if_False if_True)
    qed
    then show ?thesis by (rule quick_post_cong) (auto simp: tv_parts(3) [OF neg(3)])
  next
    case lit
    define l where "l = (if pol then e else m_mk_not e)"
    have l: "bexp l" "\<And>I. tv I l \<longleftrightarrow> tv I e = pol" using e(1) by (auto simp: l_def)
    have eq: "(if save then quick_loop False todo l d g else quick_loop False todo f d (push_back l d g)) = (f', g')"
      using prems(5) unfolding quick_loop.simps(2) [of save e pol todo f d g, unfolded if_not_P [OF prems(2)] if_not_P [OF lit(1)]
        if_not_P [OF lit(2)] if_not_P [OF lit(3)] Let_def, folded l_def] .
    note IH = 2(4,5) [OF prems(2) lit, of l, OF l_def]
    show ?thesis
    proof (cases save)
      case True
      then have "quick_post False todo l g f' g'" using IH(1) [OF _ prems(1,2) e(2) l(1), of f' g'] eq by simp
      from quick_post_saved [OF this l(2)] show ?thesis using True by simp
    next
      case False
      let ?g = "push_back l d g"
      have q: "quick_loop False todo f d ?g = (f', g')" using False eq by simp
      note p = push_back_cases [OF prems(1,2) l(1), of d]
      show ?thesis
      proof (cases "m_inconsistent ?g")
        case True
        then have "f' = f" "g' = ?g" using q by simp_all
        then show ?thesis using True p prems(4) l(2) by (auto simp: quick_post_def)
      next
        case nc: False
        then obtain ext where ext: "m_forms ?g = m_forms g @ ext" "\<And>I. list_all (tv I) ext \<longleftrightarrow> tv I l" using p by auto
        have ok: "goal_ok ?g" "same_goal g ?g" using p by blast+
        have "quick_post False todo f ?g f' g'" using IH(2) [OF False ok(1) nc e(2) prems(4) q] .
        from quick_post_pushed [OF this ok(2) ext l(2)] show ?thesis using False by simp
      qed
    qed
  qed
qed


declare quick_loop.simps(2) [simp del]

lemma quick_process:
  assumes "goal_ok g" "\<not> m_inconsistent g" "bexp f" "quick_process save f d g = (f', g')"
  shows "quick_post save [(f, True)] f g f' g'"
proof (cases "\<not> m_is_and f \<and> \<not> (m_is_not f \<and> m_is_or (get_arg f 0))")
  case True
  then have q: "f' = f" "g' = (if save then g else push_back f d g)"
    using assms(4) by (auto simp: quick_process_def)
  show ?thesis
  proof (cases save)
    case True
    then have "\<exists>ext. m_forms g' = m_forms g @ ext \<and> (\<forall>I. tv I f' \<and> list_all (tv I) ext \<longleftrightarrow> todo_holds I [(f, True)])"
      using q by (intro exI [of _ "[]"]) simp
    then show ?thesis using True q assms(1-3) by (auto simp: quick_post_def)
  next
    case False
    then have q: "f' = f" "g' = push_back f d g" using q by simp_all
    note p = push_back_cases [OF assms(1-3), of d]
    show ?thesis
    proof (cases "m_inconsistent g'")
      case True
      then show ?thesis using False q p assms(3) by (simp add: quick_post_def)
    next
      case nc: False
      then obtain ext where "m_forms g' = m_forms g @ ext" "\<And>I. list_all (tv I) ext \<longleftrightarrow> tv I f" using p q by auto
      then have "\<exists>ext. m_forms g' = m_forms g @ ext \<and> (\<forall>I. list_all (tv I) ext \<longleftrightarrow> todo_holds I [(f, True)])"
        by (intro exI [of _ ext]) simp
      moreover have "goal_ok g'" "same_goal g g'" "bexp f'" using p q assms(3) by simp_all
      ultimately show ?thesis using q(1) by (simp only: quick_post_def nc False if_False simp_thms)
    qed
  qed
next
  case False
  then have "quick_loop save [(f, True)] f d g = (f', g')" using assms(4) by (simp add: quick_process_def split: if_splits)
  from quick_loop [OF assms(1,2) _ assms(3) this] assms(3) show ?thesis by simp
qed

text \<open>Asserting a formula conjoins it, whatever it is taken apart into.\<close>

lemma assert_expr:
  assumes "goal_ok g" "bexp f"
  shows "goal_ok (assert_expr f d g)" "same_goal g (assert_expr f d g)"
    "holds I (assert_expr f d g) \<longleftrightarrow> holds I g \<and> tv I f"
proof -
  have "goal_ok (assert_expr f d g) \<and> same_goal g (assert_expr f d g) \<and>
    (holds I (assert_expr f d g) \<longleftrightarrow> holds I g \<and> tv I f)"
  proof (cases "m_inconsistent g")
    case True
    then show ?thesis using assms(1) inconsistent_holds [OF assms(1), of I] by (simp add: assert_expr_def)
  next
    case False
    obtain f' g' where q: "quick_process False f d g = (f', g')" by fastforce
    have p: "quick_post False [(f, True)] f g f' g'" using quick_process [OF assms(1) False assms(2) q] .
    have e: "assert_expr f d g = g'" using False q by (simp add: assert_expr_def)
    show ?thesis
    proof (cases "m_inconsistent g'")
      case True
      then have "\<not> holds I g'" using p inconsistent_holds by (auto simp: quick_post_def)
      then show ?thesis using True p by (simp add: e quick_post_def)
    next
      case False
      then obtain ext where "m_forms g' = m_forms g @ ext" "\<And>I. list_all (tv I) ext \<longleftrightarrow> tv I f"
        using p unfolding quick_post_def by auto
      then have "holds I g' \<longleftrightarrow> holds I g \<and> tv I f" by (simp add: holds_def)
      then show ?thesis using p by (simp add: e quick_post_def)
    qed
  qed
  then show "goal_ok (assert_expr f d g)" "same_goal g (assert_expr f d g)"
    "holds I (assert_expr f d g) \<longleftrightarrow> holds I g \<and> tv I f" by blast+
qed

text \<open>
  Replacing the formula at \<open>i\<close>: either the goal becomes inconsistent, and the new formula is false,
  or the first part of the new formula takes the place and the others are appended, or the first
  part is false: then the old formula stays and the new one is appended.
\<close>

lemma goal_update_cases:
  assumes "goal_ok g" "\<not> m_inconsistent g" "bexp f" "i < length (m_forms g)"
  obtains (inconsistent) "m_inconsistent (goal_update i f d g)" "\<And>I. \<not> tv I f"
    | (set) fr ext where "\<not> m_inconsistent (goal_update i f d g)"
        "m_forms (goal_update i f d g) = (m_forms g)[i := fr] @ ext"
        "\<And>I. tv I fr \<and> list_all (tv I) ext \<longleftrightarrow> tv I f"
    | (false) ext where "\<not> m_inconsistent (goal_update i f d g)" "m_forms (goal_update i f d g) = m_forms g @ ext @ [f]"
        "\<And>I. \<not> tv I f"
proof -
  obtain fr g1 where q: "quick_process True f d g = (fr, g1)" by fastforce
  have p: "quick_post True [(f, True)] f g fr g1" using quick_process [OF assms(1-3) q] .
  have u: "goal_update i f d g = (if m_inconsistent g1 then g1 else if m_is_false fr then push_back f d g1 else set_form i fr d g1)"
    using assms(2) q by (simp add: goal_update_def)
  show thesis
  proof (cases "m_inconsistent g1")
    case True
    then have "\<not> tv I f" for I using p by (auto simp: quick_post_def)
    then show thesis using True u inconsistent by simp
  next
    case False
    then obtain ext where g1: "m_forms g1 = m_forms g @ ext" "goal_ok g1"
      and v: "\<And>I. tv I fr \<and> list_all (tv I) ext \<longleftrightarrow> tv I f" using p by (auto simp: quick_post_def)
    show thesis
    proof (cases "m_is_false fr")
      case True
      then have f: "\<not> tv I f" for I using v [of I] by auto
      show thesis
      proof (cases "m_inconsistent (push_back f d g1)")
        case True
        then show thesis using inconsistent f u False \<open>m_is_false fr\<close> by simp
      next
        case nc: False
        have "\<not> m_is_true f" "\<not> m_is_false f" using f nc by (auto simp: push_back_def m_is_defs)
        then have "m_forms (push_back f d g1) = m_forms g @ ext @ [f]" using g1 by (simp add: push_back_def)
        then show thesis using false [of ext] f u False \<open>m_is_false fr\<close> nc by simp
      qed
    next
      case nf: False
      then have "m_forms (goal_update i f d g) = (m_forms g)[i := fr] @ ext"
        using u False g1 assms(4) by (simp add: set_form_def list_update_append1)
      moreover have "\<not> m_inconsistent (goal_update i f d g)" using u False nf by (simp add: set_form_def)
      ultimately show thesis using set v by blast
    qed
  qed
qed

lemma goal_update_ok:
  assumes "goal_ok g" "bexp f"
  shows "goal_ok (goal_update i f d g)" "same_goal g (goal_update i f d g)"
proof -
  have "goal_ok (goal_update i f d g) \<and> same_goal g (goal_update i f d g)"
  proof (cases "m_inconsistent g")
    case True
    then show ?thesis using assms by (simp add: goal_update_def)
  next
    case False
    obtain fr g1 where q: "quick_process True f d g = (fr, g1)" by fastforce
    have p: "quick_post True [(f, True)] f g fr g1" using quick_process [OF assms(1) False assms(2) q] .
    then have g1: "goal_ok g1" "same_goal g g1" "bexp fr" by (simp_all add: quick_post_def)
    have "goal_ok (set_form i fr d g1) \<and> same_goal g1 (set_form i fr d g1)" if "\<not> m_inconsistent g1"
      using g1 that by (auto simp: goal_ok_def same_goal_def set_form_def list_all_iff dest!: set_update_subset_insert [THEN subsetD])
    then show ?thesis
      using False q g1 push_back_cases [OF g1(1) _ assms(2), of d] same_goal_trans [OF g1(2)]
      by (auto simp: goal_update_def)
  qed
  then show "goal_ok (goal_update i f d g)" "same_goal g (goal_update i f d g)" by blast+
qed


section \<open>Removing formulas keeps the meaning\<close>

text \<open>Moving a formula down: the kept formulas are a prefix, those to come are untouched.\<close>

lemma move_form:
  assumes "j \<le> i" "i < length (m_forms g)"
  shows "length (m_forms (move_form i j g)) = length (m_forms g)"
    "take (Suc j) (m_forms (move_form i j g)) = take j (m_forms g) @ [m_forms g ! i]"
    "drop (Suc i) (m_forms (move_form i j g)) = drop (Suc i) (m_forms g)"
    "same_goal g (move_form i j g)" "m_inconsistent (move_form i j g) = m_inconsistent g"
  using assms
  by (auto simp: move_form_def set_form_def same_goal_def take_Suc_conv_app_nth take_update_swap list_update_beyond)

lemma move_form_ok:
  assumes "goal_ok g" "\<not> m_inconsistent g" "j \<le> i" "i < length (m_forms g)"
  shows "goal_ok (move_form i j g)"
proof -
  have "set (m_forms (move_form i j g)) \<subseteq> set (m_forms g)"
    using assms(4) by (auto simp: move_form_def set_form_def dest!: set_update_subset_insert [THEN subsetD])
  then show ?thesis using assms by (auto simp: goal_ok_def list_all_iff move_form_def set_form_def)
qed

lemma shrink_ok: "goal_ok g \<Longrightarrow> \<not> m_inconsistent g \<Longrightarrow> goal_ok (shrink j g)"
  by (auto simp: goal_ok_def shrink_def list_all_iff dest: in_set_takeD)

lemma elim_true_loop:
  assumes "goal_ok g" "\<not> m_inconsistent g" "j \<le> i" "is = [i..<length (m_forms g)]" "elim_true_loop is j g = (j', g')"
  shows "goal_ok g' \<and> same_goal g g' \<and> \<not> m_inconsistent g' \<and>
    take j' (m_forms g') = take j (m_forms g) @ filter (\<lambda>f. \<not> m_is_true f) (drop i (m_forms g))"
  using assms
proof (induction "is" arbitrary: i j g)
  case Nil
  have "length (m_forms g) \<le> i" using Nil(4) [symmetric] by auto
  then show ?case using Nil by simp
next
  case (Cons k "is")
  have k: "k = i" "i < length (m_forms g)" "is = [Suc i..<length (m_forms g)]"
    using Cons.prems(4) [symmetric] by (auto simp: upt_eq_Cons_conv)
  have d: "drop i (m_forms g) = m_forms g ! i # drop (Suc i) (m_forms g)" using k(2) by (simp add: Cons_nth_drop_Suc)
  show ?case
  proof (cases "m_is_true (m_forms g ! i)")
    case True
    then have "elim_true_loop is j g = (j', g')" using Cons.prems(5) k(1) by simp
    from Cons.IH [OF Cons.prems(1,2) _ k(3) this] show ?thesis using Cons.prems(3) True d by simp
  next
    case False
    note m = move_form [OF Cons.prems(3) k(2)]
    have "elim_true_loop is (Suc j) (move_form i j g) = (j', g')" using Cons.prems(5) k(1) False by simp
    from Cons.IH [OF move_form_ok [OF Cons.prems(1-3) k(2)] _ _ _ this, of "Suc i"]
    show ?thesis using m k(3) Cons.prems(2,3) False d same_goal_trans [OF m(4)] by simp
  qed
qed

lemma elim_true:
  assumes "goal_ok g" "\<not> m_inconsistent g"
  shows "goal_ok (elim_true g)" "same_goal g (elim_true g)" "m_forms (elim_true g) = filter (\<lambda>f. \<not> m_is_true f) (m_forms g)"
proof -
  obtain j' g' where e: "elim_true_loop [0..<goal_size g] 0 g = (j', g')" by fastforce
  note l = elim_true_loop [OF assms _ _ e, of 0]
  have "elim_true g = shrink j' g'" using e by (simp add: elim_true_def)
  then show "goal_ok (elim_true g)" "same_goal g (elim_true g)"
    "m_forms (elim_true g) = filter (\<lambda>f. \<not> m_is_true f) (m_forms g)"
    using l shrink_ok [of g' j'] by (simp_all add: goal_size_def) (auto simp: shrink_def same_goal_def)
qed

text \<open>
  The literals kept so far: the marked atoms are those of the kept formulas, which differ and do not
  contradict each other.
\<close>

definition kept_literals :: "expr list \<Rightarrow> expr list \<Rightarrow> expr list \<Rightarrow> bool" where
  "kept_literals neg_lits pos_lits fs = (set neg_lits = {a. m_mk_not a \<in> set fs} \<and>
     set pos_lits = {f \<in> set fs. \<not> m_is_not f} \<and> distinct fs \<and> m_mk_true \<notin> set fs \<and>
     (\<forall>a. m_mk_not a \<in> set fs \<longrightarrow> a \<in> set fs \<longrightarrow> m_is_not a))"

definition no_redundancies :: "expr list \<Rightarrow> bool" where
  "no_redundancies fs = (distinct fs \<and> m_mk_true \<notin> set fs \<and> (\<forall>a. m_mk_not a \<in> set fs \<longrightarrow> a \<in> set fs \<longrightarrow> m_is_not a))"

lemma kept_neg:
  assumes "kept_literals ns ps fs" "a \<notin> set ns" "a \<notin> set ps"
  shows "kept_literals (a # ns) ps (fs @ [m_mk_not a])"
  using assms by (auto simp: kept_literals_def)

lemma m_mk_not_neq [simp]: "m_mk_not a \<noteq> a" "a \<noteq> m_mk_not a"
  using not_arg_size [of "m_mk_not a"] by (metis get_arg_mk(1) less_irrefl m_is_mk(19))+

lemma kept_pos:
  assumes "kept_literals ns ps fs" "\<not> m_is_not f" "\<not> m_is_true f" "f \<notin> set ns" "f \<notin> set ps"
  shows "kept_literals ns (f # ps) (fs @ [f])"
  using assms by (auto simp: kept_literals_def m_is_true_def)

lemma elim_redundancies_loop:
  assumes "goal_ok g" "\<not> m_inconsistent g" "j \<le> i" "is = [i..<length (m_forms g)]"
    "kept_literals ns ps (take j (m_forms g))" "elim_redundancies_loop mk_join ns ps is j g = (r, g')"
  shows "goal_ok g' \<and> same_goal g g' \<and> (case r of
      None \<Rightarrow> m_inconsistent g' \<and> (\<forall>I. \<not> (list_all (tv I) (take j (m_forms g)) \<and> list_all (tv I) (drop i (m_forms g))))
    | Some j' \<Rightarrow> \<not> m_inconsistent g' \<and> no_redundancies (take j' (m_forms g')) \<and>
        (\<forall>I. list_all (tv I) (take j' (m_forms g')) \<longleftrightarrow>
          list_all (tv I) (take j (m_forms g)) \<and> list_all (tv I) (drop i (m_forms g))))"
  using assms
proof (induction "is" arbitrary: i j g ns ps)
  case Nil
  have "length (m_forms g) \<le> i" using Nil(4) [symmetric] by auto
  then show ?case using Nil by (auto simp: no_redundancies_def kept_literals_def)
next
  case (Cons k "is")
  let ?f = "m_forms g ! i" and ?fs = "take j (m_forms g)"
  have k: "k = i" "i < length (m_forms g)" "is = [Suc i..<length (m_forms g)]"
    using Cons.prems(4) [symmetric] by (auto simp: upt_eq_Cons_conv)
  have d: "drop i (m_forms g) = ?f # drop (Suc i) (m_forms g)" using k(2) by (simp add: Cons_nth_drop_Suc)
  note prems = Cons.prems(1-3) and kept = Cons.prems(5)
  have skip: ?case
    if "elim_redundancies_loop mk_join ns ps is j g = (r, g')" "\<And>I. list_all (tv I) ?fs \<Longrightarrow> tv I ?f"
    using Cons.IH [OF prems(1,2) _ k(3) kept that(1)] prems(3) that(2) unfolding d by (cases r) auto
  have keep: ?case
    if e: "elim_redundancies_loop mk_join ns' ps' is (Suc j) (move_form i j g) = (r, g')"
      and kp: "kept_literals ns' ps' (?fs @ [?f])" for ns' ps'
  proof -
    note m = move_form [OF prems(3) k(2)]
    have "\<not> m_inconsistent (move_form i j g)" "Suc j \<le> Suc i" "is = [Suc i..<length (m_forms (move_form i j g))]"
      "kept_literals ns' ps' (take (Suc j) (m_forms (move_form i j g)))" using m k(3) prems kp by simp_all
    note ih = Cons.IH [OF move_form_ok [OF prems k(2)] this e, unfolded m(2,3)]
    show ?thesis using ih same_goal_trans [OF m(4)] unfolding d by (cases r) auto
  qed
  have stop: ?case
    if "(None, push_back m_mk_false dd g) = (r, g')" "\<And>I. list_all (tv I) ?fs \<Longrightarrow> \<not> tv I ?f" for dd
    using that push_back_cases [OF prems(1,2), of m_mk_false dd] unfolding d
    by (auto simp: push_back_def split: if_splits)
  show ?case
  proof (cases "m_is_true ?f")
    case True
    then show ?thesis using skip Cons.prems(6) k(1) by auto
  next
    case nt: False
    show ?thesis
    proof (cases "m_is_not ?f")
      case True
      then obtain a where a: "?f = m_mk_not a" by (rule m_is_notE)
      consider "a \<in> set ns" | "a \<notin> set ns" "a \<in> set ps" | "a \<notin> set ns" "a \<notin> set ps" by blast
      then show ?thesis
      proof cases
        case 1
        then have "tv I ?f" if "list_all (tv I) ?fs" for I using that kept a by (auto simp: kept_literals_def list_all_iff)
        then show ?thesis using skip Cons.prems(6) k(1) nt a 1 by simp
      next
        case 2
        then have "\<not> tv I ?f" if "list_all (tv I) ?fs" for I using that kept a by (auto simp: kept_literals_def list_all_iff)
        then show ?thesis using stop [of "if m_core_enabled g then mk_join (dep g (get_idx g a)) (dep g i) else None"]
            Cons.prems(6) k(1) nt a 2 by simp
      next
        case 3
        then show ?thesis using keep [of "a # ns" ps] kept_neg [OF kept] Cons.prems(6) k(1) nt a by simp
      qed
    next
      case nn: False
      consider "?f \<in> set ps" | "?f \<notin> set ps" "?f \<in> set ns" | "?f \<notin> set ns" "?f \<notin> set ps" by blast
      then show ?thesis
      proof cases
        case 1
        then have "tv I ?f" if "list_all (tv I) ?fs" for I using that kept by (auto simp: kept_literals_def list_all_iff)
        then show ?thesis using skip Cons.prems(6) k(1) nt nn 1 by simp
      next
        case 2
        then have "\<not> tv I ?f" if "list_all (tv I) ?fs" for I using that kept by (auto simp: kept_literals_def list_all_iff)
        then show ?thesis using stop [of "if m_core_enabled g then mk_join (dep g (get_not_idx g ?f)) (dep g i) else None"]
            Cons.prems(6) k(1) nt nn 2 by simp
      next
        case 3
        then show ?thesis using keep [of ns "?f # ps"] kept_pos [OF kept nn nt] Cons.prems(6) k(1) nt nn by simp
      qed
    qed
  qed
qed

lemma elim_redundancies:
  assumes "goal_ok g"
  shows "goal_ok (elim_redundancies mk_join g)" "same_goal g (elim_redundancies mk_join g)"
    "holds I (elim_redundancies mk_join g) \<longleftrightarrow> holds I g"
    "m_inconsistent (elim_redundancies mk_join g) \<or> no_redundancies (m_forms (elim_redundancies mk_join g))"
proof -
  have "goal_ok (elim_redundancies mk_join g) \<and> same_goal g (elim_redundancies mk_join g) \<and>
    (holds I (elim_redundancies mk_join g) \<longleftrightarrow> holds I g) \<and>
    (m_inconsistent (elim_redundancies mk_join g) \<or> no_redundancies (m_forms (elim_redundancies mk_join g)))"
  proof (cases "m_inconsistent g")
    case True
    then show ?thesis using assms by (simp add: elim_redundancies_def)
  next
    case False
    obtain r g' where e: "elim_redundancies_loop mk_join [] [] [0..<goal_size g] 0 g = (r, g')" by fastforce
    note l = elim_redundancies_loop [OF assms False _ _ _ e, of 0]
    have k: "kept_literals [] [] []" by (simp add: kept_literals_def)
    show ?thesis
    proof (cases r)
      case None
      then show ?thesis using l k e False inconsistent_holds [of g' I]
        by (simp add: elim_redundancies_def goal_size_def) (simp add: holds_def)
    next
      case (Some j')
      then show ?thesis using l k e False shrink_ok [of g' j']
        by (simp add: elim_redundancies_def goal_size_def) (auto simp: holds_def shrink_def same_goal_def)
    qed
  qed
  then show "goal_ok (elim_redundancies mk_join g)" "same_goal g (elim_redundancies mk_join g)"
    "holds I (elim_redundancies mk_join g) \<longleftrightarrow> holds I g"
    "m_inconsistent (elim_redundancies mk_join g) \<or> no_redundancies (m_forms (elim_redundancies mk_join g))"
    by blast+
qed

end
