(* ===== verification/Act_Cache.thy ===== *)
theory Act_Cache
  imports Rewriter_Types
begin

text \<open>
  \<open>act_cache\<close> (\<open>src/Z3/z3-master/src/ast/act_cache.h\<close>, \<open>act_cache.cpp\<close>): the cache of a rewriter.
  A key is a term with an offset; an entry is a value with a tag that says whether the entry
  was ever found. Keys wait in a queue in the order of their insertion, and when the counter
  \<open>m_unused\<close> reaches \<open>m_max_unused\<close> an insertion evicts the oldest key that was never found. The
  counter is an \<open>unsigned\<close>. Reference counts are not part of the model.
\<close>

section \<open>State and operations\<close>

type_synonym entry = "expr \<times> nat"

record act_cache =
  m_table :: "entry \<Rightarrow> (expr \<times> bool) option"
  m_queue :: "entry list"
  m_qhead :: nat
  m_unused :: "32 word"
  m_max_unused :: "32 word"

text \<open>The constructor; the other one passes the number of nodes of the manager for \<open>n\<close>.\<close>

definition init :: "act_cache \<Rightarrow> act_cache" where
  "init c = c\<lparr>m_max_unused := (if m_max_unused c < 1024 then 1024 else m_max_unused c),
     m_unused := 0, m_qhead := 0\<rparr>"

definition mk_act_cache :: "32 word \<Rightarrow> act_cache" where
  "mk_act_cache n = init
     \<lparr>m_table = Map.empty, m_queue = [], m_qhead = 0, m_unused = 0, m_max_unused = n\<rparr>"

definition compress_queue :: "act_cache \<Rightarrow> act_cache" where
  "compress_queue c = c\<lparr>m_queue := drop (m_qhead c) (m_queue c), m_qhead := 0\<rparr>"

text \<open>
  The loop of \<open>del_unused\<close> over the active part of the queue. Its keys are in the table, as the
  code asserts.
\<close>

fun del_unused_loop :: "entry list \<Rightarrow> act_cache \<Rightarrow> act_cache" where
  "del_unused_loop [] c = c"
| "del_unused_loop (e # es) c =
    (let c1 = c\<lparr>m_qhead := m_qhead c + 1\<rparr> in
     case m_table c e of
       Some (v, False) \<Rightarrow> c1\<lparr>m_unused := m_unused c1 - 1, m_table := (m_table c1)(e := None)\<rparr>
     | _ \<Rightarrow> del_unused_loop es c1)"

definition del_unused :: "act_cache \<Rightarrow> act_cache" where
  "del_unused c =
    (let c1 = del_unused_loop (drop (m_qhead c) (m_queue c)) c in
     if m_qhead c1 = length (m_queue c1) then c1\<lparr>m_queue := [], m_qhead := 0\<rparr>
     else if unat (m_max_unused c1) < m_qhead c1 then compress_queue c1
     else c1)"

definition cache_insert :: "expr \<Rightarrow> nat \<Rightarrow> expr \<Rightarrow> act_cache \<Rightarrow> act_cache" where
  "cache_insert k offset v c =
    (let e = (k, offset);
         c1 = (if m_max_unused c \<le> m_unused c then del_unused c else c)
     in case m_table c1 e of
          None \<Rightarrow> c1\<lparr>m_table := (m_table c1)(e \<mapsto> (v, False)), m_queue := m_queue c1 @ [e],
                     m_unused := m_unused c1 + 1\<rparr>
        | Some (v', tag) \<Rightarrow>
            (if v' = v then c1 else c1\<lparr>m_table := (m_table c1)(e \<mapsto> (v, False))\<rparr>))"

definition cache_find :: "expr \<Rightarrow> nat \<Rightarrow> act_cache \<Rightarrow> expr option \<times> act_cache" where
  "cache_find k offset c =
    (case m_table c (k, offset) of
       None \<Rightarrow> (None, c)
     | Some (v, tag) \<Rightarrow>
         (Some v, if tag then c
                  else c\<lparr>m_table := (m_table c)((k, offset) \<mapsto> (v, True)), m_unused := m_unused c - 1\<rparr>))"

definition cache_reset :: "act_cache \<Rightarrow> act_cache" where
  "cache_reset c = c\<lparr>m_table := Map.empty, m_queue := [], m_unused := 0, m_qhead := 0\<rparr>"

section \<open>The abstract cache\<close>

text \<open>The partial map a cache stands for.\<close>

definition lookup :: "act_cache \<Rightarrow> entry \<Rightarrow> expr option" where
  "lookup c e = map_option fst (m_table c e)"

definition unused :: "act_cache \<Rightarrow> entry \<Rightarrow> bool" where
  "unused c e = (\<exists>v. m_table c e = Some (v, False))"

definition active :: "act_cache \<Rightarrow> entry list" where
  "active c = drop (m_qhead c) (m_queue c)"

lemma unused_cong: "m_table c' e = m_table c e \<Longrightarrow> unused c' e = unused c e"
  by (simp add: unused_def)

lemma unused_code: "unused c e = (case m_table c e of Some (v, tag) \<Rightarrow> \<not> tag | None \<Rightarrow> False)"
  by (auto simp: unused_def split: option.split)

text \<open>
  What the loop does: it skips the keys that were found and evicts the first other key, if there
  is one.
\<close>

lemma del_unused_loop_skip: "\<not> unused c e \<Longrightarrow> del_unused_loop (e # es) c = del_unused_loop es (c\<lparr>m_qhead := m_qhead c + 1\<rparr>)"
  by (cases "m_table c e") (auto simp: unused_def Let_def split: bool.split)

lemma del_unused_loop_take:
  "unused c e \<Longrightarrow> del_unused_loop (e # es) c = c\<lparr>m_qhead := m_qhead c + 1, m_unused := m_unused c - 1,
     m_table := (m_table c)(e := None)\<rparr>"
  by (rule act_cache.equality) (auto simp: unused_def Let_def)

lemma unused_qhead [simp]: "unused (c\<lparr>m_qhead := n\<rparr>) = unused c"
  by (auto simp: unused_def fun_eq_iff)

lemma del_unused_loop_none:
  "\<forall>e \<in> set es. \<not> unused c e \<Longrightarrow> del_unused_loop es c = c\<lparr>m_qhead := m_qhead c + length es\<rparr>"
  by (induction es arbitrary: c) (simp_all add: del_unused_loop_skip del: del_unused_loop.simps(2))

lemma del_unused_loop_some:
  "\<forall>x \<in> set xs. \<not> unused c x \<Longrightarrow> unused c e \<Longrightarrow>
    del_unused_loop (xs @ e # ys) c = c\<lparr>m_qhead := m_qhead c + length xs + 1,
      m_unused := m_unused c - 1, m_table := (m_table c)(e := None)\<rparr>"
proof (induction xs arbitrary: c)
  case Nil
  then show ?case by (simp only: append_Nil del_unused_loop_take list.size add_0_right)
next
  case (Cons x xs)
  then have s: "del_unused_loop ((x # xs) @ e # ys) c = del_unused_loop (xs @ e # ys) (c\<lparr>m_qhead := m_qhead c + 1\<rparr>)"
    by (simp add: del_unused_loop_skip del: del_unused_loop.simps(2))
  show ?case
    unfolding s using Cons.prems by (subst Cons.IH) (auto intro!: act_cache.equality)
qed

text \<open>
  The two outcomes of \<open>del_unused\<close>: no key of the active queue is unused and the queue becomes
  empty, or the first unused key leaves the table and the queue before and with it is dropped.
\<close>

lemma del_unused_cases:
  assumes "m_qhead c \<le> length (m_queue c)"
  obtains (none) "\<forall>e \<in> set (active c). \<not> unused c e" "active (del_unused c) = []"
      "m_table (del_unused c) = m_table c" "m_unused (del_unused c) = m_unused c"
  | (evict) xs e ys where "active c = xs @ e # ys" "\<forall>x \<in> set xs. \<not> unused c x" "unused c e"
      "active (del_unused c) = ys" "m_table (del_unused c) = (m_table c)(e := None)"
      "m_unused (del_unused c) = m_unused c - 1"
proof (cases "\<exists>e \<in> set (active c). unused c e")
  case True
  then obtain xs e ys where s: "active c = xs @ e # ys" "\<forall>x \<in> set xs. \<not> unused c x" "unused c e"
    using split_list_first_prop [of "active c" "unused c"] by blast
  have q: "m_queue c = take (m_qhead c) (m_queue c) @ xs @ e # ys"
    using s(1) by (metis active_def append_take_drop_id)
  have "drop (m_qhead c + length xs + 1) (m_queue c) = ys"
    by (subst q) (use assms in simp)
  then show ?thesis
    using s del_unused_loop_some [OF s(2,3), of ys]
    by (intro evict) (auto simp: del_unused_def active_def compress_queue_def Let_def)
next
  case False
  then show ?thesis
    using del_unused_loop_none [of "active c" c] assms
    by (intro none) (auto simp: del_unused_def active_def compress_queue_def Let_def)
qed

lemma del_unused_max [simp]: "m_max_unused (del_unused c) = m_max_unused c"
proof -
  have "m_max_unused (del_unused_loop es c) = m_max_unused c" for es
    by (induction es arbitrary: c) (auto simp: Let_def split: option.split bool.split)
  then show ?thesis by (simp add: del_unused_def compress_queue_def Let_def)
qed

lemma del_unused_qhead:
  assumes "m_qhead c \<le> length (m_queue c)"
  shows "m_qhead (del_unused c) \<le> length (m_queue (del_unused c))"
proof -
  have "m_qhead (del_unused_loop es c) \<le> m_qhead c + length es \<and> m_queue (del_unused_loop es c) = m_queue c" for es
  proof (induction es arbitrary: c)
    case (Cons e es)
    then show ?case
      using Cons.IH [of "c\<lparr>m_qhead := m_qhead c + 1\<rparr>"]
      by (cases "unused c e") (simp_all add: del_unused_loop_skip del_unused_loop_take del: del_unused_loop.simps(2))
  qed simp
  from this [of "drop (m_qhead c) (m_queue c)"] assms show ?thesis
    by (simp add: del_unused_def compress_queue_def Let_def)
qed

section \<open>Well-formed caches\<close>

text \<open>The keys of the active queue are different and have entries.\<close>

definition cache_wf :: "act_cache \<Rightarrow> bool" where
  "cache_wf c = (m_qhead c \<le> length (m_queue c) \<and> distinct (active c) \<and> set (active c) \<subseteq> dom (m_table c))"

lemma del_unused_wf:
  assumes "cache_wf c"
  shows "cache_wf (del_unused c)"
proof -
  have h: "m_qhead c \<le> length (m_queue c)" using assms by (simp add: cache_wf_def)
  show ?thesis
    using assms del_unused_qhead [OF h]
    by (cases rule: del_unused_cases [OF h]) (auto simp: cache_wf_def)
qed

lemma unused_dom: "unused c e \<Longrightarrow> e \<in> dom (m_table c)"
  by (auto simp: unused_def)

text \<open>The cache after the eviction that an insertion starts with, and the three cases that follow.\<close>

definition make_room :: "act_cache \<Rightarrow> act_cache" where
  "make_room c = (if m_max_unused c \<le> m_unused c then del_unused c else c)"

lemma cache_insert_cases:
  fixes k offset v c
  defines "e \<equiv> (k, offset)" and "c1 \<equiv> make_room c"
  obtains (new) "m_table c1 e = None"
      "cache_insert k offset v c = c1\<lparr>m_table := (m_table c1)(e \<mapsto> (v, False)), m_queue := m_queue c1 @ [e],
         m_unused := m_unused c1 + 1\<rparr>"
  | (same) tag where "m_table c1 e = Some (v, tag)" "cache_insert k offset v c = c1"
  | (replace) v' tag where "m_table c1 e = Some (v', tag)" "v' \<noteq> v"
      "cache_insert k offset v c = c1\<lparr>m_table := (m_table c1)(e \<mapsto> (v, False))\<rparr>"
  by (cases "m_table c1 e") (auto simp: cache_insert_def make_room_def e_def c1_def Let_def split: if_splits)

lemma make_room_wf: "cache_wf c \<Longrightarrow> cache_wf (make_room c)"
  by (simp add: make_room_def del_unused_wf)

lemma cache_insert_wf: "cache_wf c \<Longrightarrow> cache_wf (cache_insert k offset v c)"
proof -
  assume "cache_wf c"
  then have w: "cache_wf (make_room c)" by (rule make_room_wf)
  then show ?thesis
    by (cases k offset v c rule: cache_insert_cases) (auto simp: cache_wf_def active_def)
qed

lemma cache_find_wf: "cache_wf c \<Longrightarrow> cache_wf (snd (cache_find k offset c))"
  by (auto simp: cache_wf_def cache_find_def active_def split: option.split)

lemma cache_reset_wf [simp]: "cache_wf (cache_reset c)"
  by (simp add: cache_wf_def cache_reset_def active_def)

lemma mk_act_cache_wf [simp]: "cache_wf (mk_act_cache n)"
  by (simp add: cache_wf_def mk_act_cache_def init_def active_def)

section \<open>The cache refines a partial map\<close>

lemma lookup_reset [simp]: "lookup (cache_reset c) e = None" "lookup (mk_act_cache n) e = None"
  by (simp_all add: lookup_def cache_reset_def mk_act_cache_def init_def)

lemma cache_find:
  "fst (cache_find k offset c) = lookup c (k, offset)" "lookup (snd (cache_find k offset c)) = lookup c"
  by (auto simp: cache_find_def lookup_def fun_eq_iff split: option.split)

lemma lookup_make_room: "lookup (make_room c) e = lookup c e \<or> lookup (make_room c) e = None"
proof -
  have "m_table (del_unused_loop es c) e = m_table c e \<or> m_table (del_unused_loop es c) e = None" for es
  proof (induction es arbitrary: c)
    case (Cons a es)
    show ?case
      using Cons.IH [of "c\<lparr>m_qhead := m_qhead c + 1\<rparr>"]
      by (cases "unused c a") (auto simp: del_unused_loop_skip del_unused_loop_take simp del: del_unused_loop.simps(2))
  qed simp
  from this [of "drop (m_qhead c) (m_queue c)"] show ?thesis
    unfolding lookup_def by (auto simp: make_room_def del_unused_def compress_queue_def Let_def)
qed

lemma cache_insert_lookup:
  "lookup (cache_insert k offset v c) (k, offset) = Some v"
  "e \<noteq> (k, offset) \<Longrightarrow> lookup (cache_insert k offset v c) e = lookup c e \<or> lookup (cache_insert k offset v c) e = None"
proof -
  show "lookup (cache_insert k offset v c) (k, offset) = Some v"
    by (cases k offset v c rule: cache_insert_cases) (auto simp: lookup_def)
  assume "e \<noteq> (k, offset)"
  then show "lookup (cache_insert k offset v c) e = lookup c e \<or> lookup (cache_insert k offset v c) e = None"
    using lookup_make_room [of c e]
    by (cases k offset v c rule: cache_insert_cases) (auto simp: lookup_def)
qed

section \<open>The counter of unused entries\<close>

text \<open>
  The counter is exact: every unused entry has its key in the active queue, there are as many as
  the counter says, and at most as many as allowed.
\<close>

definition cache_exact :: "act_cache \<Rightarrow> bool" where
  "cache_exact c = (cache_wf c \<and> Collect (unused c) \<subseteq> set (active c) \<and>
     card (Collect (unused c)) = unat (m_unused c) \<and> m_unused c \<le> m_max_unused c \<and> 0 < m_max_unused c)"

lemma cache_exact_finite: "cache_exact c \<Longrightarrow> finite (Collect (unused c))"
  by (auto simp: cache_exact_def intro: finite_subset)

lemma cache_exact_empty:
  assumes "\<And>e. \<not> unused c e" "cache_wf c" "m_unused c = 0" "0 < m_max_unused c"
  shows "cache_exact c"
proof -
  have "Collect (unused c) = {}" using assms(1) by blast
  then show ?thesis using assms(2-4) unfolding cache_exact_def by (simp only:) simp
qed

lemma mk_act_cache_exact: "cache_exact (mk_act_cache n)"
proof (rule cache_exact_empty)
  show "0 < m_max_unused (mk_act_cache n)"
    by (auto simp: mk_act_cache_def init_def word_less_nat_alt word_le_nat_alt not_less)
qed (simp_all, simp_all add: mk_act_cache_def init_def unused_def)

lemma cache_reset_exact: "cache_exact c \<Longrightarrow> cache_exact (cache_reset c)"
proof (rule cache_exact_empty)
  show "cache_exact c \<Longrightarrow> 0 < m_max_unused (cache_reset c)" by (simp add: cache_exact_def cache_reset_def)
qed (simp_all, simp_all add: cache_reset_def unused_def)

lemma unat_pred: "0 < unat (n :: 32 word) \<Longrightarrow> unat (n - 1) = unat n - 1"
  by (metis unat_gt_0 unat_minus_one)

lemma unat_Suc_less: "n < m \<Longrightarrow> unat (n + 1) = Suc (unat n)" for n m :: "32 word"
proof -
  assume "n < m"
  then have "unat n < 2 ^ 32 - 1" using unsigned_less [of m, where ?'a = nat] by (simp add: word_less_nat_alt)
  then show ?thesis using unat_add_lem [of n 1] by simp
qed

lemma card_remove_unused:
  assumes "finite U" "card U = unat (n :: 32 word)" "e \<in> U"
  shows "card (U - {e}) = unat (n - 1)"
proof -
  have "0 < unat n" using assms card_gt_0_iff [of U] by auto
  then show ?thesis using assms by (simp add: unat_pred)
qed

lemma cache_find_exact:
  assumes "cache_exact c"
  shows "cache_exact (snd (cache_find k offset c))"
proof (cases "unused c (k, offset)")
  case True
  then obtain v where v: "m_table c (k, offset) = Some (v, False)" by (auto simp: unused_def)
  let ?c = "c\<lparr>m_table := (m_table c)((k, offset) \<mapsto> (v, True)), m_unused := m_unused c - 1\<rparr>"
  have f: "snd (cache_find k offset c) = ?c" using v by (simp add: cache_find_def)
  have u: "Collect (unused ?c) = Collect (unused c) - {(k, offset)}" by (auto simp: unused_def split: if_splits)
  have n: "card (Collect (unused c) - {(k, offset)}) = unat (m_unused c - 1)"
    using assms True by (intro card_remove_unused cache_exact_finite) (auto simp: cache_exact_def)
  have "0 < unat (m_unused c)"
    using True assms cache_exact_finite [OF assms] card_gt_0_iff [of "Collect (unused c)"]
    by (auto simp: cache_exact_def)
  then have le: "m_unused c - 1 \<le> m_max_unused c"
    using assms unat_pred [of "m_unused c"] unfolding cache_exact_def word_le_nat_alt by linarith
  have a: "active ?c = active c" by (simp add: active_def)
  show ?thesis
    using assms n le cache_find_wf [of c k offset] unfolding f cache_exact_def u a by auto
next
  case False
  then have "snd (cache_find k offset c) = c"
    by (auto simp: cache_find_def unused_def split: option.split)
  with assms show ?thesis by simp
qed

lemma make_room_exact:
  assumes "cache_exact c"
  shows "cache_exact (make_room c)" "m_unused (make_room c) < m_max_unused (make_room c)"
proof -
  have x: "cache_exact (make_room c) \<and> m_unused (make_room c) < m_max_unused (make_room c)"
  proof (cases "m_max_unused c \<le> m_unused c")
    case True
    have h: "m_qhead c \<le> length (m_queue c)" and sub: "Collect (unused c) \<subseteq> set (active c)"
      and n: "card (Collect (unused c)) = unat (m_unused c)" and mx: "m_unused c \<le> m_max_unused c"
        "0 < m_max_unused c" and w: "cache_wf c"
      using assms by (auto simp: cache_exact_def cache_wf_def)
    have pos: "0 < unat (m_unused c)" using True mx by (simp add: word_le_nat_alt word_less_nat_alt)
    have r: "make_room c = del_unused c" using True by (simp add: make_room_def)
    show ?thesis
    proof (rule del_unused_cases [OF h], goal_cases none evict)
      case none
      then have "Collect (unused c) = {}" using sub by auto
      with n pos show ?thesis by simp
    next
      case (evict xs e ys)
      have u: "Collect (unused (del_unused c)) = Collect (unused c) - {e}"
        using evict(5) by (auto simp: unused_def split: if_splits)
      have "card (Collect (unused c) - {e}) = unat (m_unused c - 1)"
        using n evict(3) by (intro card_remove_unused cache_exact_finite assms) auto
      moreover have "Collect (unused c) - {e} \<subseteq> set ys"
        using sub evict(1,2) by auto
      moreover have "m_unused c - 1 < m_max_unused c"
        using pos mx(1) unat_pred [OF pos] by (simp add: word_less_nat_alt word_le_nat_alt)
      ultimately show ?thesis
        using mx(2) del_unused_wf [OF w] unfolding r cache_exact_def u evict(4,6) by simp
    qed
  next
    case False
    then show ?thesis using assms by (simp add: make_room_def)
  qed
  then show "cache_exact (make_room c)" "m_unused (make_room c) < m_max_unused (make_room c)" by blast+
qed

text \<open>An insertion keeps the counter exact unless it replaces the value of an entry that was found.\<close>

definition replaces_found :: "entry \<Rightarrow> expr \<Rightarrow> act_cache \<Rightarrow> bool" where
  "replaces_found e v c = (case m_table c e of Some (v', tag) \<Rightarrow> v' \<noteq> v \<and> tag | None \<Rightarrow> False)"

lemma make_room_found: "m_table (make_room c) e = Some (v, True) \<Longrightarrow> m_table c e = Some (v, True)"
proof -
  have "m_table (del_unused_loop es c) e = Some (v, True) \<Longrightarrow> m_table c e = Some (v, True)" for es
  proof (induction es arbitrary: c)
    case (Cons a es)
    then show ?case
      using Cons.IH [of "c\<lparr>m_qhead := m_qhead c + 1\<rparr>"]
      by (cases "unused c a") (simp_all add: del_unused_loop_skip del_unused_loop_take del: del_unused_loop.simps(2) split: if_splits)
  qed simp
  moreover assume "m_table (make_room c) e = Some (v, True)"
  ultimately show ?thesis
    by (auto simp: make_room_def del_unused_def compress_queue_def Let_def split: if_splits)
qed

lemma cache_insert_exact:
  assumes x: "cache_exact c" and ok: "\<not> replaces_found (k, offset) v c"
  shows "cache_exact (cache_insert k offset v c)"
proof -
  let ?e = "(k, offset)" and ?c1 = "make_room c"
  note x1 = make_room_exact [OF x]
  have w: "cache_wf (cache_insert k offset v c)"
    using x by (auto simp: cache_exact_def intro: cache_insert_wf)
  show ?thesis
  proof (cases k offset v c rule: cache_insert_cases)
    case new
    let ?c = "?c1\<lparr>m_table := (m_table ?c1)(?e \<mapsto> (v, False)), m_queue := m_queue ?c1 @ [?e], m_unused := m_unused ?c1 + 1\<rparr>"
    have u: "Collect (unused ?c) = insert ?e (Collect (unused ?c1))" by (auto simp: unused_def split: if_splits)
    have "?e \<notin> Collect (unused ?c1)" using new(1) by (simp add: unused_def)
    then have "card (Collect (unused ?c)) = Suc (unat (m_unused ?c1))"
      using cache_exact_finite [OF x1(1)] x1(1) unfolding u by (simp add: cache_exact_def)
    moreover have s: "unat (m_unused ?c1 + 1) = Suc (unat (m_unused ?c1))"
      using x1(2) by (rule unat_Suc_less)
    moreover have "m_unused ?c1 + 1 \<le> m_max_unused ?c1"
      using x1(2) s by (simp add: word_le_nat_alt word_less_nat_alt)
    moreover have "insert ?e (Collect (unused ?c1)) \<subseteq> set (active ?c)"
      using x1(1) by (auto simp: active_def cache_exact_def cache_wf_def)
    ultimately show ?thesis using w x1(1) unfolding new(2) cache_exact_def by (simp add: u)
  next
    case same
    then show ?thesis using x1(1) by simp
  next
    case (replace v' tag)
    have "\<not> tag"
      using ok replace make_room_found [of c ?e v'] by (cases tag) (auto simp: replaces_found_def)
    then have u: "unused (?c1\<lparr>m_table := (m_table ?c1)(?e \<mapsto> (v, False))\<rparr>) = unused ?c1"
      using replace(1) by (auto simp: unused_def fun_eq_iff)
    show ?thesis
      using w x1(1) unfolding replace(3) cache_exact_def u by (simp add: active_def)
  qed
qed

section \<open>The cache as a state machine\<close>

text \<open>The operations of a client that never replaces the value of an entry it has found.\<close>

inductive cache_step :: "act_cache \<Rightarrow> act_cache \<Rightarrow> bool" where
  step_find: "cache_step c (snd (cache_find k offset c))"
| step_insert: "\<not> replaces_found (k, offset) v c \<Longrightarrow> cache_step c (cache_insert k offset v c)"
| step_reset: "cache_step c (cache_reset c)"

lemma cache_step_exact: "cache_step c c' \<Longrightarrow> cache_exact c \<Longrightarrow> cache_exact c'"
  by (induction rule: cache_step.induct) (simp_all add: cache_find_exact cache_insert_exact cache_reset_exact)

lemma cache_steps_exact: "cache_step\<^sup>*\<^sup>* c c' \<Longrightarrow> cache_exact c \<Longrightarrow> cache_exact c'"
  by (induction rule: rtranclp_induct) (auto intro: cache_step_exact)

text \<open>When the cache is full, an insertion of a new key evicts the oldest unused key, and no other.\<close>

lemma full_insert_evicts_oldest:
  assumes x: "cache_exact c" and full: "m_unused c = m_max_unused c" and new: "lookup c (k, offset) = None"
  obtains xs e ys where "active c = xs @ e # ys" "\<forall>x \<in> set xs. \<not> unused c x" "unused c e"
    "lookup (cache_insert k offset v c) = (lookup c)(e := None, (k, offset) \<mapsto> v)"
proof -
  have h: "m_qhead c \<le> length (m_queue c)" and r: "make_room c = del_unused c"
    using x full by (auto simp: cache_exact_def cache_wf_def make_room_def)
  have pos: "0 < card (Collect (unused c))"
    using x full by (auto simp: cache_exact_def word_less_nat_alt)
  show ?thesis
  proof (rule del_unused_cases [OF h], goal_cases none evict)
    case none
    then have "Collect (unused c) = {}" using x by (auto simp: cache_exact_def)
    with pos show ?thesis by simp
  next
    case (evict xs e ys)
    have "m_table c (k, offset) = None" using new by (simp add: lookup_def)
    then have "m_table (make_room c) (k, offset) = None" using evict(5) r by simp
    then have "m_table (cache_insert k offset v c) = (m_table c)(e := None, (k, offset) \<mapsto> (v, False))"
      using evict(5) r by (cases k offset v c rule: cache_insert_cases) auto
    then show ?thesis
      by (intro that [OF evict(1-3)]) (auto simp: lookup_def fun_eq_iff)
  qed
qed

text \<open>
  Replacing the value of an entry that was found resets its tag but not the counter, so that
  finding it again subtracts one too many.
\<close>

lemma replace_found_counter:
  assumes room: "m_unused c < m_max_unused c" and f: "m_table c (k, offset) = Some (v, True)" "v' \<noteq> v"
  shows "m_unused (snd (cache_find k offset (cache_insert k offset v' c))) = m_unused c - 1"
proof -
  have "make_room c = c" using room by (simp add: make_room_def)
  then show ?thesis
    using f by (simp add: cache_insert_def cache_find_def Let_def make_room_def split: if_splits)
qed

end
