(* ===== verification/Rewriter_Core.thy ===== *)
theory Rewriter_Core
  imports Act_Cache
begin

text \<open>
  \<open>rewriter_core\<close> (\<open>src/Z3/z3-master/src/ast/rewriter/rewriter.h\<close>, \<open>rewriter.cpp\<close>): the state the
  traversals of terms share, without the part for proofs. A frame is a term whose arguments are
  being processed; the results wait on a stack of terms; the results of shared terms are cached,
  in one cache for every open scope. A derived class of the code extends the record, and the
  operations work on every extension.

  The frame stack and the scopes are lists with the top first, the result stack is a list with
  the top last. Indices of variables are \<open>unsigned\<close> in the code and wrap; the fields \<open>m_i\<close> (26 bits)
  and \<open>m_spos\<close> of a frame are numbers, so that the model speaks of terms whose nodes have fewer
  than \<open>2 ^ 26\<close> arguments.
\<close>

section \<open>Frames and state\<close>

datatype frame_state = PROCESS_CHILDREN | REWRITE_BUILTIN | EXPAND_DEF | REWRITE_RULE

record frame =
  m_curr :: expr
  m_cache_result :: bool
  m_new_child :: bool
  m_state :: frame_state
  m_max_depth :: nat
  m_i :: nat
  m_spos :: nat

abbreviation RW_UNBOUNDED_DEPTH :: nat where
  "RW_UNBOUNDED_DEPTH \<equiv> 3"

definition mk_frame :: "expr \<Rightarrow> bool \<Rightarrow> frame_state \<Rightarrow> nat \<Rightarrow> nat \<Rightarrow> frame" where
  "mk_frame n cache_res st max_depth spos = \<lparr>m_curr = n, m_cache_result = cache_res,
     m_new_child = False, m_state = st, m_max_depth = max_depth, m_i = 0, m_spos = spos\<rparr>"

text \<open>\<open>m_cache\<close> is the position in \<open>m_cache_stack\<close> of the cache the pointer of the code refers to.\<close>

record rewriter_core =
  m_cancel_check :: bool
  m_cache_stack :: "act_cache list"
  m_cache :: nat
  m_frame_stack :: "frame list"
  m_result_stack :: "expr list"
  m_root :: "expr option"
  m_num_qvars :: nat
  m_scopes :: "(expr option \<times> nat) list"

text \<open>\<open>n\<close> is the number of nodes of the manager, which bounds the unused entries of a new cache.\<close>

definition mk_rewriter_core :: "32 word \<Rightarrow> rewriter_core" where
  "mk_rewriter_core n = \<lparr>m_cancel_check = True, m_cache_stack = [mk_act_cache n], m_cache = 0,
     m_frame_stack = [], m_result_stack = [], m_root = None, m_num_qvars = 0, m_scopes = []\<rparr>"

section \<open>Operations\<close>

fun is_ground :: "expr \<Rightarrow> bool" where
  "is_ground (Var i s) = False"
| "is_ground (App d args) = list_all is_ground args"

text \<open>
  The number of references to a node depends on everything that is alive: it is a parameter, a
  function of the state of the rewriter.
\<close>

definition core_must_cache ::
    "('a rewriter_core_scheme \<Rightarrow> expr \<Rightarrow> nat) \<Rightarrow> 'a rewriter_core_scheme \<Rightarrow> expr \<Rightarrow> bool" where
  "core_must_cache ref_count st t =
    (1 < ref_count st t \<and> m_root st \<noteq> Some t \<and> is_app t \<and> 0 < get_num_args t)"

definition push_frame_core ::
    "expr \<Rightarrow> bool \<Rightarrow> frame_state \<Rightarrow> nat \<Rightarrow> 'a rewriter_core_scheme \<Rightarrow> 'a rewriter_core_scheme" where
  "push_frame_core t cache_res fstate max_depth st = st\<lparr>m_frame_stack :=
     mk_frame t cache_res fstate max_depth (length (m_result_stack st)) # m_frame_stack st\<rparr>"

definition pop_frame :: "'a rewriter_core_scheme \<Rightarrow> 'a rewriter_core_scheme" where
  "pop_frame st = st\<lparr>m_frame_stack := tl (m_frame_stack st)\<rparr>"

definition upd_frame :: "(frame \<Rightarrow> frame) \<Rightarrow> 'a rewriter_core_scheme \<Rightarrow> 'a rewriter_core_scheme" where
  "upd_frame g st = st\<lparr>m_frame_stack :=
     (case m_frame_stack st of [] \<Rightarrow> [] | fr # fs \<Rightarrow> g fr # fs)\<rparr>"

definition push_result :: "expr \<Rightarrow> 'a rewriter_core_scheme \<Rightarrow> 'a rewriter_core_scheme" where
  "push_result r st = st\<lparr>m_result_stack := m_result_stack st @ [r]\<rparr>"

definition pop_result :: "'a rewriter_core_scheme \<Rightarrow> 'a rewriter_core_scheme" where
  "pop_result st = st\<lparr>m_result_stack := butlast (m_result_stack st)\<rparr>"

definition shrink_results :: "nat \<Rightarrow> 'a rewriter_core_scheme \<Rightarrow> 'a rewriter_core_scheme" where
  "shrink_results n st = st\<lparr>m_result_stack := take n (m_result_stack st)\<rparr>"

text \<open>Both versions of \<open>set_new_child_flag\<close>; the assertions are left out.\<close>

definition set_new_child_flag :: "'a rewriter_core_scheme \<Rightarrow> 'a rewriter_core_scheme" where
  "set_new_child_flag st = upd_frame (\<lambda>fr. fr\<lparr>m_new_child := True\<rparr>) st"

definition set_new_child_flag_if ::
    "expr \<Rightarrow> expr \<Rightarrow> 'a rewriter_core_scheme \<Rightarrow> 'a rewriter_core_scheme" where
  "set_new_child_flag_if old_t new_t st = (if old_t \<noteq> new_t then set_new_child_flag st else st)"

section \<open>Caches\<close>

definition get_cached ::
    "expr \<Rightarrow> nat \<Rightarrow> 'a rewriter_core_scheme \<Rightarrow> expr option \<times> 'a rewriter_core_scheme" where
  "get_cached k offset st =
    (let (r, c) = cache_find k offset (m_cache_stack st ! m_cache st)
     in (r, st\<lparr>m_cache_stack := (m_cache_stack st)[m_cache st := c]\<rparr>))"

definition cache_shifted_result ::
    "expr \<Rightarrow> nat \<Rightarrow> expr \<Rightarrow> 'a rewriter_core_scheme \<Rightarrow> 'a rewriter_core_scheme" where
  "cache_shifted_result k offset v st = st\<lparr>m_cache_stack :=
     (m_cache_stack st)[m_cache st := cache_insert k offset v (m_cache_stack st ! m_cache st)]\<rparr>"

definition core_cache_result :: "expr \<Rightarrow> expr \<Rightarrow> 'a rewriter_core_scheme \<Rightarrow> 'a rewriter_core_scheme" where
  "core_cache_result k v st = cache_shifted_result k 0 v st"

definition reset_cache :: "'a rewriter_core_scheme \<Rightarrow> 'a rewriter_core_scheme" where
  "reset_cache st = st\<lparr>m_cache := 0,
     m_cache_stack := (m_cache_stack st)[0 := cache_reset (m_cache_stack st ! 0)]\<rparr>"

section \<open>Scopes\<close>

definition core_begin_scope :: "32 word \<Rightarrow> 'a rewriter_core_scheme \<Rightarrow> 'a rewriter_core_scheme" where
  "core_begin_scope n st =
    (let scopes = (m_root st, m_num_qvars st) # m_scopes st;
         lvl = length scopes;
         caches = (if lvl = length (m_cache_stack st) then m_cache_stack st @ [mk_act_cache n]
                   else m_cache_stack st)
     in st\<lparr>m_scopes := scopes, m_cache := lvl, m_cache_stack := caches[lvl := cache_reset (caches ! lvl)]\<rparr>)"

definition core_end_scope :: "'a rewriter_core_scheme \<Rightarrow> 'a rewriter_core_scheme" where
  "core_end_scope st =
    (let caches = (m_cache_stack st)[m_cache st := cache_reset (m_cache_stack st ! m_cache st)];
         (old_root, old_num_qvars) = hd (m_scopes st);
         scopes = tl (m_scopes st)
     in st\<lparr>m_cache_stack := caches, m_root := old_root, m_num_qvars := old_num_qvars,
           m_scopes := scopes, m_cache := length scopes\<rparr>)"

definition core_reset :: "'a rewriter_core_scheme \<Rightarrow> 'a rewriter_core_scheme" where
  "core_reset st = (reset_cache st)\<lparr>m_frame_stack := [], m_result_stack := [], m_root := None,
     m_num_qvars := 0, m_scopes := []\<rparr>"

definition core_cleanup :: "32 word \<Rightarrow> 'a rewriter_core_scheme \<Rightarrow> 'a rewriter_core_scheme" where
  "core_cleanup n st = st\<lparr>m_cache_stack := [mk_act_cache n], m_cache := 0, m_frame_stack := [],
     m_result_stack := [], m_scopes := [], m_root := None, m_num_qvars := 0\<rparr>"

section \<open>The interface of the caches\<close>

text \<open>
  What a rewriter relies on: an insertion adds the entry and may forget others, a search answers
  what is there and forgets nothing, and a reset cache is empty. From this alone, a property
  that all entries share is kept.
\<close>

locale result_cache =
  fixes look :: "'t \<Rightarrow> expr \<times> nat \<Rightarrow> expr option"
    and ins :: "expr \<Rightarrow> nat \<Rightarrow> expr \<Rightarrow> 't \<Rightarrow> 't"
    and srch :: "expr \<Rightarrow> nat \<Rightarrow> 't \<Rightarrow> expr option \<times> 't"
    and clear :: "'t \<Rightarrow> 't"
  assumes look_ins: "look (ins k n v c) (k, n) = Some v"
    and look_ins_other: "e \<noteq> (k, n) \<Longrightarrow> look (ins k n v c) e = look c e \<or> look (ins k n v c) e = None"
    and srch_look: "fst (srch k n c) = look c (k, n)"
    and look_srch: "look (snd (srch k n c)) = look c"
    and look_clear: "look (clear c) e = None"
begin

definition entries_ok :: "(expr \<times> nat \<Rightarrow> expr \<Rightarrow> bool) \<Rightarrow> 't \<Rightarrow> bool" where
  "entries_ok P c = (\<forall>e v. look c e = Some v \<longrightarrow> P e v)"

lemma entries_ok_ins:
  assumes "entries_ok P c" "P (k, n) v"
  shows "entries_ok P (ins k n v c)"
  unfolding entries_ok_def
proof (intro allI impI)
  fix e u
  assume l: "look (ins k n v c) e = Some u"
  show "P e u"
  proof (cases "e = (k, n)")
    case True
    then show ?thesis using l look_ins assms(2) by simp
  next
    case False
    then have "look c e = Some u" using look_ins_other [OF False, of v c] l by auto
    then show ?thesis using assms(1) unfolding entries_ok_def by blast
  qed
qed

lemma entries_ok_srch: "entries_ok P c \<Longrightarrow> entries_ok P (snd (srch k n c))"
  by (simp add: entries_ok_def look_srch)

lemma entries_ok_found: "entries_ok P c \<Longrightarrow> fst (srch k n c) = Some v \<Longrightarrow> P (k, n) v"
  by (simp add: entries_ok_def srch_look)

lemma entries_ok_clear: "entries_ok P (clear c)"
  by (simp add: entries_ok_def look_clear)

lemma entries_ok_mono: "entries_ok P c \<Longrightarrow> (\<And>e v. P e v \<Longrightarrow> Q e v) \<Longrightarrow> entries_ok Q c"
  by (auto simp: entries_ok_def)

end

interpretation ac: result_cache lookup cache_insert cache_find cache_reset
  by unfold_locales (use cache_insert_lookup in \<open>simp_all add: cache_find\<close>)

text \<open>The entries of the current cache.\<close>

definition cached_ok :: "(expr \<times> nat \<Rightarrow> expr \<Rightarrow> bool) \<Rightarrow> 'a rewriter_core_scheme \<Rightarrow> bool" where
  "cached_ok P st = (m_cache st < length (m_cache_stack st) \<and> ac.entries_ok P (m_cache_stack st ! m_cache st))"

lemma cached_ok_get:
  assumes "cached_ok P st" "get_cached k n st = (r, st')"
  shows "cached_ok P st'" "r = Some v \<Longrightarrow> P (k, n) v"
    "st' = st\<lparr>m_cache_stack := m_cache_stack st'\<rparr>"
  using assms ac.entries_ok_srch [of P "m_cache_stack st ! m_cache st" k n]
    ac.entries_ok_found [of P "m_cache_stack st ! m_cache st" k n v]
  by (auto simp: cached_ok_def get_cached_def case_prod_beta Let_def)

lemma cached_ok_insert:
  "cached_ok P st \<Longrightarrow> P (k, n) v \<Longrightarrow> cached_ok P (cache_shifted_result k n v st)"
  by (simp add: cached_ok_def cache_shifted_result_def ac.entries_ok_ins)

lemma cached_ok_reset: "0 < length (m_cache_stack st) \<Longrightarrow> cached_ok P (reset_cache st)"
  by (simp add: cached_ok_def reset_cache_def ac.entries_ok_clear)

end
