(* ===== verification/Var_Shifter.thy ===== *)
theory Var_Shifter
  imports Rewriter_Core "HOL-Library.While_Combinator"
begin

text \<open>
  \<open>var_shifter_core\<close>, \<open>var_shifter\<close> and \<open>inv_var_shifter\<close>
  (\<open>src/Z3/z3-master/src/ast/rewriter/rewriter.h\<close>, \<open>rewriter.cpp\<close>): the traversals that shift the
  free variables of a term, up and down. The virtual \<open>process_var\<close> is an argument of the common
  code. The terms have no quantifiers. Every traversal ends with the term in which the index of
  each variable is shifted, whatever is cached; shifting up and down again gives back the term.
\<close>

section \<open>The common traversal\<close>

text \<open>
  \<open>visit\<close> calls \<open>push_frame(t, c)\<close>, whose second parameter is the state of the frame: the flag
  \<open>c\<close> becomes the state 0 or 1, which this traversal never reads, and \<open>must_cache\<close> is asked again.
\<close>

definition shifter_push_frame ::
    "('a rewriter_core_scheme \<Rightarrow> expr \<Rightarrow> nat) \<Rightarrow> expr \<Rightarrow> bool \<Rightarrow> 'a rewriter_core_scheme \<Rightarrow>
      'a rewriter_core_scheme" where
  "shifter_push_frame ref_count t c st = push_frame_core t (core_must_cache ref_count st t)
     (if c then REWRITE_BUILTIN else PROCESS_CHILDREN) RW_UNBOUNDED_DEPTH st"

definition shifter_visit ::
    "('a rewriter_core_scheme \<Rightarrow> expr \<Rightarrow> nat) \<Rightarrow>
      (expr \<Rightarrow> 'a rewriter_core_scheme \<Rightarrow> 'a rewriter_core_scheme) \<Rightarrow>
      expr \<Rightarrow> 'a rewriter_core_scheme \<Rightarrow> bool \<times> 'a rewriter_core_scheme" where
  "shifter_visit ref_count process_var t st =
    (if is_ground t then (True, push_result t st)
     else
       (let c = core_must_cache ref_count st t;
            (r, st1) = (if c then get_cached t 0 st else (None, st))
        in case r of
             Some r' \<Rightarrow> (True, set_new_child_flag_if t r' (push_result r' st1))
           | None \<Rightarrow>
               (case t of
                  App d args \<Rightarrow> (False, shifter_push_frame ref_count t c st1)
                | Var i s \<Rightarrow> (True, process_var t st1))))"

definition next_child :: "'a rewriter_core_scheme \<Rightarrow> 'a rewriter_core_scheme" where
  "next_child st = upd_frame (\<lambda>fr. fr\<lparr>m_i := m_i fr + 1\<rparr>) st"

text \<open>The loop of \<open>process_app\<close> over the arguments that are left; it stops when a frame was pushed.\<close>

fun shifter_children ::
    "('a rewriter_core_scheme \<Rightarrow> expr \<Rightarrow> nat) \<Rightarrow>
      (expr \<Rightarrow> 'a rewriter_core_scheme \<Rightarrow> 'a rewriter_core_scheme) \<Rightarrow>
      expr list \<Rightarrow> 'a rewriter_core_scheme \<Rightarrow> bool \<times> 'a rewriter_core_scheme" where
  "shifter_children ref_count process_var [] st = (True, st)"
| "shifter_children ref_count process_var (arg # args) st =
    (let (b, st1) = shifter_visit ref_count process_var arg (next_child st)
     in if b then shifter_children ref_count process_var args st1 else (False, st1))"

definition shifter_process_app ::
    "('a rewriter_core_scheme \<Rightarrow> expr \<Rightarrow> nat) \<Rightarrow>
      (expr \<Rightarrow> 'a rewriter_core_scheme \<Rightarrow> 'a rewriter_core_scheme) \<Rightarrow>
      func_decl \<Rightarrow> expr list \<Rightarrow> 'a rewriter_core_scheme \<Rightarrow> 'a rewriter_core_scheme" where
  "shifter_process_app ref_count process_var d args st =
    (let (b, st1) = shifter_children ref_count process_var (drop (m_i (hd (m_frame_stack st))) args) st
     in if \<not> b then st1
        else
          (let t = App d args;
               fr = hd (m_frame_stack st1);
               new_t = (if m_new_child fr
                        then App d (take (length args) (drop (m_spos fr) (m_result_stack st1))) else t);
               st2 = set_new_child_flag_if t new_t (pop_frame (push_result new_t (shrink_results (m_spos fr) st1)))
           in if m_cache_result fr then core_cache_result t new_t st2 else st2))"

text \<open>One round of the main loop; a frame always holds an application.\<close>

definition shifter_step ::
    "('a rewriter_core_scheme \<Rightarrow> expr \<Rightarrow> nat) \<Rightarrow>
      (expr \<Rightarrow> 'a rewriter_core_scheme \<Rightarrow> 'a rewriter_core_scheme) \<Rightarrow>
      'a rewriter_core_scheme \<Rightarrow> 'a rewriter_core_scheme" where
  "shifter_step ref_count process_var st =
    (let fr = hd (m_frame_stack st);
         t = m_curr fr;
         (r, st1) = (if m_i fr = 0 \<and> m_cache_result fr then get_cached t 0 st else (None, st))
     in case r of
          Some r' \<Rightarrow> set_new_child_flag_if t r' (pop_frame (push_result r' st1))
        | None \<Rightarrow>
            (case t of
               App d args \<Rightarrow> shifter_process_app ref_count process_var d args st1
             | Var i s \<Rightarrow> st1))"

definition shifter_main_loop ::
    "('a rewriter_core_scheme \<Rightarrow> expr \<Rightarrow> nat) \<Rightarrow>
      (expr \<Rightarrow> 'a rewriter_core_scheme \<Rightarrow> 'a rewriter_core_scheme) \<Rightarrow>
      expr \<Rightarrow> 'a rewriter_core_scheme \<Rightarrow> (expr \<times> 'a rewriter_core_scheme) option" where
  "shifter_main_loop ref_count process_var t st =
    (let (b, st1) = shifter_visit ref_count process_var t (st\<lparr>m_root := Some t\<rparr>)
     in map_option (\<lambda>st. (last (m_result_stack st), pop_result st))
          (if b then Some st1
           else while_option (\<lambda>st. m_frame_stack st \<noteq> []) (shifter_step ref_count process_var) st1))"

section \<open>The two shifters\<close>

text \<open>\<open>unsigned\<close> arithmetic on indices.\<close>

definition u32 :: "nat \<Rightarrow> nat" where
  "u32 n = n mod 2 ^ 32"

record var_shifter = rewriter_core +
  m_bound :: nat
  m_shift1 :: nat
  m_shift2 :: nat

record inv_var_shifter = rewriter_core +
  m_shift :: nat

definition mk_var_shifter :: "32 word \<Rightarrow> var_shifter" where
  "mk_var_shifter n = rewriter_core.extend (mk_rewriter_core n)
     (var_shifter.fields 0 0 0)"

definition mk_inv_var_shifter :: "32 word \<Rightarrow> inv_var_shifter" where
  "mk_inv_var_shifter n = rewriter_core.extend (mk_rewriter_core n) (inv_var_shifter.fields 0)"

fun shift_process_var :: "expr \<Rightarrow> var_shifter \<Rightarrow> var_shifter" where
  "shift_process_var (Var vidx s) st =
    (if vidx < m_num_qvars st then push_result (Var vidx s) st
     else
       (let nvidx = vidx - m_num_qvars st;
            vidx1 = (if m_bound st \<le> nvidx then u32 (vidx + m_shift1 st) else u32 (vidx + m_shift2 st))
        in set_new_child_flag (push_result (Var vidx1 s) st)))"
| "shift_process_var (App d args) st = st"

text \<open>
  The assertion that no index is below the shift is not part of the program when it is compiled without
  assertions; the index then wraps.
\<close>

fun inv_shift_process_var :: "expr \<Rightarrow> inv_var_shifter \<Rightarrow> inv_var_shifter" where
  "inv_shift_process_var (Var vidx s) st =
    (if vidx < m_num_qvars st then push_result (Var vidx s) st
     else set_new_child_flag (push_result (Var (u32 (vidx + 2 ^ 32 - m_shift st)) s) st))"
| "inv_shift_process_var (App d args) st = st"

text \<open>The function call operators; None would be a traversal that does not end.\<close>

definition var_shifter_op ::
    "(var_shifter \<Rightarrow> expr \<Rightarrow> nat) \<Rightarrow> expr \<Rightarrow> nat \<Rightarrow> nat \<Rightarrow> nat \<Rightarrow> var_shifter \<Rightarrow>
      (expr \<times> var_shifter) option" where
  "var_shifter_op ref_count t bound shift1 shift2 st =
    (if is_ground t then Some (t, st)
     else shifter_main_loop ref_count shift_process_var t
       ((reset_cache st)\<lparr>m_bound := bound, m_shift1 := shift1, m_shift2 := shift2\<rparr>))"

definition inv_var_shifter_op ::
    "(inv_var_shifter \<Rightarrow> expr \<Rightarrow> nat) \<Rightarrow> expr \<Rightarrow> nat \<Rightarrow> inv_var_shifter \<Rightarrow>
      (expr \<times> inv_var_shifter) option" where
  "inv_var_shifter_op ref_count t shift st =
    (if is_ground t then Some (t, st)
     else shifter_main_loop ref_count inv_shift_process_var t ((reset_cache st)\<lparr>m_shift := shift\<rparr>))"

section \<open>The reference: renaming the variables of a term\<close>

fun rename_vars :: "(nat \<Rightarrow> nat) \<Rightarrow> expr \<Rightarrow> expr" where
  "rename_vars f (Var i s) = Var (f i) s"
| "rename_vars f (App d args) = App d (map (rename_vars f) args)"

lemma rename_ground [simp]: "is_ground t \<Longrightarrow> rename_vars f t = t"
  by (induction t) (auto simp: list_all_iff intro: map_idI)

text \<open>The steps a term may take: a frame for every application, visited once and left once.\<close>

fun term_weight :: "expr \<Rightarrow> nat" where
  "term_weight (Var i s) = 0"
| "term_weight (App d args) = 2 + sum_list (map term_weight args)"

definition frame_weight :: "frame \<Rightarrow> nat" where
  "frame_weight fr = 1 + sum_list (map term_weight (drop (m_i fr) (get_args (m_curr fr))))"

definition stack_weight :: "'a rewriter_core_scheme \<Rightarrow> nat" where
  "stack_weight st = sum_list (map frame_weight (m_frame_stack st))"

lemmas core_op_defs = push_result_def pop_frame_def upd_frame_def shrink_results_def
  set_new_child_flag_def set_new_child_flag_if_def next_child_def push_frame_core_def

section \<open>The traversal computes the renaming\<close>

text \<open>
  The contract of \<open>process_var\<close>: outside of quantifiers it renames the variable by \<open>f\<close>, which the
  fields of the derived class determine; \<open>ext\<close> are those fields and \<open>root\<close> is the term to rename.
\<close>

locale shifter =
  fixes ref_count :: "'a rewriter_core_scheme \<Rightarrow> expr \<Rightarrow> nat"
    and process_var :: "expr \<Rightarrow> 'a rewriter_core_scheme \<Rightarrow> 'a rewriter_core_scheme"
    and f :: "nat \<Rightarrow> nat"
    and ext :: 'a
    and root :: expr
  assumes process_var: "rewriter_core.more st = ext \<Longrightarrow> m_num_qvars st = 0 \<Longrightarrow>
      process_var (Var i s) st = set_new_child_flag (push_result (Var (f i) s) st)"
begin

definition base :: "'a rewriter_core_scheme \<Rightarrow> bool" where
  "base st = (rewriter_core.more st = ext \<and> m_num_qvars st = 0 \<and>
     cached_ok (\<lambda>(k, n) v. n = 0 \<longrightarrow> v = rename_vars f k) st)"

text \<open>
  What the frames below a term \<open>t\<close> wait for: each holds an application, the results of its first
  arguments are on the stack, and the frame above works on the next one.
\<close>

definition partial :: "frame \<Rightarrow> func_decl \<Rightarrow> expr list \<Rightarrow> nat \<Rightarrow> expr list \<Rightarrow> bool" where
  "partial fr d args n rs = (m_curr fr = App d args \<and> m_i fr \<le> length args \<and> m_spos fr \<le> length rs \<and>
     drop (m_spos fr) rs = map (rename_vars f) (take n args) \<and>
     (\<not> m_new_child fr \<longrightarrow> (\<forall>a \<in> set (take n args). rename_vars f a = a)))"

fun waits :: "frame list \<Rightarrow> expr list \<Rightarrow> expr \<Rightarrow> bool" where
  "waits [] rs t = (rs = [] \<and> t = root)"
| "waits (fr # fs) rs t = (\<exists>d args. 0 < m_i fr \<and> partial fr d args (m_i fr - 1) rs \<and>
     t = args ! (m_i fr - 1) \<and> waits fs (take (m_spos fr) rs) (App d args))"

fun runs :: "frame list \<Rightarrow> expr list \<Rightarrow> bool" where
  "runs [] rs = (rs = [rename_vars f root])"
| "runs (fr # fs) rs = (\<exists>d args. partial fr d args (m_i fr) rs \<and>
     waits fs (take (m_spos fr) rs) (App d args))"

definition Waits :: "'a rewriter_core_scheme \<Rightarrow> expr \<Rightarrow> bool" where
  "Waits st t = (base st \<and> waits (m_frame_stack st) (m_result_stack st) t)"

definition Runs :: "'a rewriter_core_scheme \<Rightarrow> bool" where
  "Runs st = (base st \<and> runs (m_frame_stack st) (m_result_stack st))"

lemma base_ops [simp]:
  "base (push_result r st) = base st" "base (pop_frame st) = base st" "base (upd_frame g st) = base st"
  "base (shrink_results n st) = base st" "base (set_new_child_flag st) = base st"
  "base (set_new_child_flag_if t r st) = base st" "base (next_child st) = base st"
  "base (push_frame_core t c fst' n st) = base st"
  by (auto simp: base_def core_op_defs cached_ok_def)

lemma waits_flag:
  "waits (fr # fs) rs t \<Longrightarrow> waits (fr\<lparr>m_new_child := True\<rparr> # fs) rs t"
  by (auto simp: partial_def)

text \<open>Delivering the renamed term to the frames that wait for it.\<close>

lemma deliver:
  assumes "Waits st t" "flag \<or> rename_vars f t = t"
  shows "Runs ((if flag then set_new_child_flag else id) (push_result (rename_vars f t) st))"
proof (cases "m_frame_stack st")
  case Nil
  then show ?thesis using assms by (auto simp: Waits_def Runs_def core_op_defs base_def cached_ok_def)
next
  case (Cons fr fs)
  then obtain d args where p: "0 < m_i fr" "partial fr d args (m_i fr - 1) (m_result_stack st)"
      "t = args ! (m_i fr - 1)" "waits fs (take (m_spos fr) (m_result_stack st)) (App d args)"
    using assms(1) by (auto simp: Waits_def)
  let ?fr = "if flag then fr\<lparr>m_new_child := True\<rparr> else fr"
  let ?rs = "m_result_stack st @ [rename_vars f t]"
  have tk: "take (m_i fr) args = take (m_i fr - 1) args @ [t]"
    using p(1-3) by (metis One_nat_def Suc_le_lessD Suc_pred partial_def take_Suc_conv_app_nth)
  have "partial ?fr d args (m_i fr) ?rs"
    using p(2) assms(2) unfolding partial_def tk by auto
  then have "partial ?fr d args (m_i ?fr) ?rs" by (cases flag) simp_all
  moreover have "waits fs (take (m_spos ?fr) ?rs) (App d args)"
    using p(2,4) by (simp add: partial_def)
  ultimately have "runs (?fr # fs) ?rs" unfolding runs.simps by blast
  moreover have "m_frame_stack ((if flag then set_new_child_flag else id) (push_result (rename_vars f t) st)) = ?fr # fs"
      "m_result_stack ((if flag then set_new_child_flag else id) (push_result (rename_vars f t) st)) = ?rs"
    using Cons by (simp_all add: core_op_defs)
  ultimately show ?thesis
    using assms(1) by (simp add: Waits_def Runs_def)
qed

lemma deliver_if:
  assumes "Waits st t" "r = rename_vars f t"
  shows "Runs (set_new_child_flag_if t r (push_result r st))"
  using deliver [OF assms(1), of "t \<noteq> r"] assms(2)
  by (auto simp: set_new_child_flag_if_def split: if_splits)

lemma visit_Runs:
  assumes w: "Waits st t" and v: "shifter_visit ref_count process_var t st = (b, st')"
  shows "Runs st'"
proof (cases "is_ground t")
  case True
  then show ?thesis using deliver [OF w, of False] v by (simp add: shifter_visit_def)
next
  case False
  define c where "c = core_must_cache ref_count st t"
  obtain r st1 where g: "(if c then get_cached t 0 st else (None, st)) = (r, st1)" by fastforce
  have v': "(case r of
      Some r' \<Rightarrow> (True, set_new_child_flag_if t r' (push_result r' st1))
    | None \<Rightarrow> (case t of App d args \<Rightarrow> (False, shifter_push_frame ref_count t c st1)
                     | Var i s \<Rightarrow> (True, process_var t st1))) = (b, st')"
    using v False unfolding shifter_visit_def Let_def c_def [symmetric] g by simp
  have b: "cached_ok (\<lambda>(k, n) v. n = 0 \<longrightarrow> v = rename_vars f k) st" using w by (simp add: Waits_def base_def)
  have st1: "st1 = st\<lparr>m_cache_stack := m_cache_stack st1\<rparr>"
      "cached_ok (\<lambda>(k, n) v. n = 0 \<longrightarrow> v = rename_vars f k) st1"
      "\<And>r'. r = Some r' \<Longrightarrow> r' = rename_vars f t"
    using g cached_ok_get [OF b, of t 0 r st1] b by (auto split: if_splits)
  have "base st1 \<and> m_frame_stack st1 = m_frame_stack st \<and> m_result_stack st1 = m_result_stack st"
    using st1(2) w by (subst st1(1), subst (2) st1(1), subst (3) st1(1)) (auto simp: Waits_def base_def, subst (asm) st1(1), simp add: cached_ok_def)
  then have w1: "Waits st1 t" using w by (simp add: Waits_def)
  show ?thesis
  proof (cases r)
    case (Some r')
    then show ?thesis
      using v' st1(3) deliver_if [OF w1] by simp
  next
    case None
    show ?thesis
    proof (cases t)
      case (Var i s)
      have "st' = set_new_child_flag (push_result (Var (f i) s) st1)"
        using v' None Var process_var [of st1 i s] w1 by (simp add: Waits_def base_def)
      then show ?thesis using deliver [OF w1, of True] Var by simp
    next
      case (App d args)
      then have "st' = shifter_push_frame ref_count t c st1"
        using v' None by simp
      then show ?thesis
        using w1 App
        by (simp add: shifter_push_frame_def Runs_def Waits_def)
          (auto simp: push_frame_core_def mk_frame_def partial_def)
    qed
  qed
qed

text \<open>A visit pushes a frame for the term, or it changes the flag of the top frame at most.\<close>

lemma visit_frames:
  assumes w: "Waits st t" and v: "shifter_visit ref_count process_var t st = (b, st')"
  shows "b \<Longrightarrow> m_frame_stack st' = m_frame_stack st \<or> m_frame_stack st' = m_frame_stack (set_new_child_flag st)"
    "\<not> b \<Longrightarrow> is_app t \<and> (\<exists>c s. m_frame_stack st' = mk_frame t c s RW_UNBOUNDED_DEPTH (length (m_result_stack st)) # m_frame_stack st)"
proof -
  define c where "c = core_must_cache ref_count st t"
  obtain r st1 where g: "(if c then get_cached t 0 st else (None, st)) = (r, st1)" by fastforce
  have st1: "m_frame_stack st1 = m_frame_stack st" "m_result_stack st1 = m_result_stack st"
      "rewriter_core.more st1 = rewriter_core.more st" "m_num_qvars st1 = m_num_qvars st"
    using g by (auto simp: get_cached_def Let_def case_prod_beta split: if_splits)
  have pv: "m_frame_stack (process_var (Var i s) st1) = m_frame_stack (set_new_child_flag st)" for i s
    using process_var [of st1 i s] w st1 by (simp add: Waits_def base_def core_op_defs)
  have v': "(if is_ground t then (True, push_result t st) else case r of
      Some r' \<Rightarrow> (True, set_new_child_flag_if t r' (push_result r' st1))
    | None \<Rightarrow> (case t of App d args \<Rightarrow> (False, shifter_push_frame ref_count t c st1)
                     | Var i s \<Rightarrow> (True, process_var t st1))) = (b, st')"
    using v unfolding shifter_visit_def Let_def c_def [symmetric] g by auto
  show "b \<Longrightarrow> m_frame_stack st' = m_frame_stack st \<or> m_frame_stack st' = m_frame_stack (set_new_child_flag st)"
    using v' st1 pv by (auto simp: core_op_defs split: if_splits option.splits expr.splits)
  show "\<not> b \<Longrightarrow> is_app t \<and> (\<exists>c s. m_frame_stack st' = mk_frame t c s RW_UNBOUNDED_DEPTH (length (m_result_stack st)) # m_frame_stack st)"
  proof -
    assume "\<not> b"
    then have "is_app t" "st' = shifter_push_frame ref_count t c st1"
      using v' by (auto split: if_splits option.splits expr.splits)
    moreover have "m_frame_stack (shifter_push_frame ref_count t c st1) = mk_frame t (core_must_cache ref_count st1 t)
        (if c then REWRITE_BUILTIN else PROCESS_CHILDREN) RW_UNBOUNDED_DEPTH (length (m_result_stack st)) # m_frame_stack st"
      using st1 by (simp add: shifter_push_frame_def push_frame_core_def)
    ultimately show ?thesis by metis
  qed
qed

lemma frame_weight_flag [simp]: "frame_weight (fr\<lparr>m_new_child := x\<rparr>) = frame_weight fr"
  by (simp add: frame_weight_def)

lemma stack_weight_flag [simp]: "stack_weight (set_new_child_flag st) = stack_weight st"
  by (simp add: stack_weight_def set_new_child_flag_def upd_frame_def split: list.split)

lemma visit_weight:
  assumes w: "Waits st t" and v: "shifter_visit ref_count process_var t st = (b, st')"
  shows "b \<Longrightarrow> stack_weight st' = stack_weight st" "\<not> b \<Longrightarrow> Suc (stack_weight st') = stack_weight st + term_weight t"
proof -
  show "b \<Longrightarrow> stack_weight st' = stack_weight st"
    using visit_frames(1) [OF w v] stack_weight_flag [of st] unfolding stack_weight_def by auto
  assume "\<not> b"
  then show "Suc (stack_weight st') = stack_weight st + term_weight t"
    using visit_frames(2) [OF w v] by (cases t) (auto simp: stack_weight_def frame_weight_def mk_frame_def)
qed

lemma next_child_Waits:
  assumes "Runs st" "m_frame_stack st = fr # fs" "m_curr fr = App d args" "m_i fr < length args"
  shows "Waits (next_child st) (args ! m_i fr)" "stack_weight (next_child st) + term_weight (args ! m_i fr) = stack_weight st"
proof -
  have "partial fr d args (m_i fr) (m_result_stack st)" "waits fs (take (m_spos fr) (m_result_stack st)) (App d args)"
    using assms(1-3) by (auto simp: Runs_def partial_def)
  then have "partial (fr\<lparr>m_i := m_i fr + 1\<rparr>) d args (m_i fr) (m_result_stack st)"
    using assms(4) by (auto simp: partial_def)
  then have "waits (fr\<lparr>m_i := m_i fr + 1\<rparr> # fs) (m_result_stack st) (args ! m_i fr)"
    using \<open>waits fs _ _\<close> by auto
  then show "Waits (next_child st) (args ! m_i fr)"
    using assms(1,2) by (simp add: Waits_def Runs_def) (simp add: next_child_def upd_frame_def)
  show "stack_weight (next_child st) + term_weight (args ! m_i fr) = stack_weight st"
    using assms(2-4) by (simp add: stack_weight_def next_child_def upd_frame_def frame_weight_def Cons_nth_drop_Suc [symmetric])
qed

lemma children:
  assumes "Runs st" "m_frame_stack st = fr # fs" "m_curr fr = App d args" "as = drop (m_i fr) args"
    "m_i fr \<le> length args" "shifter_children ref_count process_var as st = (b, st')"
  shows "Runs st' \<and> stack_weight st' + (if b then 0 else 1) \<le> stack_weight st \<and>
    (b \<longrightarrow> (\<exists>nc. m_frame_stack st' = fr\<lparr>m_i := length args, m_new_child := nc\<rparr> # fs))"
  using assms
proof (induction as arbitrary: st fr)
  case Nil
  then have "m_i fr = length args" by simp
  then have "fr = fr\<lparr>m_i := length args, m_new_child := m_new_child fr\<rparr>" by simp
  then have "\<exists>nc. fr # fs = fr\<lparr>m_i := length args, m_new_child := nc\<rparr> # fs" by metis
  then show ?case using Nil by simp
next
  case (Cons a as)
  then have i: "m_i fr < length args" "a = args ! m_i fr" "as = drop (Suc (m_i fr)) args"
    by (metis drop_all leI list.distinct(1), metis drop_eq_Nil2 hd_drop_conv_nth leI list.distinct(1) list.sel(1),
        metis drop_Suc drop_tl list.sel(3))
  note nc = next_child_Waits [OF Cons.prems(1-3) i(1), folded i(2)]
  obtain b1 st1 where v: "shifter_visit ref_count process_var a (next_child st) = (b1, st1)" by fastforce
  note r1 = visit_Runs [OF nc(1) v] and w1 = visit_weight [OF nc(1) v]
  show ?case
  proof (cases b1)
    case True
    have "m_frame_stack (next_child st) = fr\<lparr>m_i := Suc (m_i fr)\<rparr> # fs"
      using Cons.prems(2) by (simp add: next_child_def upd_frame_def)
    then have "m_frame_stack st1 = fr\<lparr>m_i := Suc (m_i fr), m_new_child := m_new_child fr\<rparr> # fs \<or>
        m_frame_stack st1 = fr\<lparr>m_i := Suc (m_i fr), m_new_child := True\<rparr> # fs"
      using visit_frames(1) [OF nc(1) v True] by (simp add: set_new_child_flag_def upd_frame_def)
    then obtain nc where f1: "m_frame_stack st1 = fr\<lparr>m_i := Suc (m_i fr), m_new_child := nc\<rparr> # fs" by blast
    have "shifter_children ref_count process_var as st1 = (b, st')"
      using Cons.prems(6) v True by simp
    from Cons.IH [OF r1 f1 _ _ _ this] have "Runs st' \<and> stack_weight st' + (if b then 0 else 1) \<le> stack_weight st1 \<and>
        (b \<longrightarrow> (\<exists>nc. m_frame_stack st' = fr\<lparr>m_i := length args, m_new_child := nc\<rparr> # fs))"
      using Cons.prems(3) i by (simp add: Suc_leI)
    then show ?thesis using w1(1) [OF True] nc(2) by auto
  next
    case False
    then show ?thesis using Cons.prems(6) v r1 w1(2) nc(2) by auto
  qed
qed

text \<open>Leaving a frame whose arguments are all done.\<close>

lemma finish:
  assumes r: "Runs st" and fr: "m_frame_stack st = fr # fs" "m_curr fr = App d args" "m_i fr = length args"
  defines "new_t \<equiv> (if m_new_child fr then App d (take (length args) (drop (m_spos fr) (m_result_stack st))) else App d args)"
  shows "new_t = rename_vars f (App d args)"
    "Runs (set_new_child_flag_if (App d args) new_t (pop_frame (push_result new_t (shrink_results (m_spos fr) st))))"
proof -
  have p: "partial fr d args (length args) (m_result_stack st)" and w: "waits fs (take (m_spos fr) (m_result_stack st)) (App d args)"
    and b: "base st"
    using r fr by (auto simp: Runs_def partial_def)
  then show n: "new_t = rename_vars f (App d args)"
    by (auto simp: new_t_def partial_def map_idI)
  let ?st1 = "pop_frame (shrink_results (m_spos fr) st)"
  have "Waits ?st1 (App d args)"
    using w b fr(1) by (simp add: Waits_def) (simp add: core_op_defs)
  moreover have "pop_frame (push_result new_t (shrink_results (m_spos fr) st)) = push_result new_t ?st1"
    by (simp add: core_op_defs)
  ultimately show "Runs (set_new_child_flag_if (App d args) new_t (pop_frame (push_result new_t (shrink_results (m_spos fr) st))))"
    using deliver_if [OF _ n] by metis
qed

lemma Runs_cache: "Runs st \<Longrightarrow> v = rename_vars f k \<Longrightarrow> Runs (core_cache_result k v st)"
  by (simp add: Runs_def base_def core_cache_result_def cached_ok_insert) (simp add: cache_shifted_result_def)

lemma stack_weight_flag_if [simp]: "stack_weight (set_new_child_flag_if t r st) = stack_weight st"
  by (simp add: set_new_child_flag_if_def)

lemma stack_weight_ops [simp]:
  "stack_weight (push_result r st) = stack_weight st" "stack_weight (shrink_results n st) = stack_weight st"
  "stack_weight (core_cache_result k v st) = stack_weight st"
  by (simp_all add: stack_weight_def push_result_def shrink_results_def core_cache_result_def cache_shifted_result_def)

lemma frame_stack_ops [simp]:
  "m_frame_stack (push_result r st) = m_frame_stack st" "m_frame_stack (shrink_results n st) = m_frame_stack st"
  by (simp_all add: push_result_def shrink_results_def)

lemma stack_weight_pop: "m_frame_stack st = fr # fs \<Longrightarrow> stack_weight (pop_frame st) < stack_weight st"
  by (simp add: stack_weight_def pop_frame_def frame_weight_def)

lemma process_app:
  assumes r: "Runs st" and fr: "m_frame_stack st = fr # fs" "m_curr fr = App d args"
  shows "Runs (shifter_process_app ref_count process_var d args st) \<and>
    stack_weight (shifter_process_app ref_count process_var d args st) < stack_weight st"
proof -
  have i: "m_i fr \<le> length args" using r fr by (auto simp: Runs_def partial_def)
  obtain b st1 where c: "shifter_children ref_count process_var (drop (m_i fr) args) st = (b, st1)" by fastforce
  note ch = children [OF r fr refl i c]
  show ?thesis
  proof (cases b)
    case False
    then show ?thesis using ch c fr(1) by (simp add: shifter_process_app_def)
  next
    case True
    then obtain nc where f1: "m_frame_stack st1 = fr\<lparr>m_i := length args, m_new_child := nc\<rparr> # fs" and r1: "Runs st1"
      and w1: "stack_weight st1 \<le> stack_weight st"
      using ch by auto
    let ?fr = "fr\<lparr>m_i := length args, m_new_child := nc\<rparr>"
    define new_t where "new_t = (if m_new_child ?fr then App d (take (length args) (drop (m_spos ?fr) (m_result_stack st1))) else App d args)"
    define st2 where "st2 = set_new_child_flag_if (App d args) new_t (pop_frame (push_result new_t (shrink_results (m_spos ?fr) st1)))"
    have e: "shifter_process_app ref_count process_var d args st =
        (if m_cache_result ?fr then core_cache_result (App d args) new_t st2 else st2)"
      unfolding shifter_process_app_def fr(1) list.sel(1) c Let_def split new_t_def st2_def f1 using True by simp
    have fin: "new_t = rename_vars f (App d args)" "Runs st2"
      using finish [OF r1 f1, of d args] fr(2) unfolding new_t_def st2_def by simp_all
    have "stack_weight st2 < stack_weight st1"
      using stack_weight_pop [of "push_result new_t (shrink_results (m_spos ?fr) st1)" ?fr fs] f1
      unfolding st2_def by simp
    then show ?thesis using fin(2) Runs_cache [OF fin(2,1)] w1 unfolding e by simp
  qed
qed

lemma step:
  assumes r: "Runs st" and ne: "m_frame_stack st \<noteq> []"
  shows "Runs (shifter_step ref_count process_var st) \<and> stack_weight (shifter_step ref_count process_var st) < stack_weight st"
proof -
  obtain fr fs where fr: "m_frame_stack st = fr # fs" using ne by (cases "m_frame_stack st") auto
  then obtain d args where p: "partial fr d args (m_i fr) (m_result_stack st)"
      "waits fs (take (m_spos fr) (m_result_stack st)) (App d args)" and b: "base st"
    using r by (auto simp: Runs_def)
  then have t: "m_curr fr = App d args" by (simp add: partial_def)
  obtain o1 st1 where g: "(if m_i fr = 0 \<and> m_cache_result fr then get_cached (m_curr fr) 0 st else (None, st)) = (o1, st1)" by fastforce
  have c: "cached_ok (\<lambda>(k, n) v. n = 0 \<longrightarrow> v = rename_vars f k) st" using b by (simp add: base_def)
  have st1: "cached_ok (\<lambda>(k, n) v. n = 0 \<longrightarrow> v = rename_vars f k) st1"
      "\<And>r'. o1 = Some r' \<Longrightarrow> r' = rename_vars f (App d args)"
      "m_frame_stack st1 = m_frame_stack st" "m_result_stack st1 = m_result_stack st"
      "rewriter_core.more st1 = rewriter_core.more st" "m_num_qvars st1 = m_num_qvars st"
    using g cached_ok_get [OF c, of "App d args" 0 o1 st1] c t
    by (auto split: if_splits simp: get_cached_def Let_def case_prod_beta)
  have r1: "Runs st1" using r st1 by (simp add: Runs_def base_def)
  have e: "shifter_step ref_count process_var st = (case o1 of
      Some r' \<Rightarrow> set_new_child_flag_if (App d args) r' (pop_frame (push_result r' st1))
    | None \<Rightarrow> shifter_process_app ref_count process_var d args st1)"
    unfolding shifter_step_def fr list.sel(1) Let_def g split by (cases o1) (simp_all add: t)
  have w: "stack_weight st1 = stack_weight st" using st1(3) by (simp add: stack_weight_def)
  show ?thesis
  proof (cases o1)
    case None
    then show ?thesis using process_app [OF r1, of fr fs d args] fr t st1(3) w e by simp
  next
    case (Some r')
    have z: "m_i fr = 0" using g Some by (auto split: if_splits)
    have tk: "take (m_spos fr) (m_result_stack st) = m_result_stack st"
      using p(1) z by (simp add: partial_def)
    have dl: "Waits (pop_frame st1) (App d args)"
      using r1 p(2) tk fr st1(3,4) by (simp add: Waits_def Runs_def) (simp add: pop_frame_def)
    have "pop_frame (push_result r' st1) = push_result r' (pop_frame st1)" by (simp add: core_op_defs)
    then have "Runs (shifter_step ref_count process_var st)"
      using deliver_if [OF dl st1(2) [OF Some]] Some e by simp
    moreover have "stack_weight (shifter_step ref_count process_var st) < stack_weight st"
      using stack_weight_pop [of "push_result r' st1" fr fs] e Some w fr st1(3) by simp
    ultimately show ?thesis by blast
  qed
qed

text \<open>The state between two calls.\<close>

definition idle :: "'a rewriter_core_scheme \<Rightarrow> bool" where
  "idle st = (m_frame_stack st = [] \<and> m_result_stack st = [] \<and> base st)"

theorem main_loop:
  assumes "idle st"
  shows "\<exists>st'. shifter_main_loop ref_count process_var root st = Some (rename_vars f root, st') \<and> idle st'"
proof -
  obtain b st1 where v: "shifter_visit ref_count process_var root (st\<lparr>m_root := Some root\<rparr>) = (b, st1)" by fastforce
  have "Waits (st\<lparr>m_root := Some root\<rparr>) root"
    using assms by (simp add: Waits_def idle_def base_def cached_ok_def)
  from visit_Runs [OF this v] visit_frames [OF this v] have r1: "Runs st1"
    and f1: "b \<Longrightarrow> m_frame_stack st1 = []"
    using assms by (auto simp: idle_def set_new_child_flag_def upd_frame_def)
  have res: "last (m_result_stack st2) = rename_vars f root \<and> idle (pop_result st2)" if "Runs st2" "m_frame_stack st2 = []" for st2
    using that by (simp add: Runs_def idle_def pop_result_def base_def cached_ok_def)
  show ?thesis
  proof (cases b)
    case True
    then show ?thesis using res [OF r1 f1] v by (simp add: shifter_main_loop_def)
  next
    case False
    let ?c = "\<lambda>st. m_frame_stack st \<noteq> []" and ?s = "shifter_step ref_count process_var"
    obtain st2 where st2: "while_option ?c ?s st1 = Some st2"
      using measure_while_option_Some [of Runs ?c ?s stack_weight st1] step r1 by blast
    have "Runs st2" using while_option_rule [of Runs, OF _ st2] step r1 by blast
    moreover have "m_frame_stack st2 = []" using while_option_stop [OF st2] by simp
    ultimately show ?thesis using res v False st2 by (simp add: shifter_main_loop_def)
  qed
qed

end

section \<open>The two shifters meet the contract\<close>

definition shift_index :: "nat \<Rightarrow> nat \<Rightarrow> nat \<Rightarrow> nat \<Rightarrow> nat" where
  "shift_index bound shift1 shift2 i = (if bound \<le> i then u32 (i + shift1) else u32 (i + shift2))"

definition inv_shift_index :: "nat \<Rightarrow> nat \<Rightarrow> nat" where
  "inv_shift_index shift i = u32 (i + 2 ^ 32 - shift)"

interpretation sh: shifter ref_count shift_process_var "shift_index b s1 s2" "var_shifter.fields b s1 s2" root
  for ref_count b s1 s2 root
proof
  fix st :: var_shifter and i s
  assume "rewriter_core.more st = var_shifter.fields b s1 s2" "m_num_qvars st = 0"
  then show "shift_process_var (Var i s) st = set_new_child_flag (push_result (Var (shift_index b s1 s2 i) s) st)"
    by (cases st) (simp add: var_shifter.fields_def shift_index_def)
qed

interpretation ish: shifter ref_count inv_shift_process_var "inv_shift_index n" "inv_var_shifter.fields n" root
  for ref_count n root
proof
  fix st :: inv_var_shifter and i s
  assume "rewriter_core.more st = inv_var_shifter.fields n" "m_num_qvars st = 0"
  then show "inv_shift_process_var (Var i s) st = set_new_child_flag (push_result (Var (inv_shift_index n i) s) st)"
    by (cases st) (simp add: inv_var_shifter.fields_def inv_shift_index_def)
qed

text \<open>A shifter between two calls.\<close>

definition shifter_idle :: "'a rewriter_core_scheme \<Rightarrow> bool" where
  "shifter_idle st = (m_frame_stack st = [] \<and> m_result_stack st = [] \<and> m_num_qvars st = 0 \<and> m_cache_stack st \<noteq> [])"

lemma mk_shifter_idle: "shifter_idle (mk_var_shifter n)" "shifter_idle (mk_inv_var_shifter n)"
  by (simp_all add: shifter_idle_def mk_var_shifter_def mk_inv_var_shifter_def mk_rewriter_core_def
    rewriter_core.defs)

lemma var_shifter_op:
  assumes "shifter_idle st"
  shows "\<exists>st'. var_shifter_op ref_count t b s1 s2 st = Some (rename_vars (shift_index b s1 s2) t, st') \<and> shifter_idle st'"
proof (cases "is_ground t")
  case True
  then show ?thesis using assms by (simp add: var_shifter_op_def)
next
  case False
  let ?st = "(reset_cache st)\<lparr>m_bound := b, m_shift1 := s1, m_shift2 := s2\<rparr>"
  have "cached_ok P ?st" for P
    using cached_ok_reset [of st P] assms by (simp add: cached_ok_def shifter_idle_def)
  then have "sh.idle b s1 s2 ?st"
    using assms unfolding sh.idle_def sh.base_def
    by (cases st) (simp add: shifter_idle_def reset_cache_def var_shifter.fields_def)
  from sh.main_loop [OF this, of ref_count t] show ?thesis
    using False by (auto simp: var_shifter_op_def sh.idle_def sh.base_def shifter_idle_def cached_ok_def)
qed

lemma inv_var_shifter_op:
  assumes "shifter_idle st"
  shows "\<exists>st'. inv_var_shifter_op ref_count t n st = Some (rename_vars (inv_shift_index n) t, st') \<and> shifter_idle st'"
proof (cases "is_ground t")
  case True
  then show ?thesis using assms by (simp add: inv_var_shifter_op_def)
next
  case False
  let ?st = "(reset_cache st)\<lparr>m_shift := n\<rparr>"
  have "cached_ok P ?st" for P
    using cached_ok_reset [of st P] assms by (simp add: cached_ok_def shifter_idle_def)
  then have "ish.idle n ?st"
    using assms unfolding ish.idle_def ish.base_def
    by (cases st) (simp add: shifter_idle_def reset_cache_def inv_var_shifter.fields_def)
  from ish.main_loop [OF this, of ref_count t] show ?thesis
    using False by (auto simp: inv_var_shifter_op_def ish.idle_def ish.base_def shifter_idle_def cached_ok_def)
qed

section \<open>Shifting up and down, and the meaning of a shifted term\<close>

fun vars_less :: "nat \<Rightarrow> expr \<Rightarrow> bool" where
  "vars_less n (Var i s) = (i < n)"
| "vars_less n (App d args) = list_all (vars_less n) args"

lemma rename_rename: "rename_vars f (rename_vars g t) = rename_vars (f \<circ> g) t"
  by (induction t) auto

lemma rename_id: "vars_less n t \<Longrightarrow> (\<And>i. i < n \<Longrightarrow> f i = i) \<Longrightarrow> rename_vars f t = t"
  by (induction t) (auto simp: list_all_iff intro: map_idI)

lemma inv_shift_shift_index:
  assumes "i < 2 ^ 32" "n < 2 ^ 32"
  shows "inv_shift_index n (shift_index 0 n m i) = i"
proof -
  have "(i + n) mod 2 ^ 32 + 2 ^ 32 - n = (i + n) mod 2 ^ 32 + (2 ^ 32 - n)" using assms(2) by simp
  then have "inv_shift_index n (shift_index 0 n m i) = (i + n + (2 ^ 32 - n)) mod 2 ^ 32"
    by (simp only: inv_shift_index_def shift_index_def u32_def le0 if_True mod_add_left_eq)
  also have "\<dots> = i" using assms by simp
  finally show ?thesis .
qed

lemma inv_shift_shift:
  assumes "vars_less (2 ^ 32) t" "n < 2 ^ 32"
  shows "rename_vars (inv_shift_index n) (rename_vars (shift_index 0 n m) t) = t"
  using rename_id [OF assms(1), of "inv_shift_index n \<circ> shift_index 0 n m"] inv_shift_shift_index assms(2)
  by (simp add: rename_rename)

text \<open>The terms the inverse shifter is made for: no index is below the shift.\<close>

fun vars_from :: "nat \<Rightarrow> expr \<Rightarrow> bool" where
  "vars_from n (Var i s) = (n \<le> i \<and> i < 2 ^ 32)"
| "vars_from n (App d args) = list_all (vars_from n) args"

lemma inv_shift_index_from:
  assumes "n \<le> i" "i < 2 ^ 32"
  shows "inv_shift_index n i = i - n"
proof -
  have "i + 2 ^ 32 - n = (i - n) + 2 ^ 32" using assms(1) by simp
  then have "inv_shift_index n i = (i - n) mod 2 ^ 32" by (simp only: inv_shift_index_def u32_def mod_add_self2)
  then show ?thesis using assms(2) by simp
qed

lemma inv_shift_from: "vars_from n t \<Longrightarrow> rename_vars (inv_shift_index n) t = rename_vars (\<lambda>i. i - n) t"
  by (induction t) (auto simp: list_all_iff inv_shift_index_from)

lemma eval_ivar_indep: "eval_decl (I\<lparr>ivar := g\<rparr>) d vs = eval_decl I d vs"
proof (cases d)
  case (Bv k ps)
  have "eval_bv (I\<lparr>ivar := g\<rparr>) k ps vs = eval_bv I k ps vs" by (cases k) (simp_all add: eval_bv_def)
  then show ?thesis by (simp add: Bv)
qed simp_all

lemma eval_rename: "eval I (rename_vars f t) = eval (I\<lparr>ivar := \<lambda>i. ivar I (f i)\<rparr>) t"
proof (induction t)
  case (Var i s)
  then show ?case by simp
next
  case (App d args)
  then have "map (eval I) (map (rename_vars f) args) = map (eval (I\<lparr>ivar := \<lambda>i. ivar I (f i)\<rparr>)) args" by simp
  then show ?case by (simp only: rename_vars.simps eval.simps eval_ivar_indep)
qed

lemma get_sort_rename [simp]: "get_sort (rename_vars f t) = get_sort t"
  by (induction t) (auto simp: comp_def cong: map_cong)

lemma wf_rename: "wf t \<Longrightarrow> wf (rename_vars f t)"
  by (induction t) (auto simp: list_all_iff comp_def)

end
