(* ===== verification/Rewriter.thy ===== *)
theory Rewriter
  imports Var_Shifter
begin

text \<open>
  \<open>rewriter_tpl\<close> (\<open>src/Z3/z3-master/src/ast/rewriter/rewriter.h\<close>, \<open>rewriter_def.h\<close>): the generic
  rewriter, without proof generation and for terms without quantifiers. A frame processes the
  arguments of an application, calls the simplifier of the configuration on the results, and
  rewrites its answer again when the simplifier asks for it, to a depth or without bound; it can
  also expand a macro, with the arguments as bindings of the variables of the definition.

  An operation returns None when it does not return, the left side of the sum with the exception
  and the state it leaves behind, or the right side with its value and the new state. The scratch
  fields \<open>m_r\<close> and \<open>m_pr\<close> are values here.
\<close>

section \<open>Configurations\<close>

text \<open>The member functions a configuration has, over its state.\<close>

record 'c rewriter_config =
  c_cache_all_results :: "'c \<Rightarrow> bool"
  c_cache_results :: "'c \<Rightarrow> bool"
  c_flat_assoc :: "'c \<Rightarrow> func_decl \<Rightarrow> bool"
  c_max_scopes_exceeded :: "'c \<Rightarrow> nat \<Rightarrow> bool"
  c_max_frames_exceeded :: "'c \<Rightarrow> nat \<Rightarrow> bool"
  c_max_steps_exceeded :: "'c \<Rightarrow> 32 word \<Rightarrow> rewriter_exception + bool"
  c_pre_visit :: "'c \<Rightarrow> expr \<Rightarrow> bool"
  c_reduce_app :: "'c \<Rightarrow> func_decl \<Rightarrow> expr list \<Rightarrow> (rewriter_exception + br_status) \<times> 'c"
  c_reduce_var :: "'c \<Rightarrow> expr \<Rightarrow> expr option"
  c_get_macro :: "'c \<Rightarrow> func_decl \<Rightarrow> expr option"
  c_get_subst :: "'c \<Rightarrow> expr \<Rightarrow> expr option"
  c_cfg_reset :: "'c \<Rightarrow> 'c"
  c_cfg_cleanup :: "'c \<Rightarrow> 'c"

definition default_rewriter_cfg :: "'c rewriter_config" where
  "default_rewriter_cfg = \<lparr>
     c_cache_all_results = (\<lambda>c. False),
     c_cache_results = (\<lambda>c. True),
     c_flat_assoc = (\<lambda>c f. False),
     c_max_scopes_exceeded = (\<lambda>c n. False),
     c_max_frames_exceeded = (\<lambda>c n. False),
     c_max_steps_exceeded = (\<lambda>c n. Inr False),
     c_pre_visit = (\<lambda>c t. True),
     c_reduce_app = (\<lambda>c f args. (Inr BR_FAILED, c)),
     c_reduce_var = (\<lambda>c t. None),
     c_get_macro = (\<lambda>c f. None),
     c_get_subst = (\<lambda>c t. None),
     c_cfg_reset = (\<lambda>c. c),
     c_cfg_cleanup = (\<lambda>c. c)\<rparr>"

definition beta_reducer_cfg :: "'c rewriter_config" where
  "beta_reducer_cfg = default_rewriter_cfg\<lparr>c_pre_visit := (\<lambda>c t. \<not> is_ground t)\<rparr>"

section \<open>State\<close>

record 'c rewriter_tpl = rewriter_core +
  m_rw_cfg :: 'c
  m_num_steps :: "32 word"
  m_bindings :: "expr option list"
  m_shifter :: var_shifter
  m_inv_shifter :: inv_var_shifter
  m_shifts :: "nat list"

text \<open>
  What the rewriter asks of the rest of the program: the number of references to a node, whether
  the resource limit allows one more step (\<open>m().inc()\<close>), and the number of nodes.
\<close>

record 'c rewriter_env =
  e_ref_count :: "'c rewriter_tpl \<Rightarrow> expr \<Rightarrow> nat"
  e_inc :: "'c rewriter_tpl \<Rightarrow> bool"
  e_num_asts :: "'c rewriter_tpl \<Rightarrow> 32 word"
  e_shift_ref_count :: "var_shifter \<Rightarrow> expr \<Rightarrow> nat"
  e_inv_shift_ref_count :: "inv_var_shifter \<Rightarrow> expr \<Rightarrow> nat"

definition mk_rewriter_tpl :: "32 word \<Rightarrow> 'c \<Rightarrow> 'c rewriter_tpl" where
  "mk_rewriter_tpl n c = rewriter_core.extend (mk_rewriter_core n)
     (rewriter_tpl.fields c 0 [] (mk_var_shifter n) (mk_inv_var_shifter n) [])"

text \<open>Results of operations, and one operation after another.\<close>

type_synonym ('c, 'a) outcome =
  "((rewriter_exception \<times> 'c rewriter_tpl) + ('a \<times> 'c rewriter_tpl)) option"

definition returns :: "'a \<Rightarrow> 'c rewriter_tpl \<Rightarrow> ('c, 'a) outcome" where
  "returns a st = Some (Inr (a, st))"

definition throws :: "rewriter_exception \<Rightarrow> 'c rewriter_tpl \<Rightarrow> ('c, 'a) outcome" where
  "throws e st = Some (Inl (e, st))"

definition and_then ::
    "('c, 'a) outcome \<Rightarrow> ('a \<Rightarrow> 'c rewriter_tpl \<Rightarrow> ('c, 'b) outcome) \<Rightarrow> ('c, 'b) outcome" where
  "and_then m k = (case m of
      None \<Rightarrow> None
    | Some (Inl x) \<Rightarrow> Some (Inl x)
    | Some (Inr (a, st)) \<Rightarrow> k a st)"

section \<open>Pushing frames, opening scopes\<close>

definition tpl_must_cache ::
    "'c rewriter_config \<Rightarrow> 'c rewriter_env \<Rightarrow> 'c rewriter_tpl \<Rightarrow> expr \<Rightarrow> bool" where
  "tpl_must_cache C E st t =
    (if c_cache_all_results C (m_rw_cfg st) then m_root st \<noteq> Some t \<and> is_app t \<and> 0 < get_num_args t
     else if c_cache_results C (m_rw_cfg st) then core_must_cache (e_ref_count E) st t
     else False)"

definition tpl_push_frame ::
    "'c rewriter_config \<Rightarrow> expr \<Rightarrow> bool \<Rightarrow> nat \<Rightarrow> 'c rewriter_tpl \<Rightarrow> ('c, unit) outcome" where
  "tpl_push_frame C t mcache max_depth st =
    (if c_max_frames_exceeded C (m_rw_cfg st) (length (m_frame_stack st)) then throws Max_frames st
     else returns () (push_frame_core t mcache PROCESS_CHILDREN max_depth st))"

definition tpl_begin_scope ::
    "'c rewriter_config \<Rightarrow> 'c rewriter_env \<Rightarrow> 'c rewriter_tpl \<Rightarrow> ('c, unit) outcome" where
  "tpl_begin_scope C E st =
    (if c_max_scopes_exceeded C (m_rw_cfg st) (length (m_scopes st)) then throws Max_scopes st
     else returns () (core_begin_scope (e_num_asts E st) st))"

definition tpl_cache_result :: "expr \<Rightarrow> expr \<Rightarrow> bool \<Rightarrow> 'c rewriter_tpl \<Rightarrow> 'c rewriter_tpl" where
  "tpl_cache_result t new_t c st = (if c then core_cache_result t new_t st else st)"

section \<open>Variables and constants\<close>

definition process_var ::
    "'c rewriter_config \<Rightarrow> 'c rewriter_env \<Rightarrow> nat \<Rightarrow> srt \<Rightarrow> 'c rewriter_tpl \<Rightarrow> ('c, unit) outcome" where
  "process_var C E idx s st =
    (case c_reduce_var C (m_rw_cfg st) (Var idx s) of
       Some r \<Rightarrow> returns () (set_new_child_flag (push_result r st))
     | None \<Rightarrow>
         (let sz = length (m_bindings st); index = sz - idx - 1 in
          case (if idx < sz then m_bindings st ! index else None) of
            Some r \<Rightarrow>
              (if \<not> is_ground r \<and> m_shifts st ! index \<noteq> sz then
                 (let shift_amount = sz - m_shifts st ! index;
                      (c, st1) = get_cached r shift_amount st
                  in case c of
                       Some c' \<Rightarrow> returns () (set_new_child_flag (push_result c' st1))
                     | None \<Rightarrow>
                         (case var_shifter_op (e_shift_ref_count E) r 0 shift_amount 0 (m_shifter st1) of
                            None \<Rightarrow> None
                          | Some (tmp, sh) \<Rightarrow>
                              returns () (set_new_child_flag (cache_shifted_result r shift_amount tmp
                                (push_result tmp (st1\<lparr>m_shifter := sh\<rparr>))))))
               else returns () (set_new_child_flag (push_result r st)))
          | None \<Rightarrow> returns () (push_result (Var idx s) st)))"

text \<open>
  \<open>br_rewrite\<close> gives the result and the number of a status that asks for another rewrite, and
  \<open>process_const\<close> returns None when the result is on the stack and otherwise the term to process
  instead of the constant. Its \<open>retry\<close> loop may not end.
\<close>

fun br_rewrite :: "br_status \<Rightarrow> (expr \<times> nat) option" where
  "br_rewrite (BR_REWRITE1 r) = Some (r, 0)"
| "br_rewrite (BR_REWRITE2 r) = Some (r, 1)"
| "br_rewrite (BR_REWRITE3 r) = Some (r, 2)"
| "br_rewrite (BR_REWRITE_FULL r) = Some (r, 3)"
| "br_rewrite _ = None"

fun const_decl :: "expr \<Rightarrow> func_decl option" where
  "const_decl (App d []) = Some d"
| "const_decl _ = None"

definition const_status ::
    "func_decl \<Rightarrow> bool \<Rightarrow> br_status \<Rightarrow> 'c rewriter_tpl \<Rightarrow> (expr option \<times> 'c rewriter_tpl) + func_decl" where
  "const_status d retried b st =
    (case b of
       BR_FAILED \<Rightarrow> Inl (None, if retried then set_new_child_flag (push_result (App d []) st)
                                else push_result (App d []) st)
     | BR_DONE r \<Rightarrow> Inl (None, set_new_child_flag (push_result r st))
     | _ \<Rightarrow>
         (let r = fst (the (br_rewrite b)) in
          case const_decl r of Some d' \<Rightarrow> Inr d' | None \<Rightarrow> Inl (Some r, st)))"

partial_function (option) process_const_loop ::
    "'c rewriter_config \<Rightarrow> func_decl \<Rightarrow> bool \<Rightarrow> 'c rewriter_tpl \<Rightarrow> ('c, expr option) outcome" where
  "process_const_loop C d retried st =
    (case c_reduce_app C (m_rw_cfg st) d [] of
       (Inl e, c) \<Rightarrow> Some (Inl (e, st\<lparr>m_rw_cfg := c\<rparr>))
     | (Inr b, c) \<Rightarrow>
         (case const_status d retried b (st\<lparr>m_rw_cfg := c\<rparr>) of
            Inl x \<Rightarrow> Some (Inr x)
          | Inr d' \<Rightarrow> process_const_loop C d' True (st\<lparr>m_rw_cfg := c\<rparr>)))"

definition process_const ::
    "'c rewriter_config \<Rightarrow> func_decl \<Rightarrow> 'c rewriter_tpl \<Rightarrow> ('c, expr option) outcome" where
  "process_const C d st = process_const_loop C d False st"

section \<open>Visiting a term\<close>

definition child_depth :: "nat \<Rightarrow> nat" where
  "child_depth max_depth = (if max_depth \<noteq> RW_UNBOUNDED_DEPTH then max_depth - 1 else max_depth)"

text \<open>True when the result is on the stack, False when a frame was pushed.\<close>

definition visit ::
    "'c rewriter_config \<Rightarrow> 'c rewriter_env \<Rightarrow> expr \<Rightarrow> nat \<Rightarrow> 'c rewriter_tpl \<Rightarrow> ('c, bool) outcome" where
  "visit C E t max_depth st =
    (case c_get_subst C (m_rw_cfg st) t of
       Some new_t \<Rightarrow> returns True (set_new_child_flag_if t new_t (push_result new_t st))
     | None \<Rightarrow>
         (if max_depth = 0 then returns True (push_result t st)
          else
            (let c = tpl_must_cache C E st t;
                 (r, st1) = (if c then get_cached t 0 st else (None, st))
             in case r of
                  Some r' \<Rightarrow> returns True (set_new_child_flag_if t r' (push_result r' st1))
                | None \<Rightarrow>
                    (if \<not> c_pre_visit C (m_rw_cfg st1) t then returns True (push_result t st1)
                     else
                       (case t of
                          Var idx s \<Rightarrow> and_then (process_var C E idx s st1) (\<lambda>_. returns True)
                        | App d [] \<Rightarrow>
                            and_then (process_const C d st1) (\<lambda>x st2. case x of
                                None \<Rightarrow> returns True st2
                              | Some m_r \<Rightarrow>
                                  and_then (tpl_push_frame C m_r c (child_depth max_depth) st2) (\<lambda>_. returns False))
                        | App d args \<Rightarrow>
                            and_then (tpl_push_frame C t c (child_depth max_depth) st1) (\<lambda>_. returns False))))))"

section \<open>Applications\<close>

text \<open>
  The end of a frame whose result was rewritten again: of the two terms on top of the result
  stack the last one stays.
\<close>

definition rewrite_done :: "expr \<Rightarrow> 'c rewriter_tpl \<Rightarrow> 'c rewriter_tpl" where
  "rewrite_done t st =
    (let m_r = last (m_result_stack st);
         st1 = push_result m_r (pop_result (pop_result st));
         st2 = tpl_cache_result t m_r (m_cache_result (hd (m_frame_stack st))) st1
     in set_new_child_flag (pop_frame st2))"

definition set_frame_state :: "frame_state \<Rightarrow> 'c rewriter_tpl \<Rightarrow> 'c rewriter_tpl" where
  "set_frame_state s st = upd_frame (\<lambda>fr. fr\<lparr>m_state := s\<rparr>) st"

text \<open>
  When the condition of an if-then-else became a truth value, only the branch it selects is
  visited; the answer tells whether this was the case.
\<close>

definition constant_fold ::
    "'c rewriter_config \<Rightarrow> 'c rewriter_env \<Rightarrow> func_decl \<Rightarrow> expr list \<Rightarrow> 'c rewriter_tpl \<Rightarrow> ('c, bool) outcome" where
  "constant_fold C E d args st =
    (let t = App d args;
         fr = hd (m_frame_stack st);
         cond = m_result_stack st ! m_spos fr;
         arg = (if m_i fr = 1 \<and> m_is_ite t then
                  (if m_is_true cond then Some (args ! 1)
                   else if m_is_false cond then Some (args ! 2) else None)
                else None)
     in case arg of
          None \<Rightarrow> returns False st
        | Some a \<Rightarrow>
            and_then
              (visit C E a (m_max_depth fr)
                (set_frame_state REWRITE_BUILTIN (push_result a (shrink_results (m_spos fr) st))))
              (\<lambda>b st1. returns True (if b then rewrite_done t st1 else st1)))"

text \<open>
  The loop over the arguments: True when all are done, False when a frame was pushed or the
  if-then-else was folded.
\<close>

fun children ::
    "'c rewriter_config \<Rightarrow> 'c rewriter_env \<Rightarrow> func_decl \<Rightarrow> expr list \<Rightarrow> expr list \<Rightarrow> 'c rewriter_tpl \<Rightarrow>
      ('c, bool) outcome" where
  "children C E d all_args [] st = returns True st"
| "children C E d all_args (arg # args) st =
    and_then (constant_fold C E d all_args st) (\<lambda>folded st1.
      if folded then returns False st1
      else
        and_then (visit C E arg (m_max_depth (hd (m_frame_stack st1))) (next_child st1)) (\<lambda>b st2.
          if b then children C E d all_args args st2 else returns False st2))"

text \<open>The declarations the plugins mark as associative.\<close>

fun is_associative :: "func_decl \<Rightarrow> bool" where
  "is_associative (Basic k) = (k \<in> {OP_AND, OP_OR, OP_XOR})"
| "is_associative (Bv k ps) = (k \<in> {OP_BADD, OP_BMUL, OP_BAND, OP_BOR, OP_BXOR, OP_BXNOR})"
| "is_associative _ = False"

text \<open>An argument of the same associative function leaves its results to the frame below.\<close>

definition flattens :: "'c rewriter_config \<Rightarrow> 'c rewriter_env \<Rightarrow> func_decl \<Rightarrow> expr list \<Rightarrow> 'c rewriter_tpl \<Rightarrow> bool" where
  "flattens C E f args st =
    (is_associative f \<and> e_ref_count E st (App f args) \<le> 1 \<and>
     (case m_frame_stack st of
        fr # prev_fr # fs \<Rightarrow>
          (case m_curr prev_fr of
             App g as \<Rightarrow> g = f \<and> m_state prev_fr = PROCESS_CHILDREN \<and> c_flat_assoc C (m_rw_cfg st) f
           | Var i s \<Rightarrow> False)
      | _ \<Rightarrow> False))"

text \<open>The end of a frame with the result \<open>m_r\<close>.\<close>

definition frame_done :: "expr \<Rightarrow> expr \<Rightarrow> bool \<Rightarrow> 'c rewriter_tpl \<Rightarrow> 'c rewriter_tpl" where
  "frame_done t m_r always st =
    (let fr = hd (m_frame_stack st);
         st1 = push_result m_r (shrink_results (m_spos fr) st);
         st2 = pop_frame (tpl_cache_result t m_r (m_cache_result fr) st1)
     in if always then set_new_child_flag st2 else set_new_child_flag_if t m_r st2)"

text \<open>Expanding a macro: the arguments become bindings, the definition gets a frame in a new scope.\<close>

definition expand_macro ::
    "'c rewriter_config \<Rightarrow> 'c rewriter_env \<Rightarrow> nat \<Rightarrow> expr list \<Rightarrow> expr \<Rightarrow> 'c rewriter_tpl \<Rightarrow> ('c, bool) outcome" where
  "expand_macro C E num_args new_args def st =
    (let sz = length (m_bindings st);
         st1 = set_frame_state EXPAND_DEF st;
         st2 = st1\<lparr>m_bindings := m_bindings st1 @ map Some (rev (take num_args new_args)),
                   m_shifts := m_shifts st1 @ replicate num_args sz\<rparr>
     in and_then (tpl_begin_scope C E (push_result def st2)) (\<lambda>_ st3.
          and_then (tpl_push_frame C def False RW_UNBOUNDED_DEPTH
             (st3\<lparr>m_num_qvars := m_num_qvars st3 + num_args, m_root := Some def\<rparr>))
            (\<lambda>_. returns True)))"

text \<open>What follows the loop over the arguments.\<close>

definition reduce_children ::
    "'c rewriter_config \<Rightarrow> 'c rewriter_env \<Rightarrow> func_decl \<Rightarrow> expr list \<Rightarrow> 'c rewriter_tpl \<Rightarrow> ('c, bool) outcome" where
  "reduce_children C E f args st =
    (let t = App f args;
         fr = hd (m_frame_stack st);
         new_args = drop (m_spos fr) (m_result_stack st)
     in case c_reduce_app C (m_rw_cfg st) f new_args of
          (Inl e, c) \<Rightarrow> throws e (st\<lparr>m_rw_cfg := c\<rparr>)
        | (Inr b, c) \<Rightarrow>
            (let st1 = st\<lparr>m_rw_cfg := c\<rparr> in
             case b of
               BR_DONE r \<Rightarrow> returns True (frame_done t r True st1)
             | BR_FAILED \<Rightarrow>
                 (case c_get_macro C c f of
                    Some def \<Rightarrow>
                      (if is_ground def then returns True (frame_done t def False st1)
                       else expand_macro C E (length args) new_args def st1)
                  | None \<Rightarrow>
                      returns True (frame_done t (if m_new_child fr then App f new_args else t) False st1))
             | _ \<Rightarrow>
                 (let (r, n) = the (br_rewrite b);
                      max_depth = (if n \<noteq> RW_UNBOUNDED_DEPTH then n + 1 else n)
                  in and_then
                       (visit C E r max_depth
                         (set_frame_state REWRITE_BUILTIN (push_result r (shrink_results (m_spos fr) st1))))
                       (\<lambda>b st2. returns True (if b then rewrite_done t st2 else st2)))))"

text \<open>\<open>process_app\<close>, by the state of the frame; the answer has no meaning.\<close>

definition process_app ::
    "'c rewriter_config \<Rightarrow> 'c rewriter_env \<Rightarrow> func_decl \<Rightarrow> expr list \<Rightarrow> 'c rewriter_tpl \<Rightarrow> ('c, bool) outcome" where
  "process_app C E f args st =
    (let t = App f args; fr = hd (m_frame_stack st) in
     case m_state fr of
       PROCESS_CHILDREN \<Rightarrow>
         and_then (children C E f args (drop (m_i fr) args) st) (\<lambda>b st1.
           if \<not> b then returns True st1
           else if flattens C E f args st1 then returns True (set_new_child_flag (pop_frame st1))
           else reduce_children C E f args st1)
     | REWRITE_BUILTIN \<Rightarrow> returns True (rewrite_done t st)
     | EXPAND_DEF \<Rightarrow>
         (let num_args = length args;
              sz = length (m_bindings st);
              st1 = core_end_scope (st\<lparr>m_bindings := take (sz - num_args) (m_bindings st),
                 m_shifts := take (length (m_shifts st) - num_args) (m_shifts st),
                 m_num_qvars := m_num_qvars st - num_args\<rparr>);
              m_r = last (m_result_stack st1)
          in if is_ground m_r then returns True (frame_done t m_r True st1)
             else
               (case inv_var_shifter_op (e_inv_shift_ref_count E) m_r num_args (m_inv_shifter st1) of
                  None \<Rightarrow> None
                | Some (tmp, sh) \<Rightarrow> returns True (frame_done t tmp True (st1\<lparr>m_inv_shifter := sh\<rparr>))))
     | REWRITE_RULE \<Rightarrow> None)"

section \<open>The main loop\<close>

definition tpl_reset :: "'c rewriter_config \<Rightarrow> 'c rewriter_tpl \<Rightarrow> 'c rewriter_tpl" where
  "tpl_reset C st = (core_reset st)\<lparr>m_rw_cfg := c_cfg_reset C (m_rw_cfg st), m_bindings := [], m_shifts := [],
     m_shifter := core_reset (m_shifter st), m_inv_shifter := core_reset (m_inv_shifter st)\<rparr>"

text \<open>\<open>n\<close> is the number of nodes, for the caches made anew.\<close>

definition tpl_cleanup :: "'c rewriter_config \<Rightarrow> 32 word \<Rightarrow> 'c rewriter_tpl \<Rightarrow> 'c rewriter_tpl" where
  "tpl_cleanup C n st = (core_cleanup n st)\<lparr>m_rw_cfg := c_cfg_cleanup C (m_rw_cfg st), m_bindings := [], m_shifts := [],
     m_shifter := core_cleanup n (m_shifter st), m_inv_shifter := core_cleanup n (m_inv_shifter st)\<rparr>"

definition first_visit :: "frame \<Rightarrow> bool" where
  "first_visit fr = (m_state fr = PROCESS_CHILDREN \<and> m_i fr = 0)"

text \<open>One round of \<open>resume_core\<close>, with a frame on the stack.\<close>

definition rewrite_step ::
    "'c rewriter_config \<Rightarrow> 'c rewriter_env \<Rightarrow> 'c rewriter_tpl \<Rightarrow> ('c, bool) outcome" where
  "rewrite_step C E st =
    (if \<not> e_inc E st \<and> m_cancel_check st then throws Canceled (tpl_reset C st)
     else
       (let fr = hd (m_frame_stack st);
            t = m_curr fr;
            st1 = st\<lparr>m_num_steps := m_num_steps st + 1\<rparr>
        in case c_max_steps_exceeded C (m_rw_cfg st1) (m_num_steps st1) of
             Inl e \<Rightarrow> throws e st1
           | Inr exceeded \<Rightarrow>
               (if exceeded then throws Max_steps st1
                else
                  (let (r, st2) = (if first_visit fr \<and> m_cache_result fr then get_cached t 0 st1 else (None, st1))
                   in case r of
                        Some r' \<Rightarrow> returns True (set_new_child_flag_if t r' (pop_frame (push_result r' st2)))
                      | None \<Rightarrow>
                          (case t of
                             App d args \<Rightarrow> process_app C E d args st2
                           | Var idx s \<Rightarrow> and_then (process_var C E idx s (pop_frame st2)) (\<lambda>_. returns True))))))"

text \<open>\<open>resume_core\<close>; the loop may not end.\<close>

partial_function (option) resume_core ::
    "'c rewriter_config \<Rightarrow> 'c rewriter_env \<Rightarrow> 'c rewriter_tpl \<Rightarrow> ('c, expr) outcome" where
  "resume_core C E st =
    (if m_frame_stack st = [] then Some (Inr (last (m_result_stack st), pop_result st))
     else
       (case rewrite_step C E st of
          None \<Rightarrow> None
        | Some (Inl x) \<Rightarrow> Some (Inl x)
        | Some (Inr (_, st')) \<Rightarrow> resume_core C E st'))"

declare process_const_loop.simps [code] resume_core.simps [code]

definition main_loop ::
    "'c rewriter_config \<Rightarrow> 'c rewriter_env \<Rightarrow> expr \<Rightarrow> 'c rewriter_tpl \<Rightarrow> ('c, expr) outcome" where
  "main_loop C E t st =
    (if \<not> e_inc E st then
       (if m_cancel_check st then throws Canceled (tpl_reset C st) else returns t st)
     else
       and_then (visit C E t RW_UNBOUNDED_DEPTH (st\<lparr>m_root := Some t, m_num_qvars := 0, m_num_steps := 0\<rparr>))
         (\<lambda>b st1. if b then returns (last (m_result_stack st1)) (pop_result st1)
                  else resume_core C E st1))"

section \<open>Bindings\<close>

definition set_bindings :: "expr list \<Rightarrow> 'c rewriter_tpl \<Rightarrow> 'c rewriter_tpl" where
  "set_bindings bindings st = st\<lparr>m_bindings := map Some (rev bindings),
     m_shifts := replicate (length bindings) (length bindings)\<rparr>"

definition set_inv_bindings :: "expr list \<Rightarrow> 'c rewriter_tpl \<Rightarrow> 'c rewriter_tpl" where
  "set_inv_bindings bindings st = st\<lparr>m_bindings := map Some bindings,
     m_shifts := replicate (length bindings) (length bindings)\<rparr>"

definition update_inv_binding_at :: "nat \<Rightarrow> expr \<Rightarrow> 'c rewriter_tpl \<Rightarrow> 'c rewriter_tpl" where
  "update_inv_binding_at i b st = st\<lparr>m_bindings := (m_bindings st)[i := Some b]\<rparr>"

definition update_binding_at :: "nat \<Rightarrow> expr \<Rightarrow> 'c rewriter_tpl \<Rightarrow> 'c rewriter_tpl" where
  "update_binding_at i b st = st\<lparr>m_bindings := (m_bindings st)[length (m_bindings st) - i - 1 := Some b]\<rparr>"

text \<open>\<open>operator()(n, num_bindings, bindings)\<close>\<close>

definition rewrite_with_bindings ::
    "'c rewriter_config \<Rightarrow> 'c rewriter_env \<Rightarrow> expr \<Rightarrow> expr list \<Rightarrow> 'c rewriter_tpl \<Rightarrow> ('c, expr) outcome" where
  "rewrite_with_bindings C E n bindings st =
    main_loop C E n (set_inv_bindings bindings (tpl_reset C st))"

end
