(* ===== verification/Rewriter_Sound.thy ===== *)
theory Rewriter_Sound
  imports Rewriter
begin

text \<open>
  The traversal of \<open>rewriter_tpl\<close> is correct for every configuration that meets a contract. The
  contract speaks of a relation \<open>rel t r\<close>, \<open>r\<close> is a right result for \<open>t\<close>, that the simplifier of the
  configuration, the substitution and the variables respect and that is a congruence; the bindings
  are fixed and there are no macros. The invariant types the stacks: what a frame still waits for,
  and what the results it holds are results of.
\<close>

lemma and_then_Inr:
  "and_then m k = Some (Inr x) \<longleftrightarrow> (\<exists>a st. m = Some (Inr (a, st)) \<and> k a st = Some (Inr x))"
  by (auto simp: and_then_def split: option.split sum.split)

lemma returns_Inr [simp]: "returns a st = Some (Inr (b, st')) \<longleftrightarrow> a = b \<and> st = st'"
  by (auto simp: returns_def)

lemma throws_Inr [simp]: "throws e st \<noteq> Some (Inr x)"
  by (simp add: throws_def)

lemma get_cached_fields:
  assumes "get_cached k n st = (r, st')"
  shows "\<exists>cs. st' = st\<lparr>m_cache_stack := cs\<rparr>"
  using assms by (auto simp: get_cached_def Let_def case_prod_beta)

lemmas mk_tpl_simps = mk_rewriter_tpl_def mk_rewriter_core_def rewriter_core.defs rewriter_tpl.defs

lemma mk_cached_ok: "cached_ok P (mk_rewriter_tpl n c)"
  by (simp add: cached_ok_def ac.entries_ok_def mk_tpl_simps mk_act_cache_def lookup_def init_def)

definition flag_if :: "bool \<Rightarrow> 'a rewriter_core_scheme \<Rightarrow> 'a rewriter_core_scheme" where
  "flag_if b st = (if b then set_new_child_flag st else st)"

lemma flag_if_simps [simp]:
  "flag_if False st = st" "flag_if True st = set_new_child_flag st"
  "set_new_child_flag_if t r st = flag_if (t \<noteq> r) st"
  by (simp_all add: flag_if_def set_new_child_flag_if_def)

section \<open>Induction on the loops\<close>

lemma const_decl_Some: "const_decl r = Some d \<Longrightarrow> r = App d []"
  by (cases r rule: const_decl.cases) auto

lemma br_rewrite_not_done: "br_rewrite b = Some (r, n) \<Longrightarrow> \<forall>r. b \<noteq> BR_DONE r"
  by (cases b) auto

lemma const_status_stop:
  assumes "const_status d retried b st = Inl (x, st')"
  obtains (failed) "b = BR_FAILED" "x = None" "st' = flag_if retried (push_result (App d []) st)"
  | (finished) r where "b = BR_DONE r" "x = None" "st' = set_new_child_flag (push_result r st)"
  | (rewrite) r n where "br_rewrite b = Some (r, n)" "x = Some r" "st' = st" "const_decl r = None"
  using assms by (cases b) (auto simp: const_status_def flag_if_def Let_def split: option.splits)

lemma const_status_retry:
  "const_status d retried b st = Inr d' \<Longrightarrow> \<exists>n. br_rewrite b = Some (App d' [], n)"
  by (cases b) (auto simp: const_status_def Let_def split: option.splits dest: const_decl_Some)

lemma process_const_loop_induct [consumes 1, case_names stop retry]:
  assumes "process_const_loop C d retried st = Some (Inr (x, st'))"
    and stop: "\<And>d retried st b c x st'. c_reduce_app C (m_rw_cfg st) d [] = (Inr b, c) \<Longrightarrow>
      const_status d retried b (st\<lparr>m_rw_cfg := c\<rparr>) = Inl (x, st') \<Longrightarrow> P d retried st x st'"
    and retry: "\<And>d retried st b c d' x st'. c_reduce_app C (m_rw_cfg st) d [] = (Inr b, c) \<Longrightarrow>
      const_status d retried b (st\<lparr>m_rw_cfg := c\<rparr>) = Inr d' \<Longrightarrow>
      P d' True (st\<lparr>m_rw_cfg := c\<rparr>) x st' \<Longrightarrow> P d retried st x st'"
  shows "P d retried st x st'"
proof -
  have "C' = C \<longrightarrow> (\<forall>x st'. y = Inr (x, st') \<longrightarrow> P d retried st x st')"
    if "process_const_loop C' d retried st = Some y" for C' d retried st y
    using that
  proof (rule process_const_loop.raw_induct [where P = "\<lambda>C' d retried st y. C' = C \<longrightarrow> (\<forall>x st'. y = Inr (x, st') \<longrightarrow> P d retried st x st')", rotated],
      goal_cases)
    case 1: (1 loop C' d retried st y)
    show ?case
    proof (intro impI allI)
      fix x st'
      assume c: "C' = C" and y: "y = Inr (x, st')"
      obtain b c' where r: "c_reduce_app C (m_rw_cfg st) d [] = (Inr b, c')"
        using 1(2) y unfolding c by (auto split: prod.splits sum.splits)
      show "P d retried st x st'"
      proof (cases "const_status d retried b (st\<lparr>m_rw_cfg := c'\<rparr>)")
        case (Inl z)
        then show ?thesis using 1(2) y r c stop [OF r] by simp
      next
        case (Inr d')
        then have "loop C' d' True (st\<lparr>m_rw_cfg := c'\<rparr>) = Some y" using 1(2) r c by simp
        from 1(1) [OF this] show ?thesis using c y retry [OF r Inr] by blast
      qed
    qed
  qed
  with assms(1) show ?thesis by blast
qed

lemma resume_core_induct [consumes 1, case_names stop step]:
  assumes "resume_core C E st = Some (Inr (r, st'))"
    and stop: "\<And>st. m_frame_stack st = [] \<Longrightarrow> P st (last (m_result_stack st)) (pop_result st)"
    and step: "\<And>st b st1 r st'. m_frame_stack st \<noteq> [] \<Longrightarrow> rewrite_step C E st = Some (Inr (b, st1)) \<Longrightarrow>
      P st1 r st' \<Longrightarrow> P st r st'"
  shows "P st r st'"
proof -
  have "C' = C \<and> E' = E \<longrightarrow> (\<forall>r st'. y = Inr (r, st') \<longrightarrow> P st r st')"
    if "resume_core C' E' st = Some y" for C' E' st y
    using that
  proof (rule resume_core.raw_induct [where P = "\<lambda>C' E' st y. C' = C \<and> E' = E \<longrightarrow> (\<forall>r st'. y = Inr (r, st') \<longrightarrow> P st r st')", rotated],
      goal_cases)
    case 1: (1 loop C' E' st y)
    show ?case
    proof (intro impI allI)
      fix r st'
      assume c: "C' = C \<and> E' = E" and y: "y = Inr (r, st')"
      show "P st r st'"
      proof (cases "m_frame_stack st = []")
        case True
        then show ?thesis using 1(2) y stop by auto
      next
        case False
        then obtain b st1 where s: "rewrite_step C E st = Some (Inr (b, st1))" "loop C' E' st1 = Some y"
          using 1(2) y c by (auto split: option.splits sum.splits prod.splits)
        show ?thesis using step [OF False s(1)] 1(1) [OF s(2)] c y by blast
      qed
    qed
  qed
  with assms(1) show ?thesis by blast
qed

section \<open>The contract of a configuration\<close>

locale rewriter_laws =
  fixes C :: "'c rewriter_config"
    and E :: "'c rewriter_env"
    and B :: "expr option list"
    and S :: "nat list"
    and inv :: "'c \<Rightarrow> bool"
    and md :: "'c \<Rightarrow> bool"
    and src :: "expr \<Rightarrow> bool"
    and rl :: "expr \<Rightarrow> bool"
    and rel :: "expr \<Rightarrow> expr \<Rightarrow> bool"
    and eqv :: "expr \<Rightarrow> expr \<Rightarrow> bool"
  assumes eqv_def: "eqv t t' \<longleftrightarrow> src t' \<and> (\<forall>s. rel t' s \<longrightarrow> rel t s)"
    and src_arg: "src (App f args) \<Longrightarrow> a \<in> set args \<Longrightarrow> src a"
    and rl_arg: "rl (App f args) \<Longrightarrow> a \<in> set args \<Longrightarrow> rl a"
    and keep: "src t \<Longrightarrow> rl t \<Longrightarrow> rel t t"
    and subst: "inv c \<Longrightarrow> md c \<Longrightarrow> src t \<Longrightarrow> c_get_subst C c t = Some r \<Longrightarrow> rel t r"
    and skipped: "inv c \<Longrightarrow> md c \<Longrightarrow> src t \<Longrightarrow> \<not> c_pre_visit C c t \<Longrightarrow> rel t t"
    and reduced_var: "inv c \<Longrightarrow> md c \<Longrightarrow> src (Var i s) \<Longrightarrow> c_reduce_var C c (Var i s) = Some r \<Longrightarrow> rel (Var i s) r"
    and bound_var: "inv c \<Longrightarrow> src (Var i s) \<Longrightarrow> c_reduce_var C c (Var i s) = None \<Longrightarrow> i < length B \<Longrightarrow>
      B ! (length B - i - 1) = Some r \<Longrightarrow>
      rel (Var i s) r \<and> (is_ground r \<or> S ! (length B - i - 1) = length B)"
    and free_var: "src (Var i s) \<Longrightarrow> (i < length B \<longrightarrow> B ! (length B - i - 1) = None) \<Longrightarrow> rel (Var i s) (Var i s)"
    and congr: "src (App f args) \<Longrightarrow> list_all2 rel args rs \<Longrightarrow> list_all2 rel args rs' \<Longrightarrow>
      c_reduce_app C c f rs' = (Inr b, c') \<Longrightarrow> (\<forall>r. b \<noteq> BR_DONE r) \<Longrightarrow> rel (App f args) (App f rs)"
    and no_macro: "c_get_macro C c f = None"
    and reduce_mono: "c_reduce_app C c f rs = (x, c') \<Longrightarrow> md c' \<Longrightarrow> md c"
    and reduce_inv: "inv c \<Longrightarrow> md c' \<Longrightarrow> src (App f args) \<Longrightarrow> list_all2 rel args rs \<Longrightarrow>
      c_reduce_app C c f rs = (x, c') \<Longrightarrow> inv c'"
    and reduce_done: "inv c \<Longrightarrow> md c' \<Longrightarrow> src (App f args) \<Longrightarrow> list_all2 rel args rs \<Longrightarrow>
      c_reduce_app C c f rs = (Inr (BR_DONE r), c') \<Longrightarrow> rel (App f args) r"
    and reduce_rewrite: "inv c \<Longrightarrow> md c' \<Longrightarrow> src (App f args) \<Longrightarrow> list_all2 rel args rs \<Longrightarrow>
      c_reduce_app C c f rs = (Inr b, c') \<Longrightarrow> br_rewrite b = Some (r, n) \<Longrightarrow> rl r \<and> eqv (App f args) r"
    and flat: "is_associative f \<Longrightarrow> c_flat_assoc C c f \<Longrightarrow> src (App f (xs @ a # zs)) \<Longrightarrow> eqv a (App f ys) \<Longrightarrow>
      eqv (App f (xs @ a # zs)) (App f (xs @ ys @ zs))"
    and ite_true: "src (App (Basic OP_ITE) [p, t, t']) \<Longrightarrow> rel p m_mk_true \<Longrightarrow> eqv (App (Basic OP_ITE) [p, t, t']) t"
    and ite_false: "src (App (Basic OP_ITE) [p, t, t']) \<Longrightarrow> rel p m_mk_false \<Longrightarrow> eqv (App (Basic OP_ITE) [p, t, t']) t'"
begin

lemma eqv_refl: "src t \<Longrightarrow> eqv t t"
  by (simp add: eqv_def)

lemma eqv_trans: "eqv a b \<Longrightarrow> eqv b c \<Longrightarrow> eqv a c"
  by (auto simp: eqv_def)

lemma eqv_src: "eqv a b \<Longrightarrow> src b"
  by (simp add: eqv_def)

lemma eqv_rel: "eqv a b \<Longrightarrow> rel b s \<Longrightarrow> rel a s"
  by (simp add: eqv_def)

section \<open>The invariant\<close>

text \<open>
  A frame at its arguments: the terms \<open>as'\<close>, which the first \<open>n\<close> arguments stand for, have their
  results on the stack; unless the frame was flagged these arguments may be kept.
\<close>

definition at_children :: "frame \<Rightarrow> func_decl \<Rightarrow> expr list \<Rightarrow> expr list \<Rightarrow> nat \<Rightarrow> expr list \<Rightarrow> bool" where
  "at_children fr f args as n rs = (m_curr fr = App f args \<and> m_state fr = PROCESS_CHILDREN \<and>
     m_i fr \<le> length args \<and> m_spos fr \<le> length rs \<and> list_all2 rel as (drop (m_spos fr) rs) \<and>
     eqv (App f args) (App f (as @ drop n args)) \<and>
     (\<not> is_associative f \<longrightarrow> length as = n) \<and> (n = 0 \<longrightarrow> as = []) \<and>
     (\<not> m_new_child fr \<longrightarrow> as = take n args \<and> (\<forall>a \<in> set as. rel a a)) \<and>
     (m_max_depth fr \<noteq> RW_UNBOUNDED_DEPTH \<longrightarrow> rl (App f args)))"

text \<open>A frame that rewrites the answer of the simplifier again.\<close>

definition at_builtin :: "frame \<Rightarrow> func_decl \<Rightarrow> expr list \<Rightarrow> nat \<Rightarrow> expr list \<Rightarrow> bool" where
  "at_builtin fr f args n rs = (m_curr fr = App f args \<and> m_state fr = REWRITE_BUILTIN \<and>
     length rs = m_spos fr + n)"

text \<open>The frames wait for a result of \<open>t\<close>.\<close>

fun waits :: "expr \<Rightarrow> frame list \<Rightarrow> expr list \<Rightarrow> expr \<Rightarrow> bool" where
  "waits root [] rs t = (rs = [] \<and> eqv root t)"
| "waits root (fr # fs) rs t = (\<exists>f args.
     ((\<exists>as. at_children fr f args as (m_i fr - 1) rs \<and> 0 < m_i fr \<and> eqv (args ! (m_i fr - 1)) t \<and>
        (t = args ! (m_i fr - 1) \<or> rel (args ! (m_i fr - 1)) (args ! (m_i fr - 1)))) \<or>
      at_builtin fr f args 1 rs \<and> eqv (App f args) t) \<and>
     waits root fs (take (m_spos fr) rs) (App f args))"

text \<open>The top frame has all it waited for.\<close>

fun runs :: "expr \<Rightarrow> frame list \<Rightarrow> expr list \<Rightarrow> bool" where
  "runs root [] rs = (\<exists>r. rs = [r] \<and> rel root r)"
| "runs root (fr # fs) rs = (case m_curr fr of
     Var i s \<Rightarrow> m_state fr = PROCESS_CHILDREN \<and> m_i fr = 0 \<and> m_spos fr = length rs \<and> src (Var i s) \<and> waits root fs rs (Var i s)
   | App f args \<Rightarrow>
       ((\<exists>as. at_children fr f args as (m_i fr) rs) \<or> (at_builtin fr f args 2 rs \<and> rel (App f args) (last rs))) \<and>
       waits root fs (take (m_spos fr) rs) (App f args))"

definition base :: "'c rewriter_tpl \<Rightarrow> bool" where
  "base st = (inv (m_rw_cfg st) \<and> m_bindings st = B \<and> m_shifts st = S \<and>
     (m_cancel_check st \<or> (\<forall>t. src t \<longrightarrow> rel t t)) \<and> cached_ok (\<lambda>(k, n) v. n = 0 \<longrightarrow> rel k v) st)"

definition Waits :: "expr \<Rightarrow> 'c rewriter_tpl \<Rightarrow> expr \<Rightarrow> bool" where
  "Waits root st t = (base st \<and> waits root (m_frame_stack st) (m_result_stack st) t)"

definition Runs :: "expr \<Rightarrow> 'c rewriter_tpl \<Rightarrow> bool" where
  "Runs root st = (base st \<and> runs root (m_frame_stack st) (m_result_stack st))"

lemma base_ops [simp]:
  "base (push_result r st) = base st" "base (pop_frame st) = base st" "base (upd_frame g st) = base st"
  "base (shrink_results n st) = base st" "base (set_new_child_flag st) = base st" "base (pop_result st) = base st"
  "base (flag_if b st) = base st" "base (next_child st) = base st"
  "base (push_frame_core t c fst' n st) = base st" "base (set_frame_state s st) = base st"
  "base (st\<lparr>m_num_steps := k\<rparr>) = base st" "base (st\<lparr>m_root := rt\<rparr>) = base st" "base (st\<lparr>m_num_qvars := q\<rparr>) = base st"
  by (auto simp: base_def core_op_defs cached_ok_def pop_result_def flag_if_def set_frame_state_def)

lemma base_cache: "base st \<Longrightarrow> rel t r \<Longrightarrow> base (tpl_cache_result t r c st)"
  by (auto simp: base_def tpl_cache_result_def core_cache_result_def intro: cached_ok_insert)
    (simp_all add: cache_shifted_result_def)

lemma base_cached:
  assumes "base st" "get_cached k 0 st = (r, st')"
  shows "base st'" "r = Some v \<Longrightarrow> rel k v"
proof -
  have c: "cached_ok (\<lambda>(k, n) v. n = 0 \<longrightarrow> rel k v) st" using assms(1) by (simp add: base_def)
  show "r = Some v \<Longrightarrow> rel k v" using cached_ok_get(2) [OF c assms(2), of v] by simp
  show "base st'"
    using assms(1) cached_ok_get(1) [OF c assms(2)] get_cached_fields [OF assms(2)] by (auto simp: base_def)
qed

lemma Waits_eqv:
  assumes "Waits root st t" "eqv t t'" "rel t t"
  shows "Waits root st t'"
proof (cases "m_frame_stack st")
  case Nil
  then show ?thesis using assms eqv_trans by (auto simp: Waits_def)
next
  case (Cons fr fs)
  let ?rs = "m_result_stack st"
  obtain f args where lo: "waits root fs (take (m_spos fr) ?rs) (App f args)"
    and a: "(\<exists>as. at_children fr f args as (m_i fr - 1) ?rs \<and> 0 < m_i fr \<and> eqv (args ! (m_i fr - 1)) t \<and>
        (t = args ! (m_i fr - 1) \<or> rel (args ! (m_i fr - 1)) (args ! (m_i fr - 1)))) \<or>
      at_builtin fr f args 1 ?rs \<and> eqv (App f args) t"
    using assms(1) unfolding Waits_def Cons waits.simps by blast
  have "(\<exists>as. at_children fr f args as (m_i fr - 1) ?rs \<and> 0 < m_i fr \<and> eqv (args ! (m_i fr - 1)) t' \<and>
        (t' = args ! (m_i fr - 1) \<or> rel (args ! (m_i fr - 1)) (args ! (m_i fr - 1)))) \<or>
      at_builtin fr f args 1 ?rs \<and> eqv (App f args) t'"
    using a eqv_trans [OF _ assms(2)] assms(3) by blast
  then show ?thesis using lo assms(1) unfolding Waits_def Cons waits.simps by blast
qed

lemma Waits_src: "Waits root st t \<Longrightarrow> src t"
  by (cases "m_frame_stack st") (auto simp: Waits_def eqv_src)

text \<open>A result for the frames that wait; it must be flagged unless it is the term itself.\<close>

lemma deliver:
  assumes w: "Waits root st t" and r: "rel t r" and fl: "b \<or> r = t"
  shows "Runs root (flag_if b (push_result r st))"
proof (cases "m_frame_stack st")
  case Nil
  then have "m_frame_stack (flag_if b (push_result r st)) = []" "m_result_stack (flag_if b (push_result r st)) = [r]"
    using w by (auto simp: Waits_def flag_if_def core_op_defs)
  then show ?thesis using w Nil r eqv_rel by (auto simp: Waits_def Runs_def)
next
  case (Cons fr fs)
  then obtain f args where
    a: "(\<exists>as. at_children fr f args as (m_i fr - 1) (m_result_stack st) \<and> 0 < m_i fr \<and> eqv (args ! (m_i fr - 1)) t \<and>
        (t = args ! (m_i fr - 1) \<or> rel (args ! (m_i fr - 1)) (args ! (m_i fr - 1)))) \<or>
      at_builtin fr f args 1 (m_result_stack st) \<and> eqv (App f args) t"
    and lo: "waits root fs (take (m_spos fr) (m_result_stack st)) (App f args)"
    using w by (auto simp: Waits_def)
  let ?fr = "if b then fr\<lparr>m_new_child := True\<rparr> else fr"
  let ?rs = "m_result_stack st @ [r]"
  have fs: "m_frame_stack (flag_if b (push_result r st)) = ?fr # fs" "m_result_stack (flag_if b (push_result r st)) = ?rs"
    using Cons by (simp_all add: flag_if_def core_op_defs)
  have sp: "m_spos fr \<le> length (m_result_stack st)" "m_curr fr = App f args"
    using a by (auto simp: at_children_def at_builtin_def)
  then have cur: "m_curr ?fr = App f args" "m_spos ?fr = m_spos fr" "m_i ?fr = m_i fr" "m_state ?fr = m_state fr"
    "m_max_depth ?fr = m_max_depth fr" by simp_all
  have tk: "take (m_spos fr) ?rs = take (m_spos fr) (m_result_stack st)" using sp by simp
  from a consider
      (children) as where "at_children fr f args as (m_i fr - 1) (m_result_stack st)" "0 < m_i fr" "eqv (args ! (m_i fr - 1)) t"
        "t = args ! (m_i fr - 1) \<or> rel (args ! (m_i fr - 1)) (args ! (m_i fr - 1))"
    | (builtin) "at_builtin fr f args 1 (m_result_stack st)" "eqv (App f args) t"
    by blast
  then have "(\<exists>as. at_children ?fr f args as (m_i ?fr) ?rs) \<or> (at_builtin ?fr f args 2 ?rs \<and> rel (App f args) (last ?rs))" (is ?ready)
  proof cases
    case p: children
    note same = p(4)
    let ?a = "args ! (m_i fr - 1)"
    have i: "m_i fr - 1 < length args" using p(1,2) unfolding at_children_def by linarith
    have dr: "drop (m_i fr - 1) args = ?a # drop (m_i fr) args"
      using i p(2) by (metis Cons_nth_drop_Suc One_nat_def Suc_pred)
    have tk: "take (m_i fr) args = take (m_i fr - 1) args @ [?a]"
      using i p(2) by (metis One_nat_def Suc_pred take_Suc_conv_app_nth)
    have ar: "rel ?a r" using eqv_rel [OF p(3) r] .
    have "rel ?a ?a" if "\<not> b" using same that fl r by auto
    have la: "list_all2 rel (as @ [?a]) (drop (m_spos fr) ?rs)"
      using p(1) ar sp(1) by (simp add: at_children_def list_all2_appendI)
    have nc: "m_new_child ?fr \<longleftrightarrow> b \<or> m_new_child fr" by simp
    have "at_children ?fr f args (as @ [?a]) (m_i fr) ?rs"
      unfolding at_children_def cur nc
    proof (intro conjI impI)
      show "length (as @ [?a]) = m_i fr" if "\<not> is_associative f" using p(1,2) that by (simp add: at_children_def)
      show "as @ [?a] = []" if "m_i fr = 0" using p(2) that by simp
      show "as @ [?a] = take (m_i fr) args" if "\<not> (b \<or> m_new_child fr)" using p(1) that unfolding at_children_def tk by blast
      show "\<forall>x \<in> set (as @ [?a]). rel x x" if "\<not> (b \<or> m_new_child fr)"
        using p(1) that \<open>\<not> b \<Longrightarrow> rel ?a ?a\<close> by (auto simp: at_children_def)
      show "eqv (App f args) (App f ((as @ [?a]) @ drop (m_i fr) args))"
        using p(1) unfolding at_children_def dr by simp
    qed (use p(1) la in \<open>auto simp: at_children_def\<close>)
    then have "at_children ?fr f args (as @ [?a]) (m_i ?fr) ?rs" unfolding cur .
    then show ?ready by blast
  next
    case p: builtin
    then show ?ready using eqv_rel [OF p(2) r] unfolding at_builtin_def cur by simp
  qed
  then have "runs root (?fr # fs) ?rs" using lo unfolding runs.simps cur tk expr.case by blast
  then show ?thesis using w unfolding Runs_def fs by (simp add: Waits_def)
qed

section \<open>Variables and constants\<close>

text \<open>
  A constant \<open>t\<close> either has its result on the stack or is replaced by a term to process; only the
  state of the simplifier changes otherwise.
\<close>

definition const_post :: "expr \<Rightarrow> 'c rewriter_tpl \<Rightarrow> expr option \<Rightarrow> 'c rewriter_tpl \<Rightarrow> bool" where
  "const_post t st x st' = (\<exists>c. base (st\<lparr>m_rw_cfg := c\<rparr>) \<and>
        (case x of
           None \<Rightarrow> \<exists>r b. st' = flag_if b (push_result r (st\<lparr>m_rw_cfg := c\<rparr>)) \<and> rel t r \<and> (b \<or> r = t)
         | Some m_r \<Rightarrow> st' = st\<lparr>m_rw_cfg := c\<rparr> \<and> rl m_r \<and> eqv t m_r \<and> rel t t))"

lemma const_post_cfg: "const_post t (st\<lparr>m_rw_cfg := c\<rparr>) x st' \<Longrightarrow> const_post t st x st'"
  by (cases x) (auto simp: const_post_def)

lemma process_const_loop:
  assumes "process_const_loop C d retried st = Some (Inr (x, st'))"
  shows "(md (m_rw_cfg st') \<longrightarrow> md (m_rw_cfg st)) \<and>
    (md (m_rw_cfg st') \<longrightarrow> base st \<longrightarrow> eqv t (App d []) \<longrightarrow> (if retried then rel t t else t = App d []) \<longrightarrow>
      const_post t st x st')"
  using assms
proof (induction rule: process_const_loop_induct)
  case (stop d retried st b c x st')
  have cf: "m_rw_cfg st' = c"
    using stop(2) by (cases rule: const_status_stop) (auto simp: flag_if_def core_op_defs)
  have m: "md c \<longrightarrow> md (m_rw_cfg st)" using reduce_mono [OF stop(1)] by blast
  have "const_post t st x st'"
    if md: "md c" and base: "base st" and e: "eqv t (App d [])" "if retried then rel t t else t = App d []"
    unfolding const_post_def
  proof (intro exI [of _ c] conjI)
    have i: "inv (m_rw_cfg st)" using base by (simp add: base_def)
    have s: "src (App d [])" using eqv_src [OF e(1)] .
    show "base (st\<lparr>m_rw_cfg := c\<rparr>)"
      using base reduce_inv [OF i md s _ stop(1)] by (simp add: base_def cached_ok_def)
    from stop(2) show "case x of
           None \<Rightarrow> \<exists>r b. st' = flag_if b (push_result r (st\<lparr>m_rw_cfg := c\<rparr>)) \<and> rel t r \<and> (b \<or> r = t)
         | Some m_r \<Rightarrow> st' = st\<lparr>m_rw_cfg := c\<rparr> \<and> rl m_r \<and> eqv t m_r \<and> rel t t"
    proof (cases rule: const_status_stop)
      case failed
      have "rel t (App d [])" using eqv_rel [OF e(1) congr [OF s _ _ stop(1)]] failed by simp
      then have "st' = flag_if retried (push_result (App d []) (st\<lparr>m_rw_cfg := c\<rparr>)) \<and> rel t (App d []) \<and> (retried \<or> App d [] = t)"
        using failed(3) e(2) by (simp split: if_splits)
      then show ?thesis unfolding failed(2) option.case by blast
    next
      case (finished r)
      have "rel t r" using eqv_rel [OF e(1) reduce_done [OF i md s _ stop(1) [unfolded finished(1)]]] by simp
      then have "st' = flag_if True (push_result r (st\<lparr>m_rw_cfg := c\<rparr>)) \<and> rel t r" using finished(3) by simp
      then show ?thesis unfolding finished(2) option.case by blast
    next
      case (rewrite r n)
      then have "rel t t" using congr [OF s _ _ stop(1), of "[]"] br_rewrite_not_done e(2) by (cases retried) auto
      with rewrite show ?thesis
        using reduce_rewrite [OF i md s _ stop(1) rewrite(1)] eqv_trans [OF e(1)] by simp
    qed
  qed
  then show ?case using m by (simp add: cf)
next
  case (retry d retried st b c d' x st')
  have m: "md c \<longrightarrow> md (m_rw_cfg st)" using reduce_mono [OF retry(1)] by blast
  obtain n where b: "br_rewrite b = Some (App d' [], n)" using const_status_retry [OF retry(2)] by blast
  show ?case
  proof (intro conjI impI)
    show "md (m_rw_cfg st') \<Longrightarrow> md (m_rw_cfg st)" using retry(3) m by simp
    assume md: "md (m_rw_cfg st')" and base: "base st" and e: "eqv t (App d [])" "if retried then rel t t else t = App d []"
    have mc: "md c" using retry(3) md by simp
    have i: "inv (m_rw_cfg st)" using base by (simp add: base_def)
    have s: "src (App d [])" using eqv_src [OF e(1)] .
    have k: "rel t t" using congr [OF s _ _ retry(1), of "[]"] br_rewrite_not_done [OF b] e(2) by (cases retried) auto
    have e': "eqv t (App d' [])" using reduce_rewrite [OF i mc s _ retry(1) b] eqv_trans [OF e(1)] by simp
    have "base (st\<lparr>m_rw_cfg := c\<rparr>)"
      using base reduce_inv [OF i mc s _ retry(1)] by (simp add: base_def cached_ok_def)
    then show "const_post t st x st'"
      using retry(3) md e' k const_post_cfg [where c = c] by simp
  qed
qed

lemma process_var:
  assumes "process_var C E i s st = Some (Inr (x, st'))" "base st" "md (m_rw_cfg st)" "src (Var i s)"
  shows "\<exists>r b. st' = flag_if b (push_result r st) \<and> rel (Var i s) r \<and> (b \<or> r = Var i s)"
proof (cases "c_reduce_var C (m_rw_cfg st) (Var i s)")
  case (Some r)
  then have "st' = flag_if True (push_result r st)" using assms(1) by (simp add: process_var_def)
  moreover have "rel (Var i s) r" using reduced_var [OF _ assms(3,4) Some] assms(2) by (simp add: base_def)
  ultimately show ?thesis by blast
next
  case None
  have B: "m_bindings st = B" "m_shifts st = S" "inv (m_rw_cfg st)" using assms(2) by (simp_all add: base_def)
  show ?thesis
  proof (cases "if i < length B then B ! (length B - i - 1) else None")
    case n: None
    then have "st' = flag_if False (push_result (Var i s) st)"
      using assms(1) unfolding process_var_def None option.case Let_def B n by simp
    moreover have "rel (Var i s) (Var i s)" using free_var [OF assms(4)] n by (simp split: if_splits)
    ultimately show ?thesis by blast
  next
    case (Some r)
    then have "i < length B" "B ! (length B - i - 1) = Some r" by (simp_all split: if_splits)
    note b = bound_var [OF B(3) assms(4) None this]
    then have "st' = flag_if True (push_result r st)"
      using assms(1) unfolding process_var_def None option.case Let_def B Some by auto
    with b show ?thesis by blast
  qed
qed

lemma process_var_cfg: "process_var C E i s st = Some (Inr (x, st')) \<Longrightarrow> m_rw_cfg st' = m_rw_cfg st"
  by (auto simp: process_var_def Let_def core_op_defs cache_shifted_result_def get_cached_def case_prod_beta
    split: option.splits if_splits)

section \<open>Visiting\<close>

lemma push_Runs:
  assumes "Waits root st t" "d \<noteq> RW_UNBOUNDED_DEPTH \<longrightarrow> rl t"
  shows "Runs root (push_frame_core t c PROCESS_CHILDREN d st)"
proof -
  let ?fr = "mk_frame t c PROCESS_CHILDREN d (length (m_result_stack st))"
  have s: "src t" and w: "waits root (m_frame_stack st) (m_result_stack st) t" and b: "base st"
    using Waits_src assms(1) by (auto simp: Waits_def)
  have "runs root (?fr # m_frame_stack st) (m_result_stack st)"
  proof (cases t)
    case (Var i v)
    then show ?thesis using s w by (simp add: mk_frame_def)
  next
    case (App f args)
    then have "at_children ?fr f args [] (m_i ?fr) (m_result_stack st)"
      using s assms(2) eqv_refl by (auto simp: at_children_def mk_frame_def)
    then show ?thesis using w App by (auto simp: mk_frame_def)
  qed
  then show ?thesis using b by (simp add: Runs_def) (simp add: push_frame_core_def)
qed

text \<open>What a visit does: it delivers a result, possibly flagged, or it pushes a frame.\<close>

definition visited :: "expr \<Rightarrow> 'c rewriter_tpl \<Rightarrow> bool \<Rightarrow> 'c rewriter_tpl \<Rightarrow> bool" where
  "visited root st b st' = (Runs root st' \<and>
     (if b then \<exists>fl. m_frame_stack st' = m_frame_stack (flag_if fl st)
      else \<exists>fr. m_frame_stack st' = fr # m_frame_stack st))"

lemma deliver_visited:
  assumes "Waits root st1 t" "rel t r" "fl \<or> r = t" "m_frame_stack st1 = m_frame_stack st"
  shows "visited root st True (flag_if fl (push_result r st1))"
  using deliver [OF assms(1-3)] assms(4)
  by (auto simp: visited_def) (auto simp: flag_if_def core_op_defs)

lemma visit_const:
  assumes v: "and_then (process_const C f st) (\<lambda>x st2. case x of
                  None \<Rightarrow> returns True st2
                | Some m_r \<Rightarrow> and_then (tpl_push_frame C m_r c (child_depth d) st2) (\<lambda>_. returns False)) = Some (Inr (b, st'))"
  shows "md (m_rw_cfg st') \<Longrightarrow> md (m_rw_cfg st)"
    "md (m_rw_cfg st') \<Longrightarrow> Waits root st (App f []) \<Longrightarrow> visited root st b st'"
proof -
  obtain x st2 where p: "process_const_loop C f False st = Some (Inr (x, st2))"
    and k: "(case x of None \<Rightarrow> returns True st2
             | Some m_r \<Rightarrow> and_then (tpl_push_frame C m_r c (child_depth d) st2) (\<lambda>_. returns False)) = Some (Inr (b, st'))"
    using v by (auto simp: and_then_Inr process_const_def)
  have cf: "m_rw_cfg st' = m_rw_cfg st2"
    using k by (auto simp: and_then_Inr tpl_push_frame_def push_frame_core_def split: option.splits if_splits)
  show "md (m_rw_cfg st') \<Longrightarrow> md (m_rw_cfg st)" using process_const_loop [OF p] cf by simp
  assume m: "md (m_rw_cfg st')" and w: "Waits root st (App f [])"
  have s: "src (App f [])" using Waits_src [OF w] .
  have "const_post (App f []) st x st2"
    using process_const_loop [OF p, of "App f []"] m cf w eqv_refl [OF s] by (simp add: Waits_def)
  then obtain c1 where b1: "base (st\<lparr>m_rw_cfg := c1\<rparr>)" and
    x: "case x of
           None \<Rightarrow> \<exists>r b. st2 = flag_if b (push_result r (st\<lparr>m_rw_cfg := c1\<rparr>)) \<and> rel (App f []) r \<and> (b \<or> r = App f [])
         | Some m_r \<Rightarrow> st2 = st\<lparr>m_rw_cfg := c1\<rparr> \<and> rl m_r \<and> eqv (App f []) m_r \<and> rel (App f []) (App f [])"
    by (auto simp: const_post_def)
  have w1: "Waits root (st\<lparr>m_rw_cfg := c1\<rparr>) (App f [])" using w b1 by (simp add: Waits_def)
  show "visited root st b st'"
  proof (cases x)
    case None
    then obtain r fl where r: "st2 = flag_if fl (push_result r (st\<lparr>m_rw_cfg := c1\<rparr>))" "rel (App f []) r" "fl \<or> r = App f []"
      using x by auto
    have "b" "st' = st2" using k None by simp_all
    then show ?thesis using deliver_visited [OF w1 r(2,3), of st] r(1) by simp
  next
    case (Some m_r)
    then have x: "st2 = st\<lparr>m_rw_cfg := c1\<rparr>" "rl m_r" "eqv (App f []) m_r" "rel (App f []) (App f [])" using x by simp_all
    then have "Waits root st2 m_r" using Waits_eqv [OF w1 x(3,4)] x(1) by simp
    from push_Runs [OF this, of "child_depth d" c] x(1,2) k Some show ?thesis
      by (auto simp: and_then_Inr tpl_push_frame_def visited_def split: if_splits) (auto simp: push_frame_core_def)
  qed
qed

lemma visit:
  assumes v: "visit C E t d st = Some (Inr (b, st'))"
  shows "md (m_rw_cfg st') \<Longrightarrow> md (m_rw_cfg st)"
    "md (m_rw_cfg st') \<Longrightarrow> Waits root st t \<Longrightarrow> d \<noteq> RW_UNBOUNDED_DEPTH \<longrightarrow> rl t \<Longrightarrow> visited root st b st'"
proof -
  define c where "c = tpl_must_cache C E st t"
  obtain r st1 where g: "(if c then get_cached t 0 st else (None, st)) = (r, st1)" by fastforce
  obtain cs where cs: "st1 = st\<lparr>m_cache_stack := cs\<rparr>"
  proof (cases c)
    case True
    then show ?thesis using that get_cached_fields [of t 0 st r st1] g by auto
  next
    case False
    then show ?thesis using that [of "m_cache_stack st"] g by simp
  qed
  have cf: "m_rw_cfg st1 = m_rw_cfg st" "m_frame_stack st1 = m_frame_stack st" "m_result_stack st1 = m_result_stack st"
    using cs by simp_all
  let ?rest = "case r of
      Some r' \<Rightarrow> returns True (set_new_child_flag_if t r' (push_result r' st1))
    | None \<Rightarrow> (if \<not> c_pre_visit C (m_rw_cfg st1) t then returns True (push_result t st1)
        else (case t of
            Var idx s \<Rightarrow> and_then (process_var C E idx s st1) (\<lambda>_. returns True)
          | App f [] \<Rightarrow>
              and_then (process_const C f st1) (\<lambda>x st2. case x of
                  None \<Rightarrow> returns True st2
                | Some m_r \<Rightarrow> and_then (tpl_push_frame C m_r c (child_depth d) st2) (\<lambda>_. returns False))
          | App f args \<Rightarrow> and_then (tpl_push_frame C t c (child_depth d) st1) (\<lambda>_. returns False)))"
  have v': "(case c_get_subst C (m_rw_cfg st) t of
      Some new_t \<Rightarrow> returns True (set_new_child_flag_if t new_t (push_result new_t st))
    | None \<Rightarrow> (if d = 0 then returns True (push_result t st) else ?rest)) = Some (Inr (b, st'))"
    using v unfolding visit_def Let_def c_def [symmetric] g split .
  have w1: "Waits root st1 t" and s: "src t" and inv: "inv (m_rw_cfg st)" and found: "r = Some r' \<Longrightarrow> rel t r'"
    if w: "Waits root st t" for r'
  proof -
    have b: "base st" using w by (simp add: Waits_def)
    then have "base st1" using g base_cached(1) [OF b] by (cases c) auto
    then show "Waits root st1 t" using w cf by (simp add: Waits_def)
    show "src t" using Waits_src [OF w] .
    show "inv (m_rw_cfg st)" using b by (simp add: base_def)
    show "r = Some r' \<Longrightarrow> rel t r'" using g base_cached(2) [OF b] by (cases c) auto
  qed
  have main: "(md (m_rw_cfg st') \<longrightarrow> md (m_rw_cfg st)) \<and>
      (md (m_rw_cfg st') \<longrightarrow> Waits root st t \<longrightarrow> (d \<noteq> RW_UNBOUNDED_DEPTH \<longrightarrow> rl t) \<longrightarrow> visited root st b st')"
  proof (cases "c_get_subst C (m_rw_cfg st) t")
    case (Some new_t)
    then have x: "b" "st' = flag_if (t \<noteq> new_t) (push_result new_t st)" using v' by simp_all
    have m: "m_rw_cfg st' = m_rw_cfg st" unfolding x(2) by (simp add: flag_if_def core_op_defs)
    show ?thesis
      using deliver_visited [OF _ subst [OF inv _ s Some], where root = root and fl = "t \<noteq> new_t" and st = st] x m by auto
  next
    case ns: None
    show ?thesis
    proof (cases "d = 0")
      case True
      then have x: "b" "st' = flag_if False (push_result t st)" using v' ns by simp_all
      have m: "m_rw_cfg st' = m_rw_cfg st" unfolding x(2) by (simp add: core_op_defs)
      show ?thesis using deliver_visited [OF _ keep [OF s], where root = root and fl = False and st = st] x m True by auto
    next
      case False
      then have x: "?rest = Some (Inr (b, st'))" using v' ns by simp
      show ?thesis
      proof (cases r)
        case (Some r')
        then have y: "b" "st' = flag_if (t \<noteq> r') (push_result r' st1)" using x by simp_all
        have m: "m_rw_cfg st' = m_rw_cfg st" unfolding y(2) using cf by (simp add: flag_if_def core_op_defs)
        show ?thesis using deliver_visited [OF w1 found [OF _ Some], where fl = "t \<noteq> r'" and st = st] y m cf(2) by auto
      next
        case nr: None
        show ?thesis
        proof (cases "c_pre_visit C (m_rw_cfg st1) t")
          case False
          then have y: "b" "st' = flag_if False (push_result t st1)" using x nr by simp_all
          have m: "m_rw_cfg st' = m_rw_cfg st" unfolding y(2) using cf by (simp add: core_op_defs)
          have "rel t t" if "Waits root st t" "md (m_rw_cfg st)"
            using skipped [OF inv [OF that(1)] that(2) s [OF that(1)]] False cf(1) by simp
          then show ?thesis using deliver_visited [OF w1, where fl = False and st = st] y m cf(2) by auto
        next
          case True
          show ?thesis
          proof (cases t)
            case (Var i u)
            then have y: "b" "process_var C E i u st1 = Some (Inr ((), st'))" using x nr True by (auto simp: and_then_Inr)
            have m: "m_rw_cfg st' = m_rw_cfg st" using process_var_cfg [OF y(2)] cf(1) by simp
            show ?thesis
            proof (intro conjI impI)
              assume md: "md (m_rw_cfg st')" and w: "Waits root st t"
              have "base st1" using w1 [OF w] by (simp add: Waits_def)
              then obtain r1 fl where r1: "st' = flag_if fl (push_result r1 st1)" "rel t r1" "fl \<or> r1 = t"
                using process_var [OF y(2)] md m cf(1) s [OF w] Var by auto
              show "visited root st b st'" using deliver_visited [OF w1 [OF w] r1(2,3) cf(2)] r1(1) y(1) by simp
            qed (use m in simp)
          next
            case (App f args)
            show ?thesis
            proof (cases args)
              case Nil
              have y: "and_then (process_const C f st1) (\<lambda>x st2. case x of
                  None \<Rightarrow> returns True st2
                | Some m_r \<Rightarrow> and_then (tpl_push_frame C m_r c (child_depth d) st2) (\<lambda>_. returns False)) = Some (Inr (b, st'))"
                using x nr True App Nil by simp
              have "visited root st b st'" if "visited root st1 b st'"
                using that cf(2) by (auto simp: visited_def flag_if_def set_new_child_flag_def upd_frame_def split: if_splits)
              then show ?thesis using visit_const [OF y] w1 cf(1) App Nil by auto
            next
              case (Cons a as)
              then have y: "\<not> b" "st' = push_frame_core t c PROCESS_CHILDREN (child_depth d) st1"
                using x nr True App by (auto simp: and_then_Inr tpl_push_frame_def split: if_splits)
              have m: "m_rw_cfg st' = m_rw_cfg st" unfolding y(2) using cf by (simp add: push_frame_core_def)
              have d: "child_depth d \<noteq> RW_UNBOUNDED_DEPTH \<Longrightarrow> d \<noteq> RW_UNBOUNDED_DEPTH" by (auto simp: child_depth_def)
              show ?thesis
                using push_Runs [OF w1, of "child_depth d" c] d y m cf(2)
                by (auto simp: visited_def) (auto simp: push_frame_core_def)
            qed
          qed
        qed
      qed
    qed
  qed
  show "md (m_rw_cfg st') \<Longrightarrow> md (m_rw_cfg st)" using main by blast
  show "md (m_rw_cfg st') \<Longrightarrow> Waits root st t \<Longrightarrow> d \<noteq> RW_UNBOUNDED_DEPTH \<longrightarrow> rl t \<Longrightarrow> visited root st b st'" using main by blast
qed

section \<open>Ending a frame\<close>

lemma Runs_cache: "Runs root st \<Longrightarrow> rel t r \<Longrightarrow> Runs root (tpl_cache_result t r c st)"
  using base_cache [of st t r c]
  by (auto simp: Runs_def tpl_cache_result_def core_cache_result_def cache_shifted_result_def)

lemma end_frame:
  assumes "base st" "m_frame_stack st = fr # fs" "waits root fs rs t" "rel t r" "fl \<or> r = t"
  shows "Runs root (flag_if fl (st\<lparr>m_frame_stack := fs, m_result_stack := rs @ [r]\<rparr>))"
proof -
  let ?st = "st\<lparr>m_frame_stack := fs, m_result_stack := rs\<rparr>"
  have "base ?st" using assms(1) by (simp add: base_def cached_ok_def)
  then have "Waits root ?st t" using assms(3) by (simp add: Waits_def)
  from deliver [OF this assms(4,5)] show ?thesis by (simp add: push_result_def)
qed

lemma rewrite_done_Runs:
  assumes r: "Runs root st" and fr: "m_frame_stack st = fr # fs" "m_curr fr = App f args" "m_state fr = REWRITE_BUILTIN"
  shows "Runs root (rewrite_done (App f args) st)" "m_rw_cfg (rewrite_done (App f args) st) = m_rw_cfg st"
proof -
  let ?rs = "m_result_stack st"
  have b: "base st" and w: "waits root fs (take (m_spos fr) ?rs) (App f args)"
    and rl: "rel (App f args) (last ?rs)" and l: "length ?rs = m_spos fr + 2"
    using r fr by (auto simp: Runs_def at_children_def at_builtin_def)
  have tk: "butlast (butlast ?rs) = take (m_spos fr) ?rs"
    using l by (simp add: butlast_conv_take)
  have "rewrite_done (App f args) st = tpl_cache_result (App f args) (last ?rs) (m_cache_result fr)
      (flag_if True (st\<lparr>m_frame_stack := fs, m_result_stack := take (m_spos fr) ?rs @ [last ?rs]\<rparr>))"
    using fr(1) tk
    by (cases st) (simp add: rewrite_done_def Let_def tpl_cache_result_def
      core_cache_result_def cache_shifted_result_def core_op_defs pop_result_def)
  then show "Runs root (rewrite_done (App f args) st)" "m_rw_cfg (rewrite_done (App f args) st) = m_rw_cfg st"
    using Runs_cache [OF end_frame [OF b fr(1) w rl] rl, of True]
    by (simp_all add: tpl_cache_result_def core_cache_result_def cache_shifted_result_def core_op_defs)
qed

lemma frame_done_Runs:
  assumes b: "base st" and fr: "m_frame_stack st = fr # fs"
    and w: "waits root fs (take (m_spos fr) (m_result_stack st)) t" and rl: "rel t r"
  shows "Runs root (frame_done t r always st)"
proof -
  have "frame_done t r always st = tpl_cache_result t r (m_cache_result fr)
      (flag_if (always \<or> t \<noteq> r) (st\<lparr>m_frame_stack := fs, m_result_stack := take (m_spos fr) (m_result_stack st) @ [r]\<rparr>))"
    using fr
    by (cases st) (simp add: frame_done_def Let_def tpl_cache_result_def
      core_cache_result_def cache_shifted_result_def core_op_defs flag_if_def)
  moreover have "Runs root (flag_if (always \<or> t \<noteq> r)
      (st\<lparr>m_frame_stack := fs, m_result_stack := take (m_spos fr) (m_result_stack st) @ [r]\<rparr>))"
    by (rule end_frame [OF b fr w rl]) blast
  ultimately show ?thesis using Runs_cache [OF _ rl] by simp
qed

lemma frame_done_cfg [simp]: "m_rw_cfg (frame_done t r always st) = m_rw_cfg st"
  by (auto simp: frame_done_def Let_def tpl_cache_result_def core_cache_result_def cache_shifted_result_def
    core_op_defs flag_if_def)

section \<open>The arguments of an application\<close>

lemma runs_children:
  assumes "Runs root st" "m_frame_stack st = fr # fs" "m_curr fr = App f args" "m_state fr = PROCESS_CHILDREN"
  obtains as where "at_children fr f args as (m_i fr) (m_result_stack st)"
    "waits root fs (take (m_spos fr) (m_result_stack st)) (App f args)"
  using assms by (auto simp: Runs_def at_builtin_def)

lemma is_ite_App: "m_is_ite (App f args) \<Longrightarrow> f = Basic OP_ITE \<and> length args = 3"
  by (cases f) (auto simp: m_is_ite_def basic_arity_def)

text \<open>Waiting for the term that replaces an application.\<close>

lemma Waits_builtin:
  assumes b: "base st" and fr: "m_frame_stack st = fr # fs" "m_curr fr = App f args"
    and w: "waits root fs (take (m_spos fr) (m_result_stack st)) (App f args)" and l: "m_spos fr \<le> length (m_result_stack st)"
    and e: "eqv (App f args) t"
  shows "Waits root (set_frame_state REWRITE_BUILTIN (push_result t (shrink_results (m_spos fr) st))) t"
    (is "Waits root ?st t")
proof -
  let ?fr = "fr\<lparr>m_state := REWRITE_BUILTIN\<rparr>" and ?rs = "take (m_spos fr) (m_result_stack st) @ [t]"
  have f: "m_frame_stack ?st = ?fr # fs" "m_result_stack ?st = ?rs"
    using fr(1) by (simp_all add: set_frame_state_def core_op_defs)
  have "at_builtin ?fr f args 1 ?rs" using fr(2) l by (simp add: at_builtin_def)
  moreover have "take (m_spos ?fr) ?rs = take (m_spos fr) (m_result_stack st)" using l by simp
  ultimately have "waits root (?fr # fs) ?rs t" using e w unfolding waits.simps by metis
  then show ?thesis using b unfolding Waits_def f by simp
qed

text \<open>After the visit of the replacing term: its result is there, or a frame was pushed for it.\<close>

lemma after_builtin:
  assumes fr: "m_frame_stack st = fr # fs" "m_curr fr = App f args" "m_state fr = REWRITE_BUILTIN"
    and v: "visited root st b st'"
  shows "Runs root (if b then rewrite_done (App f args) st' else st')"
    "m_rw_cfg (if b then rewrite_done (App f args) st' else st') = m_rw_cfg st'"
proof -
  have "Runs root (if b then rewrite_done (App f args) st' else st') \<and>
      m_rw_cfg (if b then rewrite_done (App f args) st' else st') = m_rw_cfg st'"
  proof (cases b)
    case True
    then obtain fl where f: "m_frame_stack st' = m_frame_stack (flag_if fl st)" and r: "Runs root st'"
      using v by (auto simp: visited_def)
    obtain fr' where fr': "m_frame_stack st' = fr' # fs" "m_curr fr' = App f args" "m_state fr' = REWRITE_BUILTIN"
      using f fr by (cases fl) (auto simp: core_op_defs)
    show ?thesis using rewrite_done_Runs [OF r fr'] True by simp
  next
    case False
    then show ?thesis using v by (simp add: visited_def)
  qed
  then show "Runs root (if b then rewrite_done (App f args) st' else st')"
    "m_rw_cfg (if b then rewrite_done (App f args) st' else st') = m_rw_cfg st'" by blast+
qed

lemma rewrite_done_cfg [simp]: "m_rw_cfg (rewrite_done t st) = m_rw_cfg st"
  by (simp add: rewrite_done_def Let_def tpl_cache_result_def core_cache_result_def cache_shifted_result_def
      core_op_defs pop_result_def)

lemma set_frame_state_cfg [simp]:
  "m_rw_cfg (set_frame_state s (push_result r (shrink_results n st))) = m_rw_cfg st"
  by (simp add: set_frame_state_def core_op_defs)

text \<open>The branch of an if-then-else that \<open>constant_fold\<close> selects.\<close>

definition folded_arg :: "func_decl \<Rightarrow> expr list \<Rightarrow> frame \<Rightarrow> expr list \<Rightarrow> expr option" where
  "folded_arg f args fr rs = (if m_i fr = 1 \<and> m_is_ite (App f args) then
     (if m_is_true (rs ! m_spos fr) then Some (args ! 1)
      else if m_is_false (rs ! m_spos fr) then Some (args ! 2) else None) else None)"

definition fold_state :: "expr \<Rightarrow> frame \<Rightarrow> 'c rewriter_tpl \<Rightarrow> 'c rewriter_tpl" where
  "fold_state a fr st = set_frame_state REWRITE_BUILTIN (push_result a (shrink_results (m_spos fr) st))"

lemma constant_fold_eq:
  "constant_fold C E f args st =
    (let fr = hd (m_frame_stack st) in
     case folded_arg f args fr (m_result_stack st) of
       None \<Rightarrow> returns False st
     | Some a \<Rightarrow> and_then (visit C E a (m_max_depth fr) (fold_state a fr st))
         (\<lambda>b st1. returns True (if b then rewrite_done (App f args) st1 else st1)))"
  unfolding constant_fold_def Let_def folded_arg_def fold_state_def ..

lemma folded_Waits:
  assumes r: "Runs root st"
    and fr: "m_frame_stack st = fr # fs" "m_curr fr = App f args" "m_state fr = PROCESS_CHILDREN"
    and a: "folded_arg f args fr (m_result_stack st) = Some a"
  shows "Waits root (fold_state a fr st) a" "m_max_depth fr \<noteq> RW_UNBOUNDED_DEPTH \<longrightarrow> rl a"
    "m_i fr = 1" "a \<in> set (drop 1 args)"
    "m_frame_stack (fold_state a fr st) = fr\<lparr>m_state := REWRITE_BUILTIN\<rparr> # fs"
proof -
  obtain as where p: "at_children fr f args as (m_i fr) (m_result_stack st)"
    and w: "waits root fs (take (m_spos fr) (m_result_stack st)) (App f args)"
    using runs_children [OF r fr] .
  have i: "m_i fr = 1" "m_is_ite (App f args)" using a unfolding folded_arg_def by (auto split: if_splits)
  note ite = is_ite_App [OF i(2)]
  obtain x y z where xyz: "args = [x, y, z]" using ite by (auto simp: length_Suc_conv numeral_3_eq_3)
  have "length as = 1" using p i(1) ite by (simp add: at_children_def)
  then obtain x' where x': "as = [x']" by (auto simp: length_Suc_conv)
  then obtain cnd where cnd: "drop (m_spos fr) (m_result_stack st) = [cnd]" "rel x' cnd"
    using p by (auto simp: at_children_def list_all2_Cons1)
  have l: "m_spos fr \<le> length (m_result_stack st)" using p by (simp add: at_children_def)
  have n: "m_result_stack st ! m_spos fr = cnd"
    using cnd(1) l by (metis append_take_drop_id length_take min.absorb2 nth_append_length)
  have e0: "eqv (App f args) (App (Basic OP_ITE) [x', y, z])"
    using p ite i(1) unfolding at_children_def x' xyz by simp
  have e: "eqv (App f args) a \<and> a \<in> set (drop 1 args)"
    using a i cnd(2) ite_true [OF eqv_src [OF e0]] ite_false [OF eqv_src [OF e0]] eqv_trans [OF e0] n
    unfolding folded_arg_def xyz by (auto simp: m_is_true_def m_is_false_def split: if_splits)
  have b: "base st" using r by (simp add: Runs_def)
  show "Waits root (fold_state a fr st) a" unfolding fold_state_def using Waits_builtin [OF b fr(1,2) w l] e by blast
  show "m_max_depth fr \<noteq> RW_UNBOUNDED_DEPTH \<longrightarrow> rl a"
    using p rl_arg e in_set_dropD unfolding at_children_def by metis
  show "m_frame_stack (fold_state a fr st) = fr\<lparr>m_state := REWRITE_BUILTIN\<rparr> # fs"
    using fr(1) by (simp add: fold_state_def set_frame_state_def core_op_defs)
  show "m_i fr = 1" "a \<in> set (drop 1 args)" using i(1) e by blast+
qed

lemma constant_fold:
  assumes c: "constant_fold C E f args st = Some (Inr (b, st'))"
  shows "md (m_rw_cfg st') \<Longrightarrow> md (m_rw_cfg st)" "\<not> b \<Longrightarrow> st' = st"
    "md (m_rw_cfg st') \<Longrightarrow> Runs root st \<Longrightarrow> m_frame_stack st = fr # fs \<Longrightarrow> m_curr fr = App f args \<Longrightarrow>
      m_state fr = PROCESS_CHILDREN \<Longrightarrow> Runs root st'"
proof -
  define fr1 where "fr1 = hd (m_frame_stack st)"
  have c': "(case folded_arg f args fr1 (m_result_stack st) of None \<Rightarrow> returns False st
      | Some a \<Rightarrow> and_then (visit C E a (m_max_depth fr1) (fold_state a fr1 st))
          (\<lambda>b st1. returns True (if b then rewrite_done (App f args) st1 else st1))) = Some (Inr (b, st'))"
    using c unfolding constant_fold_eq Let_def fr1_def [symmetric] .
  have "(md (m_rw_cfg st') \<longrightarrow> md (m_rw_cfg st)) \<and> (\<not> b \<longrightarrow> st' = st) \<and>
    (md (m_rw_cfg st') \<longrightarrow> Runs root st \<longrightarrow> m_frame_stack st = fr # fs \<longrightarrow> m_curr fr = App f args \<longrightarrow>
      m_state fr = PROCESS_CHILDREN \<longrightarrow> Runs root st')"
  proof (cases "folded_arg f args fr1 (m_result_stack st)")
    case None
    then show ?thesis using c' by simp
  next
    case (Some a)
    then obtain b1 st1 where v: "visit C E a (m_max_depth fr1) (fold_state a fr1 st) = Some (Inr (b1, st1))"
      and st': "b" "st' = (if b1 then rewrite_done (App f args) st1 else st1)"
      using c' by (auto simp: and_then_Inr)
    have cf: "m_rw_cfg st' = m_rw_cfg st1" unfolding st'(2) by simp
    have m: "md (m_rw_cfg st') \<longrightarrow> md (m_rw_cfg st)" using visit(1) [OF v] cf by (simp add: fold_state_def)
    have "Runs root st'" if md: "md (m_rw_cfg st')" and r: "Runs root st"
      and fr: "m_frame_stack st = fr # fs" "m_curr fr = App f args" "m_state fr = PROCESS_CHILDREN"
    proof -
      have f1: "fr1 = fr" using fr(1) by (simp add: fr1_def)
      note fw = folded_Waits [OF r fr Some [unfolded f1]]
      have "visited root (fold_state a fr st) b1 st1"
        using visit(2) [OF v _ fw(1) [folded f1] fw(2) [folded f1]] md cf unfolding f1 by simp
      from after_builtin(1) [OF fw(5) _ _ this] show ?thesis using fr(2) st'(2) by simp
    qed
    then show ?thesis using m st'(1) by blast
  qed
  then show "md (m_rw_cfg st') \<Longrightarrow> md (m_rw_cfg st)" "\<not> b \<Longrightarrow> st' = st"
    "md (m_rw_cfg st') \<Longrightarrow> Runs root st \<Longrightarrow> m_frame_stack st = fr # fs \<Longrightarrow> m_curr fr = App f args \<Longrightarrow>
      m_state fr = PROCESS_CHILDREN \<Longrightarrow> Runs root st'" by blast+
qed

lemma Waits_next_child:
  assumes "Runs root st" "m_frame_stack st = fr # fs" "m_curr fr = App f args" "m_state fr = PROCESS_CHILDREN"
    "m_i fr < length args"
  shows "Waits root (next_child st) (args ! m_i fr)" "m_max_depth fr \<noteq> RW_UNBOUNDED_DEPTH \<longrightarrow> rl (args ! m_i fr)"
proof -
  obtain as where p: "at_children fr f args as (m_i fr) (m_result_stack st)"
    and w: "waits root fs (take (m_spos fr) (m_result_stack st)) (App f args)"
    using runs_children [OF assms(1-4)] .
  have "eqv (App f args) (App f (as @ drop (m_i fr) args))" using p by (simp add: at_children_def)
  from eqv_src [OF this] have s: "src (App f (as @ drop (m_i fr) args))" .
  have "args ! m_i fr \<in> set (as @ drop (m_i fr) args)"
    using assms(5) by (metis Cons_nth_drop_Suc Un_iff list.set_intros(1) set_append)
  then have e: "eqv (args ! m_i fr) (args ! m_i fr)" using eqv_refl src_arg s by blast
  let ?fr = "fr\<lparr>m_i := m_i fr + 1\<rparr>"
  have c: "at_children ?fr f args as (m_i ?fr - 1) (m_result_stack st)"
    using p assms(5) by (simp add: at_children_def)
  have "waits root (?fr # fs) (m_result_stack st) (args ! m_i fr)"
    unfolding waits.simps
    by (rule exI [of _ f], rule exI [of _ args]) (use c e w in \<open>auto intro!: exI [of _ as]\<close>)
  moreover have "m_frame_stack (next_child st) = ?fr # fs" "m_result_stack (next_child st) = m_result_stack st"
    using assms(2) by (simp_all add: next_child_def upd_frame_def)
  ultimately show "Waits root (next_child st) (args ! m_i fr)"
    using assms(1) by (simp add: Waits_def Runs_def)
  show "m_max_depth fr \<noteq> RW_UNBOUNDED_DEPTH \<longrightarrow> rl (args ! m_i fr)"
    using p rl_arg assms(5) by (auto simp: at_children_def)
qed

text \<open>The visit of the next argument.\<close>

lemma child_visited:
  assumes v: "visit C E (args ! m_i fr) (m_max_depth fr) (next_child st) = Some (Inr (b, st2))"
    and md: "md (m_rw_cfg st2)"
    and r: "Runs root st" "m_frame_stack st = fr # fs" "m_curr fr = App f args" "m_state fr = PROCESS_CHILDREN"
    and i: "m_i fr < length args"
  shows "Runs root st2" "b \<Longrightarrow> \<exists>nc. m_frame_stack st2 = fr\<lparr>m_i := Suc (m_i fr), m_new_child := nc\<rparr> # fs"
proof -
  have vis: "visited root (next_child st) b st2" using visit(2) [OF v md] Waits_next_child [OF r i] by blast
  then show "Runs root st2" by (simp add: visited_def)
  assume b
  then obtain fl where f2: "m_frame_stack st2 = m_frame_stack (flag_if fl (next_child st))" using vis by (auto simp: visited_def)
  let ?nc = "if fl then True else m_new_child fr"
  have "m_frame_stack st2 = fr\<lparr>m_i := Suc (m_i fr), m_new_child := ?nc\<rparr> # fs"
    using f2 r(2) by (cases fl; cases fr; simp add: core_op_defs)
  then show "\<exists>nc. m_frame_stack st2 = fr\<lparr>m_i := Suc (m_i fr), m_new_child := nc\<rparr> # fs" by blast
qed

lemma children:
  assumes "children C E f all_args args st = Some (Inr (b, st'))"
  shows "(md (m_rw_cfg st') \<longrightarrow> md (m_rw_cfg st)) \<and>
    (md (m_rw_cfg st') \<longrightarrow> Runs root st \<longrightarrow> m_frame_stack st = fr # fs \<longrightarrow> m_curr fr = App f all_args \<longrightarrow>
      m_state fr = PROCESS_CHILDREN \<longrightarrow> args = drop (m_i fr) all_args \<longrightarrow>
      Runs root st' \<and> (b \<longrightarrow> (\<exists>nc. m_frame_stack st' = fr\<lparr>m_i := length all_args, m_new_child := nc\<rparr> # fs)))"
  using assms
proof (induction args arbitrary: st fr)
  case Nil
  have "\<exists>nc. fr = fr\<lparr>m_i := length all_args, m_new_child := nc\<rparr>"
    if r: "Runs root st" "m_frame_stack st = fr # fs" "m_curr fr = App f all_args"
      "m_state fr = PROCESS_CHILDREN" and d: "[] = drop (m_i fr) all_args"
  proof -
    obtain as where "at_children fr f all_args as (m_i fr) (m_result_stack st)" using runs_children [OF r] .
    then have "m_i fr = length all_args" using d by (simp add: at_children_def)
    then show ?thesis by (intro exI [of _ "m_new_child fr"]) (cases fr, simp)
  qed
  then show ?case using Nil by auto
next
  case (Cons arg args)
  obtain folded st1 where cf: "constant_fold C E f all_args st = Some (Inr (folded, st1))"
    and k: "(if folded then returns False st1
      else and_then (visit C E arg (m_max_depth (hd (m_frame_stack st1))) (next_child st1)) (\<lambda>b st2.
          if b then children C E f all_args args st2 else returns False st2)) = Some (Inr (b, st'))"
    using Cons.prems by (auto simp: and_then_Inr)
  show ?case
  proof (cases folded)
    case True
    then have "\<not> b" "st' = st1" using k by simp_all
    then show ?thesis using constant_fold [OF cf] by blast
  next
    case False
    then have st1: "st1 = st" using constant_fold(2) [OF cf] by blast
    obtain b2 st2 where v: "visit C E arg (m_max_depth (hd (m_frame_stack st))) (next_child st) = Some (Inr (b2, st2))"
      and k2: "(if b2 then children C E f all_args args st2 else returns False st2) = Some (Inr (b, st'))"
      using k False st1 by (auto simp: and_then_Inr)
    have nm: "m_rw_cfg (next_child st) = m_rw_cfg st" by (simp add: next_child_def upd_frame_def)
    have m2: "md (m_rw_cfg st2) \<longrightarrow> md (m_rw_cfg st)" using visit(1) [OF v] nm by simp
    have vis: "Runs root st2 \<and> (b2 \<longrightarrow> (\<exists>nc. m_frame_stack st2 = fr\<lparr>m_i := Suc (m_i fr), m_new_child := nc\<rparr> # fs))"
      if md: "md (m_rw_cfg st2)" and r: "Runs root st" "m_frame_stack st = fr # fs" "m_curr fr = App f all_args"
        "m_state fr = PROCESS_CHILDREN" and d: "arg # args = drop (m_i fr) all_args"
    proof -
      have i: "m_i fr < length all_args" using d by (metis drop_eq_Nil2 linorder_not_less list.distinct(1))
      have a: "arg = all_args ! m_i fr" using d by (metis hd_drop_conv_nth i list.sel(1))
      have "hd (m_frame_stack st) = fr" using r(2) by simp
      with v have "visit C E (all_args ! m_i fr) (m_max_depth fr) (next_child st) = Some (Inr (b2, st2))"
        unfolding a by simp
      from child_visited [OF this md r i] show ?thesis by blast
    qed
    show ?thesis
    proof (cases b2)
      case False
      then have "\<not> b" "st' = st2" using k2 by simp_all
      then show ?thesis using m2 vis by blast
    next
      case True
      then have ch: "children C E f all_args args st2 = Some (Inr (b, st'))" using k2 by simp
      have m': "md (m_rw_cfg st') \<longrightarrow> md (m_rw_cfg st2)" using Cons.IH [OF ch] by blast
      show ?thesis
      proof (intro conjI [of "_ \<longrightarrow> _" "_ \<longrightarrow> _"] impI)
        show "md (m_rw_cfg st') \<Longrightarrow> md (m_rw_cfg st)" using m' m2 by blast
        assume md: "md (m_rw_cfg st')" and r: "Runs root st" "m_frame_stack st = fr # fs" "m_curr fr = App f all_args"
          "m_state fr = PROCESS_CHILDREN" and d: "arg # args = drop (m_i fr) all_args"
        have md2: "md (m_rw_cfg st2)" using m' md by blast
        obtain nc where f2: "m_frame_stack st2 = fr\<lparr>m_i := Suc (m_i fr), m_new_child := nc\<rparr> # fs" and r2: "Runs root st2"
          using vis [OF md2 r d] True by blast
        have "args = drop (Suc (m_i fr)) all_args" using d by (metis drop_Suc list.sel(3) tl_drop)
        then show "Runs root st' \<and> (b \<longrightarrow> (\<exists>nc. m_frame_stack st' = fr\<lparr>m_i := length all_args, m_new_child := nc\<rparr> # fs))"
          using Cons.IH [OF ch, of "fr\<lparr>m_i := Suc (m_i fr), m_new_child := nc\<rparr>"] md r2 f2 r(3,4) by simp
      qed
    qed
  qed
qed

section \<open>Applications\<close>

text \<open>A frame that is done with its arguments.\<close>

lemma all_children:
  assumes "Runs root st" "m_frame_stack st = fr # fs" "m_curr fr = App f args" "m_state fr = PROCESS_CHILDREN"
    "m_i fr = length args"
  obtains as where "m_spos fr \<le> length (m_result_stack st)" "list_all2 rel as (drop (m_spos fr) (m_result_stack st))"
    "eqv (App f args) (App f as)" "\<not> m_new_child fr \<longrightarrow> as = args \<and> list_all2 rel args args"
    "waits root fs (take (m_spos fr) (m_result_stack st)) (App f args)"
proof -
  obtain as where p: "at_children fr f args as (m_i fr) (m_result_stack st)"
    and w: "waits root fs (take (m_spos fr) (m_result_stack st)) (App f args)"
    using runs_children [OF assms(1-4)] .
  have e: "eqv (App f args) (App f as)" using p assms(5) by (simp add: at_children_def)
  have "as = args \<and> list_all2 rel args args" if n: "\<not> m_new_child fr"
    using p assms(5) n by (simp add: at_children_def list_all2_same)
  then show ?thesis using that p w e by (auto simp: at_children_def)
qed

lemma flattens_App:
  assumes "flattens C E f args st" "m_frame_stack st = fr # fs"
  obtains prev fs' as' where "fs = prev # fs'" "m_curr prev = App f as'" "m_state prev = PROCESS_CHILDREN"
    "is_associative f" "c_flat_assoc C (m_rw_cfg st) f"
  using assms by (auto simp: flattens_def split: list.splits expr.splits)

lemma flatten_Runs:
  assumes r: "Runs root st" "m_frame_stack st = fr # fs" "m_curr fr = App f args" "m_state fr = PROCESS_CHILDREN"
    "m_i fr = length args"
    and fl: "flattens C E f args st"
  shows "Runs root (set_new_child_flag (pop_frame st))"
proof -
  let ?rs = "m_result_stack st"
  obtain as where l: "m_spos fr \<le> length ?rs" and la: "list_all2 rel as (drop (m_spos fr) ?rs)"
    and e: "eqv (App f args) (App f as)" and w: "waits root fs (take (m_spos fr) ?rs) (App f args)"
    using all_children [OF r] .
  obtain prev fs' as' where pr: "fs = prev # fs'" "m_curr prev = App f as'" "m_state prev = PROCESS_CHILDREN"
    and fa: "is_associative f" "c_flat_assoc C (m_rw_cfg st) f"
    using flattens_App [OF fl r(2)] .
  let ?tk = "take (m_spos fr) ?rs"
  obtain pas where p: "at_children prev f as' pas (m_i prev - 1) ?tk" "0 < m_i prev"
    "eqv (as' ! (m_i prev - 1)) (App f args)"
    and lo: "waits root fs' (take (m_spos prev) ?tk) (App f as')"
  proof -
    obtain f0 a0 where
      c: "(\<exists>as. at_children prev f0 a0 as (m_i prev - 1) ?tk \<and> 0 < m_i prev \<and> eqv (a0 ! (m_i prev - 1)) (App f args)) \<or>
        at_builtin prev f0 a0 1 ?tk"
      and l0: "waits root fs' (take (m_spos prev) ?tk) (App f0 a0)"
      using w unfolding pr(1) waits.simps by blast
    have nb: "\<not> at_builtin prev f0 a0 1 ?tk" using pr(3) by (simp add: at_builtin_def)
    then obtain pas where c': "at_children prev f0 a0 pas (m_i prev - 1) ?tk" "0 < m_i prev"
        "eqv (a0 ! (m_i prev - 1)) (App f args)" using c by blast
    then have "f0 = f" "a0 = as'" using pr(2) by (simp_all add: at_children_def)
    then show ?thesis using that c' l0 by blast
  qed
  let ?prev = "prev\<lparr>m_new_child := True\<rparr>" and ?a = "as' ! (m_i prev - 1)"
  have i: "m_i prev - 1 < length as'" using p(1,2) unfolding at_children_def by linarith
  have dr: "drop (m_i prev - 1) as' = ?a # drop (m_i prev) as'"
    using i p(2) by (metis Cons_nth_drop_Suc One_nat_def Suc_pred)
  have sp: "m_spos prev \<le> m_spos fr" using p(1) l by (simp add: at_children_def)
  have split: "drop (m_spos prev) ?rs = drop (m_spos prev) ?tk @ drop (m_spos fr) ?rs"
    using sp l by (metis append_take_drop_id drop_append length_take min.absorb2 diff_is_0_eq drop0)
  have ex: "eqv (App f as') (App f (pas @ ?a # drop (m_i prev) as'))"
    using p(1) unfolding at_children_def dr by blast
  have "eqv (App f as') (App f (pas @ as @ drop (m_i prev) as'))"
    using eqv_trans [OF ex flat [OF fa eqv_src [OF ex] eqv_trans [OF p(3) e]]] .
  then have c: "at_children ?prev f as' (pas @ as) (m_i ?prev) ?rs"
    using p(1,2) la sp l fa(1) pr(2,3) by (simp add: at_children_def split list_all2_appendI)
  have "take (m_spos prev) ?tk = take (m_spos prev) ?rs" using sp by (simp add: min.absorb1)
  then have "runs root (?prev # fs') ?rs" using c lo pr(2) by auto
  moreover have "m_frame_stack (set_new_child_flag (pop_frame st)) = ?prev # fs'"
    "m_result_stack (set_new_child_flag (pop_frame st)) = ?rs"
    using r(2) pr(1) by (simp_all add: core_op_defs)
  ultimately show ?thesis using r(1) by (simp add: Runs_def)
qed

lemma reduce_children_cases:
  assumes "reduce_children C E f args st = Some (Inr (b, st'))" "hd (m_frame_stack st) = fr"
  obtains (finished) r c where "c_reduce_app C (m_rw_cfg st) f (drop (m_spos fr) (m_result_stack st)) = (Inr (BR_DONE r), c)"
      "st' = frame_done (App f args) r True (st\<lparr>m_rw_cfg := c\<rparr>)"
  | (failed) c where "c_reduce_app C (m_rw_cfg st) f (drop (m_spos fr) (m_result_stack st)) = (Inr BR_FAILED, c)"
      "st' = frame_done (App f args) (if m_new_child fr then App f (drop (m_spos fr) (m_result_stack st)) else App f args)
        False (st\<lparr>m_rw_cfg := c\<rparr>)"
  | (rewrite) s c r n d b1 st1 where "c_reduce_app C (m_rw_cfg st) f (drop (m_spos fr) (m_result_stack st)) = (Inr s, c)"
      "br_rewrite s = Some (r, n)"
      "visit C E r d (set_frame_state REWRITE_BUILTIN (push_result r (shrink_results (m_spos fr) (st\<lparr>m_rw_cfg := c\<rparr>)))) =
        Some (Inr (b1, st1))"
      "st' = (if b1 then rewrite_done (App f args) st1 else st1)"
proof -
  obtain x c where red: "c_reduce_app C (m_rw_cfg st) f (drop (m_spos fr) (m_result_stack st)) = (x, c)" by fastforce
  obtain s where s: "x = Inr s"
    using assms red by (cases x) (simp_all add: reduce_children_def Let_def)
  show ?thesis
  proof (cases "br_rewrite s")
    case None
    then show ?thesis
      using assms red s that(1,2) no_macro by (cases s) (simp_all add: reduce_children_def Let_def)
  next
    case (Some rn)
    obtain r n where rn: "rn = (r, n)" by fastforce
    have "and_then (visit C E r (if n \<noteq> RW_UNBOUNDED_DEPTH then n + 1 else n)
          (set_frame_state REWRITE_BUILTIN (push_result r (shrink_results (m_spos fr) (st\<lparr>m_rw_cfg := c\<rparr>)))))
        (\<lambda>b st2. returns True (if b then rewrite_done (App f args) st2 else st2)) = Some (Inr (b, st'))"
      using assms red s Some rn by (cases s) (auto simp: reduce_children_def Let_def)
    then show ?thesis using that(3) [OF red [unfolded s] Some [unfolded rn]] by (auto simp: and_then_Inr)
  qed
qed

lemma reduce_children_md:
  assumes "reduce_children C E f args st = Some (Inr (b, st'))" "md (m_rw_cfg st')"
  shows "md (m_rw_cfg st)"
  using assms(1) refl
proof (cases rule: reduce_children_cases)
  case (finished r c)
  then show ?thesis using reduce_mono assms(2) by simp
next
  case (failed c)
  then show ?thesis using reduce_mono assms(2) by simp
next
  case (rewrite s c r n d b1 st1)
  have "m_rw_cfg st' = m_rw_cfg st1" unfolding rewrite(4) by simp
  then show ?thesis using visit(1) [OF rewrite(3)] reduce_mono [OF rewrite(1)] assms(2) by simp
qed

lemma reduce_children:
  assumes c: "reduce_children C E f args st = Some (Inr (b, st'))" and fr: "m_frame_stack st = fr # fs"
    and md: "md (m_rw_cfg st')"
    and r: "Runs root st" "m_curr fr = App f args" "m_state fr = PROCESS_CHILDREN" "m_i fr = length args"
  shows "Runs root st'"
proof -
  let ?rs = "drop (m_spos fr) (m_result_stack st)"
  have step: "(\<exists>as. list_all2 rel as ?rs \<and> eqv (App f args) (App f as) \<and> src (App f as)) \<and>
      ((\<forall>r. s \<noteq> BR_DONE r) \<longrightarrow> rel (App f args) (if m_new_child fr then App f ?rs else App f args)) \<and> inv (m_rw_cfg st) \<and> m_spos fr \<le> length (m_result_stack st) \<and>
      waits root fs (take (m_spos fr) (m_result_stack st)) (App f args) \<and>
      (md c \<longrightarrow> base (st\<lparr>m_rw_cfg := c\<rparr>))"
    if red: "c_reduce_app C (m_rw_cfg st) f ?rs = (Inr s, c)" for s c
  proof -
    obtain as where a: "m_spos fr \<le> length (m_result_stack st)" "list_all2 rel as ?rs" "eqv (App f args) (App f as)"
      "\<not> m_new_child fr \<longrightarrow> as = args \<and> list_all2 rel args args"
      "waits root fs (take (m_spos fr) (m_result_stack st)) (App f args)"
      using all_children [OF r(1) fr r(2-4)] .
    have s: "src (App f as)" using eqv_src [OF a(3)] .
    have b: "base st" using r(1) by (simp add: Runs_def)
    then have i: "inv (m_rw_cfg st)" by (simp add: base_def)
    have "base (st\<lparr>m_rw_cfg := c\<rparr>)" if "md c"
      using b reduce_inv [OF i that s a(2) red] by (simp add: base_def cached_ok_def)
    moreover have "rel (App f args) (if m_new_child fr then App f ?rs else App f args)" if n: "\<forall>r. s \<noteq> BR_DONE r"
    proof (cases "m_new_child fr")
      case True
      then show ?thesis using eqv_rel [OF a(3) congr [OF s a(2,2) red n]] by simp
    next
      case False
      then have "as = args" "list_all2 rel args args" using a(4) by simp_all
      then show ?thesis using congr [OF s [unfolded \<open>as = args\<close>] _ a(2) [unfolded \<open>as = args\<close>] red n] False by simp
    qed
    ultimately show ?thesis using a s i by blast
  qed
  have "hd (m_frame_stack st) = fr" using fr by simp
  with c show ?thesis
  proof (cases rule: reduce_children_cases)
    case (finished r c)
    note s = step [OF finished(1)]
    have md: "md c" using md finished(2) by simp
    have "rel (App f args) r" using s reduce_done [OF _ md _ _ finished(1)] eqv_rel by blast
    then show ?thesis unfolding finished(2)
      using frame_done_Runs [where st = "st\<lparr>m_rw_cfg := c\<rparr>" and fr = fr and fs = fs] s md fr by simp
  next
    case (failed c)
    note s = step [OF failed(1)]
    have md: "md c" using md failed(2) by simp
    have "rel (App f args) (if m_new_child fr then App f ?rs else App f args)" using s by simp
    then show ?thesis unfolding failed(2)
      using frame_done_Runs [where st = "st\<lparr>m_rw_cfg := c\<rparr>" and fr = fr and fs = fs] s md fr by simp
  next
    case (rewrite s c x n d b1 st1)
    let ?st0 = "set_frame_state REWRITE_BUILTIN (push_result x (shrink_results (m_spos fr) (st\<lparr>m_rw_cfg := c\<rparr>)))"
    have cf: "m_rw_cfg st' = m_rw_cfg st1" unfolding rewrite(4) by simp
    have mdc: "md c" using visit(1) [OF rewrite(3)] cf md by simp
    note s = step [OF rewrite(1)]
    have e: "rl x" "eqv (App f args) x"
      using s reduce_rewrite [OF _ mdc _ _ rewrite(1,2)] eqv_trans by blast+
    have w: "Waits root ?st0 x"
      using Waits_builtin [where st = "st\<lparr>m_rw_cfg := c\<rparr>" and fr = fr and fs = fs and f = f and args = args and t = x]
        s mdc fr r(2) e(2) by simp
    have v: "visited root ?st0 b1 st1" using visit(2) [OF rewrite(3) _ w] md cf e(1) by simp
    have "m_frame_stack ?st0 = fr\<lparr>m_state := REWRITE_BUILTIN\<rparr> # fs"
      using fr by (simp add: set_frame_state_def core_op_defs)
    from after_builtin(1) [OF this _ _ v] show ?thesis using r(2) rewrite(4) by simp
  qed
qed

lemma process_app:
  assumes c: "process_app C E f args st = Some (Inr (b, st'))" and fr: "m_frame_stack st = fr # fs"
  shows "md (m_rw_cfg st') \<Longrightarrow> md (m_rw_cfg st)"
    "md (m_rw_cfg st') \<Longrightarrow> Runs root st \<Longrightarrow> m_curr fr = App f args \<Longrightarrow> Runs root st'"
proof -
  have "(md (m_rw_cfg st') \<longrightarrow> md (m_rw_cfg st)) \<and>
    (md (m_rw_cfg st') \<longrightarrow> Runs root st \<longrightarrow> m_curr fr = App f args \<longrightarrow> Runs root st')"
  proof (cases "m_state fr")
    case PROCESS_CHILDREN
    then obtain b1 st1 where ch: "children C E f args (drop (m_i fr) args) st = Some (Inr (b1, st1))"
      and k: "(if \<not> b1 then returns True st1
           else if flattens C E f args st1 then returns True (set_new_child_flag (pop_frame st1))
           else reduce_children C E f args st1) = Some (Inr (b, st'))"
      using c fr by (auto simp: process_app_def and_then_Inr)
    note ch1 = children [OF ch, where root = root and fr = fr and fs = fs]
    consider (pushed) "\<not> b1" "st' = st1"
      | (flat) "b1" "flattens C E f args st1" "st' = set_new_child_flag (pop_frame st1)"
      | (reduce) "b1" "reduce_children C E f args st1 = Some (Inr (b, st'))"
      using k by (auto split: if_splits)
    then show ?thesis
    proof cases
      case pushed
      then show ?thesis using ch1 fr PROCESS_CHILDREN by blast
    next
      case flat
      have cf: "m_rw_cfg st' = m_rw_cfg st1" unfolding flat(3) by (simp add: core_op_defs)
      have "Runs root st'" if h: "md (m_rw_cfg st1)" "Runs root st" "m_curr fr = App f args"
      proof -
        obtain nc where "Runs root st1" "m_frame_stack st1 = fr\<lparr>m_i := length args, m_new_child := nc\<rparr> # fs"
          using conjunct2 [OF ch1, rule_format, OF h(1,2) fr h(3) PROCESS_CHILDREN refl] flat(1) by auto
        from flatten_Runs [OF this _ _ _ flat(2)] show ?thesis
          unfolding flat(3) using h(3) PROCESS_CHILDREN by simp
      qed
      then show ?thesis using cf ch1 by simp
    next
      case reduce
      have "Runs root st'" if h: "md (m_rw_cfg st')" "md (m_rw_cfg st1)" "Runs root st" "m_curr fr = App f args"
      proof -
        obtain nc where "Runs root st1" "m_frame_stack st1 = fr\<lparr>m_i := length args, m_new_child := nc\<rparr> # fs"
          using conjunct2 [OF ch1, rule_format, OF h(2,3) fr h(4) PROCESS_CHILDREN refl] reduce(1) by auto
        from reduce_children [OF reduce(2) this(2) h(1) this(1)] show ?thesis
          using h(4) PROCESS_CHILDREN by simp
      qed
      moreover have "md (m_rw_cfg st') \<longrightarrow> md (m_rw_cfg st1)"
        using reduce_children_md [OF reduce(2)] by blast
      ultimately show ?thesis using ch1 by blast
    qed
  next
    case REWRITE_BUILTIN
    then have "st' = rewrite_done (App f args) st" using c fr by (simp add: process_app_def)
    then show ?thesis using rewrite_done_Runs(1) [where fr = fr and fs = fs] fr REWRITE_BUILTIN by simp
  next
    case EXPAND_DEF
    have "m_rw_cfg (core_end_scope s) = m_rw_cfg s" for s :: "'c rewriter_tpl"
      by (simp add: core_end_scope_def Let_def case_prod_beta)
    then have "m_rw_cfg st' = m_rw_cfg st"
      using c fr EXPAND_DEF by (auto simp: process_app_def Let_def split: if_splits option.splits prod.splits)
    moreover have "\<not> Runs root st \<or> m_curr fr \<noteq> App f args"
      using fr EXPAND_DEF by (auto simp: Runs_def at_children_def at_builtin_def)
    ultimately show ?thesis by auto
  next
    case REWRITE_RULE
    then show ?thesis using c fr by (simp add: process_app_def)
  qed
  then show "md (m_rw_cfg st') \<Longrightarrow> md (m_rw_cfg st)"
    "md (m_rw_cfg st') \<Longrightarrow> Runs root st \<Longrightarrow> m_curr fr = App f args \<Longrightarrow> Runs root st'" by blast+
qed

section \<open>The main loop\<close>

lemma rewrite_step_cases:
  assumes "rewrite_step C E st = Some (Inr (b, st'))"
  obtains (cached) r st2 where "first_visit (hd (m_frame_stack st))" "get_cached (m_curr (hd (m_frame_stack st))) 0 (st\<lparr>m_num_steps := m_num_steps st + 1\<rparr>) = (Some r, st2)"
      "st' = set_new_child_flag_if (m_curr (hd (m_frame_stack st))) r (pop_frame (push_result r st2))"
  | (app) cs f args where "m_curr (hd (m_frame_stack st)) = App f args"
      "process_app C E f args (st\<lparr>m_num_steps := m_num_steps st + 1, m_cache_stack := cs\<rparr>) = Some (Inr (b, st'))"
      "base st \<Longrightarrow> base (st\<lparr>m_num_steps := m_num_steps st + 1, m_cache_stack := cs\<rparr>)"
  | (var) cs i s where "m_curr (hd (m_frame_stack st)) = Var i s"
      "process_var C E i s (pop_frame (st\<lparr>m_num_steps := m_num_steps st + 1, m_cache_stack := cs\<rparr>)) = Some (Inr ((), st'))"
      "base st \<Longrightarrow> base (st\<lparr>m_num_steps := m_num_steps st + 1, m_cache_stack := cs\<rparr>)"
proof -
  let ?fr = "hd (m_frame_stack st)"
  let ?st1 = "st\<lparr>m_num_steps := m_num_steps st + 1\<rparr>"
  obtain r st2 where g: "(if first_visit ?fr \<and> m_cache_result ?fr then get_cached (m_curr ?fr) 0 ?st1 else (None, ?st1)) = (r, st2)"
    by fastforce
  have k: "(case r of
      Some r' \<Rightarrow> returns True (set_new_child_flag_if (m_curr ?fr) r' (pop_frame (push_result r' st2)))
    | None \<Rightarrow> (case m_curr ?fr of
        App d args \<Rightarrow> process_app C E d args st2
      | Var idx s \<Rightarrow> and_then (process_var C E idx s (pop_frame st2)) (\<lambda>_. returns True))) = Some (Inr (b, st'))"
    using assms unfolding rewrite_step_def Let_def g split by (auto split: if_splits sum.splits)
  show ?thesis
  proof (cases r)
    case (Some r')
    then have "first_visit ?fr" "get_cached (m_curr ?fr) 0 ?st1 = (Some r', st2)" using g by (auto split: if_splits)
    then show ?thesis using cached k Some by simp
  next
    case None
    have st2: "\<exists>cs. st2 = st\<lparr>m_num_steps := m_num_steps st + 1, m_cache_stack := cs\<rparr> \<and> (base st \<longrightarrow> base st2)"
    proof (cases "first_visit ?fr \<and> m_cache_result ?fr")
      case True
      then have gc: "get_cached (m_curr ?fr) 0 ?st1 = (r, st2)" using g by simp
      show ?thesis using get_cached_fields [OF gc] base_cached(1) [OF _ gc] by auto
    next
      case False
      then have "st2 = ?st1" using g by auto
      then have "st2 = st\<lparr>m_num_steps := m_num_steps st + 1, m_cache_stack := m_cache_stack st\<rparr> \<and> (base st \<longrightarrow> base st2)"
        by simp
      then show ?thesis by blast
    qed
    then obtain cs where cs: "st2 = st\<lparr>m_num_steps := m_num_steps st + 1, m_cache_stack := cs\<rparr>"
      "base st \<longrightarrow> base (st\<lparr>m_num_steps := m_num_steps st + 1, m_cache_stack := cs\<rparr>)" by blast
    show ?thesis
    proof (cases "m_curr ?fr")
      case (App f args)
      show ?thesis by (rule app [OF App, of cs]) (use k None cs App in auto)
    next
      case (Var i s)
      show ?thesis by (rule var [OF Var, of cs]) (use k None cs Var in \<open>auto simp: and_then_Inr\<close>)
    qed
  qed
qed

lemma rewrite_step:
  assumes s: "rewrite_step C E st = Some (Inr (b, st'))" and ne: "m_frame_stack st \<noteq> []"
  shows "md (m_rw_cfg st') \<Longrightarrow> md (m_rw_cfg st)"
    "md (m_rw_cfg st') \<Longrightarrow> Runs root st \<Longrightarrow> Runs root st'"
proof -
  obtain fr fs where fr: "m_frame_stack st = fr # fs" using ne by (cases "m_frame_stack st") auto
  have h: "hd (m_frame_stack st) = fr" using fr by simp
  have "(md (m_rw_cfg st') \<longrightarrow> md (m_rw_cfg st)) \<and> (md (m_rw_cfg st') \<longrightarrow> Runs root st \<longrightarrow> Runs root st')"
    using s
  proof (cases rule: rewrite_step_cases)
    case (cached r st2)
    let ?t = "m_curr fr"
    obtain cs where cs: "st2 = st\<lparr>m_num_steps := m_num_steps st + 1, m_cache_stack := cs\<rparr>"
      using get_cached_fields [OF cached(2)] by auto
    have st': "st' = flag_if (?t \<noteq> r) (st2\<lparr>m_frame_stack := fs, m_result_stack := m_result_stack st @ [r]\<rparr>)"
      using cached(3) fr unfolding h cs by (cases st) (simp add: core_op_defs)
    have "Runs root st'" if r: "Runs root st"
    proof -
      have b: "base (st\<lparr>m_num_steps := m_num_steps st + 1\<rparr>)" using r by (simp add: Runs_def)
      note c = base_cached [OF b cached(2) [unfolded h]]
      have "waits root fs (m_result_stack st) ?t"
        using r fr cached(1) unfolding h
        by (cases ?t) (auto simp: Runs_def at_children_def at_builtin_def first_visit_def)
      from end_frame [OF c(1) _ this c(2) [OF refl], of fr "?t \<noteq> r"] show ?thesis
        unfolding st' using fr cs by auto
    qed
    moreover have "m_rw_cfg st' = m_rw_cfg st" unfolding st' cs by (simp add: flag_if_def core_op_defs)
    ultimately show ?thesis by simp
  next
    case (app cs f args)
    let ?st = "st\<lparr>m_num_steps := m_num_steps st + 1, m_cache_stack := cs\<rparr>"
    have "m_frame_stack ?st = fr # fs" using fr by simp
    note p = process_app(1) [OF app(2) this] process_app(2) [OF app(2) this, where root = root]
    have "Runs root ?st" if "Runs root st" using that app(3) by (simp add: Runs_def)
    then show ?thesis using p app(1) unfolding h by auto
  next
    case (var cs i s)
    let ?st = "pop_frame (st\<lparr>m_num_steps := m_num_steps st + 1, m_cache_stack := cs\<rparr>)"
    have m: "m_rw_cfg st' = m_rw_cfg st" using process_var_cfg [OF var(2)] by (simp add: core_op_defs)
    have "Runs root st'" if md: "md (m_rw_cfg st)" and r: "Runs root st"
    proof -
      have w: "waits root fs (m_result_stack st) (Var i s)" "src (Var i s)"
        using r fr var(1) unfolding h by (simp_all add: Runs_def)
      have b: "base ?st" using var(3) r by (simp add: Runs_def)
      have "Waits root ?st (Var i s)" using w b fr by (simp add: Waits_def) (simp add: core_op_defs)
      moreover obtain r1 fl where "st' = flag_if fl (push_result r1 ?st)" "rel (Var i s) r1" "fl \<or> r1 = Var i s"
        using process_var [OF var(2) b _ w(2)] md by (auto simp: core_op_defs)
      ultimately show ?thesis using deliver by blast
    qed
    then show ?thesis using m by simp
  qed
  then show "md (m_rw_cfg st') \<Longrightarrow> md (m_rw_cfg st)"
    "md (m_rw_cfg st') \<Longrightarrow> Runs root st \<Longrightarrow> Runs root st'" by blast+
qed

definition idle :: "'c rewriter_tpl \<Rightarrow> bool" where
  "idle st = (base st \<and> m_frame_stack st = [] \<and> m_result_stack st = [])"

lemma runs_done:
  assumes "Runs root st" "m_frame_stack st = []"
  shows "rel root (last (m_result_stack st))" "idle (pop_result st)"
proof -
  obtain r where "m_result_stack st = [r]" "rel root r" using assms by (auto simp: Runs_def)
  then show "rel root (last (m_result_stack st))" "idle (pop_result st)"
    using assms by (simp_all add: idle_def Runs_def) (simp add: pop_result_def)
qed

lemma resume_core:
  assumes "resume_core C E st = Some (Inr (r, st'))"
  shows "(md (m_rw_cfg st') \<longrightarrow> md (m_rw_cfg st)) \<and>
    (md (m_rw_cfg st') \<longrightarrow> Runs root st \<longrightarrow> rel root r \<and> idle st')"
  using assms
proof (induction rule: resume_core_induct)
  case (stop st)
  have "m_rw_cfg (pop_result st) = m_rw_cfg st" by (simp add: pop_result_def)
  then show ?case using runs_done stop by auto
next
  case (step st b st1 r st')
  then show ?case using rewrite_step(1) [OF step(2,1)] rewrite_step(2) [OF step(2,1), where root = root] by blast
qed

lemma main_loop_md:
  assumes "main_loop C E t st = Some (Inr (r, st'))" "md (m_rw_cfg st')"
  shows "md (m_rw_cfg st)"
proof (cases "e_inc E st")
  case False
  then show ?thesis using assms by (simp add: main_loop_def split: if_splits)
next
  case True
  let ?st = "st\<lparr>m_root := Some t, m_num_qvars := 0, m_num_steps := 0\<rparr>"
  obtain b st1 where v: "visit C E t RW_UNBOUNDED_DEPTH ?st = Some (Inr (b, st1))"
    and k: "(if b then returns (last (m_result_stack st1)) (pop_result st1) else resume_core C E st1) = Some (Inr (r, st'))"
    using assms(1) True by (auto simp: main_loop_def and_then_Inr)
  have "md (m_rw_cfg st1)"
  proof (cases b)
    case True
    then show ?thesis using k assms(2) by (auto simp: pop_result_def)
  next
    case False
    then show ?thesis using k resume_core assms(2) by auto
  qed
  then show ?thesis using visit(1) [OF v] by simp
qed

lemma main_loop:
  assumes "main_loop C E t st = Some (Inr (r, st'))" "idle st" "src t" "md (m_rw_cfg st')"
  shows "rel t r \<and> idle st'"
proof (cases "e_inc E st")
  case False
  then have "\<not> m_cancel_check st \<and> r = t \<and> st' = st" using assms(1) by (auto simp: main_loop_def split: if_splits)
  then show ?thesis using assms(2,3) by (simp add: idle_def base_def)
next
  case True
  let ?st = "st\<lparr>m_root := Some t, m_num_qvars := 0, m_num_steps := 0\<rparr>"
  obtain b st1 where v: "visit C E t RW_UNBOUNDED_DEPTH ?st = Some (Inr (b, st1))"
    and k: "(if b then returns (last (m_result_stack st1)) (pop_result st1) else resume_core C E st1) = Some (Inr (r, st'))"
    using assms(1) True by (auto simp: main_loop_def and_then_Inr)
  have w: "Waits t ?st t" using assms(2,3) eqv_refl by (simp add: Waits_def idle_def)
  have vis: "visited t ?st b st1" if "md (m_rw_cfg st1)" using visit(2) [OF v that w] by simp
  show ?thesis
  proof (cases b)
    case True
    then have x: "r = last (m_result_stack st1)" "st' = pop_result st1" using k by simp_all
    have m: "md (m_rw_cfg st1)" using assms(4) x(2) by (simp add: pop_result_def)
    obtain fl where "m_frame_stack st1 = m_frame_stack (flag_if fl ?st)" "Runs t st1"
      using vis [OF m] True by (auto simp: visited_def)
    then have "Runs t st1" "m_frame_stack st1 = []"
      using assms(2) by (auto simp: idle_def flag_if_def core_op_defs)
    from runs_done [OF this] show ?thesis using x by simp
  next
    case False
    then have x: "resume_core C E st1 = Some (Inr (r, st'))" using k by simp
    note rc = resume_core [OF x, where root = t]
    have "Runs t st1" using vis False rc assms(4) by (auto simp: visited_def)
    then show ?thesis using rc assms(4) by blast
  qed
qed

lemma mk_idle: "inv c \<Longrightarrow> B = [] \<Longrightarrow> S = [] \<Longrightarrow> idle (mk_rewriter_tpl n c)"
  unfolding idle_def base_def by (simp add: mk_cached_ok) (simp add: mk_tpl_simps)

end

end
