(* ===== verification/Rewriter_Total.thy ===== *)
theory Rewriter_Total
  imports Rewriter_Sound
begin

text \<open>
  The traversal ends when the simplifier of the configuration never asks for another rewrite: it
  gives a right result or throws one of the exceptions the configuration and the environment can
  throw, after at most \<open>term_weight t\<close> steps, twice the number of applications in the term.
\<close>

section \<open>Operations that return\<close>

text \<open>The operation returns with \<open>P\<close>, or throws one of \<open>errs\<close>.\<close>

definition gives ::
    "rewriter_exception set \<Rightarrow> ('a \<Rightarrow> 'c rewriter_tpl \<Rightarrow> bool) \<Rightarrow> ('c, 'a) outcome \<Rightarrow> bool" where
  "gives errs P m = (case m of
      None \<Rightarrow> False
    | Some (Inl (e, st)) \<Rightarrow> e \<in> errs
    | Some (Inr (a, st)) \<Rightarrow> P a st)"

lemma gives_returns [simp]: "gives errs P (returns a st) = P a st"
  by (simp add: gives_def returns_def)

lemma gives_throws [simp]: "gives errs P (throws e st) = (e \<in> errs)"
  by (simp add: gives_def throws_def)

lemma gives_bind:
  assumes "gives errs Q m" "\<And>a st. m = Some (Inr (a, st)) \<Longrightarrow> Q a st \<Longrightarrow> gives errs P (k a st)"
  shows "gives errs P (and_then m k)"
proof (cases m)
  case (Some x)
  then show ?thesis using assms by (cases x) (auto simp: gives_def and_then_def)
qed (use assms in \<open>simp add: gives_def\<close>)

lemma gives_and_then: "gives errs (\<lambda>a st. gives errs P (k a st)) m \<Longrightarrow> gives errs P (and_then m k)"
  by (rule gives_bind)

lemma gives_mono:
  "gives errs P m \<Longrightarrow> (\<And>a st. m = Some (Inr (a, st)) \<Longrightarrow> P a st \<Longrightarrow> Q a st) \<Longrightarrow> gives errs Q m"
  by (auto simp: gives_def split: option.splits sum.splits prod.splits)

section \<open>The measure\<close>

text \<open>A frame that waits for the result of a rewrite has one step left.\<close>

definition tpl_frame_weight :: "frame \<Rightarrow> nat" where
  "tpl_frame_weight fr = (if m_state fr = PROCESS_CHILDREN then frame_weight fr else 1)"

definition tpl_weight :: "'c rewriter_tpl \<Rightarrow> nat" where
  "tpl_weight st = sum_list (map tpl_frame_weight (m_frame_stack st))"

lemma tpl_frame_weight_flag [simp]: "tpl_frame_weight (fr\<lparr>m_new_child := b\<rparr>) = tpl_frame_weight fr"
  by (simp add: tpl_frame_weight_def frame_weight_def)

lemma tpl_weight_ops [simp]:
  "tpl_weight (push_result r st) = tpl_weight st" "tpl_weight (pop_result st) = tpl_weight st"
  "tpl_weight (shrink_results n st) = tpl_weight st" "tpl_weight (set_new_child_flag st) = tpl_weight st"
  "tpl_weight (st\<lparr>m_rw_cfg := c\<rparr>) = tpl_weight st" "tpl_weight (flag_if b st) = tpl_weight st"
  "tpl_weight (tpl_cache_result t r b st) = tpl_weight st"
  by (auto simp: tpl_weight_def core_op_defs pop_result_def flag_if_def tpl_cache_result_def
    core_cache_result_def cache_shifted_result_def split: list.split)

lemma tpl_weight_pop: "m_frame_stack st = fr # fs \<Longrightarrow> tpl_weight st = tpl_frame_weight fr + tpl_weight (pop_frame st)"
  by (simp add: tpl_weight_def pop_frame_def)

lemma tpl_weight_pos: "0 < tpl_frame_weight fr"
  by (simp add: tpl_frame_weight_def frame_weight_def)

lemma num_steps_ops [simp]:
  "m_num_steps (push_result r st) = m_num_steps st" "m_num_steps (pop_result st) = m_num_steps st"
  "m_num_steps (shrink_results n st) = m_num_steps st" "m_num_steps (set_new_child_flag st) = m_num_steps st"
  "m_num_steps (flag_if b st) = m_num_steps st" "m_num_steps (pop_frame st) = m_num_steps st"
  "m_num_steps (tpl_cache_result t r b st) = m_num_steps st" "m_num_steps (next_child st) = m_num_steps st"
  "m_num_steps (set_frame_state s st) = m_num_steps st" "m_num_steps (push_frame_core t b s d st) = m_num_steps st"
  "m_num_steps (rewrite_done t st) = m_num_steps st" "m_num_steps (frame_done t r b st) = m_num_steps st"
  by (auto simp: core_op_defs pop_result_def flag_if_def tpl_cache_result_def set_frame_state_def rewrite_done_def
    frame_done_def Let_def core_cache_result_def cache_shifted_result_def)

lemma tpl_weight_next_child:
  assumes "m_frame_stack st = fr # fs" "m_curr fr = App f args" "m_state fr = PROCESS_CHILDREN" "m_i fr < length args"
  shows "tpl_weight (next_child st) + term_weight (args ! m_i fr) = tpl_weight st"
proof -
  have "drop (m_i fr) args = args ! m_i fr # drop (Suc (m_i fr)) args" using assms(4) by (simp add: Cons_nth_drop_Suc)
  then show ?thesis
    using assms by (simp add: tpl_weight_def next_child_def upd_frame_def tpl_frame_weight_def frame_weight_def)
qed

lemma tpl_weight_push:
  assumes "t = App f args"
  shows "tpl_weight (push_frame_core t b PROCESS_CHILDREN d st) + 1 = tpl_weight st + term_weight t"
  using assms by (simp add: tpl_weight_def push_frame_core_def tpl_frame_weight_def frame_weight_def mk_frame_def)

lemma tpl_weight_done:
  assumes "m_frame_stack st = fr # fs"
  shows "tpl_weight (rewrite_done t st) < tpl_weight st" "tpl_weight (frame_done t r b st) < tpl_weight st"
proof -
  have "tpl_weight (rewrite_done t st) = sum_list (map tpl_frame_weight fs)"
    using assms unfolding rewrite_done_def Let_def
    by (simp add: tpl_weight_def core_op_defs pop_result_def tpl_cache_result_def
      core_cache_result_def cache_shifted_result_def split: list.split)
  then show "tpl_weight (rewrite_done t st) < tpl_weight st"
    using assms tpl_weight_pos by (simp add: tpl_weight_def)
  have "tpl_weight (frame_done t r b st) = sum_list (map tpl_frame_weight fs)"
    using assms unfolding frame_done_def Let_def
    by (simp add: tpl_weight_def core_op_defs flag_if_def tpl_cache_result_def
      core_cache_result_def cache_shifted_result_def split: list.split)
  then show "tpl_weight (frame_done t r b st) < tpl_weight st"
    using assms tpl_weight_pos by (simp add: tpl_weight_def)
qed

section \<open>Configurations without further rewriting\<close>

locale rewriter_total = rewriter_laws +
  fixes errs :: "rewriter_exception set"
  assumes md_all: "md c"
    and no_rewrite: "c_reduce_app C c f rs = (Inr b, c') \<Longrightarrow> br_rewrite b = None"
    and errs_reduce: "c_reduce_app C c f rs = (Inl e, c') \<Longrightarrow> e \<in> errs"
    and errs_frames: "c_max_frames_exceeded C c n \<Longrightarrow> Max_frames \<in> errs"
    and errs_steps: "c_max_steps_exceeded C c k = Inl e \<Longrightarrow> e \<in> errs"
    and errs_exceeded: "c_max_steps_exceeded C c k = Inr True \<Longrightarrow> Max_steps \<in> errs"
    and errs_cancel: "\<not> e_inc E st \<Longrightarrow> Canceled \<in> errs"
begin

lemma process_const_gives:
  "gives errs (\<lambda>x st'. x = None \<and> tpl_weight st' = tpl_weight st \<and> m_num_steps st' = m_num_steps st) (process_const C d st)"
proof -
  obtain r c where red: "c_reduce_app C (m_rw_cfg st) d [] = (r, c)" by fastforce
  show ?thesis
  proof (cases r)
    case (Inl e)
    then show ?thesis using red errs_reduce
      by (simp add: process_const_def process_const_loop.simps [of C d False st] gives_def)
  next
    case (Inr b)
    then have "br_rewrite b = None" using red no_rewrite by simp
    then show ?thesis using red Inr
      by (cases b) (simp_all add: process_const_def process_const_loop.simps [of C d False st] gives_def const_status_def)
  qed
qed

lemma process_var_gives:
  assumes "base st" "src (Var i s)"
  shows "gives errs (\<lambda>x st'. tpl_weight st' = tpl_weight st \<and> m_num_steps st' = m_num_steps st) (process_var C E i s st)"
proof (cases "c_reduce_var C (m_rw_cfg st) (Var i s)")
  case (Some r)
  then show ?thesis by (simp add: process_var_def)
next
  case None
  have B: "m_bindings st = B" "m_shifts st = S" "inv (m_rw_cfg st)" using assms(1) by (simp_all add: base_def)
  show ?thesis
  proof (cases "if i < length B then B ! (length B - i - 1) else None")
    case n: None
    then show ?thesis unfolding process_var_def None option.case Let_def B n by simp
  next
    case (Some r)
    then have "i < length B" "B ! (length B - i - 1) = Some r" by (simp_all split: if_splits)
    note b = bound_var [OF B(3) assms(2) None this]
    then show ?thesis unfolding process_var_def None option.case Let_def B Some by auto
  qed
qed

lemma visit_gives:
  assumes w: "Waits root st t"
  shows "gives errs (\<lambda>b st'. m_num_steps st' = m_num_steps st \<and>
    (if b then tpl_weight st' = tpl_weight st else tpl_weight st' + 1 = tpl_weight st + term_weight t)) (visit C E t d st)"
    (is "gives errs (?P st) _")
proof -
  define c where "c = tpl_must_cache C E st t"
  obtain r st1 where g: "(if c then get_cached t 0 st else (None, st)) = (r, st1)" by fastforce
  have b: "base st" using w by (simp add: Waits_def)
  have b1: "base st1" using g base_cached(1) [OF b] b by (cases c) auto
  obtain cs where cs: "st1 = st\<lparr>m_cache_stack := cs\<rparr>"
  proof (cases c)
    case True
    then show ?thesis using that get_cached_fields [of t 0 st r st1] g by auto
  next
    case False
    then show ?thesis using that [of "m_cache_stack st"] g by simp
  qed
  have st1: "tpl_weight st1 = tpl_weight st" "m_num_steps st1 = m_num_steps st" "m_rw_cfg st1 = m_rw_cfg st"
    unfolding cs by (simp_all add: tpl_weight_def)
  have push: "gives errs (?P st) (and_then (tpl_push_frame C t c n st1) (\<lambda>_. returns False))" if "t = App f args" for f args n
    using errs_frames tpl_weight_push [OF that, of c n st1] st1
    by (intro gives_and_then) (simp add: tpl_push_frame_def)
  have const: "gives errs (?P st) (and_then (process_const C f st1) (\<lambda>x st2. case x of
      None \<Rightarrow> returns True st2
    | Some m_r \<Rightarrow> and_then (tpl_push_frame C m_r c n st2) (\<lambda>_. returns False)))" for f n
    using st1 by (intro gives_bind [OF process_const_gives]) simp
  have var: "gives errs (?P st) (and_then (process_var C E i s st1) (\<lambda>_. returns True))" if "t = Var i s" for i s
    using st1 Waits_src [OF w] that by (intro gives_bind [OF process_var_gives [OF b1]]) simp_all
  have app: "gives errs (?P st) (case t of
      Var i s \<Rightarrow> and_then (process_var C E i s st1) (\<lambda>_. returns True)
    | App f [] \<Rightarrow> and_then (process_const C f st1) (\<lambda>x st2. case x of
          None \<Rightarrow> returns True st2
        | Some m_r \<Rightarrow> and_then (tpl_push_frame C m_r c n st2) (\<lambda>_. returns False))
    | App f args \<Rightarrow> and_then (tpl_push_frame C t c n st1) (\<lambda>_. returns False))" for n
  proof (cases t)
    case (Var i s)
    then show ?thesis using var by simp
  next
    case (App f args)
    then show ?thesis using const push by (cases args) simp_all
  qed
  show ?thesis
  proof (cases "c_get_subst C (m_rw_cfg st) t")
    case (Some u)
    then show ?thesis unfolding visit_def by simp
  next
    case ns: None
    show ?thesis
    proof (cases "d = 0 \<or> r \<noteq> None \<or> \<not> c_pre_visit C (m_rw_cfg st1) t")
      case True
      then show ?thesis unfolding visit_def Let_def c_def [symmetric] g split ns option.case using st1
        by (cases r) auto
    next
      case False
      then have n: "d \<noteq> 0" "r = None" "c_pre_visit C (m_rw_cfg st1) t" by auto
      show ?thesis unfolding visit_def Let_def c_def [symmetric] g split ns n(2) option.case
        using app [of "child_depth d"] n(1,3) by (simp only: if_False not_True_eq_False simp_thms)
    qed
  qed
qed

lemma constant_fold_gives:
  assumes r: "Runs root st" "m_frame_stack st = fr # fs" "m_curr fr = App f args" "m_state fr = PROCESS_CHILDREN"
  shows "gives errs (\<lambda>b st'. m_num_steps st' = m_num_steps st \<and> (b \<longrightarrow> tpl_weight st' < tpl_weight st))
    (constant_fold C E f args st)"
proof (cases "folded_arg f args fr (m_result_stack st)")
  case None
  then show ?thesis using r(2) by (simp add: constant_fold_eq Let_def)
next
  case (Some a)
  note fw = folded_Waits [OF r Some]
  have "term_weight a \<le> sum_list (map term_weight (drop 1 args))"
    using fw(4) by (simp add: member_le_sum_list)
  then have W: "tpl_weight (fold_state a fr st) + term_weight a < tpl_weight st + 1"
    using r fw(3,5) by (simp add: tpl_weight_def tpl_frame_weight_def frame_weight_def)
  have "gives errs (\<lambda>b st'. m_num_steps st' = m_num_steps st \<and> (b \<longrightarrow> tpl_weight st' < tpl_weight st))
      (returns True (if b1 then rewrite_done (App f args) st1 else st1))"
    if v: "visit C E a (m_max_depth fr) (fold_state a fr st) = Some (Inr (b1, st1))"
      and n: "m_num_steps st1 = m_num_steps (fold_state a fr st) \<and>
        (if b1 then tpl_weight st1 = tpl_weight (fold_state a fr st)
         else tpl_weight st1 + 1 = tpl_weight (fold_state a fr st) + term_weight a)" for b1 st1
  proof (cases b1)
    case True
    have "visited root (fold_state a fr st) b1 st1" using visit(2) [OF v md_all fw(1,2)] .
    then obtain fl where "m_frame_stack st1 = m_frame_stack (flag_if fl (fold_state a fr st))"
      using True by (auto simp: visited_def)
    then obtain fr1 where "m_frame_stack st1 = fr1 # fs" using fw(5) by (cases fl) (auto simp: core_op_defs)
    from tpl_weight_done(1) [OF this, of "App f args"] show ?thesis using True n W by (simp add: fold_state_def)
  qed (use n W in \<open>simp add: fold_state_def\<close>)
  from gives_bind [OF visit_gives [OF fw(1)] this] show ?thesis
    using r(2) Some by (simp add: constant_fold_eq Let_def)
qed

lemma children_gives:
  assumes "Runs root st" "m_frame_stack st = fr # fs" "m_curr fr = App f all_args" "m_state fr = PROCESS_CHILDREN"
    "args = drop (m_i fr) all_args"
  shows "gives errs (\<lambda>b st'. m_num_steps st' = m_num_steps st \<and>
      (if b then tpl_weight st' \<le> tpl_weight st else tpl_weight st' < tpl_weight st)) (children C E f all_args args st)"
  using assms
proof (induction args arbitrary: st fr)
  case Nil
  then show ?case by simp
next
  case (Cons arg args)
  note r = Cons.prems(1-4)
  let ?P = "\<lambda>st b st'. m_num_steps st' = m_num_steps st \<and>
      (if b then tpl_weight st' \<le> tpl_weight st else tpl_weight st' < tpl_weight st)"
  have i: "m_i fr < length all_args" using Cons.prems(5) by (metis drop_eq_Nil2 linorder_not_less list.distinct(1))
  have a: "arg = all_args ! m_i fr" using Cons.prems(5) by (metis hd_drop_conv_nth i list.sel(1))
  have d: "args = drop (Suc (m_i fr)) all_args" using Cons.prems(5) by (metis drop_Suc list.sel(3) tl_drop)
  note W = tpl_weight_next_child [OF r(2-4) i, folded a]
  have h: "hd (m_frame_stack st) = fr" using r(2) by simp
  have visit: "gives errs (?P st) (and_then (visit C E arg (m_max_depth fr) (next_child st)) (\<lambda>b st2.
          if b then children C E f all_args args st2 else returns False st2))"
  proof (intro gives_bind [OF visit_gives [OF Waits_next_child(1) [OF r i, folded a]]])
    fix b st2
    assume v: "visit C E arg (m_max_depth fr) (next_child st) = Some (Inr (b, st2))"
      and n: "m_num_steps st2 = m_num_steps (next_child st) \<and> (if b then tpl_weight st2 = tpl_weight (next_child st)
        else tpl_weight st2 + 1 = tpl_weight (next_child st) + term_weight arg)"
    note cv = child_visited [OF v [unfolded a] md_all r i]
    show "gives errs (?P st) (if b then children C E f all_args args st2 else returns False st2)"
    proof (cases b)
      case True
      then obtain nc where "m_frame_stack st2 = fr\<lparr>m_i := Suc (m_i fr), m_new_child := nc\<rparr> # fs" using cv(2) by blast
      from Cons.IH [OF cv(1) this] have "gives errs (?P st2) (children C E f all_args args st2)"
        using r(3,4) d by simp
      then have "gives errs (?P st) (children C E f all_args args st2)"
        by (rule gives_mono) (use n True W in \<open>auto split: if_splits\<close>)
      then show ?thesis using True by simp
    qed (use n W in simp)
  qed
  show ?case
    unfolding children.simps
  proof (intro gives_bind [OF constant_fold_gives [OF r]])
    fix folded st1
    assume cf: "constant_fold C E f all_args st = Some (Inr (folded, st1))"
      and n: "m_num_steps st1 = m_num_steps st \<and> (folded \<longrightarrow> tpl_weight st1 < tpl_weight st)"
    show "gives errs (?P st) (if folded then returns False st1
      else and_then (visit C E arg (m_max_depth (hd (m_frame_stack st1))) (next_child st1)) (\<lambda>b st2.
          if b then children C E f all_args args st2 else returns False st2))"
      using n visit constant_fold(2) [OF cf] h by (cases folded) auto
  qed
qed

lemma reduce_children_gives:
  assumes fr: "m_frame_stack st = fr # fs"
  shows "gives errs (\<lambda>b st'. m_num_steps st' = m_num_steps st \<and> tpl_weight st' < tpl_weight st) (reduce_children C E f args st)"
proof -
  obtain x c where red: "c_reduce_app C (m_rw_cfg st) f (drop (m_spos fr) (m_result_stack st)) = (x, c)" by fastforce
  have dec: "tpl_weight (frame_done t r b (st\<lparr>m_rw_cfg := c\<rparr>)) < tpl_weight st" for t r b
    using tpl_weight_done(2) [where st = "st\<lparr>m_rw_cfg := c\<rparr>" and fr = fr and fs = fs] fr by simp
  show ?thesis
  proof (cases x)
    case (Inl e)
    then show ?thesis using errs_reduce red fr by (simp add: reduce_children_def Let_def)
  next
    case (Inr s)
    then have "br_rewrite s = None" using red no_rewrite by simp
    then show ?thesis using red fr Inr dec no_macro by (cases s) (simp_all add: reduce_children_def Let_def)
  qed
qed

lemma process_app_gives:
  assumes r: "Runs root st" "m_frame_stack st = fr # fs" "m_curr fr = App f args"
  shows "gives errs (\<lambda>b st'. m_num_steps st' = m_num_steps st \<and> tpl_weight st' < tpl_weight st) (process_app C E f args st)"
    (is "gives errs ?P _")
proof (cases "m_state fr")
  case PROCESS_CHILDREN
  have "gives errs ?P (if \<not> b then returns True st1
       else if flattens C E f args st1 then returns True (set_new_child_flag (pop_frame st1))
       else reduce_children C E f args st1)"
    if ch: "children C E f args (drop (m_i fr) args) st = Some (Inr (b, st1))"
      and n: "m_num_steps st1 = m_num_steps st \<and>
        (if b then tpl_weight st1 \<le> tpl_weight st else tpl_weight st1 < tpl_weight st)" for b st1
  proof (cases b)
    case True
    then obtain nc where fr1: "m_frame_stack st1 = fr\<lparr>m_i := length args, m_new_child := nc\<rparr> # fs" (is "_ = ?fr # _")
      using children [OF ch, where root = root and fr = fr and fs = fs] r PROCESS_CHILDREN md_all by auto
    have "tpl_weight (pop_frame st1) < tpl_weight st1" using tpl_weight_pop [OF fr1] tpl_weight_pos [of ?fr] by linarith
    moreover have "gives errs ?P (reduce_children C E f args st1)"
      by (rule gives_mono [OF reduce_children_gives [OF fr1]]) (use n True in auto)
    ultimately show ?thesis using True n by simp
  qed (use n in simp)
  from gives_bind [OF children_gives [OF r PROCESS_CHILDREN refl] this] show ?thesis
    using r(2) PROCESS_CHILDREN by (simp add: process_app_def)
next
  case REWRITE_BUILTIN
  then show ?thesis using r(2) tpl_weight_done(1) [OF r(2)] by (simp add: process_app_def)
next
  case EXPAND_DEF
  then show ?thesis using r by (auto simp: Runs_def at_children_def at_builtin_def)
next
  case REWRITE_RULE
  then show ?thesis using r by (auto simp: Runs_def at_children_def at_builtin_def)
qed

lemma rewrite_step_gives:
  assumes r: "Runs root st" and ne: "m_frame_stack st \<noteq> []"
  shows "gives errs (\<lambda>b st'. m_num_steps st' = m_num_steps st + 1 \<and> tpl_weight st' < tpl_weight st) (rewrite_step C E st)"
    (is "gives errs ?P _")
proof -
  obtain fr fs where fr: "m_frame_stack st = fr # fs" using ne by (cases "m_frame_stack st") auto
  let ?st1 = "st\<lparr>m_num_steps := m_num_steps st + 1\<rparr>"
  obtain o2 st2 where g: "(if first_visit fr \<and> m_cache_result fr then get_cached (m_curr fr) 0 ?st1 else (None, ?st1)) = (o2, st2)"
    by fastforce
  have b: "base ?st1" using r by (simp add: Runs_def)
  have st2: "base st2 \<and> (\<exists>cs. st2 = st\<lparr>m_num_steps := m_num_steps st + 1, m_cache_stack := cs\<rparr>)"
  proof (cases "first_visit fr \<and> m_cache_result fr")
    case True
    then have gc: "get_cached (m_curr fr) 0 ?st1 = (o2, st2)" using g by simp
    show ?thesis using base_cached(1) [OF b gc] get_cached_fields [OF gc] by auto
  next
    case False
    then have "st2 = ?st1" using g by auto
    then show ?thesis using b by (intro conjI exI [of _ "m_cache_stack st"]) simp_all
  qed
  then obtain cs where cs: "st2 = st\<lparr>m_num_steps := m_num_steps st + 1, m_cache_stack := cs\<rparr>" by blast
  have f2: "m_frame_stack st2 = fr # fs" "m_num_steps st2 = m_num_steps st + 1" "tpl_weight st2 = tpl_weight st"
    using fr unfolding cs by (simp_all add: tpl_weight_def)
  have r2: "Runs root st2" using r st2 unfolding Runs_def cs by simp
  have pop: "tpl_weight (pop_frame st2) < tpl_weight st" using tpl_weight_pop [OF f2(1)] tpl_weight_pos [of fr] f2(3) by linarith
  have app: "gives errs ?P (process_app C E f args st2)" if "m_curr fr = App f args" for f args
    by (rule gives_mono [OF process_app_gives [OF r2 f2(1) that]]) (use f2 in simp)
  have var: "gives errs ?P (and_then (process_var C E i s (pop_frame st2)) (\<lambda>_. returns True))" if v: "m_curr fr = Var i s" for i s
  proof -
    have "base (pop_frame st2)" "src (Var i s)" using r2 f2(1) v by (simp_all add: Runs_def)
    from process_var_gives [OF this] show ?thesis
      using pop f2(2) by (intro gives_and_then) (auto elim!: gives_mono)
  qed
  have main: "gives errs ?P (case o2 of
      Some r' \<Rightarrow> returns True (set_new_child_flag_if (m_curr fr) r' (pop_frame (push_result r' st2)))
    | None \<Rightarrow> (case m_curr fr of
         App d args \<Rightarrow> process_app C E d args st2
       | Var idx s \<Rightarrow> and_then (process_var C E idx s (pop_frame st2)) (\<lambda>_. returns True)))"
  proof (cases o2)
    case None
    then show ?thesis using app var by (cases "m_curr fr") simp_all
  next
    case (Some r')
    have "tpl_weight (pop_frame (push_result r' st2)) = tpl_weight (pop_frame st2)"
      by (simp add: tpl_weight_def core_op_defs)
    then show ?thesis using Some pop f2(2) by simp
  qed
  have h: "hd (m_frame_stack st) = fr" using fr by simp
  show ?thesis
    unfolding rewrite_step_def Let_def h g split
    using main errs_steps errs_exceeded errs_cancel by (auto split: sum.split)
qed

lemma resume_core_gives:
  "Runs root st \<Longrightarrow> gives errs (\<lambda>r st'. unat (m_num_steps st') \<le> unat (m_num_steps st) + tpl_weight st) (resume_core C E st)"
proof (induction "tpl_weight st" arbitrary: st rule: less_induct)
  case less
  show ?case
  proof (cases "m_frame_stack st = []")
    case True
    then show ?thesis by (simp add: resume_core.simps [of C E st] gives_def)
  next
    case False
    note g = rewrite_step_gives [OF less.prems False]
    obtain x where x: "rewrite_step C E st = Some x" using g by (auto simp: gives_def split: option.splits)
    show ?thesis
    proof (cases x)
      case (Inl e)
      then show ?thesis using g x False by (cases e) (simp add: resume_core.simps [of C E st] gives_def)
    next
      case (Inr y)
      obtain b st1 where y: "y = (b, st1)" by fastforce
      have s: "m_num_steps st1 = m_num_steps st + 1" "tpl_weight st1 < tpl_weight st"
        using g unfolding x Inr y by (simp_all add: gives_def)
      have "Runs root st1" using rewrite_step(2) [OF x [unfolded Inr y] False md_all less.prems] .
      note ih = less.hyps [OF s(2) this]
      have "unat (m_num_steps st1) \<le> unat (m_num_steps st) + 1" unfolding s(1) by (simp add: unat_word_ariths)
      then have "unat (m_num_steps st1) + tpl_weight st1 \<le> unat (m_num_steps st) + tpl_weight st" using s(2) by linarith
      with ih have "gives errs (\<lambda>r st'. unat (m_num_steps st') \<le> unat (m_num_steps st) + tpl_weight st) (resume_core C E st1)"
        by (auto elim!: gives_mono)
      then show ?thesis using False x Inr y by (simp add: resume_core.simps [of C E st])
    qed
  qed
qed

lemma main_loop_gives:
  assumes "idle st" "src t"
  shows "gives errs (\<lambda>r st'. rel t r \<and> idle st' \<and> (e_inc E st \<longrightarrow> unat (m_num_steps st') \<le> term_weight t)) (main_loop C E t st)"
proof -
  have "gives errs (\<lambda>r st'. e_inc E st \<longrightarrow> unat (m_num_steps st') \<le> term_weight t) (main_loop C E t st)"
  proof (cases "e_inc E st")
    case False
    then show ?thesis using errs_cancel by (simp add: main_loop_def)
  next
    case True
    let ?st = "st\<lparr>m_root := Some t, m_num_qvars := 0, m_num_steps := 0\<rparr>"
    have w: "Waits t ?st t" using assms(1,2) eqv_refl by (simp add: Waits_def idle_def)
    have W0: "tpl_weight ?st = 0" using assms(1) by (simp add: idle_def tpl_weight_def)
    have "gives errs (\<lambda>r st'. unat (m_num_steps st') \<le> term_weight t)
        (if b then returns (last (m_result_stack st1)) (pop_result st1) else resume_core C E st1)"
      if v: "visit C E t RW_UNBOUNDED_DEPTH ?st = Some (Inr (b, st1))"
        and n: "m_num_steps st1 = m_num_steps ?st \<and> (if b then tpl_weight st1 = tpl_weight ?st
          else tpl_weight st1 + 1 = tpl_weight ?st + term_weight t)" for b st1
    proof (cases b)
      case False
      have "visited t ?st b st1" using visit(2) [OF v md_all w] by simp
      then have "Runs t st1" by (simp add: visited_def)
      from resume_core_gives [OF this] have "gives errs (\<lambda>r st'. unat (m_num_steps st') \<le> term_weight t) (resume_core C E st1)"
        by (rule gives_mono) (use n False W0 in simp)
      then show ?thesis using False by simp
    qed (use n in simp)
    from gives_bind [OF visit_gives [OF w] this]
    have "gives errs (\<lambda>r st'. unat (m_num_steps st') \<le> term_weight t) (main_loop C E t st)"
      using True by (simp add: main_loop_def)
    then show ?thesis by (rule gives_mono) simp
  qed
  then show ?thesis by (rule gives_mono) (use main_loop [OF _ assms md_all] in blast)
qed

end

end
