(* ===== verification/Rewriter_Values.thy ===== *)
theory Rewriter_Values
  imports Rewriter_Total Bit_Blaster_Scopes
begin

text \<open>
  Rewriters that keep the value of terms: a simplifier whose answers are well-sorted and have the
  sort and the value of what they replace makes the whole traversal so. \<open>bool_rewriter_star\<close>
  (\<open>bool_rewriter.h\<close>) and \<open>bit_blaster_rewriter::imp\<close> (\<open>bit_blaster_rewriter.cpp\<close>) are such rewriters;
  the traversal of the latter ends.
\<close>

section \<open>Value-preserving configurations\<close>

lemma reduces_refl: "wf t \<Longrightarrow> reduces I t t"
  by (simp add: reduces_def)

lemma reduces_trans: "reduces I a b \<Longrightarrow> reduces I b c \<Longrightarrow> reduces I a c"
  by (simp add: reduces_def)

lemma reduces_maps:
  assumes "list_all2 (reduces I) args rs"
  shows "list_all wf rs" "map get_sort rs = map get_sort args" "map (eval I) rs = map (eval I) args"
  using assms by (induction rule: list_all2_induct) (auto simp: reduces_def)

lemma reduces_congr:
  assumes "wf (App f args)" "list_all2 (reduces I) args rs"
  shows "reduces I (App f args) (App f rs)"
  using assms(1) reduces_maps [OF assms(2)] by (simp add: reduces_def)

lemma flat_reduces:
  assumes f: "f = Basic OP_AND \<or> f = Basic OP_OR"
    and w: "wf (App f (xs @ a # zs))" and r: "reduces I a (App f ys)"
  shows "reduces I (App f (xs @ a # zs)) (App f (xs @ ys @ zs))"
proof -
  have y: "list_all wf ys" "\<forall>s \<in> set (map get_sort ys). s = Bool_sort" "eval I a = eval I (App f ys)"
    using r f by (auto simp: reduces_def)
  have "wf (App f (xs @ ys @ zs))" using w y(1,2) f by auto
  moreover have "eval I (App f (xs @ ys @ zs)) = eval I (App f (xs @ a # zs))"
    using f y(3) by (auto simp: eval_basic_def)
  ultimately show ?thesis using f by (auto simp: reduces_def)
qed

text \<open>The contract: what the simplifier answers is right for its arguments.\<close>

locale value_config =
  fixes C :: "'c rewriter_config"
    and I :: interp
    and inv :: "'c \<Rightarrow> bool"
    and md :: "'c \<Rightarrow> bool"
  assumes no_subst: "c_get_subst C c t = None"
    and var_kept: "c_reduce_var C c (Var i s) = Some r \<Longrightarrow> wf (Var i s) \<Longrightarrow> reduces I (Var i s) r"
    and macro_free: "c_get_macro C c f = None"
    and app_mono: "c_reduce_app C c f rs = (x, c') \<Longrightarrow> md c' \<Longrightarrow> md c"
    and app_inv: "inv c \<Longrightarrow> md c' \<Longrightarrow> wf (App f rs) \<Longrightarrow> c_reduce_app C c f rs = (x, c') \<Longrightarrow> inv c'"
    and app_value: "inv c \<Longrightarrow> md c' \<Longrightarrow> wf (App f rs) \<Longrightarrow> c_reduce_app C c f rs = (Inr b, c') \<Longrightarrow>
      reduces I (App f rs) (br_get b (App f rs))"
    and flat_kinds: "c_flat_assoc C c f \<Longrightarrow> f = Basic OP_AND \<or> f = Basic OP_OR"

lemma br_rewrite_get: "br_rewrite b = Some (r, n) \<Longrightarrow> br_get b t = r"
  by (cases b) (auto simp: br_get_def)

sublocale value_config \<subseteq> trav: rewriter_laws C E "[]" "[]" inv md wf "\<lambda>_. True" "reduces I"
  "\<lambda>t t'. wf t' \<and> (\<forall>s. reduces I t' s \<longrightarrow> reduces I t s)" for E
proof (unfold_locales, goal_cases)
  case (12 c f rs x c')
  then show ?case using app_mono by blast
next
  case (13 c c' f args rs x)
  have "wf (App f rs)" using reduces_congr [OF 13(3,4)] by (simp add: reduces_def)
  then show ?case using app_inv [OF 13(1,2) _ 13(5)] by blast
next
  case (14 c c' f args rs r)
  have "reduces I (App f args) (App f rs)" "wf (App f rs)" using reduces_congr [OF 14(3,4)] by (simp_all add: reduces_def)
  then have "reduces I (App f rs) r" using app_value [OF 14(1,2) _ 14(5)] by (simp add: br_get_def)
  then show ?case using \<open>reduces I (App f args) (App f rs)\<close> reduces_trans by blast
next
  case (15 c c' f args rs b r n)
  have w: "reduces I (App f args) (App f rs)" "wf (App f rs)" using reduces_congr [OF 15(3,4)] by (simp_all add: reduces_def)
  then have "reduces I (App f rs) r" using app_value [OF 15(1,2) _ 15(5)] br_rewrite_get [OF 15(6)] by simp
  then have "reduces I (App f args) r" "wf r" using reduces_trans w(1) by (auto simp: reduces_def)
  then show ?case using reduces_trans by blast
next
  case (16 f c xs a zs ys)
  then have "reduces I a (App f ys)" using reduces_refl by blast
  then have "reduces I (App f (xs @ a # zs)) (App f (xs @ ys @ zs))" using flat_reduces flat_kinds [OF 16(2)] 16(3) by blast
  then show ?case using reduces_trans by (auto simp: reduces_def)
next
  case (17 p t t')
  then have "eval I p = VBool True" by (simp add: reduces_def eval_basic_def m_mk_true_def)
  then have "reduces I (App (Basic OP_ITE) [p, t, t']) t" using 17(1) by (auto simp: reduces_def eval_basic_def)
  then show ?case using reduces_trans by (auto simp: reduces_def)
next
  case (18 p t t')
  then have "eval I p = VBool False" by (simp add: reduces_def eval_basic_def m_mk_false_def)
  then have "reduces I (App (Basic OP_ITE) [p, t, t']) t'" using 18(1) by (auto simp: reduces_def eval_basic_def)
  then show ?case using reduces_trans by (auto simp: reduces_def)
next
  case (10 f args rs)
  then show ?case using reduces_congr by blast
qed (auto simp: reduces_refl no_subst macro_free list_all_iff intro: var_kept)

section \<open>\<open>bool_rewriter_star\<close>\<close>

definition bool_rewriter_config :: "bool_rewriter rewriter_config" where
  "bool_rewriter_config = default_rewriter_cfg\<lparr>
     c_flat_assoc := cfg_flat_assoc,
     c_reduce_app := (\<lambda>rw f args. case cfg_reduce_app rw f args of (b, rw') \<Rightarrow> (Inr b, rw'))\<rparr>"

definition mk_bool_rewriter_star :: "32 word \<Rightarrow> bool_rewriter \<Rightarrow> bool_rewriter rewriter_tpl" where
  "mk_bool_rewriter_star n rw = mk_rewriter_tpl n rw"

lemma cfg_reduce_app_sound:
  assumes "wf (App f args)" "cfg_reduce_app rw f args = (b, rw')"
  shows "reduces I (App f args) (br_get b (App f args))"
proof (cases f)
  case (Basic k)
  then show ?thesis using mk_app_core_sound [of k args rw b rw' I] assms by (simp add: reduces_def)
qed (use assms in \<open>auto simp: reduces_refl br_get_def simp del: wf.simps\<close>)

interpretation brs: value_config bool_rewriter_config I "\<lambda>_. True" "\<lambda>_. True" for I
proof (unfold_locales, goal_cases)
  case (6 c c' f rs b)
  then show ?case using cfg_reduce_app_sound by (auto simp: bool_rewriter_config_def split: prod.splits)
next
  case (7 c f)
  then show ?case by (cases f) (auto simp: bool_rewriter_config_def)
qed (simp_all add: bool_rewriter_config_def default_rewriter_cfg_def)

section \<open>\<open>bit_blaster_rewriter::imp\<close>\<close>

text \<open>
  The configuration, for terms without quantifiers: the bindings of the configuration stay empty,
  so \<open>reduce_var\<close> answers only when variables are blasted in full. What the configuration asks
  its surroundings for is in \<open>resources\<close>: the memory that is allocated when \<open>max_steps_exceeded\<close> is
  called, and what the checkpoints of the circuits of a call of \<open>reduce_app\<close> see.
\<close>

record resources =
  r_allocated :: "blaster_rewriter_cfg \<Rightarrow> 32 word \<Rightarrow> 64 word"
  r_checkpoints :: "blaster_rewriter_cfg \<Rightarrow> func_decl \<Rightarrow> expr list \<Rightarrow> (64 word \<times> bool) list"

definition blaster_reduce_var :: "blaster_rewriter_cfg \<Rightarrow> expr \<Rightarrow> expr option" where
  "blaster_reduce_var c t =
    (if m_blast_quant c then None
     else if m_blast_full c \<and> is_bv t then Some (blast_bv_term t)
     else None)"

definition blaster_rewriter_config ::
    "resources \<Rightarrow> blaster_rewriter_cfg rewriter_config" where
  "blaster_rewriter_config res = default_rewriter_cfg\<lparr>
     c_max_steps_exceeded := (\<lambda>c n. max_steps_exceeded c (r_allocated res c n) n),
     c_reduce_app := reduce_app_checked (r_checkpoints res),
     c_reduce_var := blaster_reduce_var\<rparr>"

definition mk_imp :: "32 word \<Rightarrow> blaster_rewriter_cfg \<Rightarrow> blaster_rewriter_cfg rewriter_tpl" where
  "mk_imp n c = mk_rewriter_tpl n c"

lemma reduce_app_keeps_map:
  assumes "m_const2bits c g = Some r"
  shows "m_const2bits (snd (reduce_app c f args)) g = Some r"
proof (cases "const_case f args")
  case True
  then show ?thesis
  proof (cases "m_const2bits c f")
    case None
    then show ?thesis using assms mk_const_new [OF None] by (auto simp: reduce_app_const [OF True])
  qed (use assms in \<open>simp add: reduce_app_const mk_const_known\<close>)
qed (simp add: reduce_app_other_state assms)

lemma consistent_mono: "consistent (snd (reduce_app c f args)) I \<Longrightarrow> consistent c I"
  using reduce_app_keeps_map by (auto simp: consistent_def)

definition blaster_inv :: "ast_manager \<Rightarrow> blaster_rewriter_cfg \<Rightarrow> bool" where
  "blaster_inv m c = (cfg_inv c \<and> m_blaster c = mk_bit_blaster_tpl (blaster m))"

lemma blaster_inv_cfg: "blaster_inv m c \<Longrightarrow> m_cfg (m_blaster c) = blaster_cfg (blaster_rewriter_of m)"
  by (simp add: blaster_inv_def mk_bit_blaster_tpl_def blaster_def)

lemma reduce_app_no_rewrite: "fst (reduce_app c f args) = Inr b \<Longrightarrow> b = BR_FAILED \<or> (\<exists>r. b = BR_DONE r)"
proof -
  have "reduce_bv c k ps args = Inr b \<Longrightarrow> b = BR_FAILED \<or> (\<exists>r. b = BR_DONE r)" for k ps
    by (cases k) (auto simp: reduce_bv_def Let_def split: if_splits)
  then show "fst (reduce_app c f args) = Inr b \<Longrightarrow> b = BR_FAILED \<or> (\<exists>r. b = BR_DONE r)"
    by (auto simp: reduce_app_def Let_def case_prod_beta split: if_splits func_decl.splits)
qed

interpretation bbr: value_config "blaster_rewriter_config res" I "blaster_inv m" "\<lambda>c. consistent c I" for res I m
proof (unfold_locales, goal_cases)
  case (2 c i s r)
  then have "is_bv (Var i s)" "r = blast_bv_term (Var i s)"
    by (auto simp: blaster_rewriter_config_def default_rewriter_cfg_def blaster_reduce_var_def split: if_splits)
  then show ?case using blast_bv_term_reduces is_bvE [OF _ 2(2)] by metis
next
  case (4 c f rs x c')
  then have "c' = c \<or> c' = snd (reduce_app c f rs)"
    by (intro reduce_app_checked_state) (simp add: blaster_rewriter_config_def)
  then show ?case using consistent_mono 4(2) by blast
next
  case (5 c c' f rs x)
  then have "c' = c \<or> c' = snd (reduce_app c f rs)"
    by (intro reduce_app_checked_state) (simp add: blaster_rewriter_config_def)
  then show ?case using reduce_app_inv [of c f rs] reduce_app_blaster [of c f rs] 5(1,3) by (auto simp: blaster_inv_def)
next
  case (6 c c' f rs b)
  then have r: "reduce_app c f rs = (Inr b, c')"
    by (intro reduce_app_checked_Inr) (simp add: blaster_rewriter_config_def)
  then consider "b = BR_FAILED" | r where "b = BR_DONE r" using reduce_app_no_rewrite [of c f rs b] by auto
  then show ?case
  proof cases
    case 1
    then show ?thesis using reduces_refl [OF 6(3)] by (simp add: br_get_def)
  next
    case b: (2 r)
    have "reduces I (App f rs) r"
      using bb.reduce_app_sound [OF blaster_inv_cfg [OF 6(1)] _ 6(3) r [unfolded b] 6(2)] 6(1) by (simp add: blaster_inv_def)
    then show ?thesis by (simp add: b br_get_def)
  qed
qed (simp_all add: blaster_rewriter_config_def default_rewriter_cfg_def)

end
