(* ===== verification/Bit_Blaster_Term.thy ===== *)
theory Bit_Blaster_Term
  imports Rewriter_Values Bit_Blaster_Models
begin

text \<open>
  Bit-blasting a whole term with \<open>bit_blaster_rewriter::imp\<close>: the traversal returns or throws one of
  four exceptions, it keeps the value of the term under the interpretations that agree with the
  map of constants, and no model of the term is lost.
\<close>

section \<open>Sorts\<close>

text \<open>Without an interpretation: a reduction keeps the sort.\<close>

definition sorted_as :: "expr \<Rightarrow> expr \<Rightarrow> bool" where
  "sorted_as t r = (wf r \<and> get_sort r = get_sort t)"

lemma sorted_as_refl: "wf t \<Longrightarrow> sorted_as t t"
  by (simp add: sorted_as_def)

lemma sorted_as_trans: "sorted_as a b \<Longrightarrow> sorted_as b c \<Longrightarrow> sorted_as a c"
  by (simp add: sorted_as_def)

lemma sorted_as_congr:
  assumes "wf (App f args)" "list_all2 sorted_as args rs"
  shows "sorted_as (App f args) (App f rs)"
proof -
  have "list_all wf rs \<and> map get_sort rs = map get_sort args"
    using assms(2) by (induction rule: list_all2_induct) (auto simp: sorted_as_def)
  then show ?thesis using assms(1) by (simp add: sorted_as_def)
qed

lemma reduce_app_reduces:
  assumes inv: "blaster_inv m c" and w: "wf (App f rs)" and n: "\<not> const_case f rs"
    and r: "reduce_app c f rs = (Inr (BR_DONE r), c')"
  shows "reduces I (App f rs) r"
proof -
  let ?c = "c\<lparr>m_const2bits := Map.empty, m_keys := [], m_values := [], m_keyval_lim := [], m_newbits := [], m_newbits_lim := []\<rparr>"
  have "reduce_bv ?c k ps rs = reduce_bv c k ps rs" for k ps by (simp add: reduce_bv_def Let_def)
  then have "fst (reduce_app ?c f rs) = fst (reduce_app c f rs)"
    using n by (cases f) (auto simp: reduce_app_def const_case_def Let_def)
  then have "reduce_app ?c f rs = (Inr (BR_DONE r), ?c)"
    using r reduce_app_other_state [OF n, of ?c] by (metis fst_conv prod.collapse)
  moreover have "cfg_inv ?c" "m_cfg (m_blaster ?c) = blaster_cfg (blaster_rewriter_of m)" "consistent ?c I"
    using blaster_inv_cfg [OF inv] by (simp_all add: cfg_inv_def consistent_def)
  ultimately show ?thesis using bb.reduce_app_sound w by blast
qed

lemma reduce_app_sorted:
  assumes inv: "blaster_inv m c" and w: "wf (App f rs)" and r: "reduce_app c f rs = (Inr (BR_DONE r), c')"
  shows "sorted_as (App f rs) r"
proof (cases "const_case f rs")
  case True
  then have f: "rs = []" "is_bv_const f" using const_case_is_bv_const w by blast+
  have "entry_ok f r"
    using cfg_inv_entry mk_const_inv [OF _ f(2), of c] inv r reduce_app_const [OF True, of c] by (auto simp: blaster_inv_def)
  then obtain w where "bvterm w (App f [])" "bvterm w r" by (rule entry_ok_bvterm)
  then show ?thesis unfolding sorted_as_def f(1) by (metis bvterm_sort bvterm_wf)
next
  case False
  then show ?thesis using reduce_app_reduces [OF inv w _ r, of undefined] by (simp add: reduces_def sorted_as_def)
qed

section \<open>The traversal returns\<close>

definition blaster_errors :: "rewriter_exception set" where
  "blaster_errors = {Canceled, Max_memory, Max_steps, Unsupported}"

lemma blaster_config_simps [simp]:
  "c_get_subst (blaster_rewriter_config res) c t = None" "c_pre_visit (blaster_rewriter_config res) c t"
  "c_reduce_var (blaster_rewriter_config res) c t = blaster_reduce_var c t"
  "c_get_macro (blaster_rewriter_config res) c f = None"
  "c_reduce_app (blaster_rewriter_config res) c f rs = reduce_app_checked (r_checkpoints res) c f rs"
  "\<not> c_flat_assoc (blaster_rewriter_config res) c f"
  "\<not> c_max_frames_exceeded (blaster_rewriter_config res) c n"
  "c_max_steps_exceeded (blaster_rewriter_config res) c k = max_steps_exceeded c (r_allocated res c k) k"
  by (simp_all add: blaster_rewriter_config_def default_rewriter_cfg_def)

lemma blaster_reduce_var_sorted:
  assumes "blaster_reduce_var c (Var i s) = Some r" "wf (Var i s)"
  shows "sorted_as (Var i s) r"
proof -
  have r: "is_bv (Var i s)" "r = blast_bv_term (Var i s)"
    using assms(1) by (auto simp: blaster_reduce_var_def split: if_splits)
  have "reduces I (Var i s) r" for I using blast_bv_term_reduces is_bvE [OF r(1) assms(2)] r(2) by metis
  then show ?thesis by (simp add: reduces_def sorted_as_def)
qed

lemma reduce_app_errors: "fst (reduce_app c f rs) = Inl e \<Longrightarrow> e = Unsupported"
proof -
  have "reduce_bv c k ps rs = Inl e \<Longrightarrow> e = Unsupported" for k ps
    by (cases k) (auto simp: reduce_bv_def Let_def split: if_splits)
  then show "fst (reduce_app c f rs) = Inl e \<Longrightarrow> e = Unsupported"
    by (auto simp: reduce_app_def Let_def case_prod_beta split: if_splits func_decl.splits)
qed

interpretation bbt: rewriter_total "blaster_rewriter_config res" E "[]" "[]" "blaster_inv m" "\<lambda>_. True" wf "\<lambda>_. True"
  sorted_as "\<lambda>t t'. wf t' \<and> (\<forall>s. sorted_as t' s \<longrightarrow> sorted_as t s)" blaster_errors for res E m
proof (unfold_locales, goal_cases)
  case (13 c c' f args rs x)
  have "c' = c \<or> c' = snd (reduce_app c f rs)" using reduce_app_checked_state [of "r_checkpoints res" c f rs] 13(5) by simp
  moreover have "wf (App f rs)" using sorted_as_congr [OF 13(3,4)] unfolding sorted_as_def by blast
  ultimately show ?case using reduce_app_inv [of c f rs] reduce_app_blaster [of c f rs] 13(1) unfolding blaster_inv_def by metis
next
  case (14 c c' f args rs r)
  note w = sorted_as_congr [OF 14(3,4)]
  have "reduce_app c f rs = (Inr (BR_DONE r), c')" using 14(5) by (auto dest: reduce_app_checked_Inr)
  from reduce_app_sorted [OF 14(1) _ this] w have "sorted_as (App f rs) r" unfolding sorted_as_def by blast
  with w show ?case by (rule sorted_as_trans)
next
  case (15 c c' f args rs b r n)
  then show ?case using reduce_app_no_rewrite [of c f rs b] by (auto dest!: reduce_app_checked_Inr)
next
  case (20 c f rs b c')
  then show ?case using reduce_app_no_rewrite [of c f rs b] by (auto dest!: reduce_app_checked_Inr)
next
  case (21 c f rs e c')
  then have "reduce_app_checked (r_checkpoints res) c f rs = (Inl e, c')" by simp
  then show ?case
    by (rule reduce_app_checked_cases)
      (use reduce_app_errors [of c f rs e] in \<open>auto simp: blaster_errors_def dest: stopped_exceptions\<close>)
next
  case (7 c i s r)
  then show ?case using blaster_reduce_var_sorted by simp
next
  case (10 f args rs)
  then show ?case using sorted_as_congr by blast
next
  case (17 p t t')
  then show ?case by (simp add: sorted_as_def)
next
  case (18 p t t')
  then show ?case by (simp add: sorted_as_def)
next
  case (23 c k e)
  then show ?case by (simp add: max_steps_exceeded_def blaster_errors_def split: if_splits)
qed (simp_all add: sorted_as_refl list_all_iff blaster_errors_def del: wf.simps, simp_all add: list_all_iff)

section \<open>Values\<close>

text \<open>
  A rewriter between two calls: nothing on its stacks, and what its cache holds for a term is right
  under all interpretations that agree with the map of constants.
\<close>

definition blaster_ready :: "ast_manager \<Rightarrow> blaster_rewriter_cfg rewriter_tpl \<Rightarrow> bool" where
  "blaster_ready m st = (m_frame_stack st = [] \<and> m_result_stack st = [] \<and> m_bindings st = [] \<and> m_shifts st = [] \<and>
     blaster_inv m (m_rw_cfg st) \<and>
     cached_ok (\<lambda>(k, n) v. n = 0 \<longrightarrow> sorted_as k v \<and> (\<forall>I. consistent (m_rw_cfg st) I \<longrightarrow> reduces I k v)) st)"

lemma blaster_ready_iff:
  "blaster_ready m st \<longleftrightarrow> bbt.idle m st \<and> (\<forall>I. consistent (m_rw_cfg st) I \<longrightarrow> bbr.trav.idle m I st)"
  by (auto simp: blaster_ready_def bbt.idle_def bbt.base_def bbr.trav.idle_def bbr.trav.base_def cached_ok_def
    ac.entries_ok_def sorted_as_refl reduces_refl)

lemma mk_imp_ready: "blaster_inv m c \<Longrightarrow> blaster_ready m (mk_imp n c)"
  using bbt.mk_idle [of m c n] bbr.trav.mk_idle by (simp add: blaster_ready_iff mk_imp_def)

text \<open>After \<open>cleanup\<close> the rewriter is ready whatever happened before, also after a scope was closed.\<close>

lemma cleanup_fields [simp]:
  "m_frame_stack (tpl_cleanup C n st) = []" "m_result_stack (tpl_cleanup C n st) = []"
  "m_bindings (tpl_cleanup C n st) = []" "m_shifts (tpl_cleanup C n st) = []"
  "m_rw_cfg (tpl_cleanup C n st) = c_cfg_cleanup C (m_rw_cfg st)"
  "m_cache_stack (tpl_cleanup C n st) = [mk_act_cache n]" "m_cache (tpl_cleanup C n st) = 0"
  by (cases st, simp add: tpl_cleanup_def core_cleanup_def)+

lemma cleanup_cached_ok: "cached_ok P (tpl_cleanup C n st)"
  by (simp add: cached_ok_def ac.entries_ok_def mk_act_cache_def lookup_def init_def)

lemma cleanup_ready:
  assumes "blaster_inv m (m_rw_cfg st)"
  shows "blaster_ready m (tpl_cleanup (blaster_rewriter_config res) n st)"
  unfolding blaster_ready_def using cleanup_cached_ok assms
  by (simp add: blaster_rewriter_config_def default_rewriter_cfg_def)

lemma blast_term:
  assumes st: "blaster_ready m st" and t: "wf t"
  shows "gives blaster_errors (\<lambda>r st'. blaster_ready m st' \<and> sorted_as t r \<and>
      (\<forall>I. consistent (m_rw_cfg st') I \<longrightarrow> reduces I t r) \<and>
      (e_inc E st \<longrightarrow> unat (m_num_steps st') \<le> term_weight t))
    (main_loop (blaster_rewriter_config res) E t st)"
proof -
  have i: "bbt.idle m st" using st by (simp add: blaster_ready_iff)
  from bbt.main_loop_gives [OF i t, of E res] show ?thesis
  proof (rule gives_mono)
    fix r st'
    assume ml: "main_loop (blaster_rewriter_config res) E t st = Some (Inr (r, st'))"
      and g: "sorted_as t r \<and> bbt.idle m st' \<and> (e_inc E st \<longrightarrow> unat (m_num_steps st') \<le> term_weight t)"
    have v: "reduces I t r \<and> bbr.trav.idle m I st'" if I: "consistent (m_rw_cfg st') I" for I
    proof -
      have "consistent (m_rw_cfg st) I" using bbr.trav.main_loop_md [OF ml I] .
      then have "bbr.trav.idle m I st" using st by (simp add: blaster_ready_iff)
      from bbr.trav.main_loop [OF ml this t I] show ?thesis .
    qed
    show "blaster_ready m st' \<and> sorted_as t r \<and> (\<forall>I. consistent (m_rw_cfg st') I \<longrightarrow> reduces I t r) \<and>
      (e_inc E st \<longrightarrow> unat (m_num_steps st') \<le> term_weight t)"
      using v g by (simp add: blaster_ready_iff)
  qed
qed

section \<open>Models\<close>

text \<open>
  From the state \<open>c0\<close> on: the names taken are as many as the new bits, and every interpretation
  consistent with \<open>c0\<close> has a variant, for the terms over the names of \<open>c0\<close>, that is consistent now.
\<close>

definition same_below :: "32 word \<Rightarrow> interp \<Rightarrow> interp \<Rightarrow> bool" where
  "same_below n I I' = (\<forall>e. below (unat n) e \<longrightarrow> eval I' e = eval I e)"

definition keeps_models :: "blaster_rewriter_cfg \<Rightarrow> blaster_rewriter_cfg \<Rightarrow> bool" where
  "keeps_models c0 c = (\<forall>I. consistent c0 I \<longrightarrow> (\<exists>I'. consistent c I' \<and> same_below (m_fresh_id c0) I I'))"

text \<open>The bits of the constants mapped since have new names.\<close>

definition new_bits :: "blaster_rewriter_cfg \<Rightarrow> blaster_rewriter_cfg \<Rightarrow> bool" where
  "new_bits c0 c = (length (m_values c0) \<le> length (m_values c) \<and>
     (\<forall>r \<in> set (drop (length (m_values c0)) (m_values c)). \<forall>b \<in> set (get_args r). \<not> below (unat (m_fresh_id c0)) b))"

definition model_inv :: "ast_manager \<Rightarrow> blaster_rewriter_cfg \<Rightarrow> blaster_rewriter_cfg \<Rightarrow> bool" where
  "model_inv m c0 c = (blaster_inv m c \<and> names_ok c \<and> length (m_newbits c0) \<le> length (m_newbits c) \<and>
     unat (m_fresh_id c) + length (m_newbits c0) = unat (m_fresh_id c0) + length (m_newbits c) \<and> keeps_models c0 c \<and> new_bits c0 c \<and> grows c0 c)"

text \<open>The counter of names has not wrapped since.\<close>

definition few_names :: "blaster_rewriter_cfg \<Rightarrow> blaster_rewriter_cfg \<Rightarrow> bool" where
  "few_names c0 c = (unat (m_fresh_id c0) + length (m_newbits c) < 2 ^ 32 + length (m_newbits c0))"

lemma few_names_mono: "few_names c0 (snd (reduce_app c f rs)) \<Longrightarrow> few_names c0 c"
  using reduce_app_grows [of c f rs] by (auto simp: grows_def few_names_def)

lemma same_below_trans:
  assumes "same_below a I I'" "same_below b I' I''" "unat a \<le> unat b"
  shows "same_below a I I''"
  using assms below_mono unfolding same_below_def by metis

lemma model_inv_new:
  assumes i: "model_inv m c0 c" and few: "few_names c0 (snd (reduce_app c f []))"
    and f: "is_bv_const f" "const_case f []" "decl_below (unat (m_fresh_id c0)) f" and new: "m_const2bits c f = None"
  shows "model_inv m c0 (snd (reduce_app c f []))"
proof -
  let ?c = "snd (reduce_app c f [])" and ?w = "bv_width (decl_range f [])"
  have c: "?c = snd (mk_const c f)" by (simp add: reduce_app_const [OF f(2)])
  have nb: "length (m_newbits ?c) = length (m_newbits c) + ?w" unfolding c mk_const_new [OF new] by simp
  have le: "unat (m_fresh_id c0) \<le> unat (m_fresh_id c)" using i by (simp add: model_inv_def)
  have nw: "unat (m_fresh_id c) + ?w < 2 ^ 32" using i few nb by (simp add: model_inv_def few_names_def)
  have id: "unat (m_fresh_id ?c) = unat (m_fresh_id c) + ?w"
    unfolding c mk_const_new [OF new] using unat_fresh_id [OF nw] by simp
  have d: "decl_below (unat (m_fresh_id c)) f" using decl_below_mono [OF f(3) le] .
  have w: "wf (App f [])" using f(1) by (cases f rule: is_bv_const.cases) auto
  have b: "blaster_inv m ?c"
    using i reduce_app_inv [OF _ w] reduce_app_blaster [of c f "[]"] by (simp add: model_inv_def blaster_inv_def)
  have n: "names_ok ?c" using i mk_const_names [OF _ d nw] by (simp add: model_inv_def c)
  have "\<exists>I'. consistent ?c I' \<and> same_below (m_fresh_id c0) I I'" if I: "consistent c0 I" for I
  proof -
    obtain I1 where I1: "consistent c I1" "same_below (m_fresh_id c0) I I1"
      using i I by (auto simp: model_inv_def keeps_models_def)
    have "cfg_inv c" "names_ok c" using i by (simp_all add: model_inv_def blaster_inv_def)
    then obtain I2 where "consistent (snd (mk_const c f)) I2" "\<And>e. below (unat (m_fresh_id c)) e \<Longrightarrow> eval I2 e = eval I1 e"
      using mk_const_model [OF _ _ f(1) d nw I1(1)] by blast
    then have "consistent ?c I2" "same_below (m_fresh_id c) I1 I2" by (simp_all add: c same_below_def)
    then show ?thesis using same_below_trans [OF I1(2) _ le] by blast
  qed
  moreover have "new_bits c0 ?c"
  proof -
    have "\<not> below (unat (m_fresh_id c0)) x" if "x \<in> set (get_args (new_const c f))" for x
      using that le fresh_bit_name [OF nw] by (auto simp: new_const_def mk_mkbv_def fresh_bits_def)
    then show ?thesis using i unfolding c mk_const_new [OF new] by (auto simp: model_inv_def new_bits_def)
  qed
  moreover have "grows c0 ?c" using i grows_trans [OF _ reduce_app_grows] by (simp add: model_inv_def)
  ultimately show ?thesis using i b n id nb by (simp add: model_inv_def keeps_models_def)
qed

lemma model_inv_reduce:
  assumes i: "model_inv m c0 c" and few: "few_names c0 (snd (reduce_app c f rs))" and w: "wf (App f rs)"
    and d: "decl_below (unat (m_fresh_id c0)) f"
  shows "model_inv m c0 (snd (reduce_app c f rs))"
proof (cases "const_case f rs \<and> m_const2bits c f = None")
  case True
  then have "rs = []" "is_bv_const f" using const_case_is_bv_const w by blast+
  then show ?thesis using model_inv_new [OF i] few d True by blast
next
  case False
  then have "snd (reduce_app c f rs) = c"
    using reduce_app_other_state [of f rs c] reduce_app_const [of f rs c] mk_const_known [of c f]
    by (cases "const_case f rs") auto
  then show ?thesis using i by simp
qed

interpretation bbm: rewriter_laws "blaster_rewriter_config res" E "[]" "[]" "model_inv m c0" "few_names c0"
  "\<lambda>t. wf t \<and> below (unat (m_fresh_id c0)) t" "\<lambda>_. True" sorted_as
  "\<lambda>t t'. (wf t' \<and> below (unat (m_fresh_id c0)) t') \<and> (\<forall>s. sorted_as t' s \<longrightarrow> sorted_as t s)" for res E m c0
proof (unfold_locales, goal_cases)
  case (7 c i s r)
  then show ?case using blaster_reduce_var_sorted by simp
next
  case (10 f args rs)
  then show ?case using sorted_as_congr by blast
next
  case (12 c f rs x c')
  then have "c' = c \<or> c' = snd (reduce_app c f rs)" using reduce_app_checked_state [of "r_checkpoints res" c f rs] by simp
  then show ?case using few_names_mono 12(2) by blast
next
  case (13 c c' f args rs x)
  have c': "c' = c \<or> c' = snd (reduce_app c f rs)" using reduce_app_checked_state [of "r_checkpoints res" c f rs] 13(5) by simp
  have "wf (App f args)" using 13(3) by blast
  then have "wf (App f rs)" using sorted_as_congr 13(4) unfolding sorted_as_def by blast
  then show ?case using model_inv_reduce [OF 13(1), of f rs] 13(1-3) c' by auto
next
  case (14 c c' f args rs r)
  have "wf (App f args)" using 14(3) by blast
  note w = sorted_as_congr [OF this 14(4)]
  have "reduce_app c f rs = (Inr (BR_DONE r), c')" using 14(5) by (auto dest: reduce_app_checked_Inr)
  moreover have "blaster_inv m c" using 14(1) by (simp add: model_inv_def)
  ultimately have "sorted_as (App f rs) r" using reduce_app_sorted w unfolding sorted_as_def by blast
  with w show ?case by (rule sorted_as_trans)
next
  case (15 c c' f args rs b r n)
  then show ?case using reduce_app_no_rewrite [of c f rs b] by (auto dest!: reduce_app_checked_Inr)
next
  case (17 p t t')
  then show ?case by (simp add: sorted_as_def)
next
  case (18 p t t')
  then show ?case by (simp add: sorted_as_def)
qed (simp_all add: sorted_as_refl list_all_iff del: wf.simps, simp_all add: list_all_iff)

lemma blaster_models_idle:
  assumes "blaster_ready m st" "names_ok (m_rw_cfg st)"
  shows "bbm.idle m (m_rw_cfg st) st"
proof -
  have "keeps_models (m_rw_cfg st) (m_rw_cfg st)" "new_bits (m_rw_cfg st) (m_rw_cfg st)"
    by (auto simp: keeps_models_def same_below_def new_bits_def)
  then show ?thesis using assms
    by (auto simp: bbm.idle_def bbm.base_def blaster_ready_def model_inv_def cached_ok_def ac.entries_ok_def sorted_as_refl)
qed

lemma blast_term_models:
  assumes st: "blaster_ready m st" "names_ok (m_rw_cfg st)"
    and t: "wf t" "below (unat (m_fresh_id (m_rw_cfg st))) t"
    and ml: "main_loop (blaster_rewriter_config res) E t st = Some (Inr (r, st'))"
    and few: "few_names (m_rw_cfg st) (m_rw_cfg st')"
  shows "model_inv m (m_rw_cfg st) (m_rw_cfg st')"
  using bbm.main_loop [OF ml blaster_models_idle [OF st] _ few] t by (simp add: bbm.idle_def bbm.base_def)

end
