(* ===== verification/Bit_Blaster_Bits.thy ===== *)
theory Bit_Blaster_Bits
  imports Bit_Blaster_Term
begin

text \<open>
  A bit-blasted term speaks of the bits and no longer of the bit-vector constants: its value under
  any interpretation is the value the source term has when the constants are given the values of
  their bits. This is a third relation between a term and its result that the contract
  \<open>rewriter_laws\<close> carries through the traversal of \<open>bit_blaster_rewriter::imp\<close>.
\<close>

section \<open>Constants with given values\<close>

definition blasted :: "interp \<Rightarrow> (func_decl \<Rightarrow> nat) \<Rightarrow> interp" where
  "blasted I v = I\<lparr>ifun := (\<lambda>f ds r vs.
     if is_bv_const (Uninterp f ds r) \<and> vs = [] then v (Uninterp f ds r) else ifun I f ds r vs)\<rparr>"

definition const_values :: "interp \<Rightarrow> func_decl \<Rightarrow> nat" where
  "const_values I d = (case d of Uninterp f ds r \<Rightarrow> ifun I f ds r [] | _ \<Rightarrow> 0)"

lemma blasted_const_values [simp]: "blasted I (const_values I) = I"
  by (rule interp.equality) (auto simp: blasted_def const_values_def fun_eq_iff)

lemma eval_bv_blasted: "eval_bv (blasted I v) k ps vs = eval_bv I k ps vs"
  by (cases k) (simp_all add: eval_bv_def blasted_def)

lemma eval_decl_blasted: "\<not> (is_bv_const d \<and> vs = []) \<Longrightarrow> eval_decl (blasted I v) d vs = eval_decl I d vs"
  by (cases d) (simp_all add: eval_bv_blasted, auto simp: blasted_def)

lemma ivar_blasted [simp]: "ivar (blasted I v) = ivar I"
  by (simp add: blasted_def)

lemma eval_bit_const_blasted: "is_bit_const b \<Longrightarrow> eval (blasted I v) b = eval I b"
  by (cases b rule: is_bit_const.cases) (simp_all add: blasted_def)

lemma eval_entry_blasted:
  assumes "entry_ok f r"
  shows "eval (blasted I v) r = eval I r"
proof -
  obtain bits where r: "r = mk_mkbv bits" "list_all is_bit_const bits" using assms by (rule entry_okE)
  then have "map (eval (blasted I v)) bits = map (eval I) bits" by (simp add: list_all_iff eval_bit_const_blasted)
  then show ?thesis by (simp only: r(1) mk_mkbv_def eval.simps eval_decl.simps eval_bv_blasted)
qed

section \<open>The relation of the traversal\<close>

definition stands_for :: "interp \<Rightarrow> (func_decl \<Rightarrow> nat) \<Rightarrow> expr \<Rightarrow> expr \<Rightarrow> bool" where
  "stands_for I v t r = (sorted_as t r \<and> eval I r = eval (blasted I v) t)"

lemma stands_for_args:
  assumes "list_all2 (stands_for I v) args rs"
  shows "list_all2 sorted_as args rs" "map (eval I) rs = map (eval (blasted I v)) args"
  using assms by (induction rule: list_all2_induct) (auto simp: stands_for_def)

lemma stands_for_congr:
  assumes "wf (App f args)" "list_all2 (stands_for I v) args rs" "\<not> (is_bv_const f \<and> args = [])"
  shows "stands_for I v (App f args) (App f rs)"
proof -
  note a = stands_for_args [OF assms(2)]
  have "eval I (App f rs) = eval_decl I f (map (eval (blasted I v)) args)" by (simp add: a(2))
  also have "\<dots> = eval (blasted I v) (App f args)" using eval_decl_blasted [of f "map (eval (blasted I v)) args"] assms(3) by simp
  finally show ?thesis using sorted_as_congr [OF assms(1) a(1)] by (simp add: stands_for_def)
qed

lemma stands_for_trans: "sorted_as a b \<Longrightarrow> eval (blasted I v) a = eval (blasted I v) b \<Longrightarrow> stands_for I v b c \<Longrightarrow> stands_for I v a c"
  using sorted_as_trans by (auto simp: stands_for_def)

lemma stands_for_reduce:
  assumes inv: "blaster_inv m c" and con: "consistent c' (blasted I v)" and w: "wf (App f args)"
    and a: "list_all2 (stands_for I v) args rs" and r: "reduce_app c f rs = (Inr (BR_DONE r), c')"
  shows "stands_for I v (App f args) r"
proof (cases "const_case f rs")
  case True
  note s = sorted_as_congr [OF w stands_for_args(1) [OF a]]
  have f: "rs = []" "is_bv_const f" using const_case_is_bv_const [OF True] s by (auto simp: sorted_as_def)
  then have args: "args = []" using a by simp
  have c': "c' = snd (mk_const c f)" "r = fst (mk_const c f)" using r reduce_app_const [OF True, of c] by simp_all
  have i: "cfg_inv c'" "m_const2bits c' f = Some r" using mk_const_inv [OF _ f(2), of c] inv by (simp_all add: c' blaster_inv_def)
  have e: "entry_ok f r" using cfg_inv_entry [OF i] .
  have "eval I r = eval (blasted I v) (App f [])"
    using con i(2) eval_entry_blasted [OF e] by (simp add: consistent_def)
  moreover have "sorted_as (App f []) r" using reduce_app_sorted [OF inv _ r] s f(1) by (simp add: sorted_as_def)
  ultimately show ?thesis by (simp add: stands_for_def args)
next
  case False
  have n: "\<not> (is_bv_const f \<and> args = [])"
    using False a by (cases f rule: is_bv_const.cases) (auto simp: const_case_def)
  note s = stands_for_congr [OF w a n]
  have "wf (App f rs)" using s by (simp add: stands_for_def sorted_as_def)
  then have "reduces I (App f rs) r" using reduce_app_reduces [OF inv _ False r] by blast
  then show ?thesis using s sorted_as_trans by (auto simp: stands_for_def reduces_def sorted_as_def)
qed

lemma reduce_app_const_done:
  assumes "is_bv_const f" "reduce_app c f [] = (Inr b, c')"
  shows "\<exists>r. b = BR_DONE r"
proof -
  have "const_case f []" using assms(1) by (cases f rule: is_bv_const.cases) (auto simp: const_case_def)
  then show ?thesis using assms(2) reduce_app_const by auto
qed

interpretation bbs: rewriter_laws "blaster_rewriter_config res" E "[]" "[]" "blaster_inv m"
  "\<lambda>c. consistent c (blasted I v)" wf "\<lambda>_. False" "stands_for I v"
  "\<lambda>t t'. wf t' \<and> (\<forall>s. stands_for I v t' s \<longrightarrow> stands_for I v t s)" for res E m I v
proof (unfold_locales, goal_cases)
  case (7 c i s r)
  then have r: "is_bv (Var i s)" "r = blast_bv_term (Var i s)" by (auto simp: blaster_reduce_var_def split: if_splits)
  then have "reduces I (Var i s) r" using blast_bv_term_reduces is_bvE [OF r(1) 7(3)] by metis
  then show ?case by (simp add: stands_for_def sorted_as_def reduces_def)
next
  case (9 i s)
  then show ?case by (simp add: stands_for_def sorted_as_def)
next
  case (10 f args rs rs' c b c')
  have "\<not> (is_bv_const f \<and> args = [])"
  proof
    assume f: "is_bv_const f \<and> args = []"
    then have "reduce_app c f [] = (Inr b, c')" using 10(3,4) by (auto dest: reduce_app_checked_Inr)
    then show False using reduce_app_const_done f 10(5) by blast
  qed
  then show ?case using stands_for_congr 10(1,2) by blast
next
  case (12 c f rs x c')
  then have "c' = c \<or> c' = snd (reduce_app c f rs)" using reduce_app_checked_state [of "r_checkpoints res" c f rs] by simp
  then show ?case using consistent_mono 12(2) by blast
next
  case (13 c c' f args rs x)
  have "c' = c \<or> c' = snd (reduce_app c f rs)" using reduce_app_checked_state [of "r_checkpoints res" c f rs] 13(5) by simp
  moreover have "wf (App f rs)" using sorted_as_congr [OF 13(3) stands_for_args(1) [OF 13(4)]] by (simp add: sorted_as_def)
  ultimately show ?case using reduce_app_inv [of c f rs] reduce_app_blaster [of c f rs] 13(1) unfolding blaster_inv_def by metis
next
  case (14 c c' f args rs r)
  have "reduce_app c f rs = (Inr (BR_DONE r), c')" using 14(5) by (auto dest: reduce_app_checked_Inr)
  then show ?case using stands_for_reduce 14(1-4) by blast
next
  case (15 c c' f args rs b r n)
  then show ?case using reduce_app_no_rewrite [of c f rs b] by (auto dest!: reduce_app_checked_Inr)
next
  case (17 p t t')
  then have "eval (blasted I v) p = VBool True" by (simp add: stands_for_def m_mk_true_def eval_basic_def)
  then show ?case using 17(1) stands_for_trans [of "App (Basic OP_ITE) [p, t, t']" t]
    by (auto simp: sorted_as_def eval_basic_def)
next
  case (18 p t t')
  then have "eval (blasted I v) p = VBool False" by (simp add: stands_for_def m_mk_false_def eval_basic_def)
  then show ?case using 18(1) stands_for_trans [of "App (Basic OP_ITE) [p, t, t']" t']
    by (auto simp: sorted_as_def eval_basic_def)
qed (simp_all add: list_all_iff del: wf.simps, simp_all add: list_all_iff)

end
