(* ===== verification/Model_Converter_Sound.thy ===== *)
theory Model_Converter_Sound
  imports Model_Converter Bit_Blaster_Bits
begin

text \<open>
  The converter of the bit-blaster gives every mapped constant the number its bits have in the model
  and forgets the bits; the formula it stands for says that the constants equal their bits.
\<close>

section \<open>The new model\<close>

text \<open>The list of constants of a model is the domain of its map.\<close>

definition model_ok :: "model \<Rightarrow> bool" where
  "model_ok md = (set (m_const_decls md) = dom (m_interp md))"

text \<open>The bits have truth values or none.\<close>

definition bits_ok :: "model \<Rightarrow> expr list \<Rightarrow> bool" where
  "bits_ok md m_bits = (\<forall>bs \<in> set m_bits. \<forall>b \<in> set (get_args bs).
     bit_interp md b \<in> {None, Some m_mk_true, Some m_mk_false})"

lemma register_decl_simps [simp]:
  "m_interp (register_decl d v md) = (m_interp md)(d \<mapsto> v)" "m_finterp (register_decl d v md) = m_finterp md"
  by (simp_all add: register_decl_def)

lemma register_decl_ok: "model_ok md \<Longrightarrow> model_ok (register_decl d v md)"
  by (auto simp: model_ok_def register_decl_def)

lemma copy_non_bits_loop:
  fixes old md :: model and bits ds :: "func_decl list"
  defines "md' \<equiv> fold (\<lambda>f md. if f \<in> set bits then md
      else (case m_interp old f of None \<Rightarrow> md | Some fi \<Rightarrow> register_decl f fi md)) ds md"
  shows "m_interp md' d = (if d \<in> set ds \<and> d \<notin> set bits \<and> m_interp old d \<noteq> None then m_interp old d else m_interp md d)"
    "m_finterp md' = m_finterp md" "model_ok md \<Longrightarrow> model_ok md'"
  unfolding md'_def
  by (induction ds arbitrary: md) (auto simp: register_decl_ok split: option.split)

lemma copy_non_bits:
  assumes "model_ok old"
  shows "m_interp (copy_non_bits bits old md) d = (if d \<notin> set bits \<and> m_interp old d \<noteq> None then m_interp old d else m_interp md d)"
    "m_finterp (copy_non_bits bits old md) = m_finterp md ++ m_finterp old"
    "model_ok md \<Longrightarrow> model_ok (copy_non_bits bits old md)"
  using assms copy_non_bits_loop [where old = old and md = md and bits = bits and ds = "m_const_decls old"]
  by (auto simp: copy_non_bits_def copy_func_interps_def copy_usort_interps_def model_ok_def)

lemma mk_bvs_all:
  assumes "length vs = length bss" "distinct vs"
  shows "(\<forall>d. m_interp (mk_bvs TO_BOOL vs bss old md) d = (case map_of (zip vs bss) d of
      None \<Rightarrow> m_interp md d
    | Some bs \<Rightarrow> Some (case m_interp old d of
          Some x \<Rightarrow> x
        | None \<Rightarrow> mk_numeral (mk_bv_value TO_BOOL old (get_args bs)) (get_num_args bs)))) \<and>
    m_finterp (mk_bvs TO_BOOL vs bss old md) = m_finterp md \<and>
    (model_ok md \<longrightarrow> model_ok (mk_bvs TO_BOOL vs bss old md))"
  using assms
proof (induction vs bss arbitrary: md rule: list_induct2)
  case (Cons v vs bs bss)
  let ?x = "case m_interp old v of Some x \<Rightarrow> x | None \<Rightarrow> mk_numeral (mk_bv_value TO_BOOL old (get_args bs)) (get_num_args bs)"
  have s: "mk_bvs TO_BOOL (v # vs) (bs # bss) old md = mk_bvs TO_BOOL vs bss old (register_decl v ?x md)"
    by (simp split: option.split)
  have v: "map_of (zip vs bss) v = None" using Cons.hyps Cons.prems by (simp add: map_of_zip_is_None)
  have "distinct vs" using Cons.prems by simp
  note ih = Cons.IH [OF this, of "register_decl v ?x md"]
  show ?case unfolding s using ih v register_decl_ok by (auto split: option.split)
qed simp

lemmas mk_bvs =
  mk_bvs_all [THEN conjunct1, THEN spec] mk_bvs_all [THEN conjunct2, THEN conjunct1]
  mk_bvs_all [THEN conjunct2, THEN conjunct2, THEN mp]

lemma convert_bits:
  assumes "model_ok md" "length vs = length bss" "distinct vs"
  shows "m_interp (convert_bits TO_BOOL vs bss md) d = (case map_of (zip vs bss) d of
      None \<Rightarrow> (if d \<in> set (collect_bits bss) then None else m_interp md d)
    | Some bs \<Rightarrow> Some (case m_interp md d of
          Some x \<Rightarrow> x
        | None \<Rightarrow> mk_numeral (mk_bv_value TO_BOOL md (get_args bs)) (get_num_args bs)))"
    "m_finterp (convert_bits TO_BOOL vs bss md) = m_finterp md"
    "model_ok (convert_bits TO_BOOL vs bss md)"
proof -
  have e: "model_ok empty_model" by (simp add: model_ok_def empty_model_def)
  show "m_interp (convert_bits TO_BOOL vs bss md) d = (case map_of (zip vs bss) d of
      None \<Rightarrow> (if d \<in> set (collect_bits bss) then None else m_interp md d)
    | Some bs \<Rightarrow> Some (case m_interp md d of
          Some x \<Rightarrow> x
        | None \<Rightarrow> mk_numeral (mk_bv_value TO_BOOL md (get_args bs)) (get_num_args bs)))"
    by (simp add: convert_bits_def mk_bvs [OF assms(2,3)] copy_non_bits [OF assms(1)] empty_model_def split: option.split)
  show "m_finterp (convert_bits TO_BOOL vs bss md) = m_finterp md" "model_ok (convert_bits TO_BOOL vs bss md)"
    using e by (simp_all add: convert_bits_def mk_bvs [OF assms(2,3)] copy_non_bits [OF assms(1)])
      (simp_all add: empty_model_def)
qed

section \<open>The value of the bits\<close>

lemma tv_bit_const:
  assumes "is_bit_const b" "bit_interp md b \<in> {None, Some m_mk_true, Some m_mk_false}"
  shows "tv (model_interp I md) b \<longleftrightarrow> bit_interp md b = Some m_mk_true"
  using assms
  by (cases b rule: is_bit_const.cases)
    (auto simp: bit_interp_def tv_def model_interp_def const_value_def m_mk_true_def m_mk_false_def eval_basic_def)

lemma mk_bv_value:
  assumes "list_all is_bit_const bits" "\<forall>b \<in> set bits. bit_interp md b \<in> {None, Some m_mk_true, Some m_mk_false}"
  shows "mk_bv_value True md bits = bval (model_interp I md) bits"
  using assms
proof (induction bits)
  case Nil
  then show ?case by (simp add: mk_bv_value_def bval_def)
next
  case (Cons b bits)
  then have "tv (model_interp I md) b \<longleftrightarrow> bit_interp md b = Some m_mk_true" using tv_bit_const by simp
  then show ?case using Cons by (auto simp: mk_bv_value_def bval_def m_is_true_def split: option.split)
qed

section \<open>The interpretation of the new model\<close>

text \<open>Interpretations that agree on the names below \<open>n\<close> agree on the terms over these names.\<close>

lemma eval_agree:
  assumes "below n e" "ivar I = ivar J" "ibv I = ibv J"
    "\<And>f ds r vs. decl_below n (Uninterp f ds r) \<Longrightarrow> ifun I f ds r vs = ifun J f ds r vs"
  shows "eval I e = eval J e"
  using assms(1)
proof (induction e)
  case (Var i s)
  then show ?case by (simp add: assms(2))
next
  case (App d args)
  have b: "eval_bv I k ps vs = eval_bv J k ps vs" for k ps vs by (cases k) (simp_all add: eval_bv_def assms(3))
  have m: "map (eval I) args = map (eval J) args" using App by (auto simp: list_all_iff)
  show ?case using App.prems assms(4) unfolding eval.simps m
    by (cases d) (simp_all add: b)
qed

text \<open>The value each constant gets: that of its bits, or its own.\<close>

definition bit_values :: "interp \<Rightarrow> func_decl list \<Rightarrow> expr list \<Rightarrow> func_decl \<Rightarrow> nat" where
  "bit_values J vs bss d = (case map_of (zip vs bss) d of
       Some bs \<Rightarrow> bval J (get_args bs)
     | None \<Rightarrow> const_values J d)"

lemma bit_values_entry:
  assumes "entry_ok f r" "map_of (zip vs bss) f = Some r"
  shows "eval (blasted J (bit_values J vs bss)) (App f []) = eval (blasted J (bit_values J vs bss)) r"
proof -
  obtain s w bits where e: "f = Uninterp s [] (BV_sort w)" "r = mk_mkbv bits" "length bits = w" "0 < w"
    using assms(1) by (rule entry_okE)
  have "eval (blasted J (bit_values J vs bss)) (App f []) = VBV w (bval J bits mod 2 ^ w)"
    using e assms(2) by (simp add: blasted_def bit_values_def mk_mkbv_def)
  also have "\<dots> = VBV w (bval J bits)" using bits_val_less [of "map (tv J) bits"] e(3) by (simp add: bval_def)
  also have "\<dots> = eval J r" using e(3) by (simp add: e(2) mk_mkbv_def eval_bv_def bval_def tv_def [abs_def] comp_def)
  also have "\<dots> = eval (blasted J (bit_values J vs bss)) r" by (rule eval_entry_blasted [OF assms(1), symmetric])
  finally show ?thesis .
qed

lemma collect_bits_new:
  assumes "\<forall>bs \<in> set bss. \<forall>b \<in> set (get_args bs). is_bit_const b \<and> \<not> below n b" "d \<in> set (collect_bits bss)"
  shows "\<not> decl_below n d"
proof -
  obtain bs b where b: "bs \<in> set bss" "b \<in> set (get_args bs)" "get_decl b = Some d"
    using assms(2) by (auto simp: collect_bits_def List.map_filter_def)
  then have "is_bit_const b" "\<not> below n b" using assms(1) by auto
  then show ?thesis using b(3) by (cases b rule: is_bit_const.cases) auto
qed

lemma converted_eval:
  assumes ok: "model_ok md" "bits_ok md bss" and e: "list_all2 entry_ok vs bss" "distinct vs"
    and free: "\<forall>v \<in> set vs. m_interp md v = None"
    and new: "\<forall>bs \<in> set bss. \<forall>b \<in> set (get_args bs). \<not> below n b" and t: "below n t"
  shows "eval (model_interp I (convert_bits True vs bss md)) t =
    eval (blasted (model_interp I md) (bit_values (model_interp I md) vs bss)) t"
proof (rule eval_agree [OF t])
  let ?J = "model_interp I md"
  have len: "length vs = length bss" using e(1) by (rule list_all2_lengthD)
  note c = convert_bits [OF ok(1) len e(2)]
  have bits: "\<forall>bs \<in> set bss. \<forall>b \<in> set (get_args bs). is_bit_const b"
  proof (intro ballI)
    fix bs b
    assume b: "bs \<in> set bss" "b \<in> set (get_args bs)"
    then obtain v where "entry_ok v bs" using e(1) by (auto simp: list_all2_conv_all_nth in_set_conv_nth)
    then show "is_bit_const b" using b(2) by (auto elim!: entry_okE simp: mk_mkbv_def list_all_iff)
  qed
  fix f ds r ws
  assume d: "decl_below n (Uninterp f ds r)"
  let ?d = "Uninterp f ds r"
  have nb: "?d \<notin> set (collect_bits bss)" using collect_bits_new bits new d by blast
  show "ifun (model_interp I (convert_bits True vs bss md)) f ds r ws = ifun (blasted ?J (bit_values ?J vs bss)) f ds r ws"
  proof (cases "ds = [] \<and> ws = []")
    case False
    then show ?thesis using c(2) by (cases r) (auto simp: model_interp_def blasted_def)
  next
    case True
    show ?thesis
    proof (cases "map_of (zip vs bss) ?d")
      case None
      then have "m_interp (convert_bits True vs bss md) ?d = m_interp md ?d" using c(1) [of True ?d] nb by simp
      then show ?thesis using True None
        by (simp add: model_interp_def blasted_def bit_values_def const_values_def)
    next
      case (Some bs)
      then have m: "(?d, bs) \<in> set (zip vs bss)" by (rule map_of_SomeD)
      then have eo: "entry_ok ?d bs" using e(1) by (auto simp: list_all2_iff)
      then obtain w bits where b: "r = BV_sort w" "bs = mk_mkbv bits" "length bits = w" "0 < w" "list_all is_bit_const bits"
        by (auto elim: entry_okE)
      have "bit_interp md b \<in> {None, Some m_mk_true, Some m_mk_false}" if "b \<in> set bits" for b
        using ok(2) m that unfolding bits_ok_def b(2) by (fastforce dest: set_zip_rightD simp: mk_mkbv_def)
      then have v: "mk_bv_value True md bits = bval ?J bits" using mk_bv_value [OF b(5)] by blast
      have "m_interp md ?d = None" using free m by (blast dest: set_zip_leftD)
      then have "m_interp (convert_bits True vs bss md) ?d = Some (mk_numeral (bval ?J bits) w)"
        using c(1) [of True ?d] Some v b(3) by (simp add: b(2) mk_mkbv_def)
      moreover have "bval ?J bits < 2 ^ w" using bits_val_less [of "map (tv ?J) bits"] b(3) by (simp add: bval_def)
      ultimately show ?thesis using True Some b
        by (simp add: model_interp_def blasted_def bit_values_def const_value_def mk_numeral_def eval_bv_def mk_mkbv_def)
    qed
  qed
qed (simp_all add: model_interp_def blasted_def)

section \<open>The formula of the converter\<close>

lemma convert_formula:
  assumes "bexp fml" "list_all2 entry_ok vs bss"
  shows "tv I (fst (convert_formula vs bss fml)) \<longleftrightarrow>
    tv I fml \<and> (\<forall>(v, bs) \<in> set (zip vs bss). eval I (App v []) = eval I bs)"
proof (cases "vs = []")
  case False
  then obtain v vs' bs bss' where s: "vs = v # vs'" "bss = bs # bss'" using assms(2) by (cases vs; cases bss) auto
  show ?thesis by (auto simp: s convert_formula_def ast_mk_and_def list_all_iff)
qed (simp add: convert_formula_def)

end
