(* ===== verification/Bit_Blaster_Bound.thy ===== *)
theory Bit_Blaster_Bound
  imports Bit_Blaster_Term
begin

text \<open>
  How many fresh bits the bit-blaster makes for a term: at most as many as the bit-vector constants of
  the term are wide, each counted once. So whether the counter of names can wrap is seen from the
  term and the state before.
\<close>

section \<open>The constants of a term\<close>

fun bv_consts :: "expr \<Rightarrow> func_decl list" where
  "bv_consts (Var i s) = []"
| "bv_consts (App d args) = (if args = [] \<and> is_bv_const d then [d] else concat (map bv_consts args))"

definition bits_of :: "func_decl set \<Rightarrow> nat" where
  "bits_of K = (\<Sum>k \<in> K. bv_width (decl_range k []))"

lemma bits_of_mono: "finite K \<Longrightarrow> K' \<subseteq> K \<Longrightarrow> bits_of K' \<le> bits_of K"
  unfolding bits_of_def by (rule sum_mono2) auto

lemma bits_of_insert: "finite K \<Longrightarrow> k \<notin> K \<Longrightarrow> bits_of (insert k K) = bv_width (decl_range k []) + bits_of K"
  by (simp add: bits_of_def)

lemma bv_consts_args: "set (bv_consts (App f args)) \<subseteq> K \<Longrightarrow> a \<in> set args \<Longrightarrow> set (bv_consts a) \<subseteq> K"
  by (auto split: if_splits)

section \<open>The invariant\<close>

text \<open>From the state \<open>c0\<close> on only constants of \<open>K\<close> were mapped, and the new bits are theirs.\<close>

definition bound_inv :: "ast_manager \<Rightarrow> func_decl set \<Rightarrow> blaster_rewriter_cfg \<Rightarrow> blaster_rewriter_cfg \<Rightarrow> bool" where
  "bound_inv m K c0 c = (blaster_inv m c \<and> set (m_keys c0) \<subseteq> set (m_keys c) \<and> set (m_keys c) \<subseteq> set (m_keys c0) \<union> K \<and>
     length (m_newbits c) = length (m_newbits c0) + bits_of (set (m_keys c) - set (m_keys c0)))"

lemma bound_inv_reduce:
  assumes i: "bound_inv m K c0 c" and w: "wf (App f rs)" and K: "is_bv_const f \<Longrightarrow> rs = [] \<Longrightarrow> f \<in> K"
  shows "bound_inv m K c0 (snd (reduce_app c f rs))"
proof (cases "const_case f rs \<and> m_const2bits c f = None")
  case True
  let ?c = "snd (reduce_app c f rs)"
  have f: "rs = []" "is_bv_const f" using True const_case_is_bv_const w by blast+
  have c: "?c = snd (mk_const c f)" using True by (simp add: reduce_app_const)
  have n: "m_const2bits c f = None" using True by blast
  have cfg: "cfg_inv c" using i by (simp add: bound_inv_def blaster_inv_def)
  then have new: "f \<notin> set (m_keys c)" using n by (auto simp: cfg_inv_def map_of_zip_is_None)
  have "blaster_inv m ?c" using i reduce_app_inv [OF cfg w] reduce_app_blaster [of c f rs] by (simp add: bound_inv_def blaster_inv_def)
  moreover have "insert f (set (m_keys c)) - set (m_keys c0) = insert f (set (m_keys c) - set (m_keys c0))"
    using i new by (auto simp: bound_inv_def)
  ultimately show ?thesis using i new K [OF f(2,1)]
    unfolding c mk_const_new [OF n] by (auto simp: bound_inv_def bits_of_insert c mk_const_new [OF n] fresh_bits_def)
next
  case False
  then have "snd (reduce_app c f rs) = c"
    using reduce_app_other_state [of f rs c] reduce_app_const [of f rs c] mk_const_known [of c f]
    by (cases "const_case f rs") auto
  then show ?thesis using i by simp
qed

interpretation bbk: rewriter_laws "blaster_rewriter_config res" E "[]" "[]" "bound_inv m K c0" "\<lambda>_. True"
  "\<lambda>t. wf t \<and> set (bv_consts t) \<subseteq> K" "\<lambda>_. True" sorted_as
  "\<lambda>t t'. (wf t' \<and> set (bv_consts t') \<subseteq> K) \<and> (\<forall>s. sorted_as t' s \<longrightarrow> sorted_as t s)" for res E m K c0
proof (unfold_locales, goal_cases)
  case (7 c i s r)
  then show ?case using blaster_reduce_var_sorted by simp
next
  case (10 f args rs)
  then show ?case using sorted_as_congr by blast
next
  case (13 c c' f args rs x)
  have c': "c' = c \<or> c' = snd (reduce_app c f rs)" using reduce_app_checked_state [of "r_checkpoints res" c f rs] 13(5) by simp
  have s: "wf (App f args)" "set (bv_consts (App f args)) \<subseteq> K" using 13(3) by blast+
  then have "wf (App f rs)" using sorted_as_congr 13(4) unfolding sorted_as_def by blast
  moreover have "f \<in> K" if "is_bv_const f" "rs = []"
  proof -
    have "args = []" using 13(4) that(2) by simp
    then show ?thesis using s(2) that(1) by simp
  qed
  ultimately show ?case using bound_inv_reduce [OF 13(1), of f rs] 13(1) c' by blast
next
  case (14 c c' f args rs r)
  have "wf (App f args)" using 14(3) by blast
  note w = sorted_as_congr [OF this 14(4)]
  have "reduce_app c f rs = (Inr (BR_DONE r), c')" using 14(5) by (auto dest: reduce_app_checked_Inr)
  moreover have "blaster_inv m c" using 14(1) by (simp add: bound_inv_def)
  ultimately have "sorted_as (App f rs) r" using reduce_app_sorted w unfolding sorted_as_def by blast
  with w show ?case by (rule sorted_as_trans)
next
  case (15 c c' f args rs b r n)
  then show ?case using reduce_app_no_rewrite [of c f rs b] by (auto dest!: reduce_app_checked_Inr)
next
  case (17 p t t')
  then show ?case by (simp add: sorted_as_def)
next
  case (18 p t t')
  then show ?case by (simp add: sorted_as_def)
qed (simp_all add: sorted_as_refl list_all_iff del: wf.simps bv_consts.simps, simp_all add: list_all_iff del: bv_consts.simps, blast dest: bv_consts_args)

lemma bound_few_names:
  assumes "bound_inv m K c0 c" "finite K" "unat (m_fresh_id c0) + bits_of K < 2 ^ 32"
  shows "few_names c0 c"
proof -
  have "set (m_keys c) - set (m_keys c0) \<subseteq> K" using assms(1) by (auto simp: bound_inv_def)
  note le = bits_of_mono [OF assms(2) this]
  have "length (m_newbits c) = length (m_newbits c0) + bits_of (set (m_keys c) - set (m_keys c0))"
    using assms(1) by (simp add: bound_inv_def)
  then show ?thesis using le assms(3) unfolding few_names_def by linarith
qed

lemma bound_idle:
  assumes "blaster_ready m st"
  shows "bbk.idle m K (m_rw_cfg st) st"
  using assms by (auto simp: bbk.idle_def bbk.base_def blaster_ready_def bound_inv_def bits_of_def cached_ok_def
    ac.entries_ok_def sorted_as_refl)

text \<open>The number of bits a term needs, and the traversal that makes no more.\<close>

lemma blast_term_bits:
  assumes "blaster_ready m st" "wf t" "main_loop (blaster_rewriter_config res) E t st = Some (Inr (r, st'))"
    and "unat (m_fresh_id (m_rw_cfg st)) + bits_of (set (bv_consts t)) < 2 ^ 32"
  shows "few_names (m_rw_cfg st) (m_rw_cfg st')"
proof -
  have "bbk.idle m (set (bv_consts t)) (m_rw_cfg st) st'"
    using bbk.main_loop [OF assms(3) bound_idle [OF assms(1)], of "set (bv_consts t)"] assms(2) by simp
  then have "bound_inv m (set (bv_consts t)) (m_rw_cfg st) (m_rw_cfg st')" by (simp add: bbk.idle_def bbk.base_def)
  then show ?thesis by (rule bound_few_names) (use assms(4) in simp_all)
qed

end
