(* ===== verification/Bit_Blaster_Tactic.thy ===== *)
theory Bit_Blaster_Tactic
  imports Goal Model_Converter_Sound Bit_Blaster_Bound
begin

text \<open>
  \<open>bit_blaster_tactic\<close> (\<open>src/Z3/z3-master/src/tactic/bv/bit_blaster_tactic.cpp\<close>): every formula of a
  goal is replaced by its bit-blasted form, and the goal gets the converter that reads a model of
  the new formulas as a model of the old ones. The goal has no proofs. \<open>clean\<close>
  (\<open>src/Z3/z3-master/src/tactic/tactical.cpp\<close>) cleans the tactic up after every successful call.
\<close>

section \<open>State\<close>

text \<open>
  The rewriter is the one of the tactic (\<open>t_own\<close>) or one of the caller. An exception of the rewriter
  leaves the tactic as a \<open>tactic_exception\<close> with its message. The constructor of the code leaves
  the number of steps uninitialised; it is 0 here, and every call sets it.
\<close>

record bit_blaster_tactic =
  t_rewriter :: "blaster_rewriter_cfg rewriter_tpl"
  t_own :: bool
  t_num_steps :: "32 word"
  t_blast_quant :: bool
  t_params :: blast_params

datatype tactic_exception = Tactic_exception rewriter_exception

definition rewriter_updt_params ::
    "blast_params \<Rightarrow> blaster_rewriter_cfg rewriter_tpl \<Rightarrow> blaster_rewriter_cfg rewriter_tpl" where
  "rewriter_updt_params p rw = rw\<lparr>m_rw_cfg := cfg_updt_params p (m_rw_cfg rw)\<rparr>"

definition imp_updt_params :: "blast_params \<Rightarrow> bit_blaster_tactic \<Rightarrow> bit_blaster_tactic" where
  "imp_updt_params p st = st\<lparr>t_rewriter := rewriter_updt_params p (t_rewriter st),
     t_blast_quant := get_param (bp_blast_quant p) False\<rparr>"

text \<open>
  The constructor: \<open>rw\<close> is the caller's rewriter, if there is one; \<open>n\<close> is the number of nodes of the
  manager and \<open>k\<close> its counter of fresh names.
\<close>

definition mk_bit_blaster_tactic ::
    "ast_manager \<Rightarrow> 32 word \<Rightarrow> 32 word \<Rightarrow> blaster_rewriter_cfg rewriter_tpl option \<Rightarrow> blast_params \<Rightarrow>
      bit_blaster_tactic" where
  "mk_bit_blaster_tactic m n k rw p = imp_updt_params p
     \<lparr>t_rewriter = (case rw of Some r \<Rightarrow> r | None \<Rightarrow> mk_imp n (mk_bit_blaster_rewriter m k p)),
      t_own = (rw = None), t_num_steps = 0, t_blast_quant = False, t_params = p\<rparr>"

definition tactic_updt_params :: "blast_params \<Rightarrow> bit_blaster_tactic \<Rightarrow> bit_blaster_tactic" where
  "tactic_updt_params p st = (imp_updt_params p st)\<lparr>t_params := p\<rparr>"

text \<open>\<open>cleanup\<close> makes a new \<open>imp\<close>: a new rewriter, unless it is the caller's.\<close>

definition tactic_cleanup :: "ast_manager \<Rightarrow> 32 word \<Rightarrow> bit_blaster_tactic \<Rightarrow> bit_blaster_tactic" where
  "tactic_cleanup m n st = mk_bit_blaster_tactic m n (m_fresh_id (m_rw_cfg (t_rewriter st)))
     (if t_own st then None else Some (t_rewriter st)) (t_params st)"

section \<open>The loop over the formulas\<close>

text \<open>
  What the loop keeps: whether a formula changed, the number of steps, the rewriter and the goal. An
  exception leaves the rewriter and the goal as they are at that moment.
\<close>

type_synonym 'd blast_loop = "bool \<times> 32 word \<times> blaster_rewriter_cfg rewriter_tpl \<times> 'd goal"

fun blast_forms ::
    "resources \<Rightarrow> blaster_rewriter_cfg rewriter_env \<Rightarrow> nat list \<Rightarrow>
      'd blast_loop \<Rightarrow> (rewriter_exception \<times> 'd blast_loop + 'd blast_loop) option" where
  "blast_forms res E [] st = Some (Inr st)"
| "blast_forms res E (idx # idxs) (change, num_steps, rw, g) =
    (if m_inconsistent g then Some (Inr (change, num_steps, rw, g))
     else
       (case main_loop (blaster_rewriter_config res) E (m_forms g ! idx) rw of
          None \<Rightarrow> None
        | Some (Inl (e, rw1)) \<Rightarrow> Some (Inl (e, change, num_steps, rw1, g))
        | Some (Inr (new_curr, rw1)) \<Rightarrow>
            (let num_steps1 = num_steps + m_num_steps rw1
             in if m_forms g ! idx \<noteq> new_curr
                then blast_forms res E idxs (True, num_steps1, rw1, goal_update idx new_curr (dep g idx) g)
                else blast_forms res E idxs (change, num_steps1, rw1, g))))"

text \<open>
  The entries of the map from constants to bits, as the constructor of the converter finds them in
  the hash table: \<open>order\<close> is the order in which the table is traversed.
\<close>

definition converter_of ::
    "(func_decl list \<Rightarrow> func_decl list) \<Rightarrow> blaster_rewriter_cfg \<Rightarrow> model_converter option" where
  "converter_of order c =
    (let (const2bits, newbits) = end_rewrite c Map.empty []
     in mk_bit_blaster_model_converter
          (map (\<lambda>k. (k, the (const2bits k))) (order (drop (m_keypos c) (m_keys c)))) newbits)"

definition imp_apply ::
    "resources \<Rightarrow> blaster_rewriter_cfg rewriter_env \<Rightarrow>
      (func_decl list \<Rightarrow> func_decl list) \<Rightarrow> 'd goal \<Rightarrow> bit_blaster_tactic \<Rightarrow>
      ((rewriter_exception \<times> 'd goal + 'd goal list) \<times> bit_blaster_tactic) option" where
  "imp_apply res E order g st =
    (let rw = (t_rewriter st)\<lparr>m_rw_cfg := start_rewrite (m_rw_cfg (t_rewriter st))\<rparr>
     in case blast_forms res E [0..<goal_size g] (False, 0, rw, g) of
          None \<Rightarrow> None
        | Some (Inl (e, change, num_steps, rw1, g1)) \<Rightarrow>
            Some (Inl (e, g1), st\<lparr>t_rewriter := rw1, t_num_steps := num_steps\<rparr>)
        | Some (Inr (change, num_steps, rw1, g1)) \<Rightarrow>
            (let g2 = (if change \<and> m_models_enabled g1 then add_mc (converter_of order (m_rw_cfg rw1)) g1 else g1)
             in Some (Inr [inc_depth g2],
                  st\<lparr>t_rewriter := tpl_cleanup (blaster_rewriter_config res) (e_num_asts E rw1) rw1,
                     t_num_steps := num_steps\<rparr>)))"

definition tactic_apply ::
    "resources \<Rightarrow> blaster_rewriter_cfg rewriter_env \<Rightarrow>
      (func_decl list \<Rightarrow> func_decl list) \<Rightarrow> 'd goal \<Rightarrow> bit_blaster_tactic \<Rightarrow>
      ((tactic_exception \<times> 'd goal + 'd goal list) \<times> bit_blaster_tactic) option" where
  "tactic_apply res E order g st =
    (case imp_apply res E order g st of
       None \<Rightarrow> None
     | Some (Inl (ex, g1), st1) \<Rightarrow> Some (Inl (Tactic_exception ex, g1), st1)
     | Some (Inr result, st1) \<Rightarrow> Some (Inr result, st1))"

text \<open>\<open>clean\<close>: the tactic is cleaned up unless it throws.\<close>

definition clean_apply ::
    "ast_manager \<Rightarrow> resources \<Rightarrow> blaster_rewriter_cfg rewriter_env \<Rightarrow>
      (func_decl list \<Rightarrow> func_decl list) \<Rightarrow> 'd goal \<Rightarrow> bit_blaster_tactic \<Rightarrow>
      ((tactic_exception \<times> 'd goal + 'd goal list) \<times> bit_blaster_tactic) option" where
  "clean_apply m res E order g st =
    (case tactic_apply res E order g st of
       None \<Rightarrow> None
     | Some (Inl x, st1) \<Rightarrow> Some (Inl x, st1)
     | Some (Inr result, st1) \<Rightarrow> Some (Inr result, tactic_cleanup m (e_num_asts E (t_rewriter st1)) st1))"

section \<open>The loop returns\<close>

text \<open>
  A rewriter between two calls: as \<open>blaster_ready\<close>, and what its cache holds speaks of the bits only.
  It checks for cancellation, as a rewriter does unless it is told not to.
\<close>

definition tactic_ready :: "ast_manager \<Rightarrow> blaster_rewriter_cfg rewriter_tpl \<Rightarrow> bool" where
  "tactic_ready m rw = (blaster_ready m rw \<and> m_cancel_check rw \<and>
     (\<forall>I v. consistent (m_rw_cfg rw) (blasted I v) \<longrightarrow> bbs.idle m I v rw))"

lemma tactic_readyI:
  assumes "blaster_ready m rw" "m_cancel_check rw" "\<And>P. cached_ok P rw"
  shows "tactic_ready m rw"
  using assms unfolding tactic_ready_def bbs.idle_def bbs.base_def blaster_ready_def by blast

lemma start_rewrite_simps:
  "consistent (start_rewrite c) = consistent c" "blaster_inv m (start_rewrite c) = blaster_inv m c"
  "names_ok (start_rewrite c) = names_ok c" "m_fresh_id (start_rewrite c) = m_fresh_id c"
  "m_keys (start_rewrite c) = m_keys c" "m_values (start_rewrite c) = m_values c" "m_newbits (start_rewrite c) = m_newbits c"
  "m_const2bits (start_rewrite c) = m_const2bits c" "m_keypos (start_rewrite c) = length (m_keys c)"
  by (auto simp: start_rewrite_def consistent_def blaster_inv_def cfg_inv_def names_ok_def fun_eq_iff)

lemma start_rewrite_ready:
  assumes "tactic_ready m rw"
  shows "tactic_ready m (rw\<lparr>m_rw_cfg := start_rewrite (m_rw_cfg rw)\<rparr>)"
  using assms by (auto simp: tactic_ready_def blaster_ready_def bbs.idle_def bbs.base_def cached_ok_def start_rewrite_simps)

lemma cleanup_cancel_check [simp]: "m_cancel_check (tpl_cleanup C n rw) = m_cancel_check rw"
  by (cases rw) (simp add: tpl_cleanup_def core_cleanup_def)

lemma cleanup_tactic_ready:
  assumes "blaster_inv m (m_rw_cfg rw)" "m_cancel_check rw"
  shows "tactic_ready m (tpl_cleanup (blaster_rewriter_config res) n rw)"
  using cleanup_ready [OF assms(1)] assms(2) by (intro tactic_readyI cleanup_cached_ok) simp_all

lemma mk_imp_tactic_ready:
  assumes "blaster_inv m c"
  shows "tactic_ready m (mk_imp n c)"
  using mk_imp_ready [OF assms] by (intro tactic_readyI) (simp_all add: mk_imp_def mk_cached_ok, simp add: mk_tpl_simps)


lemma goal_update_other:
  assumes "goal_ok g" "\<not> m_inconsistent g" "bexp f" "i < length (m_forms g)" "\<not> m_inconsistent (goal_update i f d g)"
  shows "length (m_forms g) \<le> length (m_forms (goal_update i f d g))"
    "k < length (m_forms g) \<Longrightarrow> k \<noteq> i \<Longrightarrow> m_forms (goal_update i f d g) ! k = m_forms g ! k"
  by (rule goal_update_cases [OF assms(1-4), of d]; use assms(5) in \<open>auto simp: nth_append\<close>)+

text \<open>The formula the loop has now is a Boolean term, and so is what replaces it.\<close>

lemma form_bexp: "goal_ok g \<Longrightarrow> i < length (m_forms g) \<Longrightarrow> bexp (m_forms g ! i)"
  by (simp add: goal_ok_def list_all_length)

lemma sorted_as_bexp: "bexp t \<Longrightarrow> sorted_as t r \<Longrightarrow> bexp r"
  by (auto simp: sorted_as_def)

definition idxs_ok :: "nat list \<Rightarrow> 'd goal \<Rightarrow> bool" where
  "idxs_ok idxs g = (m_inconsistent g \<or> distinct idxs \<and> (\<forall>i \<in> set idxs. i < length (m_forms g)))"

lemma idxs_ok_update:
  assumes "goal_ok g" "\<not> m_inconsistent g" "bexp f" "idxs_ok (i # idxs) g"
  shows "idxs_ok idxs (goal_update i f d g)"
  using goal_update_other(1) [OF assms(1-3), of i d] assms(2,4) by (fastforce simp: idxs_ok_def)

text \<open>The three ways the loop goes on.\<close>

lemma blast_forms_step:
  assumes "goal_ok g" "idxs_ok (i # idxs) g" "blaster_ready m rw"
  obtains (inconsistent) "m_inconsistent g" "blast_forms res E (i # idxs) (change, n, rw, g) = Some (Inr (change, n, rw, g))"
  | (throws) e rw1 where "\<not> m_inconsistent g" "e \<in> blaster_errors"
      "blast_forms res E (i # idxs) (change, n, rw, g) = Some (Inl (e, change, n, rw1, g))"
  | (step) r rw1 g1 change1 where "\<not> m_inconsistent g" "i < length (m_forms g)" "bexp (m_forms g ! i)"
      "main_loop (blaster_rewriter_config res) E (m_forms g ! i) rw = Some (Inr (r, rw1))"
      "sorted_as (m_forms g ! i) r" "blaster_ready m rw1"
      "g1 = (if m_forms g ! i = r then g else goal_update i r (dep g i) g)" "change1 = (change \<or> m_forms g ! i \<noteq> r)"
      "blast_forms res E (i # idxs) (change, n, rw, g) = blast_forms res E idxs (change1, n + m_num_steps rw1, rw1, g1)"
      "goal_ok g1" "same_goal g g1" "idxs_ok idxs g1"
proof (cases "m_inconsistent g")
  case True
  then show thesis using inconsistent by simp
next
  case False
  let ?t = "m_forms g ! i"
  have i: "i < length (m_forms g)" using assms(2) False by (simp add: idxs_ok_def)
  have t: "bexp ?t" using form_bexp [OF assms(1) i] .
  have "gives blaster_errors (\<lambda>r st'. blaster_ready m st' \<and> sorted_as ?t r) (main_loop (blaster_rewriter_config res) E ?t rw)"
    by (rule gives_mono [OF blast_term [OF assms(3) bexp_wf [OF t]]]) simp
  then consider e rw1 where "main_loop (blaster_rewriter_config res) E ?t rw = Some (Inl (e, rw1))" "e \<in> blaster_errors"
    | r rw1 where "main_loop (blaster_rewriter_config res) E ?t rw = Some (Inr (r, rw1))" "blaster_ready m rw1" "sorted_as ?t r"
    unfolding gives_def by (auto split: option.splits sum.splits)
  then show thesis
  proof cases
    case (1 e rw1)
    then show thesis using throws [OF False] False by simp
  next
    case (2 r rw1)
    have r: "bexp r" using sorted_as_bexp [OF t 2(3)] .
    have "idxs_ok idxs g" using assms(2) by (auto simp: idxs_ok_def)
    then show thesis
      using step [OF False i t 2(1,3,2) refl refl] 2 False goal_update_ok [OF assms(1) r] assms(1)
        idxs_ok_update [OF assms(1) False r assms(2)]
      by (auto simp: Let_def)
  qed
qed

lemma blast_forms_result:
  assumes "goal_ok g" "idxs_ok idxs g" "blaster_ready m rw"
  shows "case blast_forms res E idxs (change, n, rw, g) of
      None \<Rightarrow> False
    | Some (Inl (e, change', n', rw', g')) \<Rightarrow> e \<in> blaster_errors \<and> goal_ok g' \<and> same_goal g g'
    | Some (Inr (change', n', rw', g')) \<Rightarrow> blaster_ready m rw' \<and> goal_ok g' \<and> same_goal g g' \<and>
        (change \<longrightarrow> change') \<and> (\<not> change' \<longrightarrow> g' = g)"
  using assms
proof (induction idxs arbitrary: change n rw g)
  case Nil
  then show ?case by simp
next
  case (Cons i idxs)
  show ?case
  proof (rule blast_forms_step [OF Cons.prems, of res E change n])
    fix r rw1 g1 change1
    assume s: "blaster_ready m rw1" "g1 = (if m_forms g ! i = r then g else goal_update i r (dep g i) g)"
      "change1 = (change \<or> m_forms g ! i \<noteq> r)"
      "blast_forms res E (i # idxs) (change, n, rw, g) = blast_forms res E idxs (change1, n + m_num_steps rw1, rw1, g1)"
      "goal_ok g1" "same_goal g g1" "idxs_ok idxs g1"
    from Cons.IH [OF s(5,7,1), of change1 "n + m_num_steps rw1"]
    show ?case unfolding s(4) using s(2,3) same_goal_trans [OF s(6)]
      by (auto split: option.splits sum.splits prod.splits if_splits)
  qed (use Cons.prems in \<open>simp_all del: blast_forms.simps\<close>)
qed


section \<open>The new goal says what the old one says\<close>

lemma blast_forms_md:
  assumes "\<And>t rw r rw1. main_loop (blaster_rewriter_config res) E t rw = Some (Inr (r, rw1)) \<Longrightarrow>
      P (m_rw_cfg rw1) \<Longrightarrow> P (m_rw_cfg rw)"
    and "blast_forms res E idxs (change, n, rw, g) = Some (Inr (change', n', rw', g'))" "P (m_rw_cfg rw')"
  shows "P (m_rw_cfg rw)"
  using assms(2,3)
proof (induction idxs arbitrary: change n rw g)
  case Nil
  then show ?case by simp
next
  case (Cons i idxs)
  show ?case
  proof (cases "m_inconsistent g")
    case True
    then show ?thesis using Cons.prems by simp
  next
    case False
    then obtain r rw1 where ml: "main_loop (blaster_rewriter_config res) E (m_forms g ! i) rw = Some (Inr (r, rw1))"
      using Cons.prems(1) by (auto split: option.splits sum.splits)
    have "P (m_rw_cfg rw1)"
      using Cons.prems False ml Cons.IH by (auto simp: Let_def split: if_splits)
    then show ?thesis using assms(1) [OF ml] by blast
  qed
qed

text \<open>
  In the middle of the loop the formulas before \<open>i\<close> and the new ones speak of the bits, the others
  still of the constants.
\<close>

definition mixed :: "interp \<Rightarrow> (func_decl \<Rightarrow> nat) \<Rightarrow> nat \<Rightarrow> nat \<Rightarrow> 'd goal \<Rightarrow> bool" where
  "mixed I v i sz g = (\<forall>k < length (m_forms g). tv (if i \<le> k \<and> k < sz then blasted I v else I) (m_forms g ! k))"

lemma mixed_all: "sz = length (m_forms g) \<Longrightarrow> mixed I v 0 sz g \<longleftrightarrow> holds (blasted I v) g"
  by (simp add: mixed_def holds_def list_all_length)

lemma mixed_none: "sz \<le> i \<Longrightarrow> mixed I v i sz g \<longleftrightarrow> holds I g"
  by (auto simp: mixed_def holds_def list_all_length)

lemma mixed_inconsistent:
  assumes "goal_ok g" "m_inconsistent g"
  shows "\<not> mixed I v i sz g"
proof -
  have "m_forms g = [m_mk_false]" using assms by (simp add: goal_ok_def)
  then show ?thesis by (simp add: mixed_def)
qed

lemma all_less_add: "(\<forall>k < a + b. R k) \<longleftrightarrow> (\<forall>k < a. R k) \<and> (\<forall>k < b. R (a + k))" for a b :: nat
proof (intro iffI conjI allI impI)
  fix k
  assume "(\<forall>k < a. R k) \<and> (\<forall>k < b. R (a + k))" "k < a + b"
  then show "R k" by (cases "k < a") (auto dest: spec [of _ "k - a"])
qed auto

lemma mixed_step:
  assumes g: "goal_ok g" "\<not> m_inconsistent g" and i: "i < sz" "sz \<le> length (m_forms g)" and r: "bexp r"
    and v: "tv I r = tv (blasted I v) (m_forms g ! i)"
    and g1: "g1 = (if m_forms g ! i = r then g else goal_update i r d g)"
  shows "mixed I v (Suc i) sz g1 \<longleftrightarrow> mixed I v i sz g"
proof -
  let ?F = "m_forms g"
  let ?P = "\<lambda>k. tv (if i \<le> k \<and> k < sz then blasted I v else I) (?F ! k)"
  let ?Q = "\<lambda>k. tv (if Suc i \<le> k \<and> k < sz then blasted I v else I) (?F ! k)"
  have other: "?P k = ?Q k" if "k \<noteq> i" for k using that by (auto simp: le_less Suc_le_eq)
  have il: "i < length ?F" using i by simp
  have split: "(\<forall>k < length ?F. R k) \<longleftrightarrow> R i \<and> (\<forall>k < length ?F. k \<noteq> i \<longrightarrow> R k)" for R :: "nat \<Rightarrow> bool"
    using il by blast
  have "?P i \<longleftrightarrow> tv I r" using v i(1) by simp
  then have m: "mixed I v i sz g \<longleftrightarrow> tv I r \<and> (\<forall>k < length ?F. k \<noteq> i \<longrightarrow> ?Q k)"
    unfolding mixed_def using other by (subst split) simp
  show ?thesis
  proof (cases "?F ! i = r")
    case True
    then have "?Q i \<longleftrightarrow> tv I r" by simp
    then have "mixed I v (Suc i) sz g \<longleftrightarrow> tv I r \<and> (\<forall>k < length ?F. k \<noteq> i \<longrightarrow> ?Q k)"
      unfolding mixed_def by (subst split) simp
    then show ?thesis using m True g1 by simp
  next
    case False
    then have g1: "g1 = goal_update i r d g" using g1 by simp
    show ?thesis
    proof (rule goal_update_cases [OF g r il, of d])
      assume "m_inconsistent (goal_update i r d g)" "\<And>I. \<not> tv I r"
      then show ?thesis using m mixed_inconsistent goal_update_ok(1) [OF g(1) r] g1 by blast
    next
      fix ext
      assume f: "m_forms (goal_update i r d g) = ?F @ ext @ [r]" "\<And>I. \<not> tv I r"
      have "length ?F + length ext < length (m_forms g1)" "m_forms g1 ! (length ?F + length ext) = r" using f(1) g1 by simp_all
      moreover have "\<not> length ?F + length ext < sz" using i(2) by simp
      ultimately have "\<not> mixed I v (Suc i) sz g1" using f(2) unfolding mixed_def by auto
      then show ?thesis using m f(2) by blast
    next
      fix fr ext
      assume f: "m_forms (goal_update i r d g) = ?F[i := fr] @ ext" "\<And>I. tv I fr \<and> list_all (tv I) ext \<longleftrightarrow> tv I r"
      have "mixed I v (Suc i) sz g1 \<longleftrightarrow> (\<forall>k < length ?F. tv (if Suc i \<le> k \<and> k < sz then blasted I v else I) (?F[i := fr] ! k)) \<and>
          (\<forall>k < length ext. tv I (ext ! k))"
        using i(2) by (simp add: mixed_def g1 f(1) nth_append all_less_add)
      also have "\<dots> \<longleftrightarrow> (tv I fr \<and> (\<forall>k < length ?F. k \<noteq> i \<longrightarrow> ?Q k)) \<and> list_all (tv I) ext"
        using il by (subst split) (simp add: list_all_length)
      also have "\<dots> \<longleftrightarrow> mixed I v i sz g" unfolding m using f(2) by blast
      finally show ?thesis .
    qed
  qed
qed


lemma blast_forms_length:
  assumes "goal_ok g" "\<not> m_inconsistent g" "bexp r" "i < length (m_forms g)"
    and "g1 = (if m_forms g ! i = r then g else goal_update i r d g)" "sz \<le> length (m_forms g)"
  shows "m_inconsistent g1 \<or> sz \<le> length (m_forms g1)"
proof (cases "m_forms g ! i = r")
  case False
  then have "g1 = goal_update i r d g" using assms(5) by simp
  then show ?thesis using goal_update_other(1) [OF assms(1-4), of d] assms(6) by (metis le_trans)
qed (use assms(5,6) in simp)

lemma blast_forms_value:
  assumes "goal_ok g" "m_inconsistent g \<or> sz \<le> length (m_forms g)" "blaster_ready m rw" "bbs.idle m I v rw"
    and "blast_forms res E [i..<sz] (change, n, rw, g) = Some (Inr (change', n', rw', g'))"
    and "consistent (m_rw_cfg rw') (blasted I v)"
  shows "(holds I g' \<longleftrightarrow> mixed I v i sz g) \<and> bbs.idle m I v rw'"
  using assms(1-5)
proof (induction "sz - i" arbitrary: i change n rw g)
  case 0
  then show ?case by (simp add: mixed_none)
next
  case (Suc j)
  have i: "i < sz" "[i..<sz] = i # [Suc i..<sz]" using Suc.hyps(2) by (simp_all add: upt_conv_Cons)
  have ok: "idxs_ok (i # [Suc i..<sz]) g" using Suc.prems(2) i by (auto simp: idxs_ok_def)
  note run = Suc.prems(5) [unfolded i(2)]
  show ?case
  proof (rule blast_forms_step [OF Suc.prems(1) ok Suc.prems(3), of res E change n])
    assume "m_inconsistent g"
    then show ?thesis using run Suc.prems(1,4) mixed_inconsistent [OF Suc.prems(1)] inconsistent_holds [OF Suc.prems(1)] by simp
  next
    fix e rw1
    assume "blast_forms res E (i # [Suc i..<sz]) (change, n, rw, g) = Some (Inl (e, change, n, rw1, g))"
    then show ?thesis using run by simp
  next
    fix r rw1 g1 change1
    assume s: "\<not> m_inconsistent g" "i < length (m_forms g)" "bexp (m_forms g ! i)"
      "main_loop (blaster_rewriter_config res) E (m_forms g ! i) rw = Some (Inr (r, rw1))"
      "sorted_as (m_forms g ! i) r" "blaster_ready m rw1"
      "g1 = (if m_forms g ! i = r then g else goal_update i r (dep g i) g)" "change1 = (change \<or> m_forms g ! i \<noteq> r)"
      "blast_forms res E (i # [Suc i..<sz]) (change, n, rw, g) =
        blast_forms res E [Suc i..<sz] (change1, n + m_num_steps rw1, rw1, g1)"
      "goal_ok g1" "same_goal g g1" "idxs_ok [Suc i..<sz] g1"
    have run1: "blast_forms res E [Suc i..<sz] (change1, n + m_num_steps rw1, rw1, g1) = Some (Inr (change', n', rw', g'))"
      using run s(9) by simp
    have con: "consistent (m_rw_cfg rw1) (blasted I v)"
      by (rule blast_forms_md [where P = "\<lambda>c. consistent c (blasted I v)", OF bbs.main_loop_md run1 assms(6)])
    have st: "stands_for I v (m_forms g ! i) r \<and> bbs.idle m I v rw1"
      using bbs.main_loop [OF s(4) Suc.prems(4) _ con] s(3) by simp
    have sz: "sz \<le> length (m_forms g)" using Suc.prems(2) s(1) by simp
    have r: "bexp r" using sorted_as_bexp [OF s(3,5)] .
    have "m_inconsistent g1 \<or> sz \<le> length (m_forms g1)"
      by (rule blast_forms_length [OF Suc.prems(1) s(1) r s(2,7) sz])
    with Suc.hyps(1) [OF _ s(10) _ s(6) conjunct2 [OF st] run1] Suc.hyps(2)
    have ih: "(holds I g' \<longleftrightarrow> mixed I v (Suc i) sz g1) \<and> bbs.idle m I v rw'" by simp
    have "tv I r = tv (blasted I v) (m_forms g ! i)" using st by (simp add: stands_for_def tv_def)
    from mixed_step [OF Suc.prems(1) s(1) i(1) sz r this s(7)] ih show ?thesis by simp
  qed
qed

text \<open>
  What a traversal of a formula keeps of the rewriter, the loop keeps, as the formulas still to come
  are the old ones.
\<close>

lemma blast_forms_keeps:
  assumes md: "\<And>t rw r rw1. main_loop (blaster_rewriter_config res) E t rw = Some (Inr (r, rw1)) \<Longrightarrow>
      P (m_rw_cfg rw1) \<Longrightarrow> P (m_rw_cfg rw)"
    and keep: "\<And>t rw r rw1. main_loop (blaster_rewriter_config res) E t rw = Some (Inr (r, rw1)) \<Longrightarrow>
      Q rw \<Longrightarrow> wf t \<and> S t \<Longrightarrow> P (m_rw_cfg rw1) \<Longrightarrow> Q rw1"
    and final: "P (m_rw_cfg rw')"
    and g: "goal_ok g" "m_inconsistent g \<or> sz \<le> length (m_forms g)" "blaster_ready m rw" "Q rw"
      "m_inconsistent g \<or> (\<forall>k. i \<le> k \<and> k < sz \<longrightarrow> S (m_forms g ! k))"
      "blast_forms res E [i..<sz] (change, n, rw, g) = Some (Inr (change', n', rw', g'))"
  shows "Q rw'"
  using g
proof (induction "sz - i" arbitrary: i change n rw g)
  case 0
  then show ?case by simp
next
  case (Suc j)
  have i: "i < sz" "[i..<sz] = i # [Suc i..<sz]" using Suc.hyps(2) by (simp_all add: upt_conv_Cons)
  have ok: "idxs_ok (i # [Suc i..<sz]) g" using Suc.prems(2) i by (auto simp: idxs_ok_def)
  note run = Suc.prems(6) [unfolded i(2)]
  show ?case
  proof (rule blast_forms_step [OF Suc.prems(1) ok Suc.prems(3), of res E change n])
    assume "m_inconsistent g"
    then show ?thesis using run Suc.prems(4) by simp
  next
    fix e rw1
    assume "blast_forms res E (i # [Suc i..<sz]) (change, n, rw, g) = Some (Inl (e, change, n, rw1, g))"
    then show ?thesis using run by simp
  next
    fix r rw1 g1 change1
    assume s: "\<not> m_inconsistent g" "i < length (m_forms g)" "bexp (m_forms g ! i)"
      "main_loop (blaster_rewriter_config res) E (m_forms g ! i) rw = Some (Inr (r, rw1))"
      "sorted_as (m_forms g ! i) r" "blaster_ready m rw1"
      "g1 = (if m_forms g ! i = r then g else goal_update i r (dep g i) g)" "change1 = (change \<or> m_forms g ! i \<noteq> r)"
      "blast_forms res E (i # [Suc i..<sz]) (change, n, rw, g) =
        blast_forms res E [Suc i..<sz] (change1, n + m_num_steps rw1, rw1, g1)"
      "goal_ok g1" "same_goal g g1" "idxs_ok [Suc i..<sz] g1"
    have run1: "blast_forms res E [Suc i..<sz] (change1, n + m_num_steps rw1, rw1, g1) = Some (Inr (change', n', rw', g'))"
      using run s(9) by simp
    have P: "P (m_rw_cfg rw1)" by (rule blast_forms_md [where P = P, OF md run1 final])
    have S: "\<forall>k. i \<le> k \<and> k < sz \<longrightarrow> S (m_forms g ! k)" using Suc.prems(5) s(1) by blast
    have Q: "Q rw1" by (rule keep [OF s(4) Suc.prems(4) _ P]) (use s(3) S i(1) in simp)
    have sz: "sz \<le> length (m_forms g)" using Suc.prems(2) s(1) by simp
    have r: "bexp r" using sorted_as_bexp [OF s(3,5)] .
    note sz1 = blast_forms_length [OF Suc.prems(1) s(1) r s(2,7) sz]
    have "m_forms g1 ! k = m_forms g ! k" if "\<not> m_inconsistent g1" "Suc i \<le> k" "k < sz" for k
    proof (cases "m_forms g ! i = r")
      case False
      then have g1: "g1 = goal_update i r (dep g i) g" using s(7) by simp
      show ?thesis unfolding g1
        by (rule goal_update_other(2) [OF Suc.prems(1) s(1) r s(2)]) (use that g1 sz in auto)
    qed (use s(7) in simp)
    then have "m_inconsistent g1 \<or> (\<forall>k. Suc i \<le> k \<and> k < sz \<longrightarrow> S (m_forms g1 ! k))"
      using S by (metis Suc_leD)
    from Suc.hyps(1) [OF _ s(10) sz1 s(6) Q this run1] Suc.hyps(2) show ?thesis by simp
  qed
qed

text \<open>The loop makes no more bits than the constants of the goal need.\<close>

definition goal_consts :: "'d goal \<Rightarrow> func_decl set" where
  "goal_consts g = set (concat (map bv_consts (m_forms g)))"

lemma blast_forms_few_names:
  assumes "goal_ok g" "blaster_ready m rw" "unat (m_fresh_id (m_rw_cfg rw)) + bits_of (goal_consts g) < 2 ^ 32"
    and "blast_forms res E [0..<goal_size g] (change, n, rw, g) = Some (Inr (change', n', rw', g'))"
  shows "few_names (m_rw_cfg rw) (m_rw_cfg rw')"
proof -
  have "bbk.idle m (goal_consts g) (m_rw_cfg rw) rw'"
  proof (rule blast_forms_keeps [where P = "\<lambda>_. True" and Q = "bbk.idle m (goal_consts g) (m_rw_cfg rw)" and S = "\<lambda>t. set (bv_consts t) \<subseteq> goal_consts g",
      OF _ bbk.main_loop [THEN conjunct2] _ assms(1) _ assms(2) bound_idle [OF assms(2)] _ assms(4)])
    show "m_inconsistent g \<or> (\<forall>k. 0 \<le> k \<and> k < goal_size g \<longrightarrow> set (bv_consts (m_forms g ! k)) \<subseteq> goal_consts g)"
      by (fastforce simp: goal_consts_def goal_size_def)
  qed (simp_all add: goal_size_def)
  then have "bound_inv m (goal_consts g) (m_rw_cfg rw) (m_rw_cfg rw')" by (simp add: bbk.idle_def bbk.base_def)
  then show ?thesis by (rule bound_few_names) (use assms(3) in \<open>simp_all add: goal_consts_def\<close>)
qed

text \<open>No model is lost, as long as the counter of names does not wrap.\<close>

lemma blast_forms_models:
  assumes "goal_ok g" "list_all (below (unat (m_fresh_id (m_rw_cfg rw)))) (m_forms g)" "blaster_ready m rw" "names_ok (m_rw_cfg rw)"
    and "blast_forms res E [0..<goal_size g] (change, n, rw, g) = Some (Inr (change', n', rw', g'))"
    and "few_names (m_rw_cfg rw) (m_rw_cfg rw')"
  shows "bbm.idle m (m_rw_cfg rw) rw'"
proof (rule blast_forms_keeps [where P = "few_names (m_rw_cfg rw)" and Q = "bbm.idle m (m_rw_cfg rw)" and S = "below (unat (m_fresh_id (m_rw_cfg rw)))",
    OF bbm.main_loop_md bbm.main_loop [THEN conjunct2] assms(6,1) _ assms(3) blaster_models_idle [OF assms(3,4)] _ assms(5)])
  show "m_inconsistent g \<or> (\<forall>k. 0 \<le> k \<and> k < goal_size g \<longrightarrow> below (unat (m_fresh_id (m_rw_cfg rw))) (m_forms g ! k))"
    using assms(2) by (simp add: list_all_length goal_size_def)
qed (simp_all add: goal_size_def)

section \<open>The tactic\<close>

text \<open>What a call of the tactic that does not throw did.\<close>

lemma imp_apply_result:
  assumes g: "goal_ok g" and rw: "tactic_ready m (t_rewriter st)"
    and ap: "imp_apply res E order g st = Some (Inr gs, st')"
  obtains rw0 change n rw1 g1 where "rw0 = (t_rewriter st)\<lparr>m_rw_cfg := start_rewrite (m_rw_cfg (t_rewriter st))\<rparr>"
    "blast_forms res E [0..<goal_size g] (False, 0, rw0, g) = Some (Inr (change, n, rw1, g1))"
    "gs = [inc_depth (if change \<and> m_models_enabled g1 then add_mc (converter_of order (m_rw_cfg rw1)) g1 else g1)]"
    "st' = st\<lparr>t_rewriter := tpl_cleanup (blaster_rewriter_config res) (e_num_asts E rw1) rw1, t_num_steps := n\<rparr>"
    "tactic_ready m rw0" "blaster_ready m rw1" "goal_ok g1" "same_goal g g1" "\<not> change \<Longrightarrow> g1 = g"
proof -
  define rw0 where "rw0 = (t_rewriter st)\<lparr>m_rw_cfg := start_rewrite (m_rw_cfg (t_rewriter st))\<rparr>"
  obtain change n rw1 g1 where run: "blast_forms res E [0..<goal_size g] (False, 0, rw0, g) = Some (Inr (change, n, rw1, g1))"
    and res: "gs = [inc_depth (if change \<and> m_models_enabled g1 then add_mc (converter_of order (m_rw_cfg rw1)) g1 else g1)]"
    "st' = st\<lparr>t_rewriter := tpl_cleanup (blaster_rewriter_config res) (e_num_asts E rw1) rw1, t_num_steps := n\<rparr>"
    using ap unfolding imp_apply_def Let_def rw0_def [symmetric] by (auto split: option.splits sum.splits)
  have r: "tactic_ready m rw0" unfolding rw0_def using rw by (rule start_rewrite_ready)
  have "idxs_ok [0..<goal_size g] g" by (simp add: idxs_ok_def goal_size_def)
  from blast_forms_result [OF g this, where m = m and rw = rw0 and res = res and E = E and change = False and n = 0] r run
  have "blaster_ready m rw1 \<and> goal_ok g1 \<and> same_goal g g1 \<and> (\<not> change \<longrightarrow> g1 = g)" by (simp add: tactic_ready_def)
  then show thesis using that [OF rw0_def run res r] by blast
qed

lemma cfg_cleanup [simp]: "c_cfg_cleanup (blaster_rewriter_config res) c = c"
  by (simp add: blaster_rewriter_config_def default_rewriter_cfg_def)

text \<open>
  The new formulas have, under any interpretation, the values the old ones have when the constants
  get the values of their bits.
\<close>

lemma blasted_goal:
  assumes "goal_ok g" "tactic_ready m rw"
    and run: "blast_forms res E [0..<goal_size g] (change, n, rw, g) = Some (Inr (change', n', rw', g'))"
    and con: "consistent (m_rw_cfg rw') (blasted I v)"
  shows "holds I g' \<longleftrightarrow> holds (blasted I v) g"
proof -
  have "consistent (m_rw_cfg rw) (blasted I v)"
    by (rule blast_forms_md [where P = "\<lambda>c. consistent c (blasted I v)", OF bbs.main_loop_md run con])
  then have "blaster_ready m rw" "bbs.idle m I v rw" using assms(2) by (simp_all add: tactic_ready_def)
  from blast_forms_value [OF assms(1) _ this run con] show ?thesis
    by (simp add: goal_size_def mixed_all)
qed

text \<open>The values of the bits make any interpretation consistent with the map.\<close>

lemma bit_values_consistent:
  assumes "cfg_inv c" "map_of (zip vs bss) = m_const2bits c"
  shows "consistent c (blasted I (bit_values I vs bss))"
  unfolding consistent_def
proof (intro allI impI)
  fix f r
  assume f: "m_const2bits c f = Some r"
  have "entry_ok f r" using cfg_inv_entry [OF assms(1) f] .
  moreover have "map_of (zip vs bss) f = Some r" using f assms(2) by simp
  ultimately show "eval (blasted I (bit_values I vs bss)) (App f []) = eval (blasted I (bit_values I vs bss)) r"
    by (rule bit_values_entry)
qed

text \<open>The old names keep their meaning, and the bits mapped have new names.\<close>

lemma blasted_models:
  assumes g: "goal_ok g" "list_all (below (unat (m_fresh_id (m_rw_cfg rw)))) (m_forms g)"
    and rw: "tactic_ready m rw" "names_ok (m_rw_cfg rw)"
    and run: "blast_forms res E [0..<goal_size g] (change, n, rw, g) = Some (Inr (change', n', rw', g'))"
    and few: "unat (m_fresh_id (m_rw_cfg rw)) + bits_of (goal_consts g) < 2 ^ 32"
  shows "model_inv m (m_rw_cfg rw) (m_rw_cfg rw')"
proof -
  have ready: "blaster_ready m rw" using rw(1) by (simp add: tactic_ready_def)
  from blast_forms_models [OF g ready rw(2) run blast_forms_few_names [OF g(1) ready few run]]
  show ?thesis by (simp add: bbm.idle_def bbm.base_def)
qed

text \<open>A goal is satisfiable exactly when the new one is.\<close>

lemma blasted_satisfiable:
  assumes g: "goal_ok g" "list_all (below (unat (m_fresh_id (m_rw_cfg rw)))) (m_forms g)"
    and rw: "tactic_ready m rw" "names_ok (m_rw_cfg rw)"
    and run: "blast_forms res E [0..<goal_size g] (change, n, rw, g) = Some (Inr (change', n', rw', g'))"
    and few: "unat (m_fresh_id (m_rw_cfg rw)) + bits_of (goal_consts g) < 2 ^ 32"
  shows "(\<exists>I. consistent (m_rw_cfg rw) I \<and> holds I g) \<longleftrightarrow> (\<exists>I. holds I g')"
proof
  let ?c = "m_rw_cfg rw'"
  have inv: "model_inv m (m_rw_cfg rw) ?c" by (rule blasted_models [OF assms])
  {
    assume "\<exists>I. consistent (m_rw_cfg rw) I \<and> holds I g"
    then obtain I where I: "consistent (m_rw_cfg rw) I" "holds I g" by blast
    then obtain I' where I': "consistent ?c I'" "same_below (m_fresh_id (m_rw_cfg rw)) I I'"
      using inv by (auto simp: model_inv_def keeps_models_def)
    have "holds I' g" using I(2) I'(2) g(2) by (auto simp: holds_def list_all_iff same_below_def tv_def)
    then show "\<exists>I. holds I g'" using blasted_goal [OF g(1) rw(1) run, of I' "const_values I'"] I'(1) by auto
  }
  assume "\<exists>I. holds I g'"
  then obtain I where I: "holds I g'" by blast
  have "cfg_inv ?c" using inv by (simp add: model_inv_def blaster_inv_def)
  then have con: "consistent ?c (blasted I (bit_values I (m_keys ?c) (m_values ?c)))"
    by (intro bit_values_consistent) (simp_all add: cfg_inv_def)
  have "consistent (m_rw_cfg rw) (blasted I (bit_values I (m_keys ?c) (m_values ?c)))"
    by (rule blast_forms_md [where P = "\<lambda>c. consistent c (blasted I (bit_values I (m_keys ?c) (m_values ?c)))",
      OF bbs.main_loop_md run con])
  then show "\<exists>I. consistent (m_rw_cfg rw) I \<and> holds I g" using blasted_goal [OF g(1) rw(1) run con] I by blast
qed

section \<open>The converter\<close>

text \<open>A model of the new formulas: no mapped constant has a value, and bits have truth values.\<close>

definition bit_model :: "func_decl list \<Rightarrow> model \<Rightarrow> bool" where
  "bit_model vars md = (model_ok md \<and> (\<forall>d \<in> set vars. m_interp md d = None) \<and>
     (\<forall>s e. m_interp md (Uninterp s [] Bool_sort) = Some e \<longrightarrow> e = m_mk_true \<or> e = m_mk_false))"

lemma converter_of:
  assumes "cfg_inv c" "m_keypos c = 0" "\<And>ks. set (order ks) = set ks \<and> (distinct ks \<longrightarrow> distinct (order ks))"
  shows "apply_mc (converter_of order c) md = (if m_keys c = [] then md
    else convert_bits True (order (m_keys c)) (map (\<lambda>k. the (m_const2bits c k)) (order (m_keys c))) md)"
proof -
  have e: "end_rewrite c Map.empty [] = (m_const2bits c, m_newbits c)"
    using end_rewrite [OF assms(1), of Map.empty "[]"] assms(1,2) by (simp add: cfg_inv_def)
  have "order ks = [] \<longleftrightarrow> ks = []" for ks using assms(3) [of ks] by (metis set_empty)
  then show ?thesis
    by (simp add: converter_of_def e assms(2) mk_bit_blaster_model_converter_def apply_mc_def comp_def)
qed

lemma converted_goal:
  assumes c: "cfg_inv c" "m_keypos c = 0" "\<And>ks. set (order ks) = set ks \<and> (distinct ks \<longrightarrow> distinct (order ks))"
    and new: "\<forall>r \<in> set (m_values c). \<forall>b \<in> set (get_args r). \<not> below n b"
    and md: "bit_model (m_keys c) md"
  defines "vs \<equiv> order (m_keys c)" and "bss \<equiv> map (\<lambda>k. the (m_const2bits c k)) (order (m_keys c))"
  shows "map_of (zip vs bss) = m_const2bits c"
    "below n t \<Longrightarrow> eval (model_interp I (apply_mc (converter_of order c) md)) t =
      eval (blasted (model_interp I md) (bit_values (model_interp I md) vs bss)) t"
proof -
  have vs: "set vs = set (m_keys c)" "distinct vs"
    using c(1) c(3) [of "m_keys c"] by (simp_all add: vs_def cfg_inv_def)
  have dom: "dom (m_const2bits c) = set (m_keys c)" using c(1) by (simp add: cfg_inv_def)
  have bss: "bss = map (\<lambda>k. the (m_const2bits c k)) vs" by (simp add: bss_def vs_def)
  show m: "map_of (zip vs bss) = m_const2bits c"
  proof
    fix x
    show "map_of (zip vs bss) x = m_const2bits c x"
      using dom vs(1) by (cases "m_const2bits c x") (auto simp: bss map_of_zip_map)
  qed
  have mapped: "m_const2bits c k = Some (the (m_const2bits c k))" if "k \<in> set vs" for k
    using that dom vs(1) by (cases "m_const2bits c k") auto
  have eo: "list_all2 entry_ok vs bss"
    using cfg_inv_entry [OF c(1) mapped] by (simp add: bss list.rel_map list_all2_same)
  have sub: "set bss \<subseteq> set (m_values c)"
  proof
    fix bs
    assume "bs \<in> set bss"
    then obtain k where k: "k \<in> set vs" "bs = the (m_const2bits c k)" by (auto simp: bss)
    have "map_of (zip (m_keys c) (m_values c)) k = Some bs" using mapped [OF k(1)] k(2) c(1) unfolding cfg_inv_def by metis
    then show "bs \<in> set (m_values c)" by (auto dest!: map_of_SomeD set_zip_rightD)
  qed
  have bits: "bits_ok md bss" unfolding bits_ok_def
  proof (intro ballI)
    fix bs b
    assume b: "bs \<in> set bss" "b \<in> set (get_args bs)"
    then obtain v where "entry_ok v bs" using eo by (auto simp: list_all2_conv_all_nth in_set_conv_nth)
    then have "is_bit_const b" using b(2) by (auto elim!: entry_okE simp: mk_mkbv_def list_all_iff)
    then show "bit_interp md b \<in> {None, Some m_mk_true, Some m_mk_false}"
      using md by (cases b rule: is_bit_const.cases; cases "bit_interp md b") (auto simp: bit_interp_def bit_model_def)
  qed
  show "eval (model_interp I (apply_mc (converter_of order c) md)) t =
      eval (blasted (model_interp I md) (bit_values (model_interp I md) vs bss)) t" if t: "below n t"
  proof (cases "m_keys c = []")
    case True
    then have "vs = []" using vs(1) by simp
    then have "bit_values (model_interp I md) vs bss = const_values (model_interp I md)"
      by (simp add: bit_values_def fun_eq_iff)
    then show ?thesis using True converter_of [OF c] by simp
  next
    case False
    have "\<forall>v \<in> set vs. m_interp md v = None" using md vs(1) by (simp add: bit_model_def)
    from converted_eval [OF _ bits eo vs(2) this _ t, of I] md new sub
    have "eval (model_interp I (convert_bits True vs bss md)) t =
        eval (blasted (model_interp I md) (bit_values (model_interp I md) vs bss)) t" by (auto simp: bit_model_def)
    then show ?thesis using False converter_of [OF c] by (simp add: vs_def bss_def)
  qed
qed


section \<open>A tactic with its own rewriter\<close>

lemma mk_imp_updt_params: "rewriter_updt_params p (mk_imp n c) = mk_imp n (cfg_updt_params p c)"
  by (simp add: rewriter_updt_params_def mk_imp_def mk_tpl_simps)

lemma mk_bit_blaster_tactic_rewriter:
  "t_rewriter (mk_bit_blaster_tactic m n k None p) = mk_imp n (cfg_updt_params p (mk_bit_blaster_rewriter m k p))"
  "t_own (mk_bit_blaster_tactic m n k None p)"
  by (simp_all add: mk_bit_blaster_tactic_def imp_updt_params_def mk_imp_updt_params)

lemma mk_bit_blaster_tactic_ready: "tactic_ready m (t_rewriter (mk_bit_blaster_tactic m n k None p))"
proof -
  have "reachable m (cfg_updt_params p (mk_bit_blaster_rewriter m k p))"
    unfolding reachable_def using step_params by blast
  then have "blaster_inv m (cfg_updt_params p (mk_bit_blaster_rewriter m k p))"
    using reachable_inv by (simp add: blaster_inv_def)
  then show ?thesis unfolding mk_bit_blaster_tactic_rewriter by (rule mk_imp_tactic_ready)
qed

lemma tactic_apply_iff: "tactic_apply res E order g st = Some (Inr gs, st') \<longleftrightarrow> imp_apply res E order g st = Some (Inr gs, st')"
  by (auto simp: tactic_apply_def split: option.splits sum.splits)

lemma inc_depth_simps [simp]:
  "m_forms (inc_depth g) = m_forms g" "m_mc (inc_depth g) = m_mc g" "holds I (inc_depth g) = holds I g"
  "goal_ok (inc_depth g) = goal_ok g"
  by (simp_all add: inc_depth_def holds_def goal_ok_def)

lemma add_mc_simps [simp]:
  "m_forms (add_mc mc g) = m_forms g" "m_mc (add_mc mc g) = mc_concat (m_mc g) mc" "holds I (add_mc mc g) = holds I g"
  "goal_ok (add_mc mc g) = goal_ok g"
  by (simp_all add: add_mc_def holds_def goal_ok_def)

text \<open>The new goal has a model exactly when the old one has.\<close>

lemma tactic_satisfiable:
  assumes "goal_ok g" "tactic_ready m (t_rewriter st)" "names_ok (m_rw_cfg (t_rewriter st))"
    and "list_all (below (unat (m_fresh_id (m_rw_cfg (t_rewriter st))))) (m_forms g)"
    and "tactic_apply res E order g st = Some (Inr [g'], st')"
    and "unat (m_fresh_id (m_rw_cfg (t_rewriter st))) + bits_of (goal_consts g) < 2 ^ 32"
  shows "(\<exists>I. holds I g') \<longleftrightarrow> (\<exists>I. consistent (m_rw_cfg (t_rewriter st)) I \<and> holds I g)"
proof -
  from assms(5) have "imp_apply res E order g st = Some (Inr [g'], st')" by (simp add: tactic_apply_iff)
  from imp_apply_result [OF assms(1,2) this] show ?thesis
  proof cases
    case (1 rw0 change n rw1 g1)
    from blasted_satisfiable [OF assms(1) _ 1(5) _ 1(2)] assms(3,4,6) 1(1,4)
    have "(\<exists>I. consistent (m_rw_cfg (t_rewriter st)) I \<and> holds I g) \<longleftrightarrow> (\<exists>I. holds I g1)"
      by (simp add: start_rewrite_simps)
    then show ?thesis using 1(3) by auto
  qed
qed

text \<open>The one goal it returns, and what it keeps.\<close>

lemma tactic_one_goal:
  assumes "goal_ok g" "tactic_ready m (t_rewriter st)" "tactic_apply res E order g st = Some (Inr gs, st')"
  shows "\<exists>g'. gs = [g'] \<and> goal_ok g' \<and> m_depth g' = m_depth g + 1 \<and> m_precision g' = m_precision g \<and>
    m_models_enabled g' = m_models_enabled g \<and> m_core_enabled g' = m_core_enabled g \<and>
    (\<forall>I. consistent (m_rw_cfg (t_rewriter st')) I \<longrightarrow> (holds I g' \<longleftrightarrow> holds I g)) \<and> t_own st' = t_own st"
proof -
  from assms(3) have "imp_apply res E order g st = Some (Inr gs, st')" by (simp add: tactic_apply_iff)
  from imp_apply_result [OF assms(1,2) this] show ?thesis
  proof cases
    case (1 rw0 change n rw1 g1)
    have "holds I g1 \<longleftrightarrow> holds I g" if "consistent (m_rw_cfg rw1) I" for I
      using blasted_goal [OF assms(1) 1(5,2), of I "const_values I"] that by simp
    then show ?thesis using 1(3,4,7,8) by (auto simp: inc_depth_def add_mc_def same_goal_def holds_def goal_ok_def)
  qed
qed

text \<open>Every outcome of a call.\<close>

lemma tactic_outcome:
  assumes "goal_ok g" "tactic_ready m (t_rewriter st)"
  obtains (throws) e g1 st1 where "tactic_apply res E order g st = Some (Inl (Tactic_exception e, g1), st1)"
      "e \<in> blaster_errors" "goal_ok g1" "same_goal g g1"
  | (returns) g1 st1 where "tactic_apply res E order g st = Some (Inr [g1], st1)"
proof -
  let ?rw = "(t_rewriter st)\<lparr>m_rw_cfg := start_rewrite (m_rw_cfg (t_rewriter st))\<rparr>"
  have i: "idxs_ok [0..<goal_size g] g" by (simp add: idxs_ok_def goal_size_def)
  have r: "blaster_ready m ?rw" using start_rewrite_ready [OF assms(2)] by (simp add: tactic_ready_def)
  note run = blast_forms_result [OF assms(1) i r, where res = res and E = E and change = False and n = 0]
  show thesis
  proof (cases "blast_forms res E [0..<goal_size g] (False, 0, ?rw, g)")
    case None
    then show thesis using run by simp
  next
    case (Some x)
    show thesis
    proof (cases x)
      case (Inl y)
      then obtain e change n rw1 g1 where y: "y = (e, change, n, rw1, g1)" by (cases y) auto
      show thesis by (rule throws) (use run Some Inl y in \<open>auto simp: tactic_apply_def imp_apply_def\<close>)
    next
      case (Inr y)
      then obtain change n rw1 g1 where y: "y = (change, n, rw1, g1)" by (cases y) auto
      show thesis by (rule returns) (use Some Inr y in \<open>simp add: tactic_apply_def imp_apply_def Let_def\<close>)
    qed
  qed
qed

end
