(* ===== verification/Tactical.thy ===== *)
theory Tactical
  imports Goal
begin

text \<open>
  Tactics and the sequential tacticals that combine them (\<open>src/Z3/z3-master/src/tactic/tactic.cpp\<close>,
  \<open>tactical.cpp\<close>). A tactic works in place: goals are objects with an address, a call changes the
  goal it is given and may make new ones, and its result is a list of addresses, often that of the
  given goal itself. The buffer of results is empty whenever a tactic is called, so it is the value
  of the call. Goals have no proofs and no dependency converters.
\<close>

section \<open>State\<close>

text \<open>
  The goals, the next free address, and the state of the tactic objects. \<open>tactic_exception\<close> is told
  from the other exceptions, which no tactical catches.
\<close>

record ('s, 'd) world =
  w_goals :: "nat \<Rightarrow> 'd goal"
  w_next :: nat
  w_state :: 's

datatype z3_exception = Tactic_exn string | Other_exn string

type_synonym ('s, 'd, 'a) run = "((z3_exception + 'a) \<times> ('s, 'd) world) option"

record ('s, 'd) tactic_obj =
  t_apply :: "nat \<Rightarrow> ('s, 'd) world \<Rightarrow> ('s, 'd, nat list) run"
  t_cleanup :: "('s, 'd) world \<Rightarrow> ('s, 'd) world"

definition then_run :: "('s, 'd, 'a) run \<Rightarrow> ('a \<Rightarrow> ('s, 'd) world \<Rightarrow> ('s, 'd, 'b) run) \<Rightarrow> ('s, 'd, 'b) run" where
  "then_run m k = Option.bind m (\<lambda>(x, w). case x of Inl e \<Rightarrow> Some (Inl e, w) | Inr a \<Rightarrow> k a w)"

lemma then_run_simps [simp]:
  "then_run None k = None" "then_run (Some (Inl e, w)) k = Some (Inl e, w)" "then_run (Some (Inr a, w)) k = k a w"
  by (simp_all add: then_run_def)

lemma then_run_mono [partial_function_mono]:
  fixes C :: "'a \<Rightarrow> ('s, 'd) world \<Rightarrow> _ \<Rightarrow> _"
  assumes m: "mono_option B" and k: "\<And>a w. mono_option (\<lambda>f. C a w f)"
  shows "mono_option (\<lambda>f. then_run (B f) (\<lambda>a w. C a w f))"
proof -
  have "mono_option (\<lambda>f. case x of Inl e \<Rightarrow> Some (Inl e, w) | Inr a \<Rightarrow> C a w f)" for x and w :: "('s, 'd) world"
    using k by (cases x) (auto intro: partial_function_mono)
  then show ?thesis unfolding then_run_def by (intro partial_function_mono m) (simp add: case_prod_beta)
qed

text \<open>The results of a run, or its exception.\<close>

lemma then_run_SomeE:
  assumes "then_run m k = Some (x, w')"
  obtains (throws) e where "m = Some (Inl e, w')" "x = Inl e"
  | (returns) a w where "m = Some (Inr a, w)" "k a w = Some (x, w')"
  using assms by (auto simp: then_run_def split: Option.bind_splits sum.splits)

definition set_goal :: "nat \<Rightarrow> 'd goal \<Rightarrow> ('s, 'd) world \<Rightarrow> ('s, 'd) world" where
  "set_goal a g w = w\<lparr>w_goals := (w_goals w)(a := g)\<rparr>"

lemma set_goal_simps [simp]:
  "w_goals (set_goal a g w) = (w_goals w)(a := g)" "w_next (set_goal a g w) = w_next w" "w_state (set_goal a g w) = w_state w"
  by (simp_all add: set_goal_def)

text \<open>The tests on the results of a call.\<close>

definition decided :: "('s, 'd) world \<Rightarrow> nat list \<Rightarrow> bool" where
  "decided w rs = (length rs = 1 \<and> is_decided (w_goals w (rs ! 0)))"

definition decided_sat :: "('s, 'd) world \<Rightarrow> nat list \<Rightarrow> bool" where
  "decided_sat w rs = (length rs = 1 \<and> is_decided_sat (w_goals w (rs ! 0)))"

definition decided_unsat :: "('s, 'd) world \<Rightarrow> nat list \<Rightarrow> bool" where
  "decided_unsat w rs = (length rs = 1 \<and> is_decided_unsat (w_goals w (rs ! 0)))"

section \<open>Simple tactics\<close>

definition skip_tactic :: "('s, 'd) tactic_obj" where
  "skip_tactic = \<lparr>t_apply = (\<lambda>a w. Some (Inr [a], w)), t_cleanup = (\<lambda>w. w)\<rparr>"

definition fail_tactic :: "('s, 'd) tactic_obj" where
  "fail_tactic = \<lparr>t_apply = (\<lambda>a w. Some (Inl (Tactic_exn ''fail tactic''), w)), t_cleanup = (\<lambda>w. w)\<rparr>"

definition fail_if_undecided_tactic :: "('s, 'd) tactic_obj" where
  "fail_if_undecided_tactic = \<lparr>t_apply = (\<lambda>a w.
       if \<not> is_decided (w_goals w a) then Some (Inl (Tactic_exn ''undecided''), w) else Some (Inr [a], w)),
     t_cleanup = (\<lambda>w. w)\<rparr>"

text \<open>A probe is a test of a goal.\<close>

definition fail_if :: "('d goal \<Rightarrow> bool) \<Rightarrow> ('s, 'd) tactic_obj" where
  "fail_if p = \<lparr>t_apply = (\<lambda>a w.
       if p (w_goals w a) then Some (Inl (Tactic_exn ''fail-if tactic''), w) else Some (Inr [a], w)),
     t_cleanup = (\<lambda>w. w)\<rparr>"

definition fail_if_not :: "('d goal \<Rightarrow> bool) \<Rightarrow> ('s, 'd) tactic_obj" where
  "fail_if_not p = fail_if (\<lambda>g. \<not> p g)"

section \<open>\<open>and_then\<close>\<close>

text \<open>The goal \<open>in\<close> is made false when all subgoals were closed.\<close>

definition close_goal :: "nat \<Rightarrow> ('s, 'd) world \<Rightarrow> ('s, 'd) world" where
  "close_goal a w = set_goal a (assert_expr m_mk_false None (reset_all (w_goals w a))) w"

text \<open>The second tactic on every subgoal; True means that one of them is decided to be satisfiable.\<close>

fun and_then_loop ::
    "('s, 'd) tactic_obj \<Rightarrow> nat list \<Rightarrow> nat list \<Rightarrow> ('s, 'd) world \<Rightarrow> ('s, 'd, bool \<times> nat list) run" where
  "and_then_loop t2 [] result w = Some (Inr (False, result), w)"
| "and_then_loop t2 (g # gs) result w =
    then_run (t_apply t2 g w) (\<lambda>r2 w.
      if decided w r2 then
        (if decided_sat w r2 then Some (Inr (True, [r2 ! 0]), w)
         else and_then_loop t2 gs result w)
      else and_then_loop t2 gs (result @ r2) w)"

definition and_then :: "('s, 'd) tactic_obj \<Rightarrow> ('s, 'd) tactic_obj \<Rightarrow> ('s, 'd) tactic_obj" where
  "and_then t1 t2 = \<lparr>t_apply = (\<lambda>a w.
       then_run (t_apply t1 a w) (\<lambda>r1 w.
         if length r1 = 1 then
           (if is_decided (w_goals w (r1 ! 0)) then Some (Inr [r1 ! 0], w) else t_apply t2 (r1 ! 0) w)
         else
           then_run (and_then_loop t2 r1 [] w) (\<lambda>(found, result) w.
             if found then Some (Inr result, w)
             else if result = [] then Some (Inr [a], close_goal a w)
             else Some (Inr result, w)))),
     t_cleanup = (\<lambda>w. t_cleanup t2 (t_cleanup t1 w))\<rparr>"

fun and_thens :: "('s, 'd) tactic_obj list \<Rightarrow> ('s, 'd) tactic_obj" where
  "and_thens [t] = t"
| "and_thens (t # t2 # ts) = and_then t (and_thens (t2 # ts))"

section \<open>\<open>or_else\<close>\<close>

text \<open>A tactic that fails may have changed the goal; it is restored from a copy made before.\<close>

definition restore :: "'d goal \<Rightarrow> nat \<Rightarrow> ('s, 'd) world \<Rightarrow> ('s, 'd) world" where
  "restore orig a w = set_goal a (copy_to orig (reset_all (w_goals w a))) w"

fun or_else_loop :: "'d goal \<Rightarrow> ('s, 'd) tactic_obj list \<Rightarrow> nat \<Rightarrow> ('s, 'd) world \<Rightarrow> ('s, 'd, nat list) run" where
  "or_else_loop orig [] a w = Some (Inr [], w)"
| "or_else_loop orig [t] a w = t_apply t a w"
| "or_else_loop orig (t # ts) a w =
    (case t_apply t a w of
       Some (Inl (Tactic_exn e), w1) \<Rightarrow> or_else_loop orig ts a (restore orig a w1)
     | r \<Rightarrow> r)"

definition or_else :: "('s, 'd) tactic_obj list \<Rightarrow> ('s, 'd) tactic_obj" where
  "or_else ts = \<lparr>t_apply = (\<lambda>a w. or_else_loop (goal_copy (w_goals w a)) ts a w),
     t_cleanup = (\<lambda>w. fold t_cleanup ts w)\<rparr>"

definition skip_if_failed :: "('s, 'd) tactic_obj \<Rightarrow> ('s, 'd) tactic_obj" where
  "skip_if_failed t = or_else [t, skip_tactic]"

section \<open>\<open>repeat\<close>\<close>

text \<open>
  The two loops of \<open>repeat_tactical\<close>: \<open>Inl (depth, g)\<close> applies the tactic to \<open>g\<close>, \<open>Inr (depth, g, gs,
  result)\<close> goes on with the subgoals \<open>gs\<close> of \<open>g\<close>. The depth has 32 bits and wraps; with the default
  limit, the largest number, the recursion need not end.
\<close>

type_synonym repeat_point = "(32 word \<times> nat) + (32 word \<times> nat \<times> nat list \<times> nat list)"

partial_function (option) repeat_run ::
    "('s, 'd) tactic_obj \<Rightarrow> 32 word \<Rightarrow> repeat_point \<Rightarrow> ('s, 'd) world \<Rightarrow> ('s, 'd, nat list) run" where
  "repeat_run t max_depth p w = (case p of
     Inl (depth, g) \<Rightarrow>
       (if max_depth < depth then Some (Inr [g], w)
        else
          (let orig_in = goal_copy (w_goals w g)
           in then_run (t_apply t g w) (\<lambda>r1 w.
                if length r1 = 1 \<and> goal_is_equal orig_in (w_goals w (r1 ! 0)) then Some (Inr [r1 ! 0], w)
                else if length r1 = 1 then
                  (if is_decided (w_goals w (r1 ! 0)) then Some (Inr [r1 ! 0], w)
                   else repeat_run t max_depth (Inl (depth + 1, r1 ! 0)) w)
                else repeat_run t max_depth (Inr (depth, g, r1, [])) w)))
   | Inr (depth, g, gs, result) \<Rightarrow>
       (case gs of
          [] \<Rightarrow> if result = [] then Some (Inr [g], close_goal g w) else Some (Inr result, w)
        | g1 # gs1 \<Rightarrow>
            then_run (repeat_run t max_depth (Inl (depth + 1, g1)) w) (\<lambda>r2 w.
              if decided w r2 then
                (if decided_sat w r2 then Some (Inr (result @ [r2 ! 0]), w)
                 else repeat_run t max_depth (Inr (depth, g, gs1, result)) w)
              else repeat_run t max_depth (Inr (depth, g, gs1, result @ r2)) w)))"

declare repeat_run.simps [code]

definition repeat_tactical :: "('s, 'd) tactic_obj \<Rightarrow> 32 word \<Rightarrow> ('s, 'd) tactic_obj" where
  "repeat_tactical t max_depth = \<lparr>t_apply = (\<lambda>a w. repeat_run t max_depth (Inl (0, a)) w), t_cleanup = t_cleanup t\<rparr>"

section \<open>The other tacticals\<close>

definition fail_if_branching :: "('s, 'd) tactic_obj \<Rightarrow> nat \<Rightarrow> ('s, 'd) tactic_obj" where
  "fail_if_branching t threshold = \<lparr>t_apply = (\<lambda>a w.
       then_run (t_apply t a w) (\<lambda>rs w.
         if threshold < length rs then Some (Inl (Tactic_exn ''failed-if-branching tactical''), w)
         else Some (Inr rs, w))),
     t_cleanup = t_cleanup t\<rparr>"

definition clean :: "('s, 'd) tactic_obj \<Rightarrow> ('s, 'd) tactic_obj" where
  "clean t = \<lparr>t_apply = (\<lambda>a w. then_run (t_apply t a w) (\<lambda>rs w. Some (Inr rs, t_cleanup t w))),
     t_cleanup = t_cleanup t\<rparr>"

definition cond :: "('d goal \<Rightarrow> bool) \<Rightarrow> ('s, 'd) tactic_obj \<Rightarrow> ('s, 'd) tactic_obj \<Rightarrow> ('s, 'd) tactic_obj" where
  "cond p t1 t2 = \<lparr>t_apply = (\<lambda>a w. if p (w_goals w a) then t_apply t1 a w else t_apply t2 a w),
     t_cleanup = (\<lambda>w. t_cleanup t2 (t_cleanup t1 w))\<rparr>"

definition when_tactic :: "('d goal \<Rightarrow> bool) \<Rightarrow> ('s, 'd) tactic_obj \<Rightarrow> ('s, 'd) tactic_obj" where
  "when_tactic p t = cond p t skip_tactic"

definition if_no_unsat_cores :: "('s, 'd) tactic_obj \<Rightarrow> ('s, 'd) tactic_obj" where
  "if_no_unsat_cores t = \<lparr>t_apply = (\<lambda>a w. if m_core_enabled (w_goals w a) then Some (Inr [a], w) else t_apply t a w),
     t_cleanup = t_cleanup t\<rparr>"

definition if_no_models :: "('s, 'd) tactic_obj \<Rightarrow> ('s, 'd) tactic_obj" where
  "if_no_models t = \<lparr>t_apply = (\<lambda>a w. if m_models_enabled (w_goals w a) then Some (Inr [a], w) else t_apply t a w),
     t_cleanup = t_cleanup t\<rparr>"

section \<open>Running a tactic\<close>

text \<open>\<open>exec\<close> cleans up also after a \<open>tactic_exception\<close>, which it throws again.\<close>

definition exec_tactic :: "('s, 'd) tactic_obj \<Rightarrow> nat \<Rightarrow> ('s, 'd) world \<Rightarrow> ('s, 'd, nat list) run" where
  "exec_tactic t a w =
    (case t_apply t a w of
       None \<Rightarrow> None
     | Some (Inl (Tactic_exn e), w1) \<Rightarrow> Some (Inl (Tactic_exn e), t_cleanup t w1)
     | Some (Inl (Other_exn e), w1) \<Rightarrow> Some (Inl (Other_exn e), w1)
     | Some (Inr rs, w1) \<Rightarrow> Some (Inr rs, t_cleanup t w1))"

datatype lbool = l_false | l_undef | l_true

definition model_converter2model :: "model_converter option \<Rightarrow> model option \<Rightarrow> model option" where
  "model_converter2model mc md = (case mc of None \<Rightarrow> md | Some c \<Rightarrow> Some (mc_apply c empty_model))"

text \<open>The answer, the model and the core, and the reason for an unknown answer.\<close>

definition check_sat ::
    "('s, 'd) tactic_obj \<Rightarrow> nat \<Rightarrow> ('s, 'd) world \<Rightarrow>
      ((lbool \<times> model option \<times> 'd option \<times> string option) \<times> ('s, 'd) world) option" where
  "check_sat t a w =
    (let models_enabled = m_models_enabled (w_goals w a); cores_enabled = m_core_enabled (w_goals w a)
     in case exec_tactic t a w of
          None \<Rightarrow> None
        | Some (Inl (Tactic_exn e), w1) \<Rightarrow> Some ((l_undef, None, None, Some e), w1)
        | Some (Inl (Other_exn e), w1) \<Rightarrow> Some ((l_undef, None, None, Some e), w1)
        | Some (Inr r, w1) \<Rightarrow>
            (if decided_sat w1 r then
               (let md = model_converter2model (m_mc (w_goals w1 (r ! 0))) None
                in Some ((l_true, Some (case md of None \<Rightarrow> empty_model | Some x \<Rightarrow> x), None, None), w1))
             else if decided_unsat w1 r then
               Some ((l_false, None, if cores_enabled then dep (w_goals w1 (r ! 0)) 0 else None, None), w1)
             else
               Some ((l_undef,
                 if models_enabled \<and> r \<noteq> [] then model_converter2model (m_mc (w_goals w1 (r ! 0))) None else None,
                 None, Some ''incomplete''), w1)))"

end
