(* ===== verification/Tactical_Sound.thy ===== *)
theory Tactical_Sound
  imports Tactical
begin

text \<open>
  What a tactic promises, as a locale: it returns, it changes the goal it is given and new goals only,
  and its result answers the goal. The tacticals keep this promise, and with it \<open>check_sat\<close> is right.
\<close>

section \<open>What a result says of a goal\<close>

definition satisfiable :: "'d goal \<Rightarrow> bool" where
  "satisfiable g = (\<exists>I. holds I g)"

text \<open>A model, if the precision allows to conclude that there is one, and likewise for none.\<close>

definition has_model :: "'d goal \<Rightarrow> bool" where
  "has_model g = (sat_preserved g \<and> satisfiable g)"

definition has_none :: "'d goal \<Rightarrow> bool" where
  "has_none g = (unsat_preserved g \<and> \<not> satisfiable g)"

definition answers :: "'d goal \<Rightarrow> 'd goal list \<Rightarrow> bool" where
  "answers g gs = (gs \<noteq> [] \<and> (\<forall>h \<in> set gs. has_model h \<longrightarrow> has_model g) \<and> ((\<forall>h \<in> set gs. has_none h) \<longrightarrow> has_none g))"

lemma answers_refl [simp]: "answers g [g]"
  by (simp add: answers_def)

lemma answers_single: "answers g [h] \<Longrightarrow> answers h gs \<Longrightarrow> answers g gs"
  by (auto simp: answers_def)

lemma decided_sat_goal: "is_decided_sat g \<Longrightarrow> has_model g"
  by (simp add: is_decided_sat_def has_model_def satisfiable_def holds_def goal_size_def)

lemma decided_unsat_goal: "goal_ok g \<Longrightarrow> is_decided_unsat g \<Longrightarrow> has_none g"
  by (simp add: is_decided_unsat_def has_none_def satisfiable_def inconsistent_holds)

lemma has_model_none: "has_model g \<Longrightarrow> \<not> has_none g"
  by (simp add: has_model_def has_none_def)

section \<open>What a call changes\<close>

definition frame :: "nat set \<Rightarrow> ('s, 'd) world \<Rightarrow> ('s, 'd) world \<Rightarrow> bool" where
  "frame A w w' = (w_next w \<le> w_next w' \<and> (\<forall>b < w_next w. b \<notin> A \<longrightarrow> w_goals w' b = w_goals w b) \<and>
     (\<forall>b < w_next w. m_models_enabled (w_goals w' b) = m_models_enabled (w_goals w b) \<and>
       m_core_enabled (w_goals w' b) = m_core_enabled (w_goals w b)))"

lemma frame_refl [simp]: "frame A w w"
  by (simp add: frame_def)

lemma frame_trans:
  assumes "frame A w w1" "frame B w1 w2" "\<forall>b \<in> B. b \<in> A \<or> w_next w \<le> b"
  shows "frame A w w2"
  using assms unfolding frame_def by (metis less_le_trans not_less)

lemma frame_mono: "frame A w w' \<Longrightarrow> A \<subseteq> B \<Longrightarrow> frame B w w'"
  by (auto simp: frame_def)

lemma frame_set_goal:
  assumes "a \<in> A" "m_models_enabled g = m_models_enabled (w_goals w a)" "m_core_enabled g = m_core_enabled (w_goals w a)"
  shows "frame A w (set_goal a g w)"
  using assms by (auto simp: frame_def)

text \<open>The results of a call: different well-formed goals, the given one or new ones.\<close>

definition results :: "nat set \<Rightarrow> nat list \<Rightarrow> ('s, 'd) world \<Rightarrow> ('s, 'd) world \<Rightarrow> bool" where
  "results A rs w w' = (distinct rs \<and> (\<forall>r \<in> set rs. (r \<in> A \<or> w_next w \<le> r) \<and> r < w_next w' \<and> goal_ok (w_goals w' r)))"

abbreviation goals_at :: "('s, 'd) world \<Rightarrow> nat list \<Rightarrow> 'd goal list" where
  "goals_at w rs \<equiv> map (w_goals w) rs"

section \<open>The contract\<close>

text \<open>What the call of a tactic on the goal \<open>a\<close> does, whether it throws or returns.\<close>

definition call_ok :: "nat \<Rightarrow> ('s, 'd) world \<Rightarrow> ('s, 'd, nat list) run \<Rightarrow> bool" where
  "call_ok a w m = (case m of
       None \<Rightarrow> False
     | Some (Inl e, w') \<Rightarrow> frame {a} w w'
     | Some (Inr rs, w') \<Rightarrow> frame {a} w w' \<and> results {a} rs w w' \<and> answers (w_goals w a) (goals_at w' rs))"

lemma call_ok_simps [simp]:
  "\<not> call_ok a w None" "call_ok a w (Some (Inl e, w')) = frame {a} w w'"
  "call_ok a w (Some (Inr rs, w')) \<longleftrightarrow> frame {a} w w' \<and> results {a} rs w w' \<and> answers (w_goals w a) (goals_at w' rs)"
  by (simp_all add: call_ok_def)

lemma call_okE:
  assumes "call_ok a w m"
  obtains (throws) e w' where "m = Some (Inl e, w')" "frame {a} w w'"
  | (returns) rs w' where "m = Some (Inr rs, w')" "frame {a} w w'" "results {a} rs w w'"
      "answers (w_goals w a) (goals_at w' rs)"
  using assms by (auto simp: call_ok_def split: option.splits prod.splits sum.splits)

text \<open>
  \<open>ok\<close> is what the tactic asks of its state and the goal. A call whose exception is caught goes on with
  the restored goal, so what it did to the goal does not matter.
\<close>

locale sound_tactic =
  fixes t :: "('s, 'd) tactic_obj" and ok :: "'s \<Rightarrow> 'd goal \<Rightarrow> bool"
  assumes call: "ok (w_state w) (w_goals w a) \<Longrightarrow> goal_ok (w_goals w a) \<Longrightarrow> a < w_next w \<Longrightarrow> call_ok a w (t_apply t a w)"
    and cleanup: "w_goals (t_cleanup t w) = w_goals w" "w_next (t_cleanup t w) = w_next w"
begin

lemmas callE = call_okE [OF call]

end

text \<open>The second tactic can be called on the results of the first one, or after it failed.\<close>

definition hands_over :: "('s, 'd) tactic_obj \<Rightarrow> ('s \<Rightarrow> 'd goal \<Rightarrow> bool) \<Rightarrow> ('s \<Rightarrow> 'd goal \<Rightarrow> bool) \<Rightarrow> bool" where
  "hands_over t ok ok2 = (\<forall>a w rs w'. ok (w_state w) (w_goals w a) \<longrightarrow> goal_ok (w_goals w a) \<longrightarrow> a < w_next w \<longrightarrow>
     t_apply t a w = Some (Inr rs, w') \<longrightarrow> (\<forall>r \<in> set rs. ok2 (w_state w') (w_goals w' r)))"

definition fails_over :: "('s, 'd) tactic_obj \<Rightarrow> ('s \<Rightarrow> 'd goal \<Rightarrow> bool) \<Rightarrow> ('s \<Rightarrow> 'd goal \<Rightarrow> bool) \<Rightarrow> bool" where
  "fails_over t ok ok2 = (\<forall>a w e w'. ok (w_state w) (w_goals w a) \<longrightarrow> goal_ok (w_goals w a) \<longrightarrow> a < w_next w \<longrightarrow>
     t_apply t a w = Some (Inl e, w') \<longrightarrow> ok2 (w_state w') (w_goals w a))"

text \<open>Calling the tactic on one goal leaves the others ready for it.\<close>

definition serves_others :: "('s, 'd) tactic_obj \<Rightarrow> ('s \<Rightarrow> 'd goal \<Rightarrow> bool) \<Rightarrow> bool" where
  "serves_others t ok = (\<forall>a w rs w' g. ok (w_state w) (w_goals w a) \<longrightarrow> goal_ok (w_goals w a) \<longrightarrow> a < w_next w \<longrightarrow>
     ok (w_state w) g \<longrightarrow> t_apply t a w = Some (Inr rs, w') \<longrightarrow> ok (w_state w') g)"

section \<open>Simple tactics\<close>

lemma unchanged: "goal_ok (w_goals w a) \<Longrightarrow> a < w_next w \<Longrightarrow> results {a} [a] w w"
  by (simp add: results_def)

interpretation skip: sound_tactic skip_tactic "\<lambda>_ _. True"
  by unfold_locales (simp_all add: skip_tactic_def unchanged)

interpretation fail: sound_tactic fail_tactic "\<lambda>_ _. True"
  by unfold_locales (simp_all add: fail_tactic_def)

interpretation undecided: sound_tactic fail_if_undecided_tactic "\<lambda>_ _. True"
  by unfold_locales (simp_all add: fail_if_undecided_tactic_def unchanged)

interpretation fail_if: sound_tactic "fail_if p" "\<lambda>_ _. True" for p
  by unfold_locales (simp_all add: fail_if_def unchanged)

section \<open>Composition\<close>

lemma frame_keeps: "frame A w w' \<Longrightarrow> b < w_next w \<Longrightarrow> b \<notin> A \<Longrightarrow> w_goals w' b = w_goals w b"
  by (simp add: frame_def)

lemma frame_next: "frame A w w' \<Longrightarrow> w_next w \<le> w_next w'"
  by (simp add: frame_def)

lemma frame_flags:
  "frame A w w' \<Longrightarrow> b < w_next w \<Longrightarrow> m_models_enabled (w_goals w' b) = m_models_enabled (w_goals w b) \<and>
    m_core_enabled (w_goals w' b) = m_core_enabled (w_goals w b)"
  by (simp add: frame_def)

text \<open>Results stay results when other goals change.\<close>

lemma results_frame:
  assumes "results A rs w w1" "frame B w1 w2" "set rs \<inter> B = {}"
  shows "results A rs w w2" "goals_at w2 rs = goals_at w1 rs"
proof -
  have r: "r < w_next w1" "r \<notin> B" if "r \<in> set rs" for r using that assms(1,3) by (auto simp: results_def)
  note same = frame_keeps [OF assms(2) r]
  then show "goals_at w2 rs = goals_at w1 rs" by simp
  show "results A rs w w2" using assms(1) same frame_next [OF assms(2)] by (fastforce simp: results_def)
qed

lemma results_append:
  assumes "results A rs w w2" "results B qs w1 w2" "\<forall>b \<in> B. b \<in> A \<and> b \<notin> set rs" "\<forall>r \<in> set rs. r < w_next w1" "w_next w \<le> w_next w1"
  shows "results A (rs @ qs) w w2"
  using assms unfolding results_def by (auto simp: set_eq_iff) (meson leD le_trans)+

lemma close_goal:
  assumes "a < w_next w"
  shows "goal_ok (w_goals (close_goal a w) a)" "\<not> has_model (w_goals (close_goal a w) a)" "frame {a} w (close_goal a w)"
    "w_next (close_goal a w) = w_next w"
proof -
  let ?g = "assert_expr m_mk_false None (reset_all (w_goals w a))"
  have ok: "goal_ok (reset_all (w_goals w a))" by (simp add: goal_ok_def reset_all_def reset_core_def)
  have f: "bexp m_mk_false" by simp
  note a = assert_expr [OF ok f, where d = None]
  show "goal_ok (w_goals (close_goal a w) a)" using a(1) by (simp add: close_goal_def)
  show "\<not> has_model (w_goals (close_goal a w) a)"
    using a(3) by (simp add: close_goal_def has_model_def satisfiable_def)
  have "m_models_enabled ?g = m_models_enabled (w_goals w a)" "m_core_enabled ?g = m_core_enabled (w_goals w a)"
    using a(2) by (simp_all add: same_goal_def reset_all_def reset_core_def)
  then show "frame {a} w (close_goal a w)" unfolding close_goal_def by (intro frame_set_goal) simp_all
  show "w_next (close_goal a w) = w_next w" by (simp add: close_goal_def)
qed

lemma decided_iff: "decided w rs \<longleftrightarrow> decided_sat w rs \<or> decided_unsat w rs"
  by (auto simp: decided_def decided_sat_def decided_unsat_def is_decided_def)

lemma decided_satE:
  assumes "decided_sat w rs" "answers g (goals_at w rs)"
  shows "rs = [rs ! 0]" "has_model (w_goals w (rs ! 0))" "has_model g"
proof -
  show r: "rs = [rs ! 0]" using assms(1) by (cases rs) (auto simp: decided_sat_def)
  show m: "has_model (w_goals w (rs ! 0))" using assms(1) by (simp add: decided_sat_def decided_sat_goal)
  have "rs ! 0 \<in> set rs" using r by (metis list.set_intros(1))
  then show "has_model g" using m assms(2) by (auto simp: answers_def)
qed

lemma decided_unsatE:
  assumes "decided_unsat w rs" "answers g (goals_at w rs)" "results A rs w0 w"
  shows "has_none g"
proof -
  obtain r where r: "rs = [r]" using assms(1) by (cases rs) (auto simp: decided_unsat_def)
  then have "has_none (w_goals w r)" using assms(1,3) decided_unsat_goal by (auto simp: decided_unsat_def results_def)
  then show ?thesis using assms(2) r by (simp add: answers_def)
qed

text \<open>The second tactic on every subgoal.\<close>

definition answers_all :: "('s, 'd) world \<Rightarrow> nat list \<Rightarrow> ('s, 'd) world \<Rightarrow> nat list \<Rightarrow> bool" where
  "answers_all w gs w' rs = ((\<forall>h \<in> set rs. has_model (w_goals w' h) \<longrightarrow> (\<exists>g \<in> set gs. has_model (w_goals w g))) \<and>
     ((\<forall>h \<in> set rs. has_none (w_goals w' h)) \<longrightarrow> (\<forall>g \<in> set gs. has_none (w_goals w g))))"

definition loop_ok :: "('s \<Rightarrow> 'd goal \<Rightarrow> bool) \<Rightarrow> nat list \<Rightarrow> nat list \<Rightarrow> ('s, 'd) world \<Rightarrow> bool" where
  "loop_ok ok gs rs w = (distinct gs \<and> distinct rs \<and> set rs \<inter> set gs = {} \<and>
     (\<forall>g \<in> set gs. ok (w_state w) (w_goals w g) \<and> goal_ok (w_goals w g) \<and> g < w_next w) \<and>
     (\<forall>r \<in> set rs. r < w_next w \<and> goal_ok (w_goals w r)))"

text \<open>After a call on the first goal the loop can go on, with the results of the call or without.\<close>

lemma loop_ok_step:
  assumes "loop_ok ok (g # gs) rs w" "serves_others t ok" "t_apply t g w = Some (Inr r2, w1)" "frame {g} w w1" "results {g} r2 w w1"
  shows "loop_ok ok gs rs w1" "loop_ok ok gs (rs @ r2) w1" "goals_at w1 gs = goals_at w gs" "set r2 \<inter> set gs = {}"
    "goals_at w1 rs = goals_at w rs"
proof -
  note l = assms(1) [unfolded loop_ok_def]
  have g: "ok (w_state w) (w_goals w g)" "goal_ok (w_goals w g)" "g < w_next w" using l by simp_all
  have ok: "ok (w_state w1) (w_goals w x)" if "ok (w_state w) (w_goals w x)" for x
    using assms(2,3) g that unfolding serves_others_def by blast
  have same: "w_goals w1 x = w_goals w x" if "x \<in> set gs \<union> set rs" for x
  proof -
    have "x < w_next w" "x \<notin> {g}" using l that by auto
    then show ?thesis by (rule frame_keeps [OF assms(4)])
  qed
  have lt: "x < w_next w1" if "x < w_next w" for x using that frame_next [OF assms(4)] by simp
  show 1: "loop_ok ok gs rs w1" using l same ok lt by (auto simp: loop_ok_def)
  show r2: "set r2 \<inter> set gs = {}" using l assms(5) by (fastforce simp: results_def)
  have "set r2 \<inter> set rs = {}" using l assms(5) by (fastforce simp: results_def)
  then show "loop_ok ok gs (rs @ r2) w1" using 1 r2 assms(5) by (auto simp: loop_ok_def results_def)
  show "goals_at w1 gs = goals_at w gs" "goals_at w1 rs = goals_at w rs" using same by simp_all
qed

text \<open>
  What a part of the loop does with the goals \<open>gs\<close>: its results \<open>rs\<close> have a model, as one of the goals
  has, or they answer all the goals.
\<close>

definition found_model :: "('s, 'd) world \<Rightarrow> nat list \<Rightarrow> ('s, 'd) world \<Rightarrow> nat list \<Rightarrow> bool" where
  "found_model w gs w' rs = ((\<exists>r \<in> set rs. has_model (w_goals w' r)) \<and> (\<exists>g \<in> set gs. has_model (w_goals w g)))"

definition treats :: "('s, 'd) world \<Rightarrow> nat list \<Rightarrow> ('s, 'd) world \<Rightarrow> nat list \<Rightarrow> bool" where
  "treats w gs w' rs = (frame (set gs) w w' \<and> results (set gs) rs w w' \<and> (found_model w gs w' rs \<or> answers_all w gs w' rs))"

text \<open>One round: the first goal is given to the tactic.\<close>

lemma treats_tail:
  assumes "frame {g} w w1" "goals_at w1 gs = goals_at w gs" "treats w1 gs w' rs"
  shows "frame (set (g # gs)) w w'" "results (set (g # gs)) rs w w'" "found_model w1 gs w' rs \<Longrightarrow> found_model w (g # gs) w' rs"
proof -
  show "frame (set (g # gs)) w w'"
    by (rule frame_trans [OF frame_mono [OF assms(1)], of "set (g # gs)"]) (use assms(3) in \<open>auto simp: treats_def\<close>)
  show "results (set (g # gs)) rs w w'"
    using assms(3) frame_next [OF assms(1)] by (fastforce simp: treats_def results_def)
  show "found_model w1 gs w' rs \<Longrightarrow> found_model w (g # gs) w' rs" using assms(2) by (auto simp: found_model_def)
qed

lemma treats_closed:
  assumes "frame {g} w w1" "goals_at w1 gs = goals_at w gs" "treats w1 gs w' rs" "has_none (w_goals w g)"
  shows "treats w (g # gs) w' rs"
proof -
  have "answers_all w1 gs w' rs \<Longrightarrow> answers_all w (g # gs) w' rs" using assms(2,4) by (auto simp: answers_all_def)
  then show ?thesis using treats_tail [OF assms(1-3)] assms(3) by (auto simp: treats_def)
qed

lemma treats_kept:
  assumes "frame {g} w w1" "goals_at w1 gs = goals_at w gs" "results {g} r2 w w1" "set r2 \<inter> set gs = {}" "g \<notin> set gs"
    "answers (w_goals w g) (goals_at w1 r2)" "treats w1 gs w' rs"
  shows "treats w (g # gs) w' (r2 @ rs)"
proof -
  note t = treats_tail [OF assms(1,2,7)]
  have f: "frame (set gs) w1 w'" "results (set gs) rs w1 w'" using assms(7) by (simp_all add: treats_def)
  have r2: "results {g} r2 w w'" "goals_at w' r2 = goals_at w1 r2" using results_frame [OF assms(3) f(1) assms(4)] .
  have "answers (w_goals w g) (goals_at w' r2)" using assms(6) r2(2) by (simp only:)
  then have "answers_all w1 gs w' rs \<Longrightarrow> answers_all w (g # gs) w' (r2 @ rs)"
    using assms(2) unfolding answers_all_def answers_def by auto
  moreover have "found_model w (g # gs) w' rs \<Longrightarrow> found_model w (g # gs) w' (r2 @ rs)" by (auto simp: found_model_def)
  moreover have "results (set (g # gs)) (r2 @ rs) w w'"
  proof (rule results_append [OF _ f(2)])
    show "results (set (g # gs)) r2 w w'" using r2(1) by (auto simp: results_def)
  qed (use assms(3-5) frame_next [OF assms(1)] in \<open>auto simp: results_def\<close>)
  ultimately show ?thesis using t assms(7) by (auto simp: treats_def)
qed

lemma loop_cases:
  assumes t: "sound_tactic t ok" "serves_others t ok" and l: "loop_ok ok (g # gs) result w"
  obtains (throws) e w' where "t_apply t g w = Some (Inl e, w')" "frame (set (g # gs)) w w'"
  | (solved) r w1 where "t_apply t g w = Some (Inr [r], w1)" "decided_sat w1 [r]" "treats w (g # gs) w1 [r]"
      "found_model w (g # gs) w1 [r]"
  | (closed) r2 w1 where "t_apply t g w = Some (Inr r2, w1)" "\<not> decided_sat w1 r2" "decided w1 r2" "loop_ok ok gs result w1"
      "\<And>rs w'. treats w1 gs w' rs \<Longrightarrow> treats w (g # gs) w' rs" "\<And>w'. frame (set gs) w1 w' \<Longrightarrow> frame (set (g # gs)) w w'"
      "\<And>rs w'. found_model w1 gs w' rs \<Longrightarrow> found_model w (g # gs) w' rs"
  | (kept) r2 w1 where "t_apply t g w = Some (Inr r2, w1)" "\<not> decided w1 r2" "loop_ok ok gs (result @ r2) w1"
      "\<And>rs w'. treats w1 gs w' rs \<Longrightarrow> treats w (g # gs) w' (r2 @ rs)" "\<And>w'. frame (set gs) w1 w' \<Longrightarrow> frame (set (g # gs)) w w'"
      "\<And>rs w'. found_model w1 gs w' rs \<Longrightarrow> treats w1 gs w' rs \<Longrightarrow> found_model w (g # gs) w' rs \<and> treats w (g # gs) w' rs"
proof -
  have g: "ok (w_state w) (w_goals w g)" "goal_ok (w_goals w g)" "g < w_next w" "g \<notin> set gs" using l by (simp_all add: loop_ok_def)
  show thesis
  proof (rule sound_tactic.callE [OF t(1) g(1-3)])
    fix e w'
    assume "t_apply t g w = Some (Inl e, w')" "frame {g} w w'"
    then show thesis by (intro throws) (auto elim: frame_mono)
  next
    fix r2 w1
    assume c: "t_apply t g w = Some (Inr r2, w1)" "frame {g} w w1" "results {g} r2 w w1" "answers (w_goals w g) (goals_at w1 r2)"
    note s = loop_ok_step [OF l t(2) c(1-3)]
    have fr: "frame (set (g # gs)) w w'" if "frame (set gs) w1 w'" for w'
      by (rule frame_trans [OF frame_mono [OF c(2)] that]) auto
    have fo: "found_model w (g # gs) w' rs" if "found_model w1 gs w' rs" for w' rs using that s(3) by (auto simp: found_model_def)
    show thesis
    proof (cases "decided_sat w1 r2")
      case True
      note d = decided_satE [OF True c(4)]
      obtain r where r: "r2 = [r]" using d(1) by metis
      have "found_model w (g # gs) w1 [r]" using d(2,3) by (simp add: found_model_def r)
      moreover have "results (set (g # gs)) [r] w w1" using c(3) by (auto simp: results_def r)
      ultimately show thesis using solved [OF c(1) [unfolded r] True [unfolded r]] frame_mono [OF c(2), of "set (g # gs)"]
        by (simp add: treats_def)
    next
      case nsat: False
      show thesis
      proof (cases "decided_unsat w1 r2")
        case True
        show thesis
          by (rule closed [OF c(1) nsat _ s(1) treats_closed [OF c(2) s(3) _ decided_unsatE [OF True c(4,3)]] fr fo])
            (use True in \<open>simp_all add: decided_iff\<close>)
      next
        case False
        have "found_model w (g # gs) w' rs \<and> treats w (g # gs) w' rs" if "found_model w1 gs w' rs" "treats w1 gs w' rs" for rs w'
          using treats_tail [OF c(2) s(3) that(2)] that(1) by (simp add: treats_def)
        then show thesis
          by (intro kept [OF c(1) _ s(2) treats_kept [OF c(2) s(3) c(3) s(4) g(4) c(4)] fr])
            (use nsat False in \<open>simp_all add: decided_iff\<close>)
      qed
    qed
  qed
qed

lemma and_then_loop:
  assumes t: "sound_tactic t ok" "serves_others t ok" and l: "loop_ok ok gs result w"
  shows "case and_then_loop t gs result w of
      None \<Rightarrow> False
    | Some (Inl e, w') \<Rightarrow> frame (set gs) w w'
    | Some (Inr (f, rs), w') \<Rightarrow> if f then treats w gs w' rs \<and> found_model w gs w' rs else \<exists>new. rs = result @ new \<and> treats w gs w' new"
  using l
proof (induction gs arbitrary: result w)
  case Nil
  then show ?case by (simp add: treats_def results_def answers_all_def)
next
  case (Cons g gs)
  show ?case
  proof (rule loop_cases [OF t Cons.prems], goal_cases)
    case (3 r2 w1)
    then have e: "and_then_loop t (g # gs) result w = and_then_loop t gs result w1" by simp
    show ?case unfolding e using Cons.IH [OF 3(4)] 3(5-7)
      by (fastforce split: option.splits prod.splits sum.splits if_splits)
  next
    case (4 r2 w1)
    then have e: "and_then_loop t (g # gs) result w = and_then_loop t gs (result @ r2) w1" by simp
    show ?case unfolding e using Cons.IH [OF 4(3)] 4(4-6)
      by (fastforce split: option.splits prod.splits sum.splits if_splits)
  qed (simp_all add: decided_iff)
qed

text \<open>
  The result of a branching call: every subgoal is answered, or one was decided to be satisfiable, or
  all were closed and the goal itself becomes the constant false.
\<close>

lemma branching_answers:
  assumes "answers g (goals_at w1 r1)" "answers_all w1 r1 w2 rs" "rs \<noteq> []"
  shows "answers g (goals_at w2 rs)"
  using assms unfolding answers_def answers_all_def by auto

lemma found_answers:
  assumes "answers g (goals_at w1 r1)" "\<exists>r \<in> set rs. has_model (w_goals w2 r)" "\<exists>q \<in> set r1. has_model (w_goals w1 q)"
  shows "answers g (goals_at w2 rs)"
  using assms has_model_none unfolding answers_def by auto

lemma closed_answers:
  assumes "answers g (goals_at w1 r1)" "answers_all w1 r1 w2 []" "\<not> has_model h"
  shows "answers g [h]"
  using assms unfolding answers_def answers_all_def by auto

lemma results_trans:
  assumes "results A r1 w w1" "results (set r1) r2 w1 w2" "w_next w \<le> w_next w1"
  shows "results A r2 w w2"
  using assms by (fastforce simp: results_def)

lemma results_fresh: "results A rs w w' \<Longrightarrow> b \<in> set rs \<Longrightarrow> b \<in> A \<or> w_next w \<le> b"
  by (auto simp: results_def)

text \<open>A call on the only result of a call.\<close>

lemma call_ok_chain:
  assumes "frame {a} w w1" "results {a} [r] w w1" "answers (w_goals w a) (goals_at w1 [r])" "call_ok r w1 m"
  shows "call_ok a w m"
proof -
  have fr: "frame {a} w w'" if "frame {r} w1 w'" for w'
    by (rule frame_trans [OF assms(1) that]) (use results_fresh [OF assms(2)] in auto)
  show ?thesis
  proof (rule call_okE [OF assms(4)])
    fix rs w'
    assume "m = Some (Inr rs, w')" "frame {r} w1 w'" "results {r} rs w1 w'" "answers (w_goals w1 r) (goals_at w' rs)"
    then show ?thesis using fr results_trans [OF assms(2) _ frame_next [OF assms(1)]] answers_single assms(3) by simp
  qed (use fr in simp)
qed

text \<open>The end of a call with several subgoals: \<open>found\<close> when one was decided to be satisfiable.\<close>

lemma call_ok_branching:
  assumes a: "a < w_next w" and c: "frame {a} w w1" "results {a} r1 w w1" "answers (w_goals w a) (goals_at w1 r1)"
    and r: "treats w1 r1 w2 rs"
  shows "call_ok a w (if rs = [] then Some (Inr [a], close_goal a w2) else Some (Inr rs, w2))"
proof -
  have f: "frame (set r1) w1 w2" "results (set r1) rs w1 w2" "found_model w1 r1 w2 rs \<or> answers_all w1 r1 w2 rs"
    using r by (simp_all add: treats_def)
  have fr: "frame {a} w w2"
    by (rule frame_trans [OF c(1) f(1)]) (use results_fresh [OF c(2)] in auto)
  show ?thesis
  proof (cases "rs = []")
    case True
    then have all: "answers_all w1 r1 w2 []" using f(3) by (simp add: found_model_def)
    have a2: "a < w_next w2" using a frame_next [OF fr] by linarith
    note cl = close_goal [OF a2]
    have "frame {a} w (close_goal a w2)" by (rule frame_trans [OF fr cl(3)]) simp
    then show ?thesis using True closed_answers [OF c(3) all cl(2)] cl(1,4) a2 by (simp add: results_def)
  next
    case False
    have "answers (w_goals w a) (goals_at w2 rs)"
      using f(3) branching_answers [OF c(3) _ False] found_answers [OF c(3)] unfolding found_model_def by blast
    then show ?thesis using False fr results_trans [OF c(2) f(2) frame_next [OF c(1)]] by simp
  qed
qed

lemma then_run_call_ok:
  assumes "case m of None \<Rightarrow> False | Some (Inl e, w') \<Rightarrow> F w' | Some (Inr (f, rs), w') \<Rightarrow> G f rs w'"
    and "\<And>e w'. F w' \<Longrightarrow> call_ok a w (Some (Inl e, w'))" "\<And>f rs w'. G f rs w' \<Longrightarrow> call_ok a w (k (f, rs) w')"
  shows "call_ok a w (then_run m k)"
proof (cases m)
  case (Some x)
  then obtain y w' where "m = Some (y, w')" by (cases x) auto
  then show ?thesis using assms by (cases y) (auto simp del: call_ok_simps)
qed (use assms(1) in simp)

text \<open>A tactic that never branches.\<close>

definition linear :: "('s, 'd) tactic_obj \<Rightarrow> ('s \<Rightarrow> 'd goal \<Rightarrow> bool) \<Rightarrow> bool" where
  "linear t ok = (\<forall>a w rs w'. ok (w_state w) (w_goals w a) \<longrightarrow> goal_ok (w_goals w a) \<longrightarrow> a < w_next w \<longrightarrow>
     t_apply t a w = Some (Inr rs, w') \<longrightarrow> length rs = 1)"

lemma and_then_sound:
  assumes t1: "sound_tactic t1 ok1" and t2: "sound_tactic t2 ok2"
    and over: "hands_over t1 ok1 ok2" and others: "linear t1 ok1 \<or> serves_others t2 ok2"
  shows "sound_tactic (and_then t1 t2) ok1"
proof
  fix w :: "('a, 'b) world"
  show "w_goals (t_cleanup (and_then t1 t2) w) = w_goals w" "w_next (t_cleanup (and_then t1 t2) w) = w_next w"
    using sound_tactic.cleanup [OF t1] sound_tactic.cleanup [OF t2] by (simp_all add: and_then_def)
next
  fix w :: "('a, 'b) world" and a
  assume a: "ok1 (w_state w) (w_goals w a)" "goal_ok (w_goals w a)" "a < w_next w"
  show "call_ok a w (t_apply (and_then t1 t2) a w)"
  proof (rule sound_tactic.callE [OF t1 a])
    fix r1 w1
    assume c: "t_apply t1 a w = Some (Inr r1, w1)" "frame {a} w w1" "results {a} r1 w w1" "answers (w_goals w a) (goals_at w1 r1)"
    have ok: "ok2 (w_state w1) (w_goals w1 r)" if "r \<in> set r1" for r
      using over a c(1) that unfolding hands_over_def by blast
    show ?thesis
    proof (cases "length r1 = 1")
      case True
      then obtain r where r: "r1 = [r]" by (cases r1) auto
      have "call_ok r w1 (t_apply t2 r w1)"
        by (rule sound_tactic.call [OF t2]) (use ok c(3) in \<open>simp_all add: r results_def\<close>)
      then show ?thesis using call_ok_chain [OF c(2-4) [unfolded r]] c by (simp add: and_then_def r)
    next
      case False
      have e: "t_apply (and_then t1 t2) a w = then_run (and_then_loop t2 r1 [] w1) (\<lambda>(found, result) w.
          if found then Some (Inr result, w) else if result = [] then Some (Inr [a], close_goal a w) else Some (Inr result, w))"
        using c(1) False by (simp add: and_then_def)
      have serves: "serves_others t2 ok2" using others a c(1) False unfolding linear_def by blast
      have "loop_ok ok2 r1 [] w1" using ok c(3) by (simp add: loop_ok_def results_def)
      note loop = and_then_loop [OF t2 serves this]
      have fr: "frame {a} w w'" if "frame (set r1) w1 w'" for w'
        by (rule frame_trans [OF c(2) that]) (use results_fresh [OF c(3)] in auto)
      note br = call_ok_branching [OF a(3) c(2-4)]
      have ne: "rs \<noteq> []" if "found_model w1 r1 w' rs" for rs w' using that by (auto simp: found_model_def)
      show ?thesis unfolding e
      proof (rule then_run_call_ok [where F = "frame (set r1) w1" and
          G = "\<lambda>f rs w'. if f then treats w1 r1 w' rs \<and> found_model w1 r1 w' rs else \<exists>new. rs = [] @ new \<and> treats w1 r1 w' new",
          OF loop], goal_cases)
        case (1 ex w')
        then show ?case using fr by simp
      next
        case (2 f rs w')
        then show ?case using br [of w' rs] ne [of w' rs] by (cases f) (simp_all del: call_ok_simps)
      qed
    qed
  qed (simp add: and_then_def)
qed


section \<open>The other tacticals\<close>

lemma clean_sound:
  assumes "sound_tactic t ok"
  shows "sound_tactic (clean t) ok"
proof
  fix w :: "('a, 'b) world" and a
  assume a: "ok (w_state w) (w_goals w a)" "goal_ok (w_goals w a)" "a < w_next w"
  show "call_ok a w (t_apply (clean t) a w)"
    by (rule sound_tactic.callE [OF assms a])
      (use sound_tactic.cleanup [OF assms] in \<open>simp_all add: clean_def frame_def results_def\<close>)
qed (use sound_tactic.cleanup [OF assms] in \<open>simp_all add: clean_def\<close>)

lemma fail_if_branching_sound:
  assumes "sound_tactic t ok"
  shows "sound_tactic (fail_if_branching t n) ok"
proof
  fix w :: "('a, 'b) world" and a
  assume a: "ok (w_state w) (w_goals w a)" "goal_ok (w_goals w a)" "a < w_next w"
  show "call_ok a w (t_apply (fail_if_branching t n) a w)"
    by (rule sound_tactic.callE [OF assms a]) (simp_all add: fail_if_branching_def)
qed (use sound_tactic.cleanup [OF assms] in \<open>simp_all add: fail_if_branching_def\<close>)

lemma cond_sound:
  assumes "sound_tactic t1 ok1" "sound_tactic t2 ok2"
  shows "sound_tactic (cond p t1 t2) (\<lambda>s g. if p g then ok1 s g else ok2 s g)"
  using sound_tactic.call [OF assms(1)] sound_tactic.call [OF assms(2)]
    sound_tactic.cleanup [OF assms(1)] sound_tactic.cleanup [OF assms(2)]
  by unfold_locales (auto simp: cond_def)

text \<open>A restored goal is the original one.\<close>

lemma mk_union_precise [simp]: "mk_union p PRECISE = p" "mk_union PRECISE p = p"
  by (cases p) (simp_all add: mk_union_def)

lemma goal_copy [simp]: "goal_copy g = g"
  by (cases g) (simp add: goal_copy_def copy_to_def mk_goal_def)

lemma restored:
  assumes "m_models_enabled h = m_models_enabled g" "m_core_enabled h = m_core_enabled g"
  shows "copy_to g (reset_all h) = g"
  using assms by (cases g, cases h) (simp add: copy_to_def reset_all_def reset_core_def)

lemma or_else_single: "sound_tactic t ok \<Longrightarrow> sound_tactic (or_else [t]) ok"
  by (simp add: sound_tactic_def or_else_def)

lemma or_else_Cons:
  assumes t: "sound_tactic t ok" and ts: "sound_tactic (or_else (t2 # ts)) ok2" and over: "fails_over t ok ok2"
  shows "sound_tactic (or_else (t # t2 # ts)) ok"
proof
  fix w :: "('a, 'b) world" and a
  assume a: "ok (w_state w) (w_goals w a)" "goal_ok (w_goals w a)" "a < w_next w"
  let ?g = "w_goals w a"
  show "call_ok a w (t_apply (or_else (t # t2 # ts)) a w)"
  proof (rule sound_tactic.callE [OF t a])
    fix e w1
    assume c: "t_apply t a w = Some (Inl e, w1)" "frame {a} w w1"
    show ?thesis
    proof (cases e)
      case (Tactic_exn x)
      let ?w = "restore ?g a w1"
      have g: "w_goals ?w a = ?g" using frame_flags [OF c(2) a(3)] by (simp add: restore_def restored)
      have lt: "a < w_next ?w" using a(3) frame_next [OF c(2)] by (simp add: restore_def)
      have f: "frame {a} w ?w" using c(2) g by (auto simp: frame_def restore_def)
      have r: "results {a} [a] w ?w" using a(2) g lt by (simp add: results_def)
      have "call_ok a ?w (t_apply (or_else (t2 # ts)) a ?w)"
      proof (rule sound_tactic.call [OF ts])
        show "ok2 (w_state ?w) (w_goals ?w a)" using over a c(1) g unfolding fails_over_def by (simp add: restore_def)
      qed (use a(2) g lt in simp_all)
      then have "call_ok a w (t_apply (or_else (t2 # ts)) a ?w)" by (rule call_ok_chain [OF f r, rotated]) (simp add: g)
      then show ?thesis using c(1) Tactic_exn g by (simp add: or_else_def)
    qed (use c in \<open>simp add: or_else_def\<close>)
  qed (simp add: or_else_def)
qed (use sound_tactic.cleanup [OF t] sound_tactic.cleanup [OF ts] in \<open>simp_all add: or_else_def\<close>)

lemma skip_if_failed_sound: "sound_tactic t ok \<Longrightarrow> sound_tactic (skip_if_failed t) ok"
  unfolding skip_if_failed_def
  by (rule or_else_Cons [OF _ or_else_single [OF skip.sound_tactic_axioms]]) (simp_all add: fails_over_def)

section \<open>\<open>repeat\<close>\<close>

text \<open>The calls of \<open>repeat\<close> at some depth are calls of this tactic.\<close>

definition repeat_at :: "('s, 'd) tactic_obj \<Rightarrow> 32 word \<Rightarrow> 32 word \<Rightarrow> ('s, 'd) tactic_obj" where
  "repeat_at t max_depth depth = \<lparr>t_apply = (\<lambda>a w. repeat_run t max_depth (Inl (depth, a)) w), t_cleanup = t_cleanup t\<rparr>"

lemma repeat_run_goal: "repeat_run t mx (Inl (depth, g)) w =
    (if mx < depth then Some (Inr [g], w)
     else
       then_run (t_apply t g w) (\<lambda>r1 w'.
         if length r1 = 1 \<and> goal_is_equal (w_goals w g) (w_goals w' (r1 ! 0)) then Some (Inr [r1 ! 0], w')
         else if length r1 = 1 then
           (if is_decided (w_goals w' (r1 ! 0)) then Some (Inr [r1 ! 0], w')
            else repeat_run t mx (Inl (depth + 1, r1 ! 0)) w')
         else repeat_run t mx (Inr (depth, g, r1, [])) w'))"
  by (subst repeat_run.simps) simp

lemma serves_loop:
  assumes "serves_others t ok" "loop_ok ok (g # gs) result w" "t_apply t g w = Some (Inr rs, w1)" "ok (w_state w) x"
  shows "ok (w_state w1) x"
  using assms unfolding serves_others_def loop_ok_def by (meson list.set_intros(1))

lemma repeat_loop:
  assumes t: "sound_tactic (repeat_at t mx (depth + 1)) ok" "serves_others (repeat_at t mx (depth + 1)) ok"
    and l: "loop_ok ok gs result w"
  shows "(\<exists>e w'. repeat_run t mx (Inr (depth, g0, gs, result)) w = Some (Inl e, w') \<and> frame (set gs) w w') \<or>
    (\<exists>new w'. repeat_run t mx (Inr (depth, g0, gs, result)) w =
        Some (if result @ new = [] then (Inr [g0], close_goal g0 w') else (Inr (result @ new), w')) \<and> treats w gs w' new \<and>
      (\<forall>x. ok (w_state w) x \<longrightarrow> ok (w_state w') x))"
  using l
proof (induction gs arbitrary: result w)
  case Nil
  have "treats w [] w []" by (simp add: treats_def results_def answers_all_def)
  then show ?case by (auto simp: repeat_run.simps)
next
  case (Cons g gs)
  have run: "t_apply (repeat_at t mx (depth + 1)) = (\<lambda>a. repeat_run t mx (Inl (depth + 1, a)))" by (simp add: repeat_at_def)
  note keep = serves_loop [OF t(2) Cons.prems, unfolded run]
  show ?case
  proof (rule loop_cases [OF t Cons.prems], unfold run, goal_cases)
    case (1 e w')
    then show ?case by (subst (1 2) repeat_run.simps) simp
  next
    case (2 r w1)
    then show ?case using keep [OF 2(1)] by (subst (1 2) repeat_run.simps) (auto simp: decided_iff)
  next
    case (3 r2 w1)
    then have e: "repeat_run t mx (Inr (depth, g0, g # gs, result)) w = repeat_run t mx (Inr (depth, g0, gs, result)) w1"
      by (subst repeat_run.simps) simp
    show ?case unfolding e using Cons.IH [OF 3(4)] 3(5,6) keep [OF 3(1)] by blast
  next
    case (4 r2 w1)
    then have e: "repeat_run t mx (Inr (depth, g0, g # gs, result)) w = repeat_run t mx (Inr (depth, g0, gs, result @ r2)) w1"
      by (subst repeat_run.simps) simp
    show ?case unfolding e using Cons.IH [OF 4(3)] 4(4,5) keep [OF 4(1)] unfolding append_assoc by blast
  qed
qed

text \<open>A call of \<open>repeat\<close> that is as a tactic should be, and leaves other goals ready.\<close>

definition repeat_ok :: "('s \<Rightarrow> 'd goal \<Rightarrow> bool) \<Rightarrow> nat \<Rightarrow> ('s, 'd) world \<Rightarrow> ('s, 'd, nat list) run \<Rightarrow> bool" where
  "repeat_ok ok a w m = (call_ok a w m \<and>
     (\<forall>rs w'. m = Some (Inr rs, w') \<longrightarrow> (\<forall>x. ok (w_state w) x \<longrightarrow> ok (w_state w') x)))"

lemma repeat_single:
  assumes at: "sound_tactic (repeat_at t mx (depth + 1)) ok" "serves_others (repeat_at t mx (depth + 1)) ok"
    and c: "frame {a} w w1" "results {a} [r] w w1" "answers (w_goals w a) (goals_at w1 [r])"
    and r: "ok (w_state w1) (w_goals w1 r)" and keep: "\<And>x. ok (w_state w) x \<Longrightarrow> ok (w_state w1) x"
  shows "repeat_ok ok a w (repeat_run t mx (Inl (depth + 1, r)) w1)"
proof -
  let ?again = "repeat_run t mx (Inl (depth + 1, r)) w1"
  have r_ok: "goal_ok (w_goals w1 r)" "r < w_next w1" using c(2) by (simp_all add: results_def)
  have run: "t_apply (repeat_at t mx (depth + 1)) r w1 = ?again" by (simp add: repeat_at_def)
  have "call_ok r w1 ?again" using sound_tactic.call [OF at(1) r r_ok] unfolding run .
  then have "call_ok a w ?again" by (rule call_ok_chain [OF c])
  moreover have "ok (w_state w') x" if "?again = Some (Inr rs, w')" "ok (w_state w) x" for rs w' x
    using at(2) r r_ok keep [OF that(2)] that(1) unfolding serves_others_def run [symmetric] by blast
  ultimately show ?thesis by (simp add: repeat_ok_def)
qed

lemma repeat_branches:
  assumes at: "sound_tactic (repeat_at t mx (depth + 1)) ok" "serves_others (repeat_at t mx (depth + 1)) ok"
    and a: "a < w_next w" and c: "frame {a} w w1" "results {a} r1 w w1" "answers (w_goals w a) (goals_at w1 r1)"
    and l: "loop_ok ok r1 [] w1" and keep: "\<And>x. ok (w_state w) x \<Longrightarrow> ok (w_state w1) x"
  shows "repeat_ok ok a w (repeat_run t mx (Inr (depth, a, r1, [])) w1)"
  using repeat_loop [OF at l, of a]
proof (elim disjE exE conjE)
  fix e w'
  assume e: "repeat_run t mx (Inr (depth, a, r1, [])) w1 = Some (Inl e, w')" "frame (set r1) w1 w'"
  have "frame {a} w w'" by (rule frame_trans [OF c(1) e(2)]) (use results_fresh [OF c(2)] in auto)
  then show ?thesis unfolding e(1) by (simp add: repeat_ok_def)
next
  fix new w'
  assume n: "repeat_run t mx (Inr (depth, a, r1, [])) w1 =
      Some (if [] @ new = [] then (Inr [a], close_goal a w') else (Inr ([] @ new), w'))"
    "treats w1 r1 w' new" "\<forall>x. ok (w_state w1) x \<longrightarrow> ok (w_state w') x"
  have "w_state (close_goal a w') = w_state w'" by (simp add: close_goal_def)
  then show ?thesis using call_ok_branching [OF a c n(2)] n(3) keep unfolding n(1) repeat_ok_def
    by (cases "new = []") (auto simp del: call_ok_simps)
qed

lemma repeat_call:
  assumes t: "sound_tactic t ok" "hands_over t ok ok" "serves_others t ok"
    and at: "depth \<le> mx \<Longrightarrow> sound_tactic (repeat_at t mx (depth + 1)) ok \<and> serves_others (repeat_at t mx (depth + 1)) ok"
    and a: "ok (w_state w) (w_goals w a)" "goal_ok (w_goals w a)" "a < w_next w"
  shows "repeat_ok ok a w (repeat_run t mx (Inl (depth, a)) w)"
proof (cases "mx < depth")
  case True
  then show ?thesis using unchanged [OF a(2,3)] by (simp add: repeat_run_goal repeat_ok_def)
next
  case d: False
  then have at1: "sound_tactic (repeat_at t mx (depth + 1)) ok" "serves_others (repeat_at t mx (depth + 1)) ok"
    using at by simp_all
  show ?thesis
  proof (rule sound_tactic.callE [OF t(1) a])
    fix e w1
    assume "t_apply t a w = Some (Inl e, w1)" "frame {a} w w1"
    then show ?thesis using d by (simp add: repeat_run_goal repeat_ok_def)
  next
    fix r1 w1
    assume c: "t_apply t a w = Some (Inr r1, w1)" "frame {a} w w1" "results {a} r1 w w1" "answers (w_goals w a) (goals_at w1 r1)"
    have ok: "ok (w_state w1) (w_goals w1 r)" if "r \<in> set r1" for r
      using t(2) a c(1) that unfolding hands_over_def by blast
    have keep: "ok (w_state w1) x" if "ok (w_state w) x" for x
      using t(3) a c(1) that unfolding serves_others_def by blast
    show ?thesis
    proof (cases "length r1 = 1")
      case True
      then obtain r where r: "r1 = [r]" by (cases r1) auto
      have "repeat_run t mx (Inl (depth, a)) w =
          (if goal_is_equal (w_goals w a) (w_goals w1 r) \<or> is_decided (w_goals w1 r) then Some (Inr [r], w1)
           else repeat_run t mx (Inl (depth + 1, r)) w1)"
        unfolding repeat_run_goal [of t mx depth a w] using d c(1) by (simp add: r)
      then show ?thesis
        using repeat_single [OF at1 c(2-4) [unfolded r] ok keep] c keep by (simp add: r repeat_ok_def)
    next
      case False
      have "loop_ok ok r1 [] w1" using ok c(3) by (simp add: loop_ok_def results_def)
      note br = repeat_branches [OF at1 a(3) c(2-4) this keep]
      show ?thesis unfolding repeat_run_goal [of t mx depth a w] using br d c(1) False by simp
    qed
  qed
qed

text \<open>
  With a limit below the largest number the depth does not wrap, and \<open>repeat\<close> returns if its tactic does.
\<close>

lemma repeat_at_sound:
  assumes t: "sound_tactic t ok" "hands_over t ok ok" "serves_others t ok" and mx: "mx \<noteq> - 1"
  shows "sound_tactic (repeat_at t mx depth) ok \<and> serves_others (repeat_at t mx depth) ok"
proof (induction depth rule: measure_induct_rule [where f = "\<lambda>d. unat mx + 1 - unat d"])
  case (less depth)
  have at: "sound_tactic (repeat_at t mx (depth + 1)) ok \<and> serves_others (repeat_at t mx (depth + 1)) ok" if d: "depth \<le> mx"
  proof (rule less)
    have "depth \<noteq> - 1" using d mx by (metis word_order.extremum_unique)
    then have "unat (depth + 1) = unat depth + 1" by (metis Suc_eq_plus1 add.commute add.inverse_inverse add_eq_0_iff unatSuc)
    then show "unat mx + 1 - unat (depth + 1) < unat mx + 1 - unat depth" using d by (simp add: word_le_nat_alt)
  qed
  note call = repeat_call [OF t at, unfolded repeat_ok_def]
  have "sound_tactic (repeat_at t mx depth) ok"
    by unfold_locales (use call sound_tactic.cleanup [OF t(1)] in \<open>simp_all add: repeat_at_def\<close>)
  moreover have "serves_others (repeat_at t mx depth) ok"
    unfolding serves_others_def
  proof (intro allI impI)
    fix a rs w' g and w :: "('a, 'b) world"
    assume a: "ok (w_state w) (w_goals w a)" "goal_ok (w_goals w a)" "a < w_next w" "ok (w_state w) g"
      and r: "t_apply (repeat_at t mx depth) a w = Some (Inr rs, w')"
    have "repeat_run t mx (Inl (depth, a)) w = Some (Inr rs, w')" using r by (simp add: repeat_at_def)
    then show "ok (w_state w') g" using conjunct2 [OF call [OF _ a(1-3)]] a(4) by metis
  qed
  ultimately show ?case by blast
qed

lemma repeat_sound:
  assumes "sound_tactic t ok" "hands_over t ok ok" "serves_others t ok" "mx \<noteq> - 1"
  shows "sound_tactic (repeat_tactical t mx) ok"
  using repeat_at_sound [OF assms, of 0] by (simp add: repeat_at_def repeat_tactical_def)

section \<open>\<open>check_sat\<close>\<close>

lemma check_sat_sound:
  assumes t: "sound_tactic t ok"
    and a: "ok (w_state w) (w_goals w a)" "goal_ok (w_goals w a)" "a < w_next w"
  shows "case check_sat t a w of
      None \<Rightarrow> False
    | Some ((l, md, core, reason), w') \<Rightarrow> (l = l_true \<longrightarrow> has_model (w_goals w a)) \<and> (l = l_false \<longrightarrow> has_none (w_goals w a)) \<and>
        (l = l_undef \<longleftrightarrow> reason \<noteq> None)"
proof (rule sound_tactic.callE [OF t a])
  fix e w'
  assume "t_apply t a w = Some (Inl e, w')"
  then show ?thesis by (cases e) (simp_all add: check_sat_def exec_tactic_def)
next
  fix rs w'
  assume c: "t_apply t a w = Some (Inr rs, w')" "results {a} rs w w'" "answers (w_goals w a) (goals_at w' rs)"
  let ?w = "t_cleanup t w'"
  note cl = sound_tactic.cleanup [OF t, of w']
  have ans: "answers (w_goals w a) (goals_at ?w rs)" "results {a} rs w ?w"
    using c(2,3) cl by (simp_all add: results_def)
  have "exec_tactic t a w = Some (Inr rs, ?w)" using c(1) by (simp add: exec_tactic_def)
  then show ?thesis using decided_satE [OF _ ans(1)] decided_unsatE [OF _ ans]
    by (simp add: check_sat_def Let_def)
qed

end
