(* ===== verification/Strategy.thy ===== *)
theory Strategy
  imports Bit_Blaster_Tactic Tactical_Sound
begin

text \<open>
  The bit-blasting tactic as an object that the tacticals combine: the state of the world is the one of
  the tactic. With \<open>clean\<close>, as \<open>mk_bit_blaster_tactic\<close> makes it, it is a sound tactic.
\<close>

text \<open>\<open>msg\<close> is the text of an exception of the rewriter.\<close>

definition blaster_object ::
    "ast_manager \<Rightarrow> resources \<Rightarrow> blaster_rewriter_cfg rewriter_env \<Rightarrow>
      (func_decl list \<Rightarrow> func_decl list) \<Rightarrow> (rewriter_exception \<Rightarrow> string) \<Rightarrow> (bit_blaster_tactic, 'd) tactic_obj" where
  "blaster_object m res E order msg =
    \<lparr>t_apply = (\<lambda>a w.
       case tactic_apply res E order (w_goals w a) (w_state w) of
         None \<Rightarrow> None
       | Some (Inl (Tactic_exception e, g1), st1) \<Rightarrow> Some (Inl (Tactic_exn (msg e)), (set_goal a g1 w)\<lparr>w_state := st1\<rparr>)
       | Some (Inr gs, st1) \<Rightarrow> Some (Inr [a], (set_goal a (hd gs) w)\<lparr>w_state := st1\<rparr>)),
     t_cleanup = (\<lambda>w. w\<lparr>w_state := tactic_cleanup m (e_num_asts E (t_rewriter (w_state w))) (w_state w)\<rparr>)\<rparr>"

definition mk_blaster ::
    "ast_manager \<Rightarrow> resources \<Rightarrow> blaster_rewriter_cfg rewriter_env \<Rightarrow>
      (func_decl list \<Rightarrow> func_decl list) \<Rightarrow> (rewriter_exception \<Rightarrow> string) \<Rightarrow> (bit_blaster_tactic, 'd) tactic_obj" where
  "mk_blaster m res E order msg = clean (blaster_object m res E order msg)"

text \<open>
  What it asks for: its own rewriter, between two calls, that has no constants mapped, as after a
  cleanup; the names of the goal are taken, and there are names left for the bits of its constants.
\<close>

definition blaster_ok :: "ast_manager \<Rightarrow> bit_blaster_tactic \<Rightarrow> 'd goal \<Rightarrow> bool" where
  "blaster_ok m st g = (tactic_ready m (t_rewriter st) \<and> t_own st \<and> m_keys (m_rw_cfg (t_rewriter st)) = [] \<and>
     list_all (below (unat (m_fresh_id (m_rw_cfg (t_rewriter st))))) (m_forms g) \<and>
     unat (m_fresh_id (m_rw_cfg (t_rewriter st))) + bits_of (goal_consts g) < 2 ^ 32)"

lemma no_keys:
  assumes "tactic_ready m rw" "m_keys (m_rw_cfg rw) = []"
  shows "names_ok (m_rw_cfg rw)" "consistent (m_rw_cfg rw) I"
  using assms by (auto simp: tactic_ready_def blaster_ready_def blaster_inv_def cfg_inv_def names_ok_def consistent_def)

lemma blaster_answers:
  assumes "goal_ok g" "blaster_ok m st g" "tactic_apply res E order g st = Some (Inr [g1], st1)"
  shows "answers g [g1]"
proof -
  have ok: "tactic_ready m (t_rewriter st)" "m_keys (m_rw_cfg (t_rewriter st)) = []"
    "list_all (below (unat (m_fresh_id (m_rw_cfg (t_rewriter st))))) (m_forms g)"
    "unat (m_fresh_id (m_rw_cfg (t_rewriter st))) + bits_of (goal_consts g) < 2 ^ 32"
    using assms(2) by (simp_all add: blaster_ok_def)
  note k = no_keys [OF ok(1,2)]
  have "satisfiable g1 \<longleftrightarrow> satisfiable g"
    using tactic_satisfiable [OF assms(1) ok(1) k(1) ok(3) assms(3) ok(4)] k(2) by (simp add: satisfiable_def)
  moreover have "m_precision g1 = m_precision g" using tactic_one_goal [OF assms(1) ok(1) assms(3)] by simp
  ultimately show ?thesis by (simp add: answers_def has_model_def has_none_def sat_preserved_def unsat_preserved_def)
qed

interpretation blaster: sound_tactic "blaster_object m res E order msg" "blaster_ok m" for m res E order msg
proof
  fix w :: "(bit_blaster_tactic, 'a) world" and a
  assume a: "blaster_ok m (w_state w) (w_goals w a)" "goal_ok (w_goals w a)" "a < w_next w"
  have ready: "tactic_ready m (t_rewriter (w_state w))" using a(1) by (simp add: blaster_ok_def)
  show "call_ok a w (t_apply (blaster_object m res E order msg) a w)"
  proof (rule tactic_outcome [OF a(2) ready, of res E order])
    fix e g1 st1
    assume "tactic_apply res E order (w_goals w a) (w_state w) = Some (Inl (Tactic_exception e, g1), st1)" "same_goal (w_goals w a) g1"
    then show ?thesis by (simp add: blaster_object_def frame_def same_goal_def)
  next
    fix g1 st1
    assume ap: "tactic_apply res E order (w_goals w a) (w_state w) = Some (Inr [g1], st1)"
    from tactic_one_goal [OF a(2) ready ap] blaster_answers [OF a(2,1) ap] a(3)
    show ?thesis by (simp add: blaster_object_def ap frame_def results_def)
  qed
qed (simp_all add: blaster_object_def)

lemmas mk_blaster_sound = clean_sound [OF blaster.sound_tactic_axioms, folded mk_blaster_def]

lemma mk_blaster_linear: "linear (mk_blaster m res E order msg) ok"
  by (auto simp: linear_def mk_blaster_def clean_def blaster_object_def elim!: then_run_SomeE
    split: option.splits prod.splits sum.splits tactic_exception.splits)

text \<open>A call of the object is a call of \<open>clean_apply\<close> on the goal at the address.\<close>

lemma mk_blaster_apply: "t_apply (mk_blaster m res E order msg) a w =
    (case clean_apply m res E order (w_goals w a) (w_state w) of
       None \<Rightarrow> None
     | Some (Inl (Tactic_exception e, g1), st1) \<Rightarrow> Some (Inl (Tactic_exn (msg e)), (set_goal a g1 w)\<lparr>w_state := st1\<rparr>)
     | Some (Inr gs, st1) \<Rightarrow> Some (Inr [a], (set_goal a (hd gs) w)\<lparr>w_state := st1\<rparr>))"
  by (auto simp: mk_blaster_def clean_def blaster_object_def clean_apply_def
    split: option.split prod.split sum.split tactic_exception.split)

text \<open>The blaster, and then a tactic that asks nothing of its goals.\<close>

lemma blast_then_sound:
  assumes "sound_tactic t (\<lambda>_ _. True)"
  shows "sound_tactic (and_then (mk_blaster m res E order msg) t) (blaster_ok m)"
  by (rule and_then_sound [OF mk_blaster_sound assms]) (simp_all add: hands_over_def mk_blaster_linear)

end
