(* ===== verification/Beta_Reducer.thy ===== *)
theory Beta_Reducer
  imports Rewriter_Total
begin

text \<open>
  \<open>beta_reducer\<close> (\<open>rewriter.h\<close>), the rewriter without simplifier: it replaces the variables of a
  term by the bindings. As every rewriter it folds an if-then-else whose condition becomes a truth
  value, so its result has the value of the substituted term, and is that very term when it has
  no if-then-else.
\<close>

section \<open>Substitution\<close>

definition binding_of :: "expr option list \<Rightarrow> nat \<Rightarrow> expr option" where
  "binding_of B i = (if i < length B then B ! (length B - i - 1) else None)"

fun inst :: "expr option list \<Rightarrow> expr \<Rightarrow> expr" where
  "inst B (Var i s) = (case binding_of B i of Some r \<Rightarrow> r | None \<Rightarrow> Var i s)"
| "inst B (App f args) = App f (map (inst B) args)"

lemma inst_ground [simp]: "is_ground t \<Longrightarrow> inst B t = t"
  by (induction t) (auto simp: list_all_iff intro: map_idI)

fun no_ite :: "expr \<Rightarrow> bool" where
  "no_ite (Var i s) = True"
| "no_ite (App f args) = (f \<noteq> Basic OP_ITE \<and> list_all no_ite args)"

text \<open>The interpretation that gives a variable the value of its binding, when the sorts agree.\<close>

fun val_code :: "val \<Rightarrow> nat" where
  "val_code (VBool b) = of_bool b"
| "val_code (VBV w n) = n"
| "val_code (VUser k n) = n"

lemma coerce_val_code: "val_ok v \<Longrightarrow> coerce (val_sort v) (val_code v) = v"
  by (cases v) auto

definition bind_vars :: "expr option list \<Rightarrow> interp \<Rightarrow> interp" where
  "bind_vars B I = I\<lparr>ivar := (\<lambda>i s. case binding_of B i of
      Some r \<Rightarrow> val_code (eval I r) | None \<Rightarrow> ivar I i s)\<rparr>"

fun fits :: "expr option list \<Rightarrow> expr \<Rightarrow> bool" where
  "fits B (Var i s) = (case binding_of B i of Some r \<Rightarrow> wf r \<and> get_sort r = s | None \<Rightarrow> True)"
| "fits B (App f args) = list_all (fits B) args"

lemma eval_bv_bind_vars: "eval_bv (bind_vars B I) k ps vs = eval_bv I k ps vs"
  by (cases k) (simp_all add: eval_bv_def bind_vars_def)

lemma eval_decl_bind_vars: "eval_decl (bind_vars B I) d vs = eval_decl I d vs"
  by (cases d) (simp_all add: eval_bv_bind_vars, simp_all add: bind_vars_def)

lemma eval_inst: "fits B t \<Longrightarrow> eval I (inst B t) = eval (bind_vars B I) t"
proof (induction t)
  case (Var i s)
  show ?case
  proof (cases "binding_of B i")
    case (Some r)
    then have "wf r" "get_sort r = s" using Var by simp_all
    then have "coerce s (val_code (eval I r)) = eval I r" using eval_sort [of r I] coerce_val_code by metis
    then show ?thesis using Some by (simp add: bind_vars_def)
  qed (simp add: bind_vars_def)
next
  case (App f args)
  then have "map (eval I) (map (inst B) args) = map (eval (bind_vars B I)) args" by (auto simp: list_all_iff)
  then show ?case unfolding inst.simps eval.simps eval_decl_bind_vars by (simp only:)
qed

section \<open>The two contracts\<close>

abbreviation same_shifts :: "expr option list \<Rightarrow> nat list" where
  "same_shifts B \<equiv> replicate (length B) (length B)"

text \<open>What can be thrown: nothing when the resource limit is never reached.\<close>

definition cancels :: "'c rewriter_env \<Rightarrow> rewriter_exception set" where
  "cancels E = {e. e = Canceled \<and> (\<exists>st. \<not> e_inc E st)}"

lemma beta_cfg_simps [simp]:
  "c_get_subst beta_reducer_cfg c t = None" "c_pre_visit beta_reducer_cfg c t = (\<not> is_ground t)"
  "c_reduce_var beta_reducer_cfg c t = None" "c_get_macro beta_reducer_cfg c f = None"
  "c_reduce_app beta_reducer_cfg c f rs = (Inr BR_FAILED, c)" "\<not> c_flat_assoc beta_reducer_cfg c f"
  "\<not> c_max_frames_exceeded beta_reducer_cfg c n" "c_max_steps_exceeded beta_reducer_cfg c k = Inr False"
  "c_cfg_reset beta_reducer_cfg c = c"
  by (simp_all add: beta_reducer_cfg_def default_rewriter_cfg_def)

definition value_as :: "expr option list \<Rightarrow> expr \<Rightarrow> expr \<Rightarrow> bool" where
  "value_as B t r = (\<forall>I. eval I r = eval I (inst B t))"

lemma value_as_congr:
  assumes "list_all2 (value_as B) args rs"
  shows "value_as B (App f args) (App f rs)"
proof -
  have "map (eval I) rs = map (eval I) (map (inst B) args)" for I
    using assms by (induction rule: list_all2_induct) (auto simp: value_as_def)
  then show ?thesis unfolding value_as_def inst.simps eval.simps by simp
qed

lemma inst_congr: "list_all2 (\<lambda>t r. r = inst B t) args rs \<Longrightarrow> rs = map (inst B) args"
  by (induction rule: list_all2_induct) auto

interpretation bev: rewriter_total beta_reducer_cfg E B "same_shifts B" "\<lambda>_. True" "\<lambda>_. True" "\<lambda>_. True" "\<lambda>_. False"
  "value_as B" "\<lambda>t t'. True \<and> (\<forall>s. value_as B t' s \<longrightarrow> value_as B t s)" "cancels E" for E B
proof (unfold_locales, goal_cases)
  case (8 c i s r)
  then show ?case by (simp add: value_as_def binding_of_def)
next
  case (9 i s)
  then show ?case by (auto simp: value_as_def binding_of_def)
next
  case (10 f args rs)
  then show ?case using value_as_congr by blast
next
  case (17 p t t')
  then show ?case by (auto simp: value_as_def m_mk_true_def eval_basic_def)
next
  case (18 p t t')
  then show ?case by (auto simp: value_as_def m_mk_false_def eval_basic_def)
qed (auto simp: value_as_def cancels_def)

interpretation bex: rewriter_total beta_reducer_cfg E B "same_shifts B" "\<lambda>_. True" "\<lambda>_. True" no_ite "\<lambda>_. False"
  "\<lambda>t r. r = inst B t" "\<lambda>t t'. no_ite t' \<and> (\<forall>s. s = inst B t' \<longrightarrow> s = inst B t)" "cancels E" for E B
proof (unfold_locales, goal_cases)
  case (8 c i s r)
  then show ?case by (simp add: binding_of_def)
next
  case (9 i s)
  then show ?case by (auto simp: binding_of_def)
next
  case (10 f args rs)
  then show ?case using inst_congr by simp
qed (auto simp: list_all_iff cancels_def)

section \<open>The operation\<close>

lemma reset_cached_ok:
  assumes "m_cache_stack st \<noteq> []"
  shows "cached_ok P (set_inv_bindings bs (tpl_reset C st))"
proof -
  have "m_cache_stack (set_inv_bindings bs (tpl_reset C st)) = (m_cache_stack st)[0 := cache_reset (m_cache_stack st ! 0)]"
    "m_cache (set_inv_bindings bs (tpl_reset C st)) = 0"
    by (cases st, simp add: set_inv_bindings_def tpl_reset_def core_reset_def reset_cache_def)+
  then show ?thesis using assms by (simp add: cached_ok_def ac.entries_ok_clear)
qed

lemma reset_fields:
  "m_frame_stack (set_inv_bindings bs (tpl_reset C st)) = []" "m_result_stack (set_inv_bindings bs (tpl_reset C st)) = []"
  "m_bindings (set_inv_bindings bs (tpl_reset C st)) = map Some bs"
  "m_shifts (set_inv_bindings bs (tpl_reset C st)) = same_shifts (map Some bs)"
  by (cases st, simp add: set_inv_bindings_def tpl_reset_def core_reset_def reset_cache_def)+

lemma beta_reduce:
  assumes st: "m_cache_stack st \<noteq> []" "m_cancel_check st"
  shows "gives (cancels E) (\<lambda>r st'. m_cache_stack st' \<noteq> [] \<and> (\<forall>I. eval I r = eval I (inst (map Some bs) t)) \<and>
      (no_ite t \<longrightarrow> r = inst (map Some bs) t))
    (rewrite_with_bindings beta_reducer_cfg E t bs st)"
proof -
  let ?B = "map Some bs"
  let ?st = "set_inv_bindings bs (tpl_reset beta_reducer_cfg st)"
  have cc: "m_cancel_check ?st"
    using st(2) by (cases st) (simp add: set_inv_bindings_def tpl_reset_def core_reset_def reset_cache_def)
  have v: "bev.idle ?B ?st" and x: "bex.idle ?B ?st"
    using reset_cached_ok [OF st(1)] reset_fields [of bs beta_reducer_cfg st] cc
    unfolding bev.idle_def bev.base_def bex.idle_def bex.base_def by blast+
  have "gives (cancels E) (\<lambda>r st'. value_as ?B t r \<and> bev.idle ?B st') (main_loop beta_reducer_cfg E t ?st)"
    by (rule gives_mono [OF bev.main_loop_gives [OF v]]) simp_all
  then show ?thesis
    unfolding rewrite_with_bindings_def
  proof (rule gives_mono)
    fix r st'
    assume ml: "main_loop beta_reducer_cfg E t ?st = Some (Inr (r, st'))" and p: "value_as ?B t r \<and> bev.idle ?B st'"
    have "r = inst ?B t" if "no_ite t" using bex.main_loop [OF ml x that] by simp
    moreover have "m_cache_stack st' \<noteq> []" using p unfolding bev.idle_def bev.base_def cached_ok_def by auto
    ultimately show "m_cache_stack st' \<noteq> [] \<and> (\<forall>I. eval I r = eval I (inst ?B t)) \<and> (no_ite t \<longrightarrow> r = inst ?B t)"
      using p by (simp add: value_as_def)
  qed
qed

end
