(* ===== verification/Rewriter_Properties.thy ===== *)
theory Rewriter_Properties
  imports Beta_Reducer Bit_Blaster_Term Samples
begin

text \<open>What the rewriters and their parts promise their callers.\<close>

section \<open>\<open>bool_rewriter_star\<close>\<close>

text \<open>An environment without limits, where no node is shared.\<close>

definition sample_env :: "'c rewriter_env" where
  "sample_env = \<lparr>e_ref_count = (\<lambda>st t. 1), e_inc = (\<lambda>st. True), e_num_asts = (\<lambda>st. 100),
     e_shift_ref_count = (\<lambda>st t. 1), e_inv_shift_ref_count = (\<lambda>st t. 1)\<rparr>"

text \<open>Resources without limits: nothing is allocated, and a checkpoint that does not throw.\<close>

definition sample_resources :: resources where
  "sample_resources = \<lparr>r_allocated = (\<lambda>c n. 0), r_checkpoints = (\<lambda>c f args. [(0, True)])\<rparr>"

text \<open>A rewriter between two calls: its cache is right under every interpretation.\<close>

definition bool_rewriter_ready :: "bool_rewriter rewriter_tpl \<Rightarrow> bool" where
  "bool_rewriter_ready st = (m_frame_stack st = [] \<and> m_result_stack st = [] \<and> m_bindings st = [] \<and> m_shifts st = [] \<and>
     cached_ok (\<lambda>(k, n) v. n = 0 \<longrightarrow> (\<forall>I. reduces I k v)) st)"

lemma bool_rewriter_ready_iff: "bool_rewriter_ready st \<longleftrightarrow> (\<forall>I. brs.trav.idle I st)"
  by (auto simp: bool_rewriter_ready_def brs.trav.idle_def brs.trav.base_def cached_ok_def ac.entries_ok_def
    reduces_refl)

lemma mk_bool_rewriter_star_ready: "bool_rewriter_ready (mk_bool_rewriter_star n rw)"
  using brs.trav.mk_idle by (simp add: bool_rewriter_ready_iff mk_bool_rewriter_star_def)

text \<open>
  C18: a whole term that \<open>bool_rewriter_star\<close> rewrites keeps its sort and its value under every
  interpretation, whatever its options, and the rewriter can be called again.
\<close>

theorem rewriter_preserves_value:
  assumes "bool_rewriter_ready st" "wf t" "main_loop bool_rewriter_config E t st = Some (Inr (r, st'))"
  shows "bool_rewriter_ready st' \<and> wf r \<and> get_sort r = get_sort t \<and> eval I r = eval I t"
proof -
  have "reduces I t r \<and> brs.trav.idle I st'" for I
    using brs.trav.main_loop [OF assms(3) _ assms(2)] reduces_refl [OF assms(2)] assms(1)
    by (simp add: bool_rewriter_ready_iff)
  then show ?thesis by (auto simp: bool_rewriter_ready_iff reduces_def)
qed

definition sample_term :: expr where
  "sample_term = m_mk_not (m_mk_not (sample_bit ''ab''))"

theorem rewriter_preserves_value_witness:
  "case main_loop bool_rewriter_config sample_env sample_term (mk_bool_rewriter_star 0 sample_rw) of
     Some (Inr (r, st')) \<Rightarrow> eval sample_interp r = VBool False
   | _ \<Rightarrow> False"
proof -
  have "case main_loop bool_rewriter_config sample_env sample_term (mk_bool_rewriter_star 0 sample_rw) of
      Some (Inr x) \<Rightarrow> True | _ \<Rightarrow> False" by code_simp
  then obtain r st' where ml: "main_loop bool_rewriter_config sample_env sample_term (mk_bool_rewriter_star 0 sample_rw) =
      Some (Inr (r, st'))" by (auto split: option.splits sum.splits)
  have "wf sample_term" by (simp add: sample_term_def)
  from rewriter_preserves_value [OF mk_bool_rewriter_star_ready this ml, of sample_interp]
  have "eval sample_interp r = eval sample_interp sample_term" by blast
  also have "\<dots> = VBool False"
    by (simp add: sample_term_def m_mk_not_def eval_basic_def sample_bit_def sample_interp_def)
  finally show ?thesis by (simp add: ml)
qed

section \<open>\<open>beta_reducer\<close> and the shifters\<close>

text \<open>
  C21: \<open>beta_reducer\<close> returns, unless it is cancelled; its result has the value of the term in which
  the variables are replaced by the bindings, and is that term when it has no if-then-else; for
  bindings of the right sorts this is the value of the term under the values of the bindings.
\<close>

theorem beta_reducer_substitutes:
  assumes "m_cache_stack st \<noteq> []" "m_cancel_check st"
  shows "gives (cancels E) (\<lambda>r st'. (no_ite t \<longrightarrow> r = inst (map Some bs) t) \<and>
      (\<forall>I. eval I r = eval I (inst (map Some bs) t)) \<and>
      (fits (map Some bs) t \<longrightarrow> (\<forall>I. eval I r = eval (bind_vars (map Some bs) I) t)))
    (rewrite_with_bindings beta_reducer_cfg E t bs st)"
  by (rule gives_mono [OF beta_reduce [OF assms]]) (simp add: eval_inst)

theorem beta_reducer_substitutes_witness:
  "gives {} (\<lambda>r st'. r = App (Basic OP_AND) [sample_bit ''b'', sample_bit ''a''])
    (rewrite_with_bindings beta_reducer_cfg sample_env (App (Basic OP_AND) [Var 0 Bool_sort, Var 1 Bool_sort])
      [sample_bit ''a'', sample_bit ''b''] (mk_rewriter_tpl 0 ()))"
proof -
  have c: "cancels (sample_env :: unit rewriter_env) = {}" by (simp add: cancels_def sample_env_def)
  have st: "m_cache_stack (mk_rewriter_tpl 0 ()) \<noteq> []" "m_cancel_check (mk_rewriter_tpl 0 ())"
    by (simp_all add: mk_tpl_simps)
  from beta_reducer_substitutes [OF st, of sample_env "App (Basic OP_AND) [Var 0 Bool_sort, Var 1 Bool_sort]"
      "[sample_bit ''a'', sample_bit ''b'']"]
  show ?thesis unfolding c by (rule gives_mono) (simp add: binding_of_def)
qed

text \<open>
  C37: the traversal of \<open>var_shifter_core\<close> ends, for both shifters, and both can be called again. The
  first one renames every variable of the term: its index is increased by \<open>s1\<close> from \<open>b\<close> on and by \<open>s2\<close>
  below, in 32 bits. The inverse one, on a term whose variables have 32 bits and none an index below \<open>n\<close>,
  as the code asserts, decreases every index by \<open>n\<close>.
\<close>

theorem shifters_rename:
  assumes "shifter_idle st" "shifter_idle ist" "vars_from n u"
  shows "(\<exists>st'. var_shifter_op rc t b s1 s2 st =
        Some (rename_vars (\<lambda>i. (if b \<le> i then i + s1 else i + s2) mod 2 ^ 32) t, st') \<and> shifter_idle st') \<and>
    (\<exists>ist'. inv_var_shifter_op irc u n ist = Some (rename_vars (\<lambda>i. i - n) u, ist') \<and> shifter_idle ist')"
proof -
  have "shift_index b s1 s2 = (\<lambda>i. (if b \<le> i then i + s1 else i + s2) mod 2 ^ 32)"
    by (auto simp: shift_index_def u32_def)
  then show ?thesis
    using var_shifter_op [OF assms(1), of rc t b s1 s2] inv_var_shifter_op [OF assms(2), of irc u n]
      inv_shift_from [OF assms(3)] by simp
qed

theorem shifters_rename_witness:
  "(\<exists>st'. var_shifter_op (\<lambda>st t. 2) (App (Basic OP_AND) [Var 0 Bool_sort, Var 3 Bool_sort]) 1 5 0 (mk_var_shifter 0) =
      Some (App (Basic OP_AND) [Var 0 Bool_sort, Var 8 Bool_sort], st')) \<and>
    (\<exists>ist'. inv_var_shifter_op (\<lambda>st t. 2) (App (Basic OP_AND) [Var 5 Bool_sort, Var 8 Bool_sort]) 5 (mk_inv_var_shifter 0) =
      Some (App (Basic OP_AND) [Var 0 Bool_sort, Var 3 Bool_sort], ist'))"
proof -
  have "vars_from 5 (App (Basic OP_AND) [Var 5 Bool_sort, Var 8 Bool_sort])" by simp
  from shifters_rename [OF mk_shifter_idle this, where rc = "\<lambda>st t. 2" and irc = "\<lambda>st t. 2" and b = 1 and
      t = "App (Basic OP_AND) [Var 0 Bool_sort, Var 3 Bool_sort]" and ?s1.0 = 5 and ?s2.0 = 0]
  show ?thesis by fastforce
qed

text \<open>
  Shifting a term by \<open>n\<close> and shifting the result back by \<open>n\<close> gives the term again, for indices of
  32 bits, although the shifted indices may wrap.
\<close>

theorem shift_unshift:
  assumes "shifter_idle st" "shifter_idle ist" "vars_less (2 ^ 32) t" "n < 2 ^ 32"
  shows "case var_shifter_op rc t 0 n m st of
      None \<Rightarrow> False
    | Some (t1, st') \<Rightarrow> (case inv_var_shifter_op irc t1 n ist of None \<Rightarrow> False | Some (t2, ist') \<Rightarrow> t2 = t)"
proof -
  obtain st' where a: "var_shifter_op rc t 0 n m st = Some (rename_vars (shift_index 0 n m) t, st')"
    using var_shifter_op [OF assms(1)] by blast
  obtain ist' where "inv_var_shifter_op irc (rename_vars (shift_index 0 n m) t) n ist =
      Some (rename_vars (inv_shift_index n) (rename_vars (shift_index 0 n m) t), ist')"
    using inv_var_shifter_op [OF assms(2)] by blast
  then show ?thesis using a inv_shift_shift [OF assms(3,4)] by simp
qed

theorem shift_unshift_witness:
  "case var_shifter_op (\<lambda>st t. 2) (Var 4294967290 Bool_sort) 0 7 0 (mk_var_shifter 0) of
      None \<Rightarrow> False
    | Some (t1, st') \<Rightarrow>
        (case inv_var_shifter_op (\<lambda>st t. 2) t1 7 (mk_inv_var_shifter 0) of
           None \<Rightarrow> False | Some (t2, ist') \<Rightarrow> t2 = Var 4294967290 Bool_sort)"
  by (rule shift_unshift [OF mk_shifter_idle]) simp_all

section \<open>\<open>act_cache\<close>\<close>

text \<open>
  C38: \<open>act_cache\<close> refines a partial map that may forget: a search answers what the map holds and
  forgets nothing, an inserted entry is there, every other entry keeps its value or is forgotten,
  and a reset cache is empty.
\<close>

theorem cache_refines_map:
  "fst (cache_find k n c) = lookup c (k, n) \<and> lookup (snd (cache_find k n c)) = lookup c \<and>
    lookup (cache_insert k n v c) (k, n) = Some v \<and>
    (\<forall>e. e = (k, n) \<or> lookup (cache_insert k n v c) e \<in> {lookup c e, None}) \<and>
    lookup (cache_reset c) e' = None"
proof (intro conjI allI)
  fix e
  show "e = (k, n) \<or> lookup (cache_insert k n v c) e \<in> {lookup c e, None}"
    using cache_insert_lookup(2) [of e k n v c] by blast
qed (simp_all add: cache_insert_lookup(1) ac.srch_look ac.look_srch ac.look_clear)

text \<open>
  C39: the counter of unused entries is exact, and within its limit, in every state that finding,
  inserting and resetting reach from a new cache, as long as no entry that was found gets
  another value.
\<close>

theorem cache_counter_exact:
  assumes "cache_step\<^sup>*\<^sup>* (mk_act_cache n) c"
  shows "card {e. \<exists>v. m_table c e = Some (v, False)} = unat (m_unused c) \<and> m_unused c \<le> m_max_unused c \<and>
    {e. \<exists>v. m_table c e = Some (v, False)} \<subseteq> set (drop (m_qhead c) (m_queue c))"
  using cache_steps_exact [OF assms mk_act_cache_exact] unfolding cache_exact_def unused_def active_def by blast

theorem cache_counter_exact_witness:
  "unat (m_unused (cache_insert (sample_bit ''a'') 0 (sample_bit ''b'') (mk_act_cache 5))) =
    card {e. \<exists>v. m_table (cache_insert (sample_bit ''a'') 0 (sample_bit ''b'') (mk_act_cache 5)) e = Some (v, False)}"
proof -
  have "\<not> replaces_found (sample_bit ''a'', 0) (sample_bit ''b'') (mk_act_cache 5)"
    by (simp add: replaces_found_def mk_act_cache_def init_def)
  then have "cache_step\<^sup>*\<^sup>* (mk_act_cache 5) (cache_insert (sample_bit ''a'') 0 (sample_bit ''b'') (mk_act_cache 5))"
    by (intro r_into_rtranclp step_insert)
  from cache_counter_exact [OF this] show ?thesis by simp
qed





text \<open>
  Replacing the value of an entry that was found clears its tag but leaves the counter alone, so
  that finding it again subtracts one too many: the counter wraps below zero when it was zero.
\<close>

theorem cache_counter_wraps:
  assumes "m_unused c < m_max_unused c" "m_table c (k, n) = Some (v, True)" "v' \<noteq> v"
  shows "m_unused (snd (cache_find k n (cache_insert k n v' c))) = m_unused c - 1 \<and>
    (m_unused c = 0 \<longrightarrow> m_unused (snd (cache_find k n (cache_insert k n v' c))) = - 1)"
  using replace_found_counter [OF assms] by simp

theorem cache_counter_wraps_witness:
  "m_unused (snd (cache_find (sample_bit ''a'') 0 (cache_insert (sample_bit ''a'') 0 (sample_bit ''c'')
     (snd (cache_find (sample_bit ''a'') 0 (cache_insert (sample_bit ''a'') 0 (sample_bit ''b'') (mk_act_cache 0))))))) = - 1"
proof -
  let ?c = "snd (cache_find (sample_bit ''a'') 0 (cache_insert (sample_bit ''a'') 0 (sample_bit ''b'') (mk_act_cache 0)))"
  have "m_unused ?c < m_max_unused ?c" "m_table ?c (sample_bit ''a'', 0) = Some (sample_bit ''b'', True)"
    "sample_bit ''c'' \<noteq> sample_bit ''b''" "m_unused ?c = 0"
    by (simp_all add: cache_find_def cache_insert_def Let_def mk_act_cache_def init_def sample_bit_def)
  from cache_counter_wraps [OF this(1-3)] this(4) show ?thesis by blast
qed

section \<open>Interrupted traversals\<close>

text \<open>An operation that throws, throws one of \<open>errs\<close>.\<close>

definition throws_in :: "rewriter_exception set \<Rightarrow> ('c, 'a) outcome \<Rightarrow> bool" where
  "throws_in errs m = (\<forall>e st. m = Some (Inl (e, st)) \<longrightarrow> e \<in> errs)"

lemma throws_in_simps [simp]:
  "throws_in errs (returns a st)" "throws_in errs (throws e st) = (e \<in> errs)" "throws_in errs None"
  by (simp_all add: throws_in_def returns_def throws_def)

lemma throws_in_and_then:
  assumes "throws_in errs m" "\<And>a st. throws_in errs (k a st)"
  shows "throws_in errs (and_then m k)"
proof (cases m)
  case (Some x)
  then show ?thesis using assms by (cases x) (auto simp: throws_in_def and_then_def)
qed (simp add: and_then_def)

text \<open>A configuration that never throws \<open>Canceled\<close> itself, as all configurations of the program.\<close>

definition not_canceling :: "'c rewriter_config \<Rightarrow> bool" where
  "not_canceling C = ((\<forall>c f args c'. c_reduce_app C c f args \<noteq> (Inl Canceled, c')) \<and>
     (\<forall>c k. c_max_steps_exceeded C c k \<noteq> Inl Canceled))"

abbreviation quiet :: "('c, 'a) outcome \<Rightarrow> bool" where
  "quiet m \<equiv> throws_in (- {Canceled}) m"

lemma quiet_process_const:
  assumes "not_canceling C"
  shows "quiet (process_const C d st)"
proof -
  have "C' = C \<longrightarrow> (\<forall>e s. y = Inl (e, s) \<longrightarrow> e \<noteq> Canceled)" if "process_const_loop C' d retried st = Some y" for C' retried y
    using that
  proof (rule process_const_loop.raw_induct [where P = "\<lambda>C' d retried st y. C' = C \<longrightarrow> (\<forall>e s. y = Inl (e, s) \<longrightarrow> e \<noteq> Canceled)", rotated],
      goal_cases)
    case (1 loop C' d retried st y)
    then show ?case using assms by (auto simp: not_canceling_def split: prod.splits sum.splits)
  qed
  then show ?thesis by (auto simp: throws_in_def process_const_def)
qed

lemma quiet_process_var: "quiet (process_var C E i s st)"
  by (simp add: process_var_def Let_def case_prod_beta split: option.split)

lemma quiet_push_frame: "quiet (tpl_push_frame C t b d st)"
  by (simp add: tpl_push_frame_def)

lemma quiet_visit:
  assumes "not_canceling C"
  shows "quiet (visit C E t d st)"
  by (auto simp: visit_def Let_def case_prod_beta quiet_push_frame quiet_process_var quiet_process_const [OF assms]
    split: option.split expr.split list.split intro!: throws_in_and_then)

lemma quiet_children:
  assumes "not_canceling C"
  shows "quiet (children C E f all_args args st)"
proof (induction args arbitrary: st)
  case (Cons arg args)
  then show ?case
    by (auto simp: constant_fold_def Let_def quiet_visit [OF assms] split: option.split intro!: throws_in_and_then)
qed simp

lemma quiet_reduce_children:
  assumes "not_canceling C"
  shows "quiet (reduce_children C E f args st)"
proof -
  obtain x c where red: "c_reduce_app C (m_rw_cfg st) f (drop (m_spos (hd (m_frame_stack st))) (m_result_stack st)) = (x, c)" by fastforce
  show ?thesis
  proof (cases x)
    case (Inl e)
    then show ?thesis using red assms by (auto simp: reduce_children_def Let_def not_canceling_def)
  next
    case (Inr b)
    then show ?thesis using red
      by (cases b) (auto simp: reduce_children_def Let_def expand_macro_def tpl_begin_scope_def quiet_push_frame
        quiet_visit [OF assms] split: option.split intro!: throws_in_and_then)
  qed
qed

lemma quiet_process_app:
  assumes "not_canceling C"
  shows "quiet (process_app C E f args st)"
  by (cases "m_state (hd (m_frame_stack st))")
    (auto simp: process_app_def Let_def quiet_children [OF assms] quiet_reduce_children [OF assms]
      split: option.split intro!: throws_in_and_then)

lemma rewrite_step_cancel:
  assumes "not_canceling C" "rewrite_step C E st = Some (Inl (Canceled, st'))"
  shows "\<not> e_inc E st \<and> m_cancel_check st \<and> st' = tpl_reset C st"
proof (rule ccontr)
  assume n: "\<not> (\<not> e_inc E st \<and> m_cancel_check st \<and> st' = tpl_reset C st)"
  have "e_inc E st \<or> \<not> m_cancel_check st" using n assms(2) by (auto simp: rewrite_step_def throws_def)
  then have "quiet (rewrite_step C E st)"
    using assms(1) quiet_process_app [OF assms(1)] quiet_process_var
    by (auto simp: rewrite_step_def Let_def case_prod_beta not_canceling_def
      split: sum.split option.split expr.split intro!: throws_in_and_then)
  then show False using assms(2) by (simp add: throws_in_def)
qed

lemma resume_core_cancel:
  assumes n: "not_canceling C" and r: "resume_core C E st = Some (Inl (Canceled, st'))"
  shows "\<exists>st1. \<not> e_inc E st1 \<and> m_cancel_check st1 \<and> st' = tpl_reset C st1"
proof -
  have "C' = C \<and> E' = E \<longrightarrow> (\<forall>s. y = Inl (Canceled, s) \<longrightarrow> (\<exists>st1. \<not> e_inc E st1 \<and> m_cancel_check st1 \<and> s = tpl_reset C st1))"
    if "resume_core C' E' st = Some y" for C' E' st y
    using that
  proof (rule resume_core.raw_induct [where P = "\<lambda>C' E' st y. C' = C \<and> E' = E \<longrightarrow>
      (\<forall>s. y = Inl (Canceled, s) \<longrightarrow> (\<exists>st1. \<not> e_inc E st1 \<and> m_cancel_check st1 \<and> s = tpl_reset C st1))", rotated], goal_cases)
    case (1 loop C' E' st y)
    then show ?case using rewrite_step_cancel [OF n, of E st]
      by (auto split: if_splits option.splits sum.splits prod.splits)
  qed
  then show ?thesis using r by blast
qed

lemma not_canceling_configs: "not_canceling bool_rewriter_config" "not_canceling beta_reducer_cfg"
  by (auto simp: not_canceling_def bool_rewriter_config_def beta_reducer_cfg_def default_rewriter_cfg_def split: prod.splits)

text \<open>
  C23: with a configuration whose own operations never throw the cancellation exception (\<open>bool_rewriter_cfg\<close>
  and \<open>beta_reducer_cfg\<close> are such; the bit-blaster, whose circuits have checkpoints, is not), a
  traversal that throws it leaves a rewriter that was reset: its stacks, its bindings and its cache
  are empty. There is nothing left to resume, and the rewriter can be called again.
\<close>

theorem cancel_resets:
  assumes "not_canceling C" "main_loop C E t st = Some (Inl (Canceled, st'))"
  shows "m_frame_stack st' = [] \<and> m_result_stack st' = [] \<and> m_bindings st' = [] \<and> m_scopes st' = [] \<and>
    m_cache st' = 0 \<and> (m_cache_stack st' \<noteq> [] \<longrightarrow> lookup (m_cache_stack st' ! 0) e = None)"
proof -
  have "\<exists>st1. st' = tpl_reset C st1"
  proof (cases "e_inc E st")
    case False
    then show ?thesis using assms(2) by (auto simp: main_loop_def throws_def returns_def split: if_splits)
  next
    case True
    let ?st = "st\<lparr>m_root := Some t, m_num_qvars := 0, m_num_steps := 0\<rparr>"
    have "\<not> visit C E t RW_UNBOUNDED_DEPTH ?st = Some (Inl (Canceled, st'))"
      using quiet_visit [OF assms(1)] unfolding throws_in_def by blast
    then obtain b st1 where "(if b then returns (last (m_result_stack st1)) (pop_result st1) else resume_core C E st1) =
        Some (Inl (Canceled, st'))"
      using assms(2) True by (auto simp: main_loop_def and_then_def split: option.splits sum.splits)
    then have "resume_core C E st1 = Some (Inl (Canceled, st'))" by (auto simp: returns_def split: if_splits)
    then show ?thesis using resume_core_cancel [OF assms(1)] by blast
  qed
  then obtain st1 where st': "st' = tpl_reset C st1" by blast
  show ?thesis
    unfolding st' by (cases st1) (simp add: tpl_reset_def core_reset_def reset_cache_def ac.look_clear)
qed

theorem cancel_resets_witness:
  "case main_loop bool_rewriter_config (sample_env\<lparr>e_inc := (\<lambda>st. m_num_steps st = 0)\<rparr>) sample_term (mk_bool_rewriter_star 0 sample_rw) of
     Some (Inl (e, st')) \<Rightarrow> e = Canceled \<and> m_frame_stack st' = []
   | _ \<Rightarrow> False"
proof -
  let ?m = "main_loop bool_rewriter_config (sample_env\<lparr>e_inc := (\<lambda>st. m_num_steps st = 0)\<rparr>) sample_term (mk_bool_rewriter_star 0 sample_rw)"
  have "case ?m of Some (Inl (e, st')) \<Rightarrow> e = Canceled | _ \<Rightarrow> False" by code_simp
  then obtain st' where ml: "?m = Some (Inl (Canceled, st'))" by (auto split: option.splits sum.splits)
  from cancel_resets [OF not_canceling_configs(1) ml] show ?thesis by (simp add: ml)
qed

end
