(* ===== verification/Tactic_Properties.thy ===== *)
theory Tactic_Properties
  imports Bit_Blaster_Tactic Rewriter_Properties
begin

text \<open>What goals, the bit-blasting tactic and its model converter promise.\<close>

section \<open>The bit-blasting tactic\<close>

text \<open>A goal with the formula \<open>x + y = 2\<close>, a new tactic, and its run.\<close>

definition sample_equation :: expr where
  "sample_equation = App (Basic OP_EQ) [App (Bv OP_BADD []) [sample_bv ''x'' 2, sample_bv ''y'' 2], mk_numeral 2 2]"

definition sample_goal :: "nat goal" where
  "sample_goal = assert_expr sample_equation None (mk_goal True False)"

definition sample_tactic :: bit_blaster_tactic where
  "sample_tactic = mk_bit_blaster_tactic sample_manager 0 7 None
     \<lparr>bp_max_memory = None, bp_max_steps = None, bp_blast_add = None, bp_blast_mul = None,
      bp_blast_full = None, bp_blast_quant = None\<rparr>"

definition sample_apply :: "((tactic_exception \<times> nat goal + nat goal list) \<times> bit_blaster_tactic) option" where
  "sample_apply = tactic_apply sample_resources sample_env id sample_goal sample_tactic"

text \<open>A model of the bits: the first bit of \<open>x\<close> is false and the second one true; \<open>y\<close> has no bits set.\<close>

definition sample_model :: model where
  "sample_model = register_decl (Uninterp (Num 8) [] Bool_sort) m_mk_true
     (register_decl (Uninterp (Num 7) [] Bool_sort) m_mk_false empty_model)"

lemma sample_goal: "goal_ok sample_goal" "m_forms sample_goal = [sample_equation]" "m_models_enabled sample_goal" "m_mc sample_goal = None"
  by code_simp+

lemma sample_goal_consts: "bits_of (goal_consts sample_goal) = 4"
proof -
  have "goal_consts sample_goal = {Uninterp (Str ''x'') [] (BV_sort 2), Uninterp (Str ''y'') [] (BV_sort 2)}"
    by (simp add: goal_consts_def sample_goal sample_equation_def sample_bv_def mk_numeral_def)
  then show ?thesis by (simp add: bits_of_def)
qed

lemma sample_tactic_ready: "tactic_ready sample_manager (t_rewriter sample_tactic)" "t_own sample_tactic"
  unfolding sample_tactic_def by (rule mk_bit_blaster_tactic_ready, rule mk_bit_blaster_tactic_rewriter)

lemma sample_tactic_cfg:
  "m_keys (m_rw_cfg (t_rewriter sample_tactic)) = []" "m_fresh_id (m_rw_cfg (t_rewriter sample_tactic)) = 7"
  "names_ok (m_rw_cfg (t_rewriter sample_tactic))" "m_newbits (m_rw_cfg (t_rewriter sample_tactic)) = []"
  "consistent (m_rw_cfg (t_rewriter sample_tactic)) I"
  by (simp_all add: sample_tactic_def mk_bit_blaster_tactic_rewriter mk_imp_def mk_tpl_simps cfg_updt_params_def
    mk_bit_blaster_rewriter_def names_ok_def consistent_def)

lemma sample_apply:
  obtains g' st' where "sample_apply = Some (Inr [g'], st')"
    "m_keys (m_rw_cfg (t_rewriter st')) = [Uninterp (Str ''x'') [] (BV_sort 2), Uninterp (Str ''y'') [] (BV_sort 2)]"
    "length (m_newbits (m_rw_cfg (t_rewriter st'))) = 4" "holds (model_interp sample_interp sample_model) g'"
proof -
  have "case sample_apply of Some (Inr [g'], st') \<Rightarrow>
      m_keys (m_rw_cfg (t_rewriter st')) = [Uninterp (Str ''x'') [] (BV_sort 2), Uninterp (Str ''y'') [] (BV_sort 2)] \<and>
      length (m_newbits (m_rw_cfg (t_rewriter st'))) = 4 \<and> holds (model_interp sample_interp sample_model) g'
    | _ \<Rightarrow> False" by code_simp
  then show ?thesis using that by (auto split: option.splits prod.splits sum.splits list.splits)
qed

text \<open>
  C7: when the tactic does not throw, it gives one goal, which is well-formed, one deeper and as
  precise as the old one, and holds exactly when the old one does, under every interpretation in
  which the mapped constants have the values of their bits.
\<close>

theorem tactic_preserves_value:
  assumes "goal_ok g" "tactic_ready m (t_rewriter st)" "tactic_apply res E order g st = Some (Inr gs, st')"
  shows "\<exists>g'. gs = [g'] \<and> goal_ok g' \<and> m_depth g' = m_depth g + 1 \<and> m_precision g' = m_precision g \<and>
    (\<forall>I. consistent (m_rw_cfg (t_rewriter st')) I \<longrightarrow> (holds I g' \<longleftrightarrow> holds I g))"
  using tactic_one_goal [OF assms] by blast

theorem tactic_preserves_value_witness:
  "case sample_apply of Some (Inr [g'], st') \<Rightarrow> m_depth g' = 1 \<and> goal_ok g' | _ \<Rightarrow> False"
proof -
  obtain g' st' where run: "sample_apply = Some (Inr [g'], st')" by (rule sample_apply)
  moreover have "m_depth sample_goal = 0" by code_simp
  ultimately show ?thesis
    using tactic_preserves_value [OF sample_goal(1) sample_tactic_ready(1) run [unfolded sample_apply_def]] by (simp add: run)
qed

text \<open>
  C1: the tactic keeps satisfiability: the new goal has a model exactly when the old one has one that
  gives the constants mapped before the values of their bits, if there are names left for the bits of its
  constants.
\<close>

theorem tactic_keeps_satisfiability:
  assumes "goal_ok g" "tactic_ready m (t_rewriter st)" "names_ok (m_rw_cfg (t_rewriter st))"
    and "list_all (below (unat (m_fresh_id (m_rw_cfg (t_rewriter st))))) (m_forms g)"
    and "tactic_apply res E order g st = Some (Inr [g'], st')"
    and "unat (m_fresh_id (m_rw_cfg (t_rewriter st))) + bits_of (goal_consts g) < 2 ^ 32"
  shows "(\<exists>I. holds I g') \<longleftrightarrow> (\<exists>I. consistent (m_rw_cfg (t_rewriter st)) I \<and> holds I g)"
  by (rule tactic_satisfiable [OF assms])

theorem tactic_keeps_satisfiability_witness:
  "case sample_apply of Some (Inr [g'], st') \<Rightarrow> \<exists>I. holds I g' | _ \<Rightarrow> False"
proof -
  let ?c = "m_rw_cfg (t_rewriter sample_tactic)"
  obtain g' st' where run: "sample_apply = Some (Inr [g'], st')" and n: "length (m_newbits (m_rw_cfg (t_rewriter st'))) = 4"
    by (rule sample_apply)
  have "list_all (below (unat (m_fresh_id ?c))) (m_forms sample_goal)"
    by (simp add: sample_tactic_cfg sample_goal sample_equation_def sample_bv_def mk_numeral_def)
  moreover have "unat (m_fresh_id ?c) + bits_of (goal_consts sample_goal) < 2 ^ 32" using sample_goal_consts by (simp add: sample_tactic_cfg)
  ultimately have "(\<exists>I. holds I g') \<longleftrightarrow> (\<exists>I. consistent ?c I \<and> holds I sample_goal)"
    using tactic_keeps_satisfiability [OF sample_goal(1) sample_tactic_ready(1) sample_tactic_cfg(3) _ run [unfolded sample_apply_def]] by blast
  moreover have "holds sample_interp sample_goal" by code_simp
  ultimately have "\<exists>I. holds I g'" using sample_tactic_cfg(5) by blast
  then show ?thesis by (simp add: run)
qed

text \<open>
  C2: the tactic is called on a well-formed goal with models enabled, with no constant mapped, as after a
  cleanup, and with enough names left for the bits. Take a model of the new formulas that gives no value to the constants the tactic has mapped
  (which the formulas need not: the bits stand for them) and gives truth values to the Boolean
  constants it speaks of, whatever bits it leaves out. The converter that the tactic adds to the goal
  turns it into a model of the old formulas. The order in which the hash table of constants is traversed
  does not matter. A value that the model does give to a mapped constant would be kept, whatever the bits
  say (lemma \<open>converter_keeps_value\<close>).
\<close>

theorem converter_gives_model:
  assumes "goal_ok g" "m_models_enabled g" "tactic_ready m (t_rewriter st)" "m_keys (m_rw_cfg (t_rewriter st)) = []"
    and "names_ok (m_rw_cfg (t_rewriter st))" "list_all (below (unat (m_fresh_id (m_rw_cfg (t_rewriter st))))) (m_forms g)"
    and "tactic_apply res E order g st = Some (Inr [g'], st')"
    and "unat (m_fresh_id (m_rw_cfg (t_rewriter st))) + bits_of (goal_consts g) < 2 ^ 32"
    and "\<And>ks. set (order ks) = set ks \<and> (distinct ks \<longrightarrow> distinct (order ks))"
  shows "\<exists>mc. m_mc g' = mc_concat (m_mc g) mc \<and>
    (\<forall>md I. bit_model (m_keys (m_rw_cfg (t_rewriter st'))) md \<and> holds (model_interp I md) g' \<longrightarrow>
      holds (model_interp I (apply_mc mc md)) g)"
proof -
  from assms(7) have "imp_apply res E order g st = Some (Inr [g'], st')" by (simp add: tactic_apply_iff)
  from imp_apply_result [OF assms(1,3) this] show ?thesis
  proof cases
    case (1 rw0 change n rw1 g1)
    let ?c = "m_rw_cfg rw1"
    let ?mc = "if change then converter_of order ?c else None"
    have g': "m_forms g' = m_forms g1" "m_mc g' = mc_concat (m_mc g) ?mc" "holds I g' = holds I g1" for I
      using 1(3,8) assms(2) by (auto simp: same_goal_def mc_concat_def split: option.split)
    have rw0: "m_keypos (m_rw_cfg rw0) = 0" "m_values (m_rw_cfg rw0) = []" "m_fresh_id (m_rw_cfg rw0) = m_fresh_id (m_rw_cfg (t_rewriter st))"
      using 1(1) assms(3,4) by (simp_all add: start_rewrite_simps tactic_ready_def blaster_ready_def blaster_inv_def cfg_inv_def)
    have inv: "model_inv m (m_rw_cfg rw0) ?c"
      by (rule blasted_models [OF assms(1) _ 1(5) _ 1(2)]) (use assms(5,6,8) 1(1,4) in \<open>simp_all add: start_rewrite_simps\<close>)
    then have c: "cfg_inv ?c" "m_keypos ?c = 0"
      using rw0(1) by (auto simp: model_inv_def blaster_inv_def grows_def)
    have new: "\<forall>r \<in> set (m_values ?c). \<forall>b \<in> set (get_args r). \<not> below (unat (m_fresh_id (m_rw_cfg (t_rewriter st)))) b"
      using inv rw0(2,3) by (simp add: model_inv_def new_bits_def)
    have "holds (model_interp I (apply_mc ?mc md)) g"
      if md: "bit_model (m_keys ?c) md" and h: "holds (model_interp I md) g1" for md I
    proof (cases change)
      case True
      let ?vs = "order (m_keys ?c)" and ?bss = "map (\<lambda>k. the (m_const2bits ?c k)) (order (m_keys ?c))"
      let ?J = "blasted (model_interp I md) (bit_values (model_interp I md) ?vs ?bss)"
      note conv = converted_goal [OF c assms(9) new md]
      have below: "below (unat (m_fresh_id (m_rw_cfg (t_rewriter st)))) t" if "t \<in> set (m_forms g)" for t
        using assms(6) that by (simp add: list_all_iff)
      have "holds ?J g"
        using blasted_goal [OF assms(1) 1(5,2) bit_values_consistent [OF c(1) conv(1)]] h by blast
      then show ?thesis using conv(2) [OF below, of _ I] True by (simp add: holds_def list_all_iff tv_def)
    qed (use h 1(9) in \<open>simp add: apply_mc_def\<close>)
    moreover have "m_keys (m_rw_cfg (t_rewriter st')) = m_keys ?c" using 1(4) by simp
    ultimately show ?thesis using g' by metis
  qed
qed

theorem converter_gives_model_witness:
  "case sample_apply of
     Some (Inr [g'], st') \<Rightarrow> tv (model_interp sample_interp (apply_mc (m_mc g') sample_model)) sample_equation
   | _ \<Rightarrow> False"
proof -
  let ?c = "m_rw_cfg (t_rewriter sample_tactic)"
  obtain g' st' where run: "sample_apply = Some (Inr [g'], st')"
    and k: "m_keys (m_rw_cfg (t_rewriter st')) = [Uninterp (Str ''x'') [] (BV_sort 2), Uninterp (Str ''y'') [] (BV_sort 2)]"
    and n: "length (m_newbits (m_rw_cfg (t_rewriter st'))) = 4" and h: "holds (model_interp sample_interp sample_model) g'"
    by (rule sample_apply)
  have "list_all (below (unat (m_fresh_id ?c))) (m_forms sample_goal)"
    by (simp add: sample_tactic_cfg sample_goal sample_equation_def sample_bv_def mk_numeral_def)
  moreover have "unat (m_fresh_id ?c) + bits_of (goal_consts sample_goal) < 2 ^ 32" using sample_goal_consts by (simp add: sample_tactic_cfg)
  ultimately obtain mc where mc: "m_mc g' = mc_concat (m_mc sample_goal) mc"
    "\<And>md I. bit_model (m_keys (m_rw_cfg (t_rewriter st'))) md \<Longrightarrow> holds (model_interp I md) g' \<Longrightarrow>
      holds (model_interp I (apply_mc mc md)) sample_goal"
    using converter_gives_model [OF sample_goal(1,3) sample_tactic_ready(1) sample_tactic_cfg(1,3) _ run [unfolded sample_apply_def]]
    by auto
  have "bit_model (m_keys (m_rw_cfg (t_rewriter st'))) sample_model"
    unfolding k by (auto simp: bit_model_def model_ok_def sample_model_def register_decl_def empty_model_def)
  from mc(2) [OF this h] mc(1) show ?thesis by (simp add: run sample_goal holds_def mc_concat_def)
qed

text \<open>Without the condition on the constants: a model of the new formulas that gives \<open>x\<close> the value 3 itself.\<close>

lemma converter_keeps_value:
  "case sample_apply of
     Some (Inr [g'], st') \<Rightarrow>
       (let md = register_decl (Uninterp (Str ''x'') [] (BV_sort 2)) (mk_numeral 3 2) sample_model
        in holds (model_interp sample_interp md) g' \<and>
          \<not> tv (model_interp sample_interp (apply_mc (m_mc g') md)) sample_equation)
   | _ \<Rightarrow> False"
  by code_simp

text \<open>
  C8: the tactic with its own rewriter, cleaned up after the call, returns: with one well-formed
  goal, and ready for the next call, or with an exception of the rewriter for one of four reasons;
  the goal it then leaves half-way is well-formed.
\<close>

theorem tactic_returns:
  assumes "goal_ok g" "tactic_ready m (t_rewriter st)" "t_own st"
  shows "case clean_apply m res E order g st of
      None \<Rightarrow> False
    | Some (Inl (Tactic_exception e, g1), st1) \<Rightarrow> e \<in> {Canceled, Max_memory, Max_steps, Unsupported} \<and> goal_ok g1
    | Some (Inr gs, st1) \<Rightarrow> tactic_ready m (t_rewriter st1) \<and> t_own st1 \<and> (\<exists>g1. gs = [g1] \<and> goal_ok g1)"
proof (rule tactic_outcome [OF assms(1,2), of res E order])
  fix e g1 st1
  assume "tactic_apply res E order g st = Some (Inl (Tactic_exception e, g1), st1)" "e \<in> blaster_errors" "goal_ok g1"
  then show ?thesis by (simp add: clean_apply_def blaster_errors_def)
next
  fix g1 st1
  assume ap: "tactic_apply res E order g st = Some (Inr [g1], st1)"
  have "goal_ok g1" "t_own st1" using tactic_one_goal [OF assms(1,2) ap] assms(3) by auto
  then show ?thesis
    using mk_bit_blaster_tactic_ready mk_bit_blaster_tactic_rewriter(2) by (simp add: clean_apply_def ap tactic_cleanup_def)
qed

theorem tactic_returns_witness:
  "clean_apply sample_manager sample_resources sample_env id sample_goal sample_tactic \<noteq> None"
  using tactic_returns [OF sample_goal(1) sample_tactic_ready, where res = sample_resources and E = sample_env and order = id]
  by (auto split: option.splits)

text \<open>
  C22: the formula that the bit-blaster's converter gives for a formula holds exactly when the given
  one does and every mapped constant has the value of its bits; but it is given once: the
  converter keeps no constants, so the next formula is left as it is, and so are models.
\<close>

theorem converter_formula:
  assumes "cfg_inv c" "bexp fml"
  shows "(case convert_formula (m_keys c) (m_values c) fml of (fml', vs, bss) \<Rightarrow>
    (tv I fml' \<longleftrightarrow> tv I fml \<and> consistent c I) \<and>
    convert_formula vs bss next = (next, [], []) \<and>
    (model_ok md \<longrightarrow> m_interp (convert_bits True vs bss md) = m_interp md))"
proof -
  have e: "list_all2 entry_ok (m_keys c) (m_values c)" and d: "distinct (m_keys c)"
    and m: "m_const2bits c = map_of (zip (m_keys c) (m_values c))" and l: "length (m_values c) = length (m_keys c)"
    using assms(1) by (simp_all add: cfg_inv_def)
  have "distinct (map fst (zip (m_keys c) (m_values c)))" using d l by simp
  then have z: "m_const2bits c v = Some bs \<longleftrightarrow> (v, bs) \<in> set (zip (m_keys c) (m_values c))" for v bs
    unfolding m by (rule map_of_eq_Some_iff)
  have "tv I (fst (convert_formula (m_keys c) (m_values c) fml)) \<longleftrightarrow> tv I fml \<and> consistent c I"
    using convert_formula [OF assms(2) e, of I] by (auto simp: consistent_def z)
  moreover have "snd (convert_formula (m_keys c) (m_values c) fml) = ([], [])" using l by (auto simp: convert_formula_def)
  moreover have "m_interp (convert_bits True [] [] md) = m_interp md" if "model_ok md"
    using convert_bits(1) [OF that, of "[]" "[]"] by (auto simp: collect_bits_def fun_eq_iff)
  ultimately show ?thesis by (auto simp: convert_formula_def split: prod.split)
qed

theorem converter_formula_witness:
  "case convert_formula [Uninterp (Str ''x'') [] (BV_sort 1)] [mk_mkbv [App (Uninterp (Num 7) [] Bool_sort) []]] m_mk_true of
     (fml', vs, bss) \<Rightarrow> tv sample_interp fml' \<and> convert_formula vs bss m_mk_false = (m_mk_false, [], [])"
proof -
  let ?f = "Uninterp (Str ''x'') [] (BV_sort 1)"
  let ?c = "snd (mk_const (m_rw_cfg (t_rewriter sample_tactic)) ?f)"
  have n: "m_const2bits (m_rw_cfg (t_rewriter sample_tactic)) ?f = None"
    "m_keys (m_rw_cfg (t_rewriter sample_tactic)) = []" "m_values (m_rw_cfg (t_rewriter sample_tactic)) = []"
    "m_fresh_id (m_rw_cfg (t_rewriter sample_tactic)) = 7"
    by (simp_all add: sample_tactic_def mk_bit_blaster_tactic_rewriter mk_imp_def mk_tpl_simps cfg_updt_params_def
      mk_bit_blaster_rewriter_def)
  have "cfg_inv (m_rw_cfg (t_rewriter sample_tactic))"
    using sample_tactic_ready(1) by (simp add: tactic_ready_def blaster_ready_def blaster_inv_def)
  then have c: "cfg_inv ?c" using mk_const_inv by simp
  have kv: "m_keys ?c = [?f]" "m_values ?c = [mk_mkbv [App (Uninterp (Num 7) [] Bool_sort) []]]"
    using n by (simp_all add: mk_const_new new_const_def fresh_bits_def fresh_bit_def)
  have "m_const2bits ?c = map_of (zip (m_keys ?c) (m_values ?c))" using c by (simp add: cfg_inv_def)
  then have "m_const2bits ?c = [?f \<mapsto> mk_mkbv [App (Uninterp (Num 7) [] Bool_sort) []]]" unfolding kv by simp
  then have "consistent ?c sample_interp" unfolding consistent_def
    by (simp add: mk_mkbv_def eval_bv_def sample_interp_def)
  then show ?thesis
    using converter_formula [OF c, of m_mk_true sample_interp m_mk_false] unfolding kv
    by (auto split: prod.splits)
qed

section \<open>Goals\<close>


lemma goal_update_holds:
  assumes "goal_ok g" "\<not> m_inconsistent g" "bexp f" "i < goal_size g"
  shows "holds I (goal_update i f d g) \<longleftrightarrow> tv I f \<and> (\<forall>k < goal_size g. k \<noteq> i \<longrightarrow> tv I (m_forms g ! k))"
proof -
  have i: "i < length (m_forms g)" using assms(4) by (simp add: goal_size_def)
  note ok = goal_update_ok [OF assms(1,3), of i d]
  show ?thesis
  proof (rule goal_update_cases [OF assms(1-3) i, of d])
    assume "m_inconsistent (goal_update i f d g)" "\<And>I. \<not> tv I f"
    then show ?thesis using inconsistent_holds [OF ok(1)] by blast
  next
    fix fr ext
    assume u: "m_forms (goal_update i f d g) = (m_forms g)[i := fr] @ ext" "\<And>I. tv I fr \<and> list_all (tv I) ext \<longleftrightarrow> tv I f"
    have "list_all (tv I) ((m_forms g)[i := fr]) \<longleftrightarrow> tv I fr \<and> (\<forall>k < goal_size g. k \<noteq> i \<longrightarrow> tv I (m_forms g ! k))"
      using i by (auto simp: list_all_length nth_list_update goal_size_def)
    then show ?thesis using u(2) [of I] by (auto simp: holds_def u(1))
  next
    fix ext
    assume "m_forms (goal_update i f d g) = m_forms g @ ext @ [f]" "\<And>I. \<not> tv I f"
    then show ?thesis by (simp add: holds_def)
  qed
qed

text \<open>
  C19: asserting a formula conjoins it, whatever it is taken apart into; replacing a formula removes
  the old one and conjoins the new one; both keep the goal well-formed.
\<close>

theorem assert_and_update:
  assumes "goal_ok g" "\<not> m_inconsistent g" "bexp f" "i < goal_size g"
  shows "goal_ok (assert_expr f d g) \<and> (holds I (assert_expr f d g) \<longleftrightarrow> holds I g \<and> tv I f) \<and>
    goal_ok (goal_update i f d g) \<and>
    (holds I (goal_update i f d g) \<longleftrightarrow> tv I f \<and> (\<forall>k < goal_size g. k \<noteq> i \<longrightarrow> tv I (m_forms g ! k)))"
  using assert_expr [OF assms(1,3)] goal_update_ok(1) [OF assms(1,3)] goal_update_holds [OF assms] by blast

text \<open>A conjunction of two bits is taken apart.\<close>

definition two_bits :: "nat goal" where
  "two_bits = assert_expr (m_mk_and [sample_bit ''a'', m_mk_not (sample_bit ''bc'')]) None (mk_goal True False)"

lemma two_bits: "goal_ok two_bits" "\<not> m_inconsistent two_bits" "m_forms two_bits = [sample_bit ''a'', m_mk_not (sample_bit ''bc'')]"
  by code_simp+

theorem assert_and_update_witness:
  "\<not> holds sample_interp (goal_update 0 (m_mk_and [sample_bit ''a'', sample_bit ''de'']) None two_bits)"
proof -
  have "bexp (m_mk_and [sample_bit ''a'', sample_bit ''de''])" by code_simp
  moreover have "0 < goal_size two_bits" by (simp add: goal_size_def two_bits)
  ultimately show ?thesis
    using assert_and_update [OF two_bits(1,2), of "m_mk_and [sample_bit ''a'', sample_bit ''de'']" 0 None sample_interp] by simp
qed

text \<open>
  C20: \<open>elim_redundancies\<close> keeps the meaning of a goal; unless it finds a contradiction, what it leaves
  has no formula twice, no formula true and no literal beside its negation.
\<close>

theorem elim_redundancies_correct:
  assumes "goal_ok g"
  shows "goal_ok (elim_redundancies mk_join g) \<and> (holds I (elim_redundancies mk_join g) \<longleftrightarrow> holds I g) \<and>
    (m_inconsistent (elim_redundancies mk_join g) \<or>
      (let fs = m_forms (elim_redundancies mk_join g)
       in distinct fs \<and> m_mk_true \<notin> set fs \<and> (\<forall>a. m_mk_not a \<in> set fs \<and> a \<in> set fs \<longrightarrow> m_is_not a)))"
  using elim_redundancies(1,4) [OF assms, of mk_join] elim_redundancies(3) [OF assms, of I mk_join]
  unfolding no_redundancies_def Let_def by blast

theorem elim_redundancies_correct_witness:
  "holds sample_interp (elim_redundancies (\<lambda>d e. d) two_bits)"
proof -
  have "holds sample_interp two_bits" by (simp add: holds_def two_bits)
  then show ?thesis using elim_redundancies_correct [OF two_bits(1), of "\<lambda>d e. d" sample_interp] by blast
qed

text \<open>
  When the first part of a replacement is false but the replacement is not the constant false, the
  goal is not marked inconsistent, and the replaced formula stays.
\<close>

lemma update_keeps_contradiction:
  "m_inconsistent (assert_expr (m_mk_and [m_mk_false, sample_bit ''a'']) None two_bits)"
  "\<not> m_inconsistent (goal_update 0 (m_mk_and [m_mk_false, sample_bit ''a'']) None two_bits)"
  "m_forms (goal_update 0 (m_mk_and [m_mk_false, sample_bit ''a'']) None two_bits) =
    [sample_bit ''a'', m_mk_not (sample_bit ''bc''), sample_bit ''a'', m_mk_and [m_mk_false, sample_bit ''a'']]"
  by code_simp+

text \<open>\<open>is_cnf\<close> answers at the first clause, whatever follows it.\<close>

lemma is_cnf_stops:
  assumes "list_all is_literal fs" "\<not> list_ex m_is_or fs" "m_is_or f" "list_all is_literal (get_args f)"
  shows "is_cnf_loop (fs @ f # rest)"
  using assms by (induction fs) auto

lemma not_cnf_accepted:
  "is_cnf (assert_expr (m_mk_or [m_mk_and [sample_bit ''a'', sample_bit ''b''], sample_bit ''c'']) None
     (assert_expr (m_mk_or [sample_bit ''a'', sample_bit ''b'']) None (mk_goal True False)))"
  by code_simp

end
