(* ===== verification/Tactical_Properties.thy ===== *)
theory Tactical_Properties
  imports Strategy Tactic_Properties
begin

text \<open>
  What the tacticals and \<open>check_sat\<close> promise, for any tactics that keep the contract \<open>sound_tactic\<close>:
  called on a well-formed goal it is ready for (\<open>ok\<close>), the tactic returns or throws; it changes no goal
  but the given one and new ones; its results are different well-formed goals, at least one; if one of
  them has a model, and its precision allows to say so, the given goal has one; if all have none, and
  their precision allows to say so, the given goal has none.
\<close>

section \<open>A strategy\<close>

text \<open>Blast the goal \<open>x + x = 1\<close> and fail unless it is decided then.\<close>

definition sample_strategy :: "(bit_blaster_tactic, nat) tactic_obj" where
  "sample_strategy = and_then (mk_blaster sample_manager sample_resources sample_env id (\<lambda>e. ''error'')) fail_if_undecided_tactic"

definition sample_world :: "expr \<Rightarrow> (bit_blaster_tactic, nat) world" where
  "sample_world f = \<lparr>w_goals = (\<lambda>a. assert_expr f None (mk_goal True False)), w_next = 1, w_state = sample_tactic\<rparr>"

definition sample_absurd :: expr where
  "sample_absurd = App (Basic OP_EQ) [App (Bv OP_BADD []) [sample_bv ''x'' 2, sample_bv ''x'' 2], mk_numeral 1 2]"

lemma sample_world:
  "goal_ok (w_goals (sample_world sample_absurd) 0)" "0 < w_next (sample_world sample_absurd)"
  "blaster_ok sample_manager (w_state (sample_world sample_absurd)) (w_goals (sample_world sample_absurd) 0)"
proof -
  show "goal_ok (w_goals (sample_world sample_absurd) 0)" by code_simp
  show "0 < w_next (sample_world sample_absurd)" by (simp add: sample_world_def)
  have f: "m_forms (assert_expr sample_absurd None (mk_goal True False) :: nat goal) = [sample_absurd]" by code_simp
  have b: "below 7 sample_absurd" by code_simp
  have "goal_consts (assert_expr sample_absurd None (mk_goal True False) :: nat goal) = {Uninterp (Str ''x'') [] (BV_sort 2)}"
    unfolding goal_consts_def f by (auto simp: sample_absurd_def sample_bv_def mk_numeral_def)
  then show "blaster_ok sample_manager (w_state (sample_world sample_absurd)) (w_goals (sample_world sample_absurd) 0)"
    using sample_tactic_ready sample_tactic_cfg by (simp add: blaster_ok_def sample_world_def bits_of_def f b)
qed

lemma sample_strategy_sound: "sound_tactic sample_strategy (blaster_ok sample_manager)"
  unfolding sample_strategy_def by (rule blast_then_sound [OF undecided.sound_tactic_axioms])

section \<open>Answers\<close>

text \<open>
  C3: \<open>check_sat\<close> with a sound tactic returns, whatever the tactic throws, and its answers are right: when
  it says true the goal has a model, when it says false it has none, and when it gives up it says why.
\<close>

theorem check_sat_correct:
  assumes "sound_tactic t ok" "ok (w_state w) (w_goals w a)" "goal_ok (w_goals w a)" "a < w_next w"
  shows "case check_sat t a w of
      None \<Rightarrow> False
    | Some ((l, md, core, reason), w') \<Rightarrow>
        (l = l_true \<longrightarrow> (\<exists>I. holds I (w_goals w a))) \<and> (l = l_false \<longrightarrow> (\<forall>I. \<not> holds I (w_goals w a))) \<and>
        (l = l_undef \<longleftrightarrow> reason \<noteq> None)"
  using check_sat_sound [OF assms]
  by (auto simp: has_model_def has_none_def satisfiable_def split: option.splits)

theorem check_sat_correct_witness:
  "\<forall>I. \<not> holds I (assert_expr sample_absurd None (mk_goal True False :: nat goal))"
proof -
  have "case check_sat sample_strategy 0 (sample_world sample_absurd) of Some ((l, x), w') \<Rightarrow> l = l_false | None \<Rightarrow> False"
    by code_simp
  then show ?thesis
    using check_sat_correct [OF sample_strategy_sound sample_world(3,1,2)]
    by (auto simp: sample_world_def split: option.splits)
qed

section \<open>Composition\<close>

text \<open>
  C13: \<open>and_then\<close> of two sound tactics is sound, if the first one leaves goals on which the second one can be
  called, and either never branches or calls of the second one leave the other goals ready for it.
\<close>

theorem and_then_composes:
  assumes "sound_tactic t1 ok1" "sound_tactic t2 ok2"
    and "hands_over t1 ok1 ok2" "linear t1 ok1 \<or> serves_others t2 ok2"
  shows "sound_tactic (and_then t1 t2) ok1"
  using assms by (rule and_then_sound)

theorem and_then_composes_witness:
  "call_ok 0 (sample_world sample_absurd) (t_apply (and_then sample_strategy skip_tactic) 0 (sample_world sample_absurd))"
proof -
  have "sound_tactic (and_then sample_strategy skip_tactic) (blaster_ok sample_manager)"
    by (rule and_then_composes [OF sample_strategy_sound skip.sound_tactic_axioms])
      (simp_all add: hands_over_def serves_others_def)
  from sound_tactic.call [OF this sample_world(3,1,2)] show ?thesis .
qed

text \<open>
  C14: \<open>or_else\<close> is sound: when a tactic throws \<open>tactic_exception\<close>, whatever it did to the goal, the next one
  is called on the goal as it was at first.
\<close>

theorem or_else_restores:
  assumes "sound_tactic t ok" "sound_tactic (or_else (t2 # ts)) ok2" "fails_over t ok ok2"
  shows "sound_tactic (or_else (t # t2 # ts)) ok"
  using assms by (rule or_else_Cons)

theorem or_else_restores_witness:
  "call_ok 0 (sample_world sample_absurd) (t_apply (or_else [sample_strategy, fail_tactic, skip_tactic]) 0 (sample_world sample_absurd))"
proof -
  have "sound_tactic (or_else [fail_tactic, skip_tactic]) (\<lambda>_ _. True)"
    by (rule or_else_restores [OF fail.sound_tactic_axioms or_else_single [OF skip.sound_tactic_axioms]])
      (simp add: fails_over_def)
  then have "sound_tactic (or_else [sample_strategy, fail_tactic, skip_tactic]) (blaster_ok sample_manager)"
    by (rule or_else_restores [OF sample_strategy_sound]) (simp add: fails_over_def)
  from sound_tactic.call [OF this sample_world(3,1,2)] show ?thesis .
qed

text \<open>
  C15: \<open>repeat\<close> with a limit below the largest number of 32 bits returns and is sound, if its tactic is
  and its results can be given to it again.
\<close>

theorem repeat_returns:
  assumes "sound_tactic t ok" "hands_over t ok ok" "serves_others t ok" "max_depth \<noteq> - 1"
  shows "sound_tactic (repeat_tactical t max_depth) ok"
  using assms by (rule repeat_sound)

theorem repeat_returns_witness:
  "t_apply (repeat_tactical (skip_if_failed fail_tactic) 7) 0 (sample_world sample_absurd) \<noteq> None"
proof -
  have t: "sound_tactic (skip_if_failed fail_tactic) (\<lambda>_ _. True)" by (rule skip_if_failed_sound [OF fail.sound_tactic_axioms])
  have "sound_tactic (repeat_tactical (skip_if_failed fail_tactic) 7) (\<lambda>_ _. True)"
    by (rule repeat_returns [OF t]) (simp_all add: hands_over_def serves_others_def)
  from sound_tactic.call [OF this _ sample_world(1,2)] show ?thesis by (auto simp: call_ok_def split: option.splits)
qed

section \<open>A lost solution\<close>

text \<open>
  A tactic that splits the first goal in two, of which the second one is solved. \<open>repeat\<close> finds the
  solution, but gives it back beside the unsolved subgoal, so that the result is not decided;
  \<open>and_then\<close> gives the solution only.
\<close>

definition sample_split :: "(bit_blaster_tactic, nat) tactic_obj" where
  "sample_split = \<lparr>t_apply = (\<lambda>a w.
       if a = 0 then
         Some (Inr [1, 2], w\<lparr>w_goals := (w_goals w)(1 := assert_expr (sample_bit ''a'') None (mk_goal True False), 2 := mk_goal True False),
           w_next := 3\<rparr>)
       else Some (Inr [a], w)),
     t_cleanup = (\<lambda>w. w)\<rparr>"

lemma repeat_loses_solution:
  "case check_sat (repeat_tactical sample_split 7) 0 (sample_world sample_absurd) of
     Some ((l, x), w') \<Rightarrow> l = l_undef | None \<Rightarrow> False"
  "case check_sat (and_then sample_split skip_tactic) 0 (sample_world sample_absurd) of
     Some ((l, x), w') \<Rightarrow> l = l_true | None \<Rightarrow> False"
  by code_simp+

end
