(* ===== verification/Spec2Isabelle.thy ===== *)
theory Spec2Isabelle
  imports Simplifier_Properties Circuit_Properties Tactical_Properties
begin

text \<open>
  Z3's Boolean simplifier, its rewriting engine and its bit-blaster with the tactic that applies it
  to a goal, as they are vendored in \<open>src/Z3/z3-master/src\<close> (paths below are relative to the
  directory \<open>ast\<close> there, or start with \<open>tactic/\<close> or \<open>model/\<close>).

  The program. A formula over bit-vectors is decided by turning every bit-vector operation
  into a circuit of Boolean gates. \<open>rewriter/bit_blaster/bit_blaster_rewriter.cpp\<close> walks over a
  term; for every application it calls \<open>reduce_app\<close>, which takes the arguments apart into bits,
  lets \<open>bit_blaster_tpl\<close> (\<open>bit_blaster_tpl_def.h\<close>) build the circuit of the operation, and
  packs the resulting bits into one term. The gates of a circuit are made by \<open>bool_rewriter\<close>
  (\<open>rewriter/bool_rewriter.cpp\<close>), which simplifies as it builds, with the recognizers and
  constructors of \<open>ast_manager\<close> (\<open>ast.h\<close>, \<open>ast.cpp\<close>). A goal is a list of such formulas;
  \<open>bit_blaster_tactic\<close> blasts them one by one and leaves a converter with which a model of the
  bits is turned into a model of the bit-vector constants.

  The theories, in the order of the calls from the bottom up:

  \<^item> \<open>Prelude\<close>: numbers of bit lists, two's complement.
  \<^item> \<open>Ast\<close>: sorts, declarations, terms, and when the plugins accept an application. Nodes are
    hash-consed in the code, so pointer equality is equality here.
  \<^item> \<open>Semantics\<close>: the abstract specification: the value of a term under an interpretation, the
    bit-vector operations as in SMT-LIB, by arithmetic and not by circuits. Values are
    well-sorted (\<open>eval_sort\<close>).
  \<^item> \<open>Ast_Manager\<close>: \<open>is_value\<close>, \<open>are_equal\<close>, \<open>are_distinct\<close> and their plugins; distinct values
    differ under every interpretation.
  \<^item> \<open>Bool_Rewriter\<close>, \<open>Bool_Rewriter_Nary\<close>: the state and every operation of \<open>bool_rewriter\<close>.
    The 32-bit counter of the local context simplifier is a word and wraps. The orders on nodes
    are fields of the manager and arbitrary.
  \<^item> \<open>Bool_Rewriter_Sound\<close>, \<open>Bool_Rewriter_Fuel\<close>: every operation keeps sort and value, for all
    options; the mutual recursion of \<open>mk_not_core\<close> and \<open>mk_eq_core\<close> ends by a bound on a weight
    of the result; the rounds of \<open>local_ctx_simp\<close> make the arguments lighter, so that
    \<open>2 * weight + 2\<close> rounds of fuel are enough.
  \<^item> \<open>Bit_Blaster\<close>, \<open>Bit_Blaster_Mult\<close>, \<open>Bit_Blaster_Div\<close>, \<open>Bit_Blaster_Shift\<close> and their
    \<open>_Sound\<close> companions: every circuit of the template over a record of gates, and the number
    its output denotes, proved in the locale \<open>gates\<close>, the contract of the gates.
  \<^item> \<open>Bit_Blaster_Cfg\<close>: the two instances of the gates (\<open>bit_blaster_cfg\<close>, with its extended
    gates, and \<open>blaster_cfg\<close>), and the interpretation of the contract on each.
  \<^item> \<open>Bit_Blaster_Rewriter\<close>: the state and operations of \<open>bit_blaster_rewriter\<close>; exceptions are
    the left side of a sum. \<open>reduce_app\<close> is the call in which no checkpoint throws, and
    \<open>reduce_app_checked\<close> the call with the checkpoints of the circuits, which the traversal makes.
    \<open>Bit_Blaster_Rewriter_Sound\<close>: a replaced term keeps sort and value
    under interpretations consistent with the map of constants, and the invariant of the state.
  \<^item> \<open>Bit_Blaster_Scopes\<close>: push, pop and rewrites as a state machine and its invariant.
    \<open>Bit_Blaster_Models\<close>: mapping constants to fresh bits loses no model.
  \<^item> \<open>Act_Cache\<close> (\<open>act_cache.cpp\<close>): the cache of a rewriter, with its queue and its counter of
    unused entries; it refines a partial map that may forget (the locale \<open>store\<close>), and the counter
    is exact as long as no entry that was found gets another value.
  \<^item> \<open>Rewriter_Types\<close>, \<open>Rewriter_Core\<close> (\<open>rewriter/rewriter_types.h\<close>, \<open>rewriter.h\<close>, \<open>rewriter.cpp\<close>):
    the stacks, caches and scopes every rewriter has. \<open>Var_Shifter\<close>: the two traversals that shift
    variables, which end and rename.
  \<^item> \<open>Rewriter\<close> (\<open>rewriter/rewriter_def.h\<close>): the template \<open>rewriter_tpl\<close> over a record of the members
    of its configuration: \<open>visit\<close>, \<open>process_const\<close>, \<open>process_var\<close>, \<open>process_app\<close>, \<open>resume_core\<close>,
    \<open>main_loop\<close>, \<open>reset\<close>, \<open>cleanup\<close> and the bindings. Its loops are partial functions, so that a
    traversal that does not end would be None; exceptions carry the state they leave.
  \<^item> \<open>Rewriter_Sound\<close>: the locale \<open>rewriter_laws\<close> says what a configuration promises about a relation
    of terms and results, and shows that the traversal keeps it. \<open>Rewriter_Total\<close>: the locale
    \<open>rewriter_total\<close> gives a bound on the number of steps, so the traversal returns or throws.
    \<open>Rewriter_Values\<close>: the locale \<open>value_config\<close> for the relation of equal values, with
    \<open>bool_rewriter_star\<close> and \<open>bit_blaster_rewriter::imp\<close> as interpretations. \<open>Bit_Blaster_Term\<close>: the
    termination of the bit-blaster on a term, and the interpretation for models.
    \<open>Beta_Reducer\<close>: the configuration \<open>beta_reducer_cfg\<close> substitutes. \<open>Bit_Blaster_Bits\<close>: a third
    interpretation of \<open>rewriter_laws\<close>: a blasted term has, under any interpretation, the value of
    the term when the constants get the values of their bits. \<open>Bit_Blaster_Bound\<close>: a fourth one, for
    the number of fresh bits, which is at most the total width of the constants of the term.
  \<^item> \<open>Model_Converter\<close> (\<open>model/model_core.cpp\<close>, \<open>model/model.cpp\<close>, \<open>tactic/model_converter.cpp\<close>,
    \<open>tactic/bv/bit_blaster_model_converter.cpp\<close>): models and the converters a goal may carry, and the
    interpretation a model stands for. \<open>Model_Converter_Sound\<close>: what the converted model says.
  \<^item> \<open>Goal\<close> (\<open>tactic/goal.h\<close>, \<open>tactic/goal.cpp\<close>): the state and operations of a goal without proofs,
    and what each does to the meaning and the well-formedness of the goal.
  \<^item> \<open>Bit_Blaster_Tactic\<close> (\<open>tactic/bv/bit_blaster_tactic.cpp\<close>, and \<open>clean\<close> of
    \<open>tactic/tactical.cpp\<close>): the tactic and its loop over the formulas, which changes the list it
    runs over; in the middle, the formulas done speak of the bits and the others of the constants.
  \<^item> \<open>Tactical\<close> (\<open>tactic/tactical.cpp\<close>, \<open>tactic/tactic.cpp\<close>): tactics as objects with a state over a
    store of goals, addressed as the code points to them, the sequential tacticals and \<open>check_sat\<close>.
    \<open>Tactical_Sound\<close>: the contract of a tactic and that each tactical keeps it. \<open>Strategy\<close>: the
    bit-blasting tactic as such an object.
  \<^item> \<open>Samples\<close>, \<open>Simplifier_Properties\<close>, \<open>Circuit_Properties\<close>, \<open>Rewriter_Properties\<close>,
    \<open>Tactic_Properties\<close>, \<open>Tactical_Properties\<close> and this theory: the properties and concrete inputs they apply to.

  What the theorems show. For both instances of the template, all options and all orders on
  nodes, each circuit computes the operation of \<open>Semantics\<close>; the simplifier behind the gates
  preserves values; so \<open>reduce_app\<close> replaces a term by an equivalent one, throws only on the
  operators it does not support or at a checkpoint, keeps the invariant of its state, and scopes nest properly. The
  traversal carries this from one application to a whole term: it returns within two steps for
  every application, or throws one of four exceptions, its result has the value of the term, and
  no model of the term is lost. For the tactic this means that the new goal is satisfiable exactly
  when the old one is, and that its converter gives a model of the old goal for every model of the
  new one. The tacticals keep this promise of a tactic, so \<open>check_sat\<close> answers right. Some code is described as it is: \<open>mk_const_case_multiplier\<close> reports
  failure after computing the product, the template \<open>mk_sdiv_srem_smod\<close> returns the divisor
  in one case of the modulo, the counter of \<open>act_cache\<close> wraps when a found entry is replaced,
  \<open>goal::update\<close> misses a contradiction and \<open>goal::is_cnf\<close> stops at the first clause.

  Parameters and bounds. What the traversal asks its surroundings for is the record
  \<open>rewriter_env\<close>: the reference counts of nodes, the resource limit's \<open>inc()\<close> and the number of
  nodes of the manager, which may depend on the state in any way; the argument \<open>res\<close> of the bit-blaster's configuration
  gives the memory in use between applications, and, for the checkpoints that a call of \<open>reduce_app\<close>
  comes to, the memory in use and the answer of \<open>inc()\<close> at each; the order in which the hash table of constants is
  traversed is the argument \<open>order\<close> of the tactic. The type of dependencies and the operation that
  joins two of them are arbitrary. The index of the next child and the
  positions of a frame, 26 and 32 bits in the code, are naturals. Macros are expanded as in the
  code, but the laws of a configuration ask that it has none, which holds of the three here.

  Not modelled: quantifiers (\<open>process_quantifier\<close> of the traversals, \<open>pre_visit\<close> and
  \<open>reduce_quantifier\<close> of the configurations), proof objects and with them the parts of a goal that
  only proofs use (\<open>slow_process\<close>, the converters of proofs), the converters of other tactics, the
  evaluator of models (\<open>model_interp\<close> says what a model means), the parallel tacticals, timers
  and the tacticals that set parameters, and the counting of references. \<open>OP_INT2BV\<close> and
  \<open>OP_BV2INT\<close> need the arithmetic family and are not well-sorted here. The manager's 32-bit counter
  of fresh names can wrap in the code; the properties on models assume that it does not.
\<close>

section \<open>The bit-blasting rewriter\<close>

text \<open>The state every example starts from, and a constant to map.\<close>

definition sample_state :: blaster_rewriter_cfg where
  "sample_state = mk_bit_blaster_rewriter sample_manager 7
     \<lparr>bp_max_memory = None, bp_max_steps = None, bp_blast_add = None, bp_blast_mul = None,
      bp_blast_full = None, bp_blast_quant = None\<rparr>"

definition sample_const :: func_decl where
  "sample_const = Uninterp (Str ''x'') [] (BV_sort 2)"

lemma sample_state_reachable: "reachable sample_manager sample_state"
  unfolding reachable_def sample_state_def by blast

lemma sample_state_simps:
  "cfg_inv sample_state" "names_ok sample_state" "consistent sample_state I"
  "m_const2bits sample_state = Map.empty" "m_fresh_id sample_state = 7" "m_keyval_lim sample_state = []"
  "m_blast_add sample_state" "m_blast_mul sample_state" "m_cfg (m_blaster sample_state) = blaster sample_manager"
  "m_keys sample_state = []" "m_keypos sample_state = 0"
  using reachable_inv(1) [OF sample_state_reachable]
  by (simp_all add: sample_state_def mk_bit_blaster_rewriter_def cfg_updt_params_def names_ok_def
    consistent_def mk_bit_blaster_tpl_def)

lemma sample_const_wf: "wf (App sample_const [])"
  by (simp add: sample_const_def)

section \<open>Bit-blasting a term\<close>

text \<open>An equation whose left side is a sum, and the run of the rewriter on it.\<close>

definition sample_sum :: expr where
  "sample_sum = App (Basic OP_EQ) [App (Bv OP_BADD []) [sample_bv ''x'' 2, sample_bv ''y'' 2], sample_bv ''x'' 2]"

definition sample_run :: "(blaster_rewriter_cfg, expr) outcome" where
  "sample_run = main_loop (blaster_rewriter_config sample_resources) sample_env sample_sum (mk_imp 0 sample_state)"


lemma sample_state_blaster: "blaster_inv sample_manager sample_state"
  using reachable_inv [of sample_manager sample_state]
  by (simp add: blaster_inv_def reachable_def sample_state_def) blast

lemma sample_sum_wf: "wf sample_sum" "below 7 sample_sum"
  by (simp_all add: sample_sum_def bv_ok_def bv_range_def same_bv_def all_same_def) (simp_all add: sample_bv_def)

lemma sample_ready: "blaster_ready sample_manager (mk_imp 0 sample_state)"
  by (rule mk_imp_ready [OF sample_state_blaster])

text \<open>
  A cancellation that a checkpoint of a circuit notices is not followed by a reset: the frame of the
  equation is still on the stack.
\<close>

lemma cancel_in_checkpoint:
  "case main_loop (blaster_rewriter_config (sample_resources\<lparr>r_checkpoints := \<lambda>c f args. [(0, False)]\<rparr>)) sample_env
      (App (Basic OP_EQ) [App (Bv OP_BMUL []) [sample_bv ''x'' 2, sample_bv ''y'' 2], sample_bv ''x'' 2])
      (mk_imp 0 sample_state) of
    Some (Inl (e, st')) \<Rightarrow> e = Canceled \<and> 0 < length (m_frame_stack st')
  | _ \<Rightarrow> False"
  by code_simp

text \<open>The run of the example: the two constants get two bits each.\<close>

abbreviation bit_at :: "nat \<Rightarrow> expr" where
  "bit_at n \<equiv> App (Uninterp (Num n) [] Bool_sort) []"

lemma sample_run:
  obtains r st' where "sample_run = Some (Inr (r, st'))"
    "m_keys (m_rw_cfg st') = [Uninterp (Str ''x'') [] (BV_sort 2), Uninterp (Str ''y'') [] (BV_sort 2)]"
    "m_values (m_rw_cfg st') = [mk_mkbv [bit_at 7, bit_at 8], mk_mkbv [bit_at 9, bit_at 10]]"
    "length (m_newbits (m_rw_cfg st')) = 4" "unat (m_num_steps st') = 3"
proof -
  have "case sample_run of Some (Inr (r, st')) \<Rightarrow>
      m_keys (m_rw_cfg st') = [Uninterp (Str ''x'') [] (BV_sort 2), Uninterp (Str ''y'') [] (BV_sort 2)] \<and>
      m_values (m_rw_cfg st') = [mk_mkbv [bit_at 7, bit_at 8], mk_mkbv [bit_at 9, bit_at 10]] \<and>
      length (m_newbits (m_rw_cfg st')) = 4 \<and> m_num_steps st' = 3
    | _ \<Rightarrow> False" by code_simp
  then show ?thesis using that by (auto split: option.splits sum.splits)
qed

lemma sample_consistent:
  assumes "cfg_inv c" "m_keys c = [Uninterp (Str ''x'') [] (BV_sort 2), Uninterp (Str ''y'') [] (BV_sort 2)]"
    "m_values c = [mk_mkbv [bit_at 7, bit_at 8], mk_mkbv [bit_at 9, bit_at 10]]"
  shows "consistent c sample_interp"
proof -
  have "m_const2bits c = map_of (zip (m_keys c) (m_values c))" using assms(1) by (simp add: cfg_inv_def)
  then show ?thesis unfolding assms(2,3)
    by (auto simp: consistent_def mk_mkbv_def eval_bv_def sample_interp_def split: if_splits)
qed

text \<open>
  C4: when the bit-blasting rewriter returns from the traversal of a term, its result has the sort
  of the term, and the value of the term under every interpretation in which the constants mapped
  so far have the values of their bits; and the rewriter can be called again.
\<close>

theorem term_blast_preserves_value:
  assumes "blaster_ready m st" "wf t" "main_loop (blaster_rewriter_config res) E t st = Some (Inr (r, st'))"
  shows "blaster_ready m st' \<and>
    (\<forall>I. consistent (m_rw_cfg st') I \<longrightarrow> wf r \<and> get_sort r = get_sort t \<and> eval I r = eval I t)"
  using blast_term [OF assms(1,2), of E res] assms(3) by (simp add: gives_def reduces_def)

theorem term_blast_preserves_value_witness:
  "case sample_run of Some (Inr (r, st')) \<Rightarrow> eval sample_interp r = VBool False | _ \<Rightarrow> False"
proof -
  obtain r st' where run: "sample_run = Some (Inr (r, st'))"
    and c: "m_keys (m_rw_cfg st') = [Uninterp (Str ''x'') [] (BV_sort 2), Uninterp (Str ''y'') [] (BV_sort 2)]"
    "m_values (m_rw_cfg st') = [mk_mkbv [bit_at 7, bit_at 8], mk_mkbv [bit_at 9, bit_at 10]]"
    by (rule sample_run)
  note v = term_blast_preserves_value [OF sample_ready sample_sum_wf(1) run [unfolded sample_run_def]]
  then have "cfg_inv (m_rw_cfg st')" by (simp add: blaster_ready_def blaster_inv_def)
  then have "eval sample_interp r = eval sample_interp sample_sum" using v sample_consistent [OF _ c] by blast
  also have "\<dots> = VBool False" by (simp add: sample_sum_def eval_basic_def eval_bv_def)
  finally show ?thesis by (simp add: run)
qed

text \<open>
  C5: the traversal returns, or it throws one of four exceptions, on a cancellation, on the limits of
  memory and steps, or on an operator without a circuit; a returning traversal takes at most two
  steps for every application in the term.
\<close>

theorem term_blast_returns:
  assumes "blaster_ready m st" "wf t"
  shows "case main_loop (blaster_rewriter_config res) E t st of
      None \<Rightarrow> False
    | Some (Inl (e, st')) \<Rightarrow> e \<in> {Canceled, Max_memory, Max_steps, Unsupported}
    | Some (Inr (r, st')) \<Rightarrow> e_inc E st \<longrightarrow> unat (m_num_steps st') \<le> term_weight t"
  using blast_term [OF assms, of E res] unfolding gives_def blaster_errors_def
  by (auto split: option.splits sum.splits)

theorem term_blast_returns_witness:
  "case sample_run of Some (Inr (r, st')) \<Rightarrow> unat (m_num_steps st') \<le> 10 | _ \<Rightarrow> False"
proof -
  obtain r st' where "sample_run = Some (Inr (r, st'))" by (rule sample_run)
  then show ?thesis using term_blast_returns [OF sample_ready sample_sum_wf(1), where res = sample_resources and E = sample_env]
    by (simp add: sample_run_def) (simp add: sample_env_def sample_sum_def sample_bv_def)
qed

text \<open>
  C6: no model of the term is lost: every interpretation that was consistent has a variant that is
  consistent with the constants mapped now, gives the result the value the term had, and gives
  every term over the old names the value it had, if there are names left for the bits of the
  constants of the term.
\<close>

theorem term_blast_loses_no_model:
  assumes "blaster_ready m st" "names_ok (m_rw_cfg st)" "wf t" "below (unat (m_fresh_id (m_rw_cfg st))) t"
    and "main_loop (blaster_rewriter_config res) E t st = Some (Inr (r, st'))"
    and "unat (m_fresh_id (m_rw_cfg st)) + bits_of (set (bv_consts t)) < 2 ^ 32"
    and "consistent (m_rw_cfg st) I"
  shows "\<exists>I'. consistent (m_rw_cfg st') I' \<and> eval I' r = eval I t \<and>
    (\<forall>e. below (unat (m_fresh_id (m_rw_cfg st))) e \<longrightarrow> eval I' e = eval I e)"
proof -
  have "model_inv m (m_rw_cfg st) (m_rw_cfg st')"
    by (rule blast_term_models [OF assms(1-5) blast_term_bits [OF assms(1,3,5,6)]])
  then obtain I' where I': "consistent (m_rw_cfg st') I'" "same_below (m_fresh_id (m_rw_cfg st)) I I'"
    using assms(7) by (auto simp: model_inv_def keeps_models_def)
  have "eval I' r = eval I' t"
    using blast_term [OF assms(1,3), of E res] assms(5) I'(1) by (simp add: gives_def reduces_def)
  then show ?thesis using I' assms(4) by (auto simp: same_below_def)
qed

theorem term_blast_loses_no_model_witness:
  "case sample_run of
     Some (Inr (r, st')) \<Rightarrow> \<exists>I'. consistent (m_rw_cfg st') I' \<and> eval I' r = VBool False
   | _ \<Rightarrow> False"
proof -
  obtain r st' where run: "sample_run = Some (Inr (r, st'))" by (rule sample_run)
  have "set (bv_consts sample_sum) = {Uninterp (Str ''x'') [] (BV_sort 2), Uninterp (Str ''y'') [] (BV_sort 2)}"
    by (auto simp: sample_sum_def sample_bv_def)
  then have n: "bits_of (set (bv_consts sample_sum)) = 4" by (simp add: bits_of_def)
  have s: "m_rw_cfg (mk_imp 0 sample_state) = sample_state" by (simp add: mk_imp_def mk_tpl_simps)
  have c: "names_ok sample_state" "consistent sample_state sample_interp" "m_fresh_id sample_state = 7"
    by (simp_all add: sample_state_def mk_bit_blaster_rewriter_def cfg_updt_params_def names_ok_def consistent_def)
  have "eval sample_interp sample_sum = VBool False" by (simp add: sample_sum_def eval_basic_def eval_bv_def)
  then show ?thesis
    using term_blast_loses_no_model [OF sample_ready _ sample_sum_wf(1) _ run [unfolded sample_run_def], of sample_interp]
      c n sample_sum_wf(2) by (auto simp: run s)
qed

section \<open>One application\<close>

text \<open>
  C9: in every state the rewriter can reach, a term that \<open>reduce_app\<close> replaces, and its
  replacement, have the same sort and the same value, under every interpretation in which the
  constants mapped so far have the values of their bits.
\<close>

theorem bit_blast_preserves_value:
  assumes "reachable m st" "wf (App f args)" "reduce_app st f args = (Inr (BR_DONE r), st')" "consistent st' I"
  shows "wf r \<and> get_sort r = get_sort (App f args) \<and> eval I r = eval I (App f args)"
proof -
  note inv = reachable_inv [OF assms(1)]
  have "m_cfg (m_blaster st) = blaster_cfg (blaster_rewriter_of m)"
    by (simp add: inv(2) mk_bit_blaster_tpl_def blaster_def)
  from bb.reduce_app_sound [OF this inv(1) assms(2-4)] show ?thesis by (simp add: reduces_def)
qed

theorem bit_blast_preserves_value_witness:
  "eval sample_interp (bin_ac_reduce (mk_adder (blaster sample_manager)) (sample_bv ''a'' 2) [sample_bv ''abc'' 2])
    = VBV 2 0"
proof -
  let ?args = "[sample_bv ''a'' 2, sample_bv ''abc'' 2]"
  have w: "wf (App (Bv OP_BADD []) ?args)"
    by (simp add: bv_ok_def same_bv_def all_same_def)
  have "reduce_app sample_state (Bv OP_BADD []) ?args =
      (Inr (BR_DONE (bin_ac_reduce (mk_adder (blaster sample_manager)) (sample_bv ''a'' 2) [sample_bv ''abc'' 2])), sample_state)"
    by (simp add: reduce_app_def reduce_bv_def sample_state_simps Let_def)
  from bit_blast_preserves_value [OF sample_state_reachable w this sample_state_simps(3) [of sample_interp]]
  show ?thesis by (simp add: eval_bv_def)
qed

text \<open>
  C10: no model is lost: after \<open>reduce_app\<close>, every interpretation consistent with the state before
  has a variant that is consistent with the state after and gives the same values to all terms
  that do not use the names still to be created. The counter of names must not wrap.
\<close>

theorem bit_blast_loses_no_model:
  assumes "cfg_inv st" "names_ok st" "wf (App f args)" "below (unat (m_fresh_id st)) (App f args)"
    "unat (m_fresh_id st) + bv_width (get_sort (App f args)) < 2 ^ 32" "consistent st I"
  shows "\<exists>I'. consistent (snd (reduce_app st f args)) I' \<and>
    (\<forall>e. below (unat (m_fresh_id st)) e \<longrightarrow> eval I' e = eval I e)"
  by (rule reduce_app_model [OF assms]) blast

theorem bit_blast_loses_no_model_witness:
  "\<exists>I'. consistent (snd (reduce_app sample_state sample_const [])) I' \<and>
    (\<forall>e. below 7 e \<longrightarrow> eval I' e = eval sample_interp e)"
proof -
  have "below (unat (m_fresh_id sample_state)) (App sample_const [])"
    "unat (m_fresh_id sample_state) + bv_width (get_sort (App sample_const [])) < 2 ^ 32"
    by (simp_all add: sample_const_def sample_state_simps)
  from bit_blast_loses_no_model [OF sample_state_simps(1,2) sample_const_wf this sample_state_simps(3) [of sample_interp]]
  show ?thesis by (simp add: sample_state_simps)
qed

text \<open>
  C11: the invariant of the state holds in every reachable state: the map is the table of keys
  and values, the keys are distinct bit-vector constants mapped to vectors of as many Boolean
  constants, and the limits of the scopes are ordered positions in the tables.
\<close>

theorem reachable_state_invariant:
  assumes "reachable m st"
  shows "cfg_inv st"
  using assms by (rule reachable_inv)

theorem reachable_state_invariant_witness:
  "cfg_inv (snd (reduce_app (push sample_state) sample_const []))"
proof (rule reachable_state_invariant [of sample_manager])
  have "step sample_state (push sample_state)" by (rule step_push)
  moreover have "step (push sample_state) (snd (reduce_app (push sample_state) sample_const []))"
    using sample_const_wf by (rule step_reduce)
  ultimately show "reachable sample_manager (snd (reduce_app (push sample_state) sample_const []))"
    using sample_state_reachable unfolding reachable_def by (meson rtranclp.rtrancl_into_rtrancl)
qed

text \<open>The operators without a circuit, and those that must be simplified before.\<close>

definition unsupported_kinds :: "bv_op_kind list" where
  "unsupported_kinds = [OP_BIT1, OP_BIT0, OP_BNEG, OP_BSUB, OP_UGEQ, OP_SGEQ, OP_ULT, OP_SLT, OP_UGT,
     OP_SGT, OP_BAND, OP_BNAND, OP_BNOR, OP_BXNOR, OP_ZERO_EXT, OP_REPEAT, OP_BCOMP, OP_ROTATE_LEFT,
     OP_ROTATE_RIGHT, OP_CARRY, OP_XOR3]"

definition division_kinds :: "bv_op_kind list" where
  "division_kinds = [OP_BSDIV, OP_BUDIV, OP_BSREM, OP_BUREM, OP_BSMOD]"

definition unsupported :: "blaster_rewriter_cfg \<Rightarrow> func_decl \<Rightarrow> bool" where
  "unsupported st f =
    (case f of Bv k ps \<Rightarrow> k \<in> set unsupported_kinds \<or> m_blast_mul st \<and> k \<in> set division_kinds | _ \<Rightarrow> False)"

lemma reduce_app_throws:
  "reduce_app st f args = (Inl e, st') \<longleftrightarrow> st' = st \<and> e = Unsupported \<and> unsupported st f"
proof (cases f)
  case (Bv k ps)
  have "reduce_bv st k ps args = Inl e \<longleftrightarrow> e = Unsupported \<and> unsupported st f"
    by (cases k) (auto simp: Bv unsupported_def reduce_bv_def Let_def unsupported_kinds_def division_kinds_def)
  moreover have "reduce_app st f args = (reduce_bv st k ps args, st)" by (simp add: Bv reduce_app_def Let_def)
  ultimately show ?thesis by auto
qed (auto simp: unsupported_def reduce_app_def Let_def case_prod_beta)

text \<open>
  C12: a call of \<open>reduce_app\<close>, with the checkpoints of the circuits it builds, throws in two cases only, and
  leaves the state as it was: the exception for unsupported operators exactly on the bit-vector operators
  without a circuit and, when multiplication is blasted, on the divisions that are not yet reduced to their
  total variants; and the exception of the first checkpoint that throws, for the operators whose circuit
  has checkpoints.
\<close>

theorem unsupported_operator_throws:
  "reduce_app_checked chk st f args = (Inl e, st') \<longleftrightarrow> st' = st \<and>
    (e = Unsupported \<and>
       (case f of Bv k ps \<Rightarrow> k \<in> set unsupported_kinds \<or> m_blast_mul st \<and> k \<in> set division_kinds | _ \<Rightarrow> False) \<or>
     has_checkpoints st f \<and> checkpoints (m_max_memory st) (chk st f args) = Some e)"
proof -
  have u: "reduce_app st f args = (Inl e, st') \<longleftrightarrow> st' = st \<and> e = Unsupported \<and> unsupported st f"
    by (rule reduce_app_throws)
  have "\<not> (has_checkpoints st f \<and> unsupported st f)"
    by (cases f) (auto simp: has_checkpoints_def unsupported_def unsupported_kinds_def division_kinds_def)
  then show ?thesis
    using u by (auto simp: reduce_app_checked_def stopped_def unsupported_def split: option.splits)
qed

text \<open>
  C16: closing a scope restores the state from before it was opened, whatever was reduced
  inside; only the counter of fresh names has moved.
\<close>

theorem push_pop_restores:
  assumes "reachable m st" "list_all (\<lambda>(f, args). wf (App f args)) es"
  shows "pop 1 (reduce_apps (push st) es) = st\<lparr>m_fresh_id := m_fresh_id (reduce_apps (push st) es)\<rparr>"
proof -
  note inv = reachable_inv(1) [OF assms(1)]
  have "cfg_inv (reduce_apps (push st) es) \<and> grows (push st) (reduce_apps (push st) es)"
    using reduce_apps [OF push_inv [OF inv]] assms(2) by (simp add: list_all_iff)
  then show ?thesis using pop_push [OF inv] by blast
qed

theorem push_pop_restores_witness:
  "m_const2bits (pop 1 (reduce_apps (push sample_state) [(sample_const, [])])) sample_const = None"
proof -
  have "list_all (\<lambda>(f, args). wf (App f args)) [(sample_const, [])]" using sample_const_wf by simp
  from push_pop_restores [OF sample_state_reachable this] show ?thesis by (simp add: sample_state_simps)
qed

text \<open>
  Closing \<open>m\<close> scopes and then \<open>n\<close> more is closing \<open>m + n\<close> at once, and leaves that many fewer.
\<close>

theorem pop_composes:
  assumes "reachable mgr st" "m + n \<le> get_num_scopes st"
  shows "pop n (pop m st) = pop (m + n) st \<and> get_num_scopes (pop (m + n) st) = get_num_scopes st - (m + n)"
  using pop_add [OF reachable_inv(1) [OF assms(1)] assms(2)] pop_scopes [OF assms(2)] by blast

theorem pop_composes_witness:
  "get_num_scopes (pop 1 (pop 1 (push (push (push sample_state))))) = 1"
proof -
  have r: "reachable sample_manager (push (push (push sample_state)))"
    using sample_state_reachable step_push unfolding reachable_def by (meson rtranclp.rtrancl_into_rtrancl)
  have "1 + 1 \<le> get_num_scopes (push (push (push sample_state)))"
    by (simp add: get_num_scopes_def push_def)
  from pop_composes [OF r this] show ?thesis
    by (simp add: get_num_scopes_def push_def sample_state_simps)
qed

text \<open>
  \<open>end_rewrite\<close> adds to the caller's map the constants mapped since \<open>start_rewrite\<close>, each with
  its bits, and no others; but it hands out all the fresh bits of the open scopes.
\<close>

theorem end_rewrite_since_start:
  assumes "reachable m st" "list_all (\<lambda>(f, args). wf (App f args)) es"
  defines "st' \<equiv> reduce_apps (start_rewrite st) es"
  shows "fst (end_rewrite st' c nb) f =
      (if f \<in> set (m_keys st') - set (m_keys st) then m_const2bits st' f else c f) \<and>
    snd (end_rewrite st' c nb) = nb @ m_newbits st'"
proof -
  let ?n = "length (m_keys st)"
  note inv = start_rewrite_inv [OF reachable_inv(1) [OF assms(1)]]
  have i: "cfg_inv st' \<and> grows (start_rewrite st) st'"
    using reduce_apps [OF inv] assms(2) unfolding st'_def by (simp add: list_all_iff)
  then obtain ks where ks: "m_keys st' = m_keys st @ ks" "m_keypos st' = ?n"
    by (auto simp: grows_def start_rewrite_def)
  have d: "distinct (m_keys st @ ks)" "length (m_keys st @ ks) = length (m_values st')"
    "m_const2bits st' = map_of (zip (m_keys st @ ks) (m_values st'))"
    using i ks(1) by (simp_all add: cfg_inv_def)
  have r: "map_of (zip (drop ?n (m_keys st @ ks)) (drop ?n (m_values st'))) f =
      (if f \<in> set ks then m_const2bits st' f else None)"
  proof (cases "f \<in> set ks")
    case True
    then have nf: "map_of (zip (m_keys st) (take ?n (m_values st'))) f = None"
      using d(1,2) by (auto simp: map_of_zip_is_None)
    have "zip (m_keys st @ ks) (m_values st') = zip (m_keys st) (take ?n (m_values st')) @ zip ks (drop ?n (m_values st'))"
      by (simp add: zip_append1)
    then have "m_const2bits st' f = map_of (zip ks (drop ?n (m_values st'))) f"
      using nf by (simp add: d(3) map_add_def split: option.split)
    then show ?thesis using True by simp
  next
    case False
    have "length ks = length (drop ?n (m_values st'))" using d(2) by simp
    then show ?thesis using False by (simp add: map_of_zip_is_None)
  qed
  have dom: "f \<in> set ks \<Longrightarrow> \<exists>v. m_const2bits st' f = Some v"
    using d(2,3) by (metis Un_iff map_of_zip_is_Some set_append)
  have s: "set (m_keys st') - set (m_keys st) = set ks" using d(1) by (auto simp: ks(1))
  have e: "end_rewrite st' c nb = (c ++ map_of (zip (drop ?n (m_keys st @ ks)) (drop ?n (m_values st'))), nb @ m_newbits st')"
    using end_rewrite [of st' c nb] i ks by simp
  show ?thesis
    unfolding e s fst_conv snd_conv map_add_def r using dom by auto
qed

theorem end_rewrite_since_start_witness:
  "fst (end_rewrite (reduce_apps (start_rewrite sample_state) [(sample_const, [])]) Map.empty []) sample_const
    = Some (mk_mkbv [App (Uninterp (Num 7) [] Bool_sort) [], App (Uninterp (Num 8) [] Bool_sort) []])"
proof -
  have "list_all (\<lambda>(f, args). wf (App f args)) [(sample_const, [])]" using sample_const_wf by simp
  from end_rewrite_since_start [OF sample_state_reachable this, of Map.empty "[]" sample_const]
  moreover have "const_case sample_const []" by (simp add: const_case_def sample_const_def)
  moreover have "[0..<2] = [0, 1::nat]" by (simp add: upt_rec)
  ultimately show ?thesis
    by (simp add: reduce_app_const mk_const_new start_rewrite_def sample_state_simps new_const_def
      fresh_bits_def) (simp add: sample_const_def fresh_bit_def)
qed

text \<open>
  C35: a term of width \<open>w\<close> is taken apart into \<open>w\<close> Boolean terms that denote its value, and the
  vector of bits built from them is taken apart into the same bits.
\<close>

theorem bits_roundtrip:
  assumes "wf t" "get_sort t = BV_sort w"
  shows "length (get_bits t) = w \<and> list_all bexp (get_bits t) \<and> eval I t = VBV w (bval I (get_bits t)) \<and>
    get_bits (mk_mkbv (get_bits t)) = get_bits t"
proof -
  have t: "bvterm w t" using assms unfolding bvterm_def by blast
  show ?thesis
  proof (intro conjI)
    show "length (get_bits t) = w" "list_all bexp (get_bits t)" using get_bits [OF t, of I] by simp_all
    have v: "bval I (get_bits t) = bvn (eval I t)" using get_bits [OF t, of I] by simp
    show "eval I t = VBV w (bval I (get_bits t))" unfolding v using bvterm_eval [OF t] by blast
    show "get_bits (mk_mkbv (get_bits t)) = get_bits t"
      unfolding mk_mkbv_def get_bits_def [of "App (Bv OP_MKBV []) (get_bits t)"] by simp
  qed
qed

theorem bits_roundtrip_witness: "length (get_bits (sample_bv ''a'' 8)) = 8"
proof -
  have "wf (sample_bv ''a'' 8)" "get_sort (sample_bv ''a'' 8) = BV_sort 8" by simp_all
  from bits_roundtrip [OF this] show ?thesis by blast
qed

text \<open>
  The memory limit in bytes is the number of megabytes times \<open>2 ^ 20\<close> without overflow, or
  no limit for the largest parameter.
\<close>

lemma megabytes_no_overflow:
  "unat (megabytes_to_bytes mb) = (if mb = - 1 then 2 ^ 64 - 1 else unat mb * 2 ^ 20)"
proof (cases "mb = - 1")
  case True
  then show ?thesis by (simp add: megabytes_to_bytes_def unsigned_minus_1_eq_mask mask_eq_exp_minus_1)
next
  case False
  have lt: "unat mb < 2 ^ 32" using unsigned_less [of mb, where ?'a = nat] by simp
  have u: "unat (ucast mb :: 64 word) = unat mb" using lt by (simp add: unsigned_ucast_eq take_bit_nat_eq_self)
  have "unat (ucast mb * 1024 * 1024 :: 64 word) = unat mb * 2 ^ 20"
    using lt u by (simp add: unat_word_ariths)
  then show ?thesis using False by (simp add: megabytes_to_bytes_def)
qed

text \<open>The operators that are to be replaced when addition and multiplication are blasted.\<close>

definition blastable :: "func_decl \<Rightarrow> expr list \<Rightarrow> bool" where
  "blastable f args =
    (case f of
       Bv k ps \<Rightarrow> k \<in> set (bin_kinds @ pred_kinds @ ac_kinds @ unary_kinds @ special_kinds)
     | Basic k \<Rightarrow> k = OP_EQ \<and> is_bv (args ! 0) \<or> k = OP_ITE \<and> is_bv (args ! 1)
     | _ \<Rightarrow> False)"

text \<open>
  C36: progress: with addition and multiplication blasted, a call of \<open>reduce_app\<close> on a bit-vector operator that
  has a circuit, or on an equality or if-then-else of bit-vectors, replaces the application, unless a
  checkpoint of the circuit throws; then the exception is the one of the checkpoint.
\<close>

theorem supported_operator_reduced:
  assumes "m_blast_add st" "m_blast_mul st" "blastable f args"
  shows "case fst (reduce_app_checked chk st f args) of
      Inl e \<Rightarrow> has_checkpoints st f \<and> checkpoints (m_max_memory st) (chk st f args) = Some e
    | Inr b \<Rightarrow> \<exists>r. b = BR_DONE r"
proof -
  have "\<exists>r. fst (reduce_app st f args) = Inr (BR_DONE r)"
  proof (cases f)
    case (Bv k ps)
    have "\<exists>r. reduce_bv st k ps args = Inr (BR_DONE r)"
      using assms by (auto simp: Bv blastable_def kinds_defs reduce_bv_def Let_def)
    then show ?thesis by (simp add: Bv reduce_app_def Let_def)
  qed (use assms(3) in \<open>auto simp: blastable_def reduce_app_def Let_def\<close>)
  then show ?thesis by (auto simp: reduce_app_checked_def stopped_def split: option.splits if_splits)
qed

theorem supported_operator_reduced_witness:
  "\<exists>r. fst (reduce_app_checked (\<lambda>c f args. [(0, True)]) sample_state (Bv OP_BMUL []) [sample_bv ''a'' 4, sample_bv ''b'' 4]) =
    Inr (BR_DONE r)"
  using supported_operator_reduced [of sample_state "Bv OP_BMUL []" "[sample_bv ''a'' 4, sample_bv ''b'' 4]" "\<lambda>c f args. [(0, True)]"]
  by (auto simp: sample_state_simps blastable_def kinds_defs checkpoint_def split: sum.splits)

end
